(* ===== verification/Prelude.thy ===== *)
theory Prelude
  imports Main "HOL-Library.Word" "HOL-Library.Monad_Syntax"
begin

text \<open>
  Shared vocabulary of the development: the integer widths of the program, little-endian
  byte encodings, bounds-checked slices of byte buffers, Rust's three-way comparison and the
  small arithmetic and list facts that the component theories rest on.

  A Rust panic (a failed assertion, an \<open>unwrap\<close> of \<open>None\<close>, an index out of range) is the
  value \<open>None\<close> of an \<open>option\<close>; the do-notation of \<open>Monad_Syntax\<close> propagates it the way a
  panic unwinds. Unsigned sizes and indices are \<open>nat\<close>; fields whose bit pattern matters
  (page numbers, bitmap groups, checksums) are words of the width the source gives them.
\<close>

unbundle bit_operations_syntax

type_synonym u8 = "8 word"
type_synonym u16 = "16 word"
type_synonym u32 = "32 word"
type_synonym u64 = "64 word"
type_synonym u128 = "128 word"
type_synonym bytes = "u8 list"

named_theorems le_simps \<open>round trips and lengths of the little-endian encodings\<close>
named_theorems slice_simps \<open>reads and writes of byte ranges\<close>
named_theorems panic_free \<open>operations that return under their precondition\<close>

subsection \<open>Panics\<close>

definition assert_that :: "bool \<Rightarrow> unit option" where
  "assert_that b = (if b then Some () else None)"

lemma assert_that_simps [simp]:
  "assert_that True = Some ()"
  "assert_that False = None"
  by (simp_all add: assert_that_def)

lemma assert_that_eq_Some [simp]: "assert_that b = Some u \<longleftrightarrow> b"
  by (simp add: assert_that_def)

lemma bind_Some_iff: "(m \<bind> f) = Some y \<longleftrightarrow> (\<exists>x. m = Some x \<and> f x = Some y)"
  by (cases m) auto

text \<open>A checked vector index: the source panics outside the range.\<close>

definition idx :: "'a list \<Rightarrow> nat \<Rightarrow> 'a option" where
  "idx xs i = (if i < length xs then Some (xs ! i) else None)"

lemma idx_Some [simp]: "i < length xs \<Longrightarrow> idx xs i = Some (xs ! i)"
  by (simp add: idx_def)

lemma idx_None [simp]: "length xs \<le> i \<Longrightarrow> idx xs i = None"
  by (simp add: idx_def)

lemma idx_eq_Some_iff: "idx xs i = Some x \<longleftrightarrow> i < length xs \<and> x = xs ! i"
  by (auto simp: idx_def)

text \<open>Running a fallible step over a list, from the left, as a \<open>for\<close> loop does.\<close>

fun fold_opt :: "('a \<Rightarrow> 's \<Rightarrow> 's option) \<Rightarrow> 'a list \<Rightarrow> 's \<Rightarrow> 's option" where
  "fold_opt f [] s = Some s"
| "fold_opt f (x # xs) s = do { s' \<leftarrow> f x s; fold_opt f xs s' }"

fun map_opt :: "('a \<Rightarrow> 'b option) \<Rightarrow> 'a list \<Rightarrow> 'b list option" where
  "map_opt f [] = Some []"
| "map_opt f (x # xs) = do { y \<leftarrow> f x; ys \<leftarrow> map_opt f xs; Some (y # ys) }"

fun find_opt :: "('a \<Rightarrow> bool option) \<Rightarrow> 'a list \<Rightarrow> 'a option option" where
  "find_opt P [] = Some None"
| "find_opt P (x # xs) = do { b \<leftarrow> P x; if b then Some (Some x) else find_opt P xs }"

lemma find_opt_total:
  "(\<And>x. x \<in> set xs \<Longrightarrow> P x = Some (Q x)) \<Longrightarrow> find_opt P xs = Some (List.find Q xs)"
  by (induction xs) auto

lemma fold_opt_append:
  "fold_opt f (xs @ ys) s = (fold_opt f xs s \<bind> fold_opt f ys)"
proof (induction xs arbitrary: s)
  case (Cons x xs)
  then show ?case by (cases "f x s") auto
qed simp

lemma fold_opt_inv:
  assumes "P 0 s"
    and "\<And>i s. i < length xs \<Longrightarrow> P i s \<Longrightarrow> \<exists>s'. f (xs ! i) s = Some s' \<and> P (Suc i) s'"
  shows "\<exists>s'. fold_opt f xs s = Some s' \<and> P (length xs) s'"
  using assms
proof (induction xs arbitrary: s P)
  case Nil
  then show ?case by simp
next
  case (Cons x xs)
  from Cons.prems(2)[of 0 s] Cons.prems(1) obtain s1 where s1: "f x s = Some s1" "P 1 s1"
    by auto
  have "\<exists>s'. fold_opt f xs s1 = Some s' \<and> P (Suc (length xs)) s'"
  proof (rule Cons.IH[where P = "\<lambda>i. P (Suc i)"])
    show "P (Suc 0) s1" using s1 by simp
  next
    fix i s assume "i < length xs" "P (Suc i) s"
    then show "\<exists>s'. f (xs ! i) s = Some s' \<and> P (Suc (Suc i)) s'"
      using Cons.prems(2)[of "Suc i" s] by simp
  qed
  with s1 show ?case by simp
qed

lemma map_opt_all_Some:
  "(\<And>x. x \<in> set xs \<Longrightarrow> f x = Some (g x)) \<Longrightarrow> map_opt f xs = Some (map g xs)"
  by (induction xs) auto

lemma map_opt_length: "map_opt f xs = Some ys \<Longrightarrow> length ys = length xs"
  by (induction xs arbitrary: ys) (auto simp: bind_Some_iff)

lemma map_opt_nth:
  "map_opt f xs = Some ys \<Longrightarrow> i < length xs \<Longrightarrow> f (xs ! i) = Some (ys ! i)"
  by (induction xs arbitrary: ys i) (auto simp: bind_Some_iff nth_Cons split: nat.splits)

subsection \<open>Unsigned arithmetic of the source\<close>

text \<open>Rust's \<open>div_ceil\<close>, \<open>is_power_of_two\<close>, \<open>trailing_zeros\<close> and \<open>leading_zeros\<close>.\<close>

definition div_ceil :: "nat \<Rightarrow> nat \<Rightarrow> nat" where
  "div_ceil a b = (if a mod b = 0 then a div b else Suc (a div b))"

lemma div_ceil_le_iff: "0 < b \<Longrightarrow> div_ceil a b \<le> c \<longleftrightarrow> a \<le> c * b"
proof -
  assume b: "0 < b"
  have eq: "a = b * (a div b) + a mod b" by simp
  show "div_ceil a b \<le> c \<longleftrightarrow> a \<le> c * b"
  proof (cases "a mod b = 0")
    case True
    then obtain q where "a = b * q" by auto
    then show ?thesis using b True by (simp add: div_ceil_def mult.commute)
  next
    case False
    have "Suc (a div b) \<le> c \<longleftrightarrow> a div b < c" by auto
    also have "\<dots> \<longleftrightarrow> a < c * b" using b by (simp add: div_less_iff_less_mult)
    also have "\<dots> \<longleftrightarrow> a \<le> c * b"
      using False by (metis le_neq_implies_less less_imp_le_nat mod_mult_self2_is_0)
    finally show ?thesis using False by (simp add: div_ceil_def)
  qed
qed

lemma less_div_ceil_iff: "0 < b \<Longrightarrow> c < div_ceil a b \<longleftrightarrow> c * b < a"
  using div_ceil_le_iff[of b a c] by linarith

lemma div_ceil_0 [simp]: "div_ceil 0 b = 0"
  by (simp add: div_ceil_def)

lemma div_ceil_pos_iff: "0 < b \<Longrightarrow> 0 < div_ceil a b \<longleftrightarrow> 0 < a"
  by (simp add: less_div_ceil_iff)

lemma div_ceil_mono: "0 < b \<Longrightarrow> a \<le> a' \<Longrightarrow> div_ceil a b \<le> div_ceil a' b"
  by (metis div_ceil_le_iff le_refl le_trans)

lemma div_less_div_ceil: "0 < b \<Longrightarrow> i < a \<Longrightarrow> i div b < div_ceil a b"
  by (simp add: less_div_ceil_iff) (metis div_times_less_eq_dividend le_less_trans)

fun bit_length :: "nat \<Rightarrow> nat" where
  "bit_length n = (if n = 0 then 0 else Suc (bit_length (n div 2)))"

declare bit_length.simps [simp del]

definition leading_zeros32 :: "nat \<Rightarrow> nat" where
  "leading_zeros32 n = 32 - bit_length n"

fun trailing_zeros32 :: "nat \<Rightarrow> nat" where
  "trailing_zeros32 n = (if n = 0 then 32 else if odd n then 0 else Suc (trailing_zeros32 (n div 2)))"

declare trailing_zeros32.simps [simp del]

lemma bit_length_bounds: "0 < n \<Longrightarrow> 2 ^ (bit_length n - 1) \<le> n \<and> n < 2 ^ bit_length n \<and> 0 < bit_length n"
proof (induction n rule: bit_length.induct)
  case (1 n)
  show ?case
  proof (cases "n div 2 = 0")
    case True
    then have "n = 1" using 1(2) by simp
    then show ?thesis by (simp add: bit_length.simps)
  next
    case False
    then have IH: "2 ^ (bit_length (n div 2) - 1) \<le> n div 2" "n div 2 < 2 ^ bit_length (n div 2)"
      "0 < bit_length (n div 2)"
      using 1 by auto
    have "bit_length n = Suc (bit_length (n div 2))" using 1(2) by (subst bit_length.simps) simp
    moreover have "(2::nat) ^ bit_length (n div 2) = 2 * 2 ^ (bit_length (n div 2) - 1)"
      using IH(3) by (metis One_nat_def Suc_pred power_Suc)
    moreover have "n = 2 * (n div 2) + n mod 2" "n mod 2 < 2" by simp_all
    ultimately show ?thesis using IH(1,2) by simp linarith
  qed
qed

lemma bit_length_le: "n < 2 ^ k \<Longrightarrow> bit_length n \<le> k"
proof (induction k arbitrary: n)
  case 0
  then show ?case by (simp add: bit_length.simps)
next
  case (Suc k)
  then have "bit_length (n div 2) \<le> k" by simp
  then show ?case by (subst bit_length.simps) simp
qed

lemma trailing_zeros32_dvd: "2 ^ trailing_zeros32 n dvd n"
proof (induction n rule: trailing_zeros32.induct)
  case (1 n)
  show ?case
  proof (cases "n = 0 \<or> odd n")
    case True
    then show ?thesis by (subst trailing_zeros32.simps) auto
  next
    case False
    have "2 * 2 ^ trailing_zeros32 (n div 2) dvd 2 * (n div 2)"
      by (rule mult_dvd_mono) (use 1 False in auto)
    also have "2 * (n div 2) = n" using False by simp
    finally show ?thesis using False by (subst trailing_zeros32.simps) simp
  qed
qed

lemma trailing_zeros32_less: "0 < n \<Longrightarrow> n < 2 ^ 32 \<Longrightarrow> trailing_zeros32 n < 32"
  by (metis dvd_imp_le le_less_trans power_strict_increasing_iff one_less_numeral_iff semiring_norm(76)
      trailing_zeros32_dvd)

text \<open>The measure of a loop that advances by a power of two.\<close>

lemma step_measure: "a + 2 ^ k \<le> n \<Longrightarrow> n - (a + 2 ^ k) < n - (a :: nat)"
proof -
  assume "a + 2 ^ k \<le> n"
  moreover have "(0 :: nat) < 2 ^ k" by simp
  ultimately show ?thesis by linarith
qed

subsection \<open>Little-endian integers\<close>

fun le_bytes :: "nat \<Rightarrow> nat \<Rightarrow> bytes" where
  "le_bytes 0 n = []"
| "le_bytes (Suc k) n = of_nat (n mod 256) # le_bytes k (n div 256)"

fun from_le :: "bytes \<Rightarrow> nat" where
  "from_le [] = 0"
| "from_le (b # bs) = unat b + 256 * from_le bs"

lemma length_le_bytes [simp, le_simps]: "length (le_bytes k n) = k"
  by (induction k arbitrary: n) auto

lemma from_le_le_bytes [le_simps]: "from_le (le_bytes k n) = n mod 256 ^ k"
  by (induction k arbitrary: n) (auto simp: unat_of_nat mod_mult2_eq)

lemma from_le_le_bytes_id [simp, le_simps]: "n < 256 ^ k \<Longrightarrow> from_le (le_bytes k n) = n"
  by (simp add: from_le_le_bytes)

lemma from_le_less [le_simps]: "from_le bs < 256 ^ length bs"
proof (induction bs)
  case (Cons b bs)
  have "unat b < 256" using unsigned_less[of b] by simp
  with Cons show ?case by simp
qed simp

lemma le_bytes_from_le [simp, le_simps]: "le_bytes (length bs) (from_le bs) = bs"
proof (induction bs)
  case (Cons b bs)
  have b: "unat b < 256" using unsigned_less[of b] by simp
  have "(unat b + 256 * from_le bs) div 256 = from_le bs"
    using b by (simp add: div_mult_self2)
  with Cons b show ?case by simp
qed simp

lemma from_le_append: "from_le (as @ bs) = from_le as + 256 ^ length as * from_le bs"
  by (induction as) (auto simp: algebra_simps)

lemma le_bytes_inject:
  "m < 256 ^ k \<Longrightarrow> n < 256 ^ k \<Longrightarrow> le_bytes k m = le_bytes k n \<longleftrightarrow> m = n"
  by (metis from_le_le_bytes_id)

text \<open>The byte encodings of the fixed-width words, by way of their unsigned value.\<close>

lemma u8_bound [simp]: "unat (w :: u8) < 256"
  using unsigned_less[of w] by simp

lemma u16_bound [simp]: "unat (w :: u16) < 256 ^ 2"
  using unsigned_less[of w] by simp

lemma u32_bound [simp]: "unat (w :: u32) < 256 ^ 4"
  using unsigned_less[of w] by simp

lemma u64_bound [simp]: "unat (w :: u64) < 256 ^ 8"
  using unsigned_less[of w] by simp

lemma u128_bound [simp]: "unat (w :: u128) < 256 ^ 16"
  using unsigned_less[of w] by simp

lemma from_le_unat [simp, le_simps]:
  "from_le (le_bytes 2 (unat (w2 :: u16))) = unat w2"
  "from_le (le_bytes 4 (unat (w4 :: u32))) = unat w4"
  "from_le (le_bytes 8 (unat (w8 :: u64))) = unat w8"
  "from_le (le_bytes 16 (unat (w16 :: u128))) = unat w16"
  by (rule from_le_le_bytes_id, rule u16_bound u32_bound u64_bound u128_bound)+

subsection \<open>Byte ranges\<close>

text \<open>
  \<open>subslice xs a b\<close> is \<open>&xs[a..b]\<close>; it panics unless \<open>a \<le> b \<le> xs.len()\<close>. \<open>put_slice xs a ys\<close> is
  \<open>xs[a..a + ys.len()].copy_from_slice(ys)\<close>.
\<close>

definition subslice :: "'a list \<Rightarrow> nat \<Rightarrow> nat \<Rightarrow> 'a list option" where
  "subslice xs a b = (if a \<le> b \<and> b \<le> length xs then Some (take (b - a) (drop a xs)) else None)"

definition put_slice :: "'a list \<Rightarrow> nat \<Rightarrow> 'a list \<Rightarrow> 'a list option" where
  "put_slice xs a ys =
     (if a + length ys \<le> length xs
      then Some (take a xs @ ys @ drop (a + length ys) xs) else None)"

lemma subslice_Some [slice_simps]:
  "a \<le> b \<Longrightarrow> b \<le> length xs \<Longrightarrow> subslice xs a b = Some (take (b - a) (drop a xs))"
  by (simp add: subslice_def)

lemma subslice_length: "subslice xs a b = Some ys \<Longrightarrow> length ys = b - a"
  by (auto simp: subslice_def split: if_splits)

lemma subslice_eq_Some_iff:
  "subslice xs a b = Some ys \<longleftrightarrow> a \<le> b \<and> b \<le> length xs \<and> ys = take (b - a) (drop a xs)"
  by (auto simp: subslice_def)

lemma put_slice_length: "put_slice xs a ys = Some zs \<Longrightarrow> length zs = length xs"
  by (auto simp: put_slice_def split: if_splits)

lemma put_slice_defined [panic_free]:
  "a + length ys \<le> length xs \<Longrightarrow> \<exists>zs. put_slice xs a ys = Some zs"
  by (simp add: put_slice_def)

text \<open>A slice of a concatenation that names one of its parts.\<close>

lemma subslice_append_mid [slice_simps]:
  "length ps = a \<Longrightarrow> length ms = b - a \<Longrightarrow> a \<le> b \<Longrightarrow> subslice (ps @ ms @ ss) a b = Some ms"
  by (auto simp: subslice_def)

lemma subslice_prefix [slice_simps]:
  "length ms = b \<Longrightarrow> subslice (ms @ ss) 0 b = Some ms"
  by (auto simp: subslice_def)

lemma subslice_put_same:
  assumes "put_slice xs a ys = Some zs"
  shows "subslice zs a (a + length ys) = Some ys"
  using assms by (auto simp: put_slice_def subslice_def split: if_splits)

lemma nth_put_slice:
  assumes "put_slice xs a ys = Some zs" and "i < length xs"
  shows "zs ! i = (if a \<le> i \<and> i < a + length ys then ys ! (i - a) else xs ! i)"
  using assms by (auto simp: put_slice_def nth_append min_def split: if_splits)

lemma subslice_eq_nth:
  assumes "length xs = length ys" and "\<And>i. a \<le> i \<Longrightarrow> i < b \<Longrightarrow> xs ! i = ys ! i"
  shows "subslice xs a b = subslice ys a b"
proof (cases "a \<le> b \<and> b \<le> length xs")
  case True
  then have "take (b - a) (drop a xs) = take (b - a) (drop a ys)"
    using assms by (intro nth_equalityI) auto
  then show ?thesis using assms(1) by (simp add: subslice_def)
next
  case False
  then show ?thesis using assms(1) by (auto simp: subslice_def)
qed

lemma subslice_put_other:
  assumes "put_slice xs a ys = Some zs" and "d \<le> a \<or> a + length ys \<le> c"
  shows "subslice zs c d = subslice xs c d"
proof (cases "d \<le> length xs")
  case True
  show ?thesis
  proof (rule subslice_eq_nth)
    show "length zs = length xs" using assms(1) by (rule put_slice_length)
  next
    fix i assume "c \<le> i" "i < d"
    with assms True show "zs ! i = xs ! i"
      by (subst nth_put_slice[OF assms(1)]) auto
  qed
next
  case False
  then show ?thesis using put_slice_length[OF assms(1)] by (simp add: subslice_def)
qed

subsection \<open>Equal-width chunks and offset tables\<close>

lemma length_concat_const:
  "(\<And>x. x \<in> set xs \<Longrightarrow> length (f x) = k) \<Longrightarrow> length (concat (map f xs)) = k * length xs"
  by (induction xs) auto

lemma chunk_of_concat:
  assumes "\<And>x. x \<in> set xs \<Longrightarrow> length (f x) = k" and "i < length xs"
  shows "take k (drop (k * i) (concat (map f xs) @ ys)) = f (xs ! i)"
  using assms
proof (induction xs arbitrary: i)
  case (Cons x xs)
  then show ?case by (cases i) auto
qed simp

text \<open>
  The serialised bitmaps and allocators store a table of section end offsets, each a
  little-endian \<open>u32\<close>, followed by the sections. \<open>end_offsets\<close> is the writing loop (with its
  checked conversion to \<open>u32\<close>), \<open>read_sections\<close> the reading loop.
\<close>

fun end_offsets :: "nat \<Rightarrow> nat list \<Rightarrow> nat list option" where
  "end_offsets pos [] = Some []"
| "end_offsets pos (n # ns) = do {
     assert_that (pos + n < 2 ^ 32);
     rest \<leftarrow> end_offsets (pos + n) ns;
     Some ((pos + n) # rest) }"

fun read_sections :: "bytes \<Rightarrow> (bytes \<Rightarrow> 'a option) \<Rightarrow> nat \<Rightarrow> nat \<Rightarrow> nat \<Rightarrow> 'a list option" where
  "read_sections data f 0 metadata data_start = Some []"
| "read_sections data f (Suc n) metadata data_start = do {
     e \<leftarrow> subslice data metadata (metadata + 4);
     sec \<leftarrow> subslice data data_start (from_le e);
     x \<leftarrow> f sec;
     xs \<leftarrow> read_sections data f n (metadata + 4) (from_le e);
     Some (x # xs) }"

lemma end_offsets_length: "end_offsets pos ns = Some offs \<Longrightarrow> length offs = length ns"
  by (induction ns arbitrary: pos offs) (auto simp: bind_Some_iff)

lemma end_offsets_defined:
  "pos + sum_list ns < 2 ^ 32 \<Longrightarrow> \<exists>offs. end_offsets pos ns = Some offs"
proof (induction ns arbitrary: pos)
  case (Cons n ns)
  then have "pos + n + sum_list ns < 2 ^ 32" by (simp add: add.assoc)
  from Cons.IH[OF this] Cons.prems show ?case by auto
qed simp

lemma read_sections_written:
  assumes "end_offsets data_start (map length ps) = Some offs"
    and "\<And>i. i < length ps \<Longrightarrow> f (ps ! i) = Some (xs ! i)"
    and "length xs = length ps"
    and "data = pre @ concat (map (le_bytes 4) offs) @ mid @ concat ps @ post"
    and "length pre = metadata"
    and "length pre + 4 * length offs + length mid = data_start"
  shows "read_sections data f (length ps) metadata data_start = Some xs"
  using assms
proof (induction ps arbitrary: offs xs pre mid metadata data_start)
  case (Cons p ps)
  from Cons.prems(1) obtain rest where
    o: "data_start + length p < 2 ^ 32" "end_offsets (data_start + length p) (map length ps) = Some rest"
       "offs = (data_start + length p) # rest"
    by (auto simp: bind_Some_iff)
  let ?e = "data_start + length p"
  from Cons.prems(3) obtain y ys where xs: "xs = y # ys" by (cases xs) auto
  have len: "length (concat (map (le_bytes 4) rest)) = 4 * length rest"
    by (rule length_concat_const) simp
  have entry: "subslice data metadata (metadata + 4) = Some (le_bytes 4 ?e)"
    using Cons.prems(4,5) o(3) by (simp add: subslice_def)
  have sec: "subslice data data_start ?e = Some p"
    using Cons.prems(4,6) o(3) len by (auto simp: subslice_def)
  have "read_sections data f (length ps) (metadata + 4) ?e = Some ys"
  proof (rule Cons.IH[OF o(2), where pre = "pre @ le_bytes 4 ?e" and mid = "mid @ p"])
    fix i assume "i < length ps"
    then show "f (ps ! i) = Some (ys ! i)" using Cons.prems(2)[of "Suc i"] xs by simp
  qed (use Cons.prems o xs in auto)
  moreover have "f p = Some y" using Cons.prems(2)[of 0] xs by simp
  ultimately show ?case using entry sec o(1) xs by simp
qed simp

subsection \<open>Fixed-layout records\<close>

text \<open>
  A fixed-layout record is written as a sequence of \<open>copy_from_slice\<close> calls into a buffer, each a pair
  of an offset and the bytes of the field.
\<close>

definition write_fields :: "bytes \<Rightarrow> (nat \<times> bytes) list \<Rightarrow> bytes option" where
  "write_fields buf fields = fold_opt (\<lambda>(a, ys) d. put_slice d a ys) fields buf"

text \<open>No field overlaps another and all of them end within the first \<open>n\<close> bytes.\<close>

fun fields_fit :: "nat \<Rightarrow> (nat \<times> bytes) list \<Rightarrow> bool" where
  "fields_fit n [] = True"
| "fields_fit n ((a, ys) # fs) = (a + length ys \<le> n \<and>
     (\<forall>(b, zs) \<in> set fs. a + length ys \<le> b \<or> b + length zs \<le> a) \<and> fields_fit n fs)"

lemma write_fields_simps:
  "write_fields buf [] = Some buf"
  "write_fields buf ((a, ys) # fs) = do { d \<leftarrow> put_slice buf a ys; write_fields d fs }"
  by (simp_all add: write_fields_def)

lemma write_fields_append: "write_fields buf (fs @ gs) = do { d \<leftarrow> write_fields buf fs; write_fields d gs }"
  by (simp add: write_fields_def fold_opt_append)

lemma write_fields_keeps:
  assumes "write_fields buf fs = Some d" and "\<forall>(b, zs) \<in> set fs. y \<le> b \<or> b + length zs \<le> x"
  shows "length d = length buf \<and> subslice d x y = subslice buf x y"
  using assms
proof (induction fs arbitrary: buf)
  case (Cons f fs)
  obtain a ys where f: "f = (a, ys)" by (cases f)
  from Cons.prems f obtain e where e: "put_slice buf a ys = Some e" "write_fields e fs = Some d"
    by (auto simp: write_fields_simps bind_Some_iff)
  have "length d = length e \<and> subslice d x y = subslice e x y"
    using Cons.prems(2) by (intro Cons.IH[OF e(2)]) simp
  moreover have "subslice e x y = subslice buf x y"
    using Cons.prems(2) f by (intro subslice_put_other[OF e(1)]) auto
  ultimately show ?case using put_slice_length[OF e(1)] by simp
qed (simp add: write_fields_simps)

lemma write_fields_correct:
  assumes "fields_fit (length buf) fs"
  shows "\<exists>d. write_fields buf fs = Some d \<and> length d = length buf \<and>
    (\<forall>(a, ys) \<in> set fs. subslice d a (a + length ys) = Some ys)"
  using assms
proof (induction fs arbitrary: buf)
  case (Cons f fs)
  obtain a ys where f: "f = (a, ys)" by (cases f)
  from Cons.prems f put_slice_defined[of a ys buf] obtain e where e: "put_slice buf a ys = Some e" by auto
  have len: "length e = length buf" by (rule put_slice_length[OF e])
  from Cons.IH[of e] Cons.prems f len obtain d where
    d: "write_fields e fs = Some d" "length d = length e" "\<forall>(a, ys) \<in> set fs. subslice d a (a + length ys) = Some ys"
    by auto
  have "subslice d a (a + length ys) = subslice e a (a + length ys)"
    using Cons.prems f write_fields_keeps[OF d(1), of "a + length ys" a] by (fastforce split: prod.splits)
  then have "subslice d a (a + length ys) = Some ys" using subslice_put_same[OF e] by simp
  with d e f len show ?case by (auto simp: write_fields_simps)
qed (simp add: write_fields_simps)

lemma write_fields_read:
  assumes "write_fields buf fs = Some d" and "fields_fit (length buf) fs" and "(a, ys) \<in> set fs" and "b = a + length ys"
  shows "subslice d a b = Some ys"
  using write_fields_correct[OF assms(2)] assms by fastforce

subsection \<open>Fallible operations\<close>

text \<open>
  An operation that can also return an error has the type \<open>('e + 'a) option\<close>; \<open>and_then\<close> is the \<open>?\<close>
  operator followed by the rest of the function.
\<close>

definition and_then :: "('e + 'a) option \<Rightarrow> ('a \<Rightarrow> ('e + 'b) option) \<Rightarrow> ('e + 'b) option" where
  "and_then r f = (case r of None \<Rightarrow> None | Some (Inl e) \<Rightarrow> Some (Inl e) | Some (Inr x) \<Rightarrow> f x)"

lemma and_then_simps [simp]:
  "and_then None f = None"
  "and_then (Some (Inl e)) f = Some (Inl e)"
  "and_then (Some (Inr x)) f = f x"
  by (simp_all add: and_then_def)

lemma and_then_Inr_iff: "and_then r f = Some (Inr y) \<longleftrightarrow> (\<exists>x. r = Some (Inr x) \<and> f x = Some (Inr y))"
  by (auto simp: and_then_def split: option.splits sum.splits)

subsection \<open>Three-way comparison\<close>

datatype ordering = Less | Equal | Greater

definition cmp :: "'a::linorder \<Rightarrow> 'a \<Rightarrow> ordering" where
  "cmp x y = (if x < y then Less else if x = y then Equal else Greater)"

fun reverse_ordering :: "ordering \<Rightarrow> ordering" where
  "reverse_ordering Less = Greater"
| "reverse_ordering Equal = Equal"
| "reverse_ordering Greater = Less"

lemma cmp_simps [simp]:
  "cmp x y = Less \<longleftrightarrow> x < y"
  "cmp x y = Equal \<longleftrightarrow> x = y"
  "cmp x y = Greater \<longleftrightarrow> y < x"
  by (auto simp: cmp_def)

lemma cmp_refl [simp]: "cmp x x = Equal"
  by simp

text \<open>Slices of bytes compare lexicographically, as \<open>Ord for [u8]\<close> does.\<close>

fun cmp_bytes :: "bytes \<Rightarrow> bytes \<Rightarrow> ordering" where
  "cmp_bytes [] [] = Equal"
| "cmp_bytes [] (_ # _) = Less"
| "cmp_bytes (_ # _) [] = Greater"
| "cmp_bytes (x # xs) (y # ys) =
     (case cmp x y of Less \<Rightarrow> Less | Greater \<Rightarrow> Greater | Equal \<Rightarrow> cmp_bytes xs ys)"

end
