(* ===== verification/TypeNames.thy ===== *)
theory TypeNames
  imports Prelude
begin

text \<open>
  Type names, from \<^verbatim>\<open>src/src/types.rs\<close>: the names under which table definitions are stored, their
  classification byte and their serialised form. A Rust string is its UTF-8 byte sequence; HOL's
  \<open>string\<close>, whose characters are bytes, is used for it together with the check of
  \<open>std::str::from_utf8\<close>.
\<close>

subsection \<open>Strings\<close>

definition bytes_of_string :: "string \<Rightarrow> bytes" where
  "bytes_of_string s = map (\<lambda>c. word_of_nat (of_char c)) s"

definition string_of_bytes :: "bytes \<Rightarrow> string" where
  "string_of_bytes bs = map (\<lambda>b. char_of (unat b)) bs"

definition utf8_cont :: "u8 \<Rightarrow> bool" where
  "utf8_cont b \<longleftrightarrow> 0x80 \<le> b \<and> b \<le> 0xBF"

text \<open>Well-formed UTF-8 byte sequences (Unicode, table 3-7).\<close>

fun utf8_valid :: "bytes \<Rightarrow> bool" where
  "utf8_valid [] = True"
| "utf8_valid (b0 # rest) =
     (if b0 < 0x80 then utf8_valid rest
      else if 0xC2 \<le> b0 \<and> b0 \<le> 0xDF then
        (case rest of b1 # r \<Rightarrow> utf8_cont b1 \<and> utf8_valid r | _ \<Rightarrow> False)
      else if 0xE0 \<le> b0 \<and> b0 \<le> 0xEF then
        (case rest of b1 # b2 # r \<Rightarrow>
             (if b0 = 0xE0 then 0xA0 \<le> b1 \<and> b1 \<le> 0xBF
              else if b0 = 0xED then 0x80 \<le> b1 \<and> b1 \<le> 0x9F else utf8_cont b1)
             \<and> utf8_cont b2 \<and> utf8_valid r
         | _ \<Rightarrow> False)
      else if 0xF0 \<le> b0 \<and> b0 \<le> 0xF4 then
        (case rest of b1 # b2 # b3 # r \<Rightarrow>
             (if b0 = 0xF0 then 0x90 \<le> b1 \<and> b1 \<le> 0xBF
              else if b0 = 0xF4 then 0x80 \<le> b1 \<and> b1 \<le> 0x8F else utf8_cont b1)
             \<and> utf8_cont b2 \<and> utf8_cont b3 \<and> utf8_valid r
         | _ \<Rightarrow> False)
      else False)"

text \<open>\<open>std::str::from_utf8(data).unwrap()\<close>.\<close>

definition from_utf8 :: "bytes \<Rightarrow> string option" where
  "from_utf8 bs = do { assert_that (utf8_valid bs); Some (string_of_bytes bs) }"

lemma string_of_bytes_of_string [simp]: "string_of_bytes (bytes_of_string s) = s"
proof -
  have "of_char c mod 256 = (of_char c :: nat)" for c by simp
  then have "char_of (unat (word_of_nat (of_char c) :: u8)) = c" for c
    by (simp add: unat_of_nat)
  then show ?thesis by (simp add: string_of_bytes_def bytes_of_string_def comp_def)
qed

lemma bytes_of_string_of_bytes [simp]: "bytes_of_string (string_of_bytes bs) = bs"
proof -
  have "unat b mod 256 = unat b" for b :: u8 using unsigned_less[of b] by simp
  then have "word_of_nat (of_char (char_of (unat b))) = b" for b :: u8
    by (simp add: of_char_of)
  then show ?thesis by (simp add: string_of_bytes_def bytes_of_string_def comp_def)
qed

lemma length_bytes_of_string [simp]: "length (bytes_of_string s) = length s"
  by (simp add: bytes_of_string_def)

lemma bytes_of_string_inject [simp]: "bytes_of_string s = bytes_of_string t \<longleftrightarrow> s = t"
  by (metis string_of_bytes_of_string)

lemma from_utf8_bytes [simp]: "utf8_valid (bytes_of_string s) \<Longrightarrow> from_utf8 (bytes_of_string s) = Some s"
  by (simp add: from_utf8_def)

text \<open>Decimal digits, as \<open>Display\<close> prints an unsigned integer.\<close>

fun show_nat :: "nat \<Rightarrow> string" where
  "show_nat n = (if n < 10 then [char_of (48 + n)] else show_nat (n div 10) @ [char_of (48 + n mod 10)])"

declare show_nat.simps [simp del]

subsection \<open>Classification\<close>

datatype TypeClassification = Internal | UserDefined | Internal2

fun tc_to_byte :: "TypeClassification \<Rightarrow> u8" where
  "tc_to_byte Internal = 1"
| "tc_to_byte UserDefined = 2"
| "tc_to_byte Internal2 = 3"

definition tc_from_byte :: "u8 \<Rightarrow> TypeClassification option" where
  "tc_from_byte b = (if b = 1 then Some Internal else if b = 2 then Some UserDefined
     else if b = 3 then Some Internal2 else None)"

subsection \<open>Type names\<close>

record TypeName =
  classification :: TypeClassification
  tn_name :: string

definition tn_new :: "string \<Rightarrow> TypeName" where
  "tn_new n = \<lparr>classification = UserDefined, tn_name = n\<rparr>"

definition tn_internal :: "string \<Rightarrow> TypeName" where
  "tn_internal n = \<lparr>classification = Internal, tn_name = n\<rparr>"

definition tn_internal2 :: "string \<Rightarrow> TypeName" where
  "tn_internal2 n = \<lparr>classification = Internal2, tn_name = n\<rparr>"

definition tn_to_bytes :: "TypeName \<Rightarrow> bytes" where
  "tn_to_bytes t = tc_to_byte (classification t) # bytes_of_string (tn_name t)"

definition tn_from_bytes :: "bytes \<Rightarrow> TypeName option" where
  "tn_from_bytes bs = do {
     b \<leftarrow> idx bs 0;
     c \<leftarrow> tc_from_byte b;
     rest \<leftarrow> subslice bs 1 (length bs);
     n \<leftarrow> from_utf8 rest;
     Some \<lparr>classification = c, tn_name = n\<rparr> }"

lemma tc_round_trip [simp]: "tc_from_byte (tc_to_byte c) = Some c"
  by (cases c) (simp_all add: tc_from_byte_def)

lemma tn_round_trip:
  assumes "utf8_valid (bytes_of_string (tn_name t))"
  shows "tn_from_bytes (tn_to_bytes t) = Some t"
  using assms by (simp add: tn_from_bytes_def tn_to_bytes_def subslice_def)

lemma tn_to_bytes_inject: "tn_to_bytes s = tn_to_bytes t \<longleftrightarrow> s = t"
proof
  assume "tn_to_bytes s = tn_to_bytes t"
  then have "tc_to_byte (classification s) = tc_to_byte (classification t)" "tn_name s = tn_name t"
    by (simp_all add: tn_to_bytes_def)
  then have "classification s = classification t" by (metis option.inject tc_round_trip)
  with \<open>tn_name s = tn_name t\<close> show "s = t" by simp
qed simp

end
