(* ===== verification/Value_Types.thy ===== *)
theory Value_Types
  imports TypeNames
begin

text \<open>
  The \<open>Value\<close> and \<open>Key\<close> traits and their implementations for the basic types, from
  \<^verbatim>\<open>src/src/types.rs\<close>. A trait implementation is a dictionary: \<open>Value\<close> is a record of the trait's
  functions, \<open>Key\<close> extends it, and an implementation for a generic type is a function from the
  dictionary of the element type. What the trait promises is the locale \<open>value_codec\<close>,
  respectively \<open>key_codec\<close>: encoding succeeds and is inverted by decoding, a fixed width is the
  width of every encoding, and comparing encodings is a total order on the encoded values.
\<close>

subsection \<open>The traits\<close>

record 'a Value =
  fixed_width :: "nat option"
  from_bytes :: "bytes \<Rightarrow> 'a option"
  as_bytes :: "'a \<Rightarrow> bytes option"
  type_name :: TypeName

record 'a Key = "'a Value" +
  compare :: "bytes \<Rightarrow> bytes \<Rightarrow> ordering option"

definition key_of :: "'a Value \<Rightarrow> (bytes \<Rightarrow> bytes \<Rightarrow> ordering option) \<Rightarrow> 'a Key" where
  "key_of v c = Value.extend v (Key.fields c)"

lemma key_of_simps [simp]:
  "fixed_width (key_of v c) = fixed_width v" "from_bytes (key_of v c) = from_bytes v"
  "as_bytes (key_of v c) = as_bytes v" "type_name (key_of v c) = type_name v" "compare (key_of v c) = c"
  by (cases v; simp add: key_of_def Value.extend_def Key.fields_def)+

subsection \<open>Unit and booleans\<close>

definition unit_value :: "unit Value" where
  "unit_value = \<lparr>fixed_width = Some 0, from_bytes = (\<lambda>_. Some ()), as_bytes = (\<lambda>_. Some []),
     type_name = tn_internal ''()''\<rparr>"

definition unit_key :: "unit Key" where
  "unit_key = key_of unit_value (\<lambda>_ _. Some Equal)"

definition bool_from_bytes :: "bytes \<Rightarrow> bool option" where
  "bool_from_bytes data = do {
     b \<leftarrow> idx data 0;
     if b = 0 then Some False else if b = 1 then Some True else None }"

definition bool_value :: "bool Value" where
  "bool_value = \<lparr>fixed_width = Some 1, from_bytes = bool_from_bytes,
     as_bytes = (\<lambda>v. Some (if v then [1] else [0])), type_name = tn_internal ''bool''\<rparr>"

definition bool_key :: "bool Key" where
  "bool_key = key_of bool_value (\<lambda>d1 d2. do {
     v1 \<leftarrow> bool_from_bytes d1; v2 \<leftarrow> bool_from_bytes d2; Some (cmp v1 v2) })"

subsection \<open>Options\<close>

definition option_from_bytes :: "('a, 'm) Value_scheme \<Rightarrow> bytes \<Rightarrow> 'a option option" where
  "option_from_bytes T data = do {
     b \<leftarrow> idx data 0;
     if b = 0 then Some None
     else if b = 1 then do { rest \<leftarrow> subslice data 1 (length data); x \<leftarrow> from_bytes T rest; Some (Some x) }
     else None }"

definition option_as_bytes :: "('a, 'm) Value_scheme \<Rightarrow> 'a option \<Rightarrow> bytes option" where
  "option_as_bytes T v = (case v of
       Some x \<Rightarrow> do { b \<leftarrow> as_bytes T x; Some (1 # b) }
     | None \<Rightarrow> Some (case fixed_width T of Some w \<Rightarrow> 0 # replicate w 0 | None \<Rightarrow> [0]))"

definition option_value :: "('a, 'm) Value_scheme \<Rightarrow> 'a option Value" where
  "option_value T = \<lparr>fixed_width = map_option (\<lambda>x. x + 1) (fixed_width T), from_bytes = option_from_bytes T,
     as_bytes = option_as_bytes T, type_name = tn_internal (''Option<'' @ tn_name (type_name T) @ ''>'')\<rparr>"

definition option_key :: "'a Key \<Rightarrow> 'a option Key" where
  "option_key T = key_of (option_value T) (\<lambda>d1 d2. do {
     b1 \<leftarrow> idx d1 0;
     b2 \<leftarrow> idx d2 0;
     if b1 = 0 then Some (if b2 = 0 then Equal else Less)
     else if b2 = 0 then Some Greater
     else do { r1 \<leftarrow> subslice d1 1 (length d1); r2 \<leftarrow> subslice d2 1 (length d2); compare T r1 r2 } })"

subsection \<open>Byte slices and arrays\<close>

definition bytes_initialize :: "bytes \<Rightarrow> bytes" where
  "bytes_initialize data = data"

definition bytes_from_bytes_mut :: "bytes \<Rightarrow> bytes" where
  "bytes_from_bytes_mut data = data"

definition bytes_value :: "bytes Value" where
  "bytes_value = \<lparr>fixed_width = None, from_bytes = Some, as_bytes = Some, type_name = tn_internal ''&[u8]''\<rparr>"

definition bytes_key :: "bytes Key" where
  "bytes_key = key_of bytes_value (\<lambda>d1 d2. Some (cmp_bytes d1 d2))"

definition byte_array_value :: "nat \<Rightarrow> bytes Value" where
  "byte_array_value n = \<lparr>fixed_width = Some n,
     from_bytes = (\<lambda>data. do { assert_that (length data = n); Some data }), as_bytes = Some,
     type_name = tn_internal (''[u8;'' @ show_nat n @ '']'')\<rparr>"

definition byte_array_key :: "nat \<Rightarrow> bytes Key" where
  "byte_array_key n = key_of (byte_array_value n) (\<lambda>d1 d2. Some (cmp_bytes d1 d2))"

subsection \<open>Arrays\<close>

definition array_from_bytes :: "nat \<Rightarrow> ('a, 'm) Value_scheme \<Rightarrow> bytes \<Rightarrow> 'a list option" where
  "array_from_bytes n T data = (case fixed_width T of
       Some fixed \<Rightarrow> map_opt (\<lambda>i. do { s \<leftarrow> subslice data (fixed * i) (fixed * (i + 1)); from_bytes T s }) [0..<n]
     | None \<Rightarrow> read_sections data (from_bytes T) n 0 (4 * n))"

definition array_as_bytes :: "nat \<Rightarrow> ('a, 'm) Value_scheme \<Rightarrow> 'a list \<Rightarrow> bytes option" where
  "array_as_bytes n T v = do {
     items \<leftarrow> map_opt (as_bytes T) v;
     case fixed_width T of
       Some fixed \<Rightarrow> Some (concat items)
     | None \<Rightarrow> do {
         ends \<leftarrow> end_offsets (4 * n) (map length items);
         Some (concat (map (le_bytes 4) ends) @ concat items) } }"

definition array_value :: "nat \<Rightarrow> ('a, 'm) Value_scheme \<Rightarrow> 'a list Value" where
  "array_value n T = \<lparr>fixed_width = map_option (\<lambda>x. x * n) (fixed_width T), from_bytes = array_from_bytes n T,
     as_bytes = array_as_bytes n T, type_name = tn_internal (''['' @ tn_name (type_name T) @ '';'' @ show_nat n @ '']'')\<rparr>"

text \<open>The comparison loops return at the first pair of items that differ.\<close>

fun array_compare_fixed :: "'a Key \<Rightarrow> nat \<Rightarrow> nat list \<Rightarrow> bytes \<Rightarrow> bytes \<Rightarrow> ordering option" where
  "array_compare_fixed T fixed [] d1 d2 = Some Equal"
| "array_compare_fixed T fixed (i # is) d1 d2 = do {
     s1 \<leftarrow> subslice d1 (fixed * i) (fixed * (i + 1));
     s2 \<leftarrow> subslice d2 (fixed * i) (fixed * (i + 1));
     c \<leftarrow> compare T s1 s2;
     if c \<noteq> Equal then Some c else array_compare_fixed T fixed is d1 d2 }"

fun array_compare_var :: "'a Key \<Rightarrow> nat list \<Rightarrow> nat \<Rightarrow> nat \<Rightarrow> bytes \<Rightarrow> bytes \<Rightarrow> ordering option" where
  "array_compare_var T [] start1 start2 d1 d2 = Some Equal"
| "array_compare_var T (i # is) start1 start2 d1 d2 = do {
     e1 \<leftarrow> subslice d1 (4 * i) (4 * (i + 1));
     e2 \<leftarrow> subslice d2 (4 * i) (4 * (i + 1));
     s1 \<leftarrow> subslice d1 start1 (from_le e1);
     s2 \<leftarrow> subslice d2 start2 (from_le e2);
     c \<leftarrow> compare T s1 s2;
     if c \<noteq> Equal then Some c else array_compare_var T is (from_le e1) (from_le e2) d1 d2 }"

definition array_key :: "nat \<Rightarrow> 'a Key \<Rightarrow> 'a list Key" where
  "array_key n T = key_of (array_value n T) (\<lambda>d1 d2. case fixed_width T of
       Some fixed \<Rightarrow> array_compare_fixed T fixed [0..<n] d1 d2
     | None \<Rightarrow> array_compare_var T [0..<n] (4 * n) (4 * n) d1 d2)"

subsection \<open>Strings and characters\<close>

definition str_value :: "string Value" where
  "str_value = \<lparr>fixed_width = None, from_bytes = from_utf8, as_bytes = (\<lambda>s. Some (bytes_of_string s)),
     type_name = tn_internal ''&str''\<rparr>"

definition str_key :: "string Key" where
  "str_key = key_of str_value (\<lambda>d1 d2. do {
     s1 \<leftarrow> from_utf8 d1; s2 \<leftarrow> from_utf8 d2; Some (cmp_bytes (bytes_of_string s1) (bytes_of_string s2)) })"

definition string_value :: "string Value" where
  "string_value = \<lparr>fixed_width = None, from_bytes = from_utf8, as_bytes = (\<lambda>s. Some (bytes_of_string s)),
     type_name = tn_internal ''String''\<rparr>"

definition string_key :: "string Key" where
  "string_key = key_of string_value (\<lambda>d1 d2. do {
     s1 \<leftarrow> from_utf8 d1; s2 \<leftarrow> from_utf8 d2; Some (cmp_bytes (bytes_of_string s1) (bytes_of_string s2)) })"

text \<open>\<open>char::from_u32\<close> accepts the Unicode scalar values.\<close>

definition is_char :: "nat \<Rightarrow> bool" where
  "is_char c \<longleftrightarrow> c < 0xD800 \<or> 0xE000 \<le> c \<and> c < 0x110000"

definition char_from_bytes :: "bytes \<Rightarrow> nat option" where
  "char_from_bytes data = do {
     b0 \<leftarrow> idx data 0; b1 \<leftarrow> idx data 1; b2 \<leftarrow> idx data 2;
     let c = from_le [b0, b1, b2, 0];
     assert_that (is_char c);
     Some c }"

definition char_value :: "nat Value" where
  "char_value = \<lparr>fixed_width = Some 3, from_bytes = char_from_bytes, as_bytes = (\<lambda>c. Some (take 3 (le_bytes 4 c))),
     type_name = tn_internal ''char''\<rparr>"

definition char_key :: "nat Key" where
  "char_key = key_of char_value (\<lambda>d1 d2. do {
     c1 \<leftarrow> char_from_bytes d1; c2 \<leftarrow> char_from_bytes d2; Some (cmp c1 c2) })"

subsection \<open>Numbers\<close>

text \<open>
  \<open>le_value!\<close> for a type of \<open>k\<close> bytes named by its argument: integers of either sign and floats, as
  their bit pattern. \<open>le_impl!\<close> adds the comparison of the integer types.
\<close>

definition le_from_bytes :: "bytes \<Rightarrow> 'a::len word option" where
  "le_from_bytes data = do { assert_that (length data = LENGTH('a) div 8); Some (word_of_nat (from_le data)) }"

definition le_value :: "string \<Rightarrow> 'a::len word Value" where
  "le_value name = \<lparr>fixed_width = Some (LENGTH('a) div 8), from_bytes = le_from_bytes,
     as_bytes = (\<lambda>w. Some (le_bytes (LENGTH('a) div 8) (unat w))), type_name = tn_internal name\<rparr>"

definition le_impl :: "('a::len word \<Rightarrow> int) \<Rightarrow> string \<Rightarrow> 'a word Key" where
  "le_impl val name = key_of (le_value name) (\<lambda>d1 d2. do {
     v1 \<leftarrow> le_from_bytes d1; v2 \<leftarrow> le_from_bytes d2; Some (cmp (val v1) (val v2)) })"

definition u8_key :: "8 word Key" where "u8_key = le_impl uint ''u8''"
definition u16_key :: "16 word Key" where "u16_key = le_impl uint ''u16''"
definition u32_key :: "32 word Key" where "u32_key = le_impl uint ''u32''"
definition u64_key :: "64 word Key" where "u64_key = le_impl uint ''u64''"
definition u128_key :: "128 word Key" where "u128_key = le_impl uint ''u128''"
definition i8_key :: "8 word Key" where "i8_key = le_impl sint ''i8''"
definition i16_key :: "16 word Key" where "i16_key = le_impl sint ''i16''"
definition i32_key :: "32 word Key" where "i32_key = le_impl sint ''i32''"
definition i64_key :: "64 word Key" where "i64_key = le_impl sint ''i64''"
definition i128_key :: "128 word Key" where "i128_key = le_impl sint ''i128''"
definition f32_value :: "32 word Value" where "f32_value = le_value ''f32''"
definition f64_value :: "64 word Value" where "f64_value = le_value ''f64''"

end
