(* ===== verification/Value_Laws.thy ===== *)
theory Value_Laws
  imports Value_Types
begin

text \<open>
  The contracts of the \<open>Value\<close> and \<open>Key\<close> traits and the proof that the implementations of
  \<^verbatim>\<open>src/src/types.rs\<close> satisfy them.
\<close>

subsection \<open>Total orders as three-way comparisons\<close>

locale total_cmp =
  fixes ok :: "'a \<Rightarrow> bool" and ord :: "'a \<Rightarrow> 'a \<Rightarrow> ordering"
  assumes ord_eq: "ok x \<Longrightarrow> ok y \<Longrightarrow> ord x y = Equal \<longleftrightarrow> x = y"
    and ord_rev: "ok x \<Longrightarrow> ok y \<Longrightarrow> ord y x = reverse_ordering (ord x y)"
    and ord_trans: "ok x \<Longrightarrow> ok y \<Longrightarrow> ok z \<Longrightarrow> ord x y = Less \<Longrightarrow> ord y z = Less \<Longrightarrow> ord x z = Less"
begin

lemma ord_refl: "ok x \<Longrightarrow> ord x x = Equal"
  using ord_eq by blast

lemma ord_greater: "ok x \<Longrightarrow> ok y \<Longrightarrow> ord x y = Greater \<longleftrightarrow> ord y x = Less"
  using ord_rev[of x y] by (cases "ord x y") auto

lemma ord_linear: "ok x \<Longrightarrow> ok y \<Longrightarrow> ord x y = Less \<or> x = y \<or> ord y x = Less"
  using ord_eq[of x y] ord_greater[of x y] by (cases "ord x y") auto

lemma ord_asym: "ok x \<Longrightarrow> ok y \<Longrightarrow> ord x y = Less \<Longrightarrow> ord y x \<noteq> Less"
  using ord_rev[of x y] by auto

end

lemma reverse_ordering_involutive [simp]: "reverse_ordering (reverse_ordering c) = c"
  by (cases c) auto

lemma reverse_ordering_eq [simp]:
  "reverse_ordering c = Equal \<longleftrightarrow> c = Equal" "reverse_ordering c = Less \<longleftrightarrow> c = Greater"
  "reverse_ordering c = Greater \<longleftrightarrow> c = Less"
  by (cases c; simp)+

lemma total_cmp_inj:
  fixes f :: "'a \<Rightarrow> 'b::linorder"
  assumes "\<And>x y. ok x \<Longrightarrow> ok y \<Longrightarrow> f x = f y \<Longrightarrow> x = y"
  shows "total_cmp ok (\<lambda>x y. cmp (f x) (f y))"
  by unfold_locales (use assms in \<open>auto simp: cmp_def split: if_splits\<close>)

lemma total_cmp_linorder: "total_cmp ok (cmp :: 'a::linorder \<Rightarrow> 'a \<Rightarrow> ordering)"
  using total_cmp_inj[of ok "\<lambda>x. x"] by simp

lemma total_cmp_weaken:
  assumes "total_cmp ok ord" "\<And>x. ok' x \<Longrightarrow> ok x"
  shows "total_cmp ok' ord"
proof
  fix x y z assume "ok' x" "ok' y"
  then have ok: "ok x" "ok y" using assms(2) by auto
  show "(ord x y = Equal) = (x = y)" by (rule total_cmp.ord_eq[OF assms(1) ok])
  show "ord y x = reverse_ordering (ord x y)" by (rule total_cmp.ord_rev[OF assms(1) ok])
  assume "ok' z" "ord x y = Less" "ord y z = Less"
  then show "ord x z = Less" using total_cmp.ord_trans[OF assms(1) ok] assms(2) by blast
qed

fun option_ord :: "('a \<Rightarrow> 'a \<Rightarrow> ordering) \<Rightarrow> 'a option \<Rightarrow> 'a option \<Rightarrow> ordering" where
  "option_ord c None None = Equal"
| "option_ord c None (Some y) = Less"
| "option_ord c (Some x) None = Greater"
| "option_ord c (Some x) (Some y) = c x y"

definition option_ok :: "('a \<Rightarrow> bool) \<Rightarrow> 'a option \<Rightarrow> bool" where
  "option_ok ok v = (case v of None \<Rightarrow> True | Some x \<Rightarrow> ok x)"

lemma option_ok_simps [simp]: "option_ok ok None" "option_ok ok (Some x) = ok x"
  by (simp_all add: option_ok_def)

lemma total_cmp_option:
  assumes "total_cmp ok ord"
  shows "total_cmp (option_ok ok) (option_ord ord)"
proof -
  note t = total_cmp.ord_eq[OF assms] total_cmp.ord_rev[OF assms] total_cmp.ord_trans[OF assms]
  show ?thesis
  proof
    fix x y z
    assume x: "option_ok ok x" and y: "option_ok ok y"
    show "(option_ord ord x y = Equal) = (x = y)" using x y t(1) by (cases x; cases y) auto
    show "option_ord ord y x = reverse_ordering (option_ord ord x y)"
    proof (cases "x = None \<or> y = None")
      case True
      then show ?thesis by (cases x; cases y) auto
    next
      case False
      then obtain a b where ab: "x = Some a" "y = Some b" by auto
      then have "ok a" "ok b" using x y by simp_all
      then show ?thesis unfolding ab option_ord.simps by (rule t(2))
    qed
    assume "option_ok ok z" "option_ord ord x y = Less" "option_ord ord y z = Less"
    then show "option_ord ord x z = Less" using x y by (cases x; cases y; cases z) (auto intro: t(3))
  qed
qed

text \<open>Lists of a common length compare by their first difference, with one order for each position.\<close>

fun lex_cmp :: "('a \<Rightarrow> 'a \<Rightarrow> ordering) list \<Rightarrow> 'a list \<Rightarrow> 'a list \<Rightarrow> ordering" where
  "lex_cmp (c # cs) (x # xs) (y # ys) = (if c x y \<noteq> Equal then c x y else lex_cmp cs xs ys)"
| "lex_cmp _ _ _ = Equal"

lemma total_cmp_lex:
  assumes "list_all2 total_cmp oks cs"
  shows "total_cmp (\<lambda>xs. list_all2 (\<lambda>ok x. ok x) oks xs) (lex_cmp cs)"
  using assms
proof (induction oks cs rule: list_all2_induct)
  case Nil
  show ?case by unfold_locales (auto simp: list_all2_Nil)
next
  case (Cons ok oks c cs)
  note t = total_cmp.ord_eq[OF Cons(1)] total_cmp.ord_rev[OF Cons(1)] total_cmp.ord_trans[OF Cons(1)]
  note r = total_cmp.ord_eq[OF Cons(3)] total_cmp.ord_rev[OF Cons(3)] total_cmp.ord_trans[OF Cons(3)]
  show ?case
  proof
    fix xs ys zs
    assume xs: "list_all2 (\<lambda>ok. ok) (ok # oks) xs" and ys: "list_all2 (\<lambda>ok. ok) (ok # oks) ys"
    then obtain x xs' y ys' where e: "xs = x # xs'" "ys = y # ys'" "ok x" "ok y"
      "list_all2 (\<lambda>ok. ok) oks xs'" "list_all2 (\<lambda>ok. ok) oks ys'" by (auto simp: list_all2_Cons1)
    show "(lex_cmp (c # cs) xs ys = Equal) = (xs = ys)" using e t(1) r(1) by auto
    show "lex_cmp (c # cs) ys xs = reverse_ordering (lex_cmp (c # cs) xs ys)" 
      using t(2)[OF e(3,4)] r(2)[OF e(5,6)] unfolding e(1,2) lex_cmp.simps by (simp only: reverse_ordering_eq if_distrib split: if_split) simp
    assume zs: "list_all2 (\<lambda>ok. ok) (ok # oks) zs" and l: "lex_cmp (c # cs) xs ys = Less" "lex_cmp (c # cs) ys zs = Less"
    then obtain z zs' where z: "zs = z # zs'" "ok z" "list_all2 (\<lambda>ok. ok) oks zs'" by (auto simp: list_all2_Cons1)
    have xy: "c x y = Less \<or> x = y \<and> lex_cmp cs xs' ys' = Less" using l(1) e t(1)[of x y] by (auto split: if_splits)
    have yz: "c y z = Less \<or> y = z \<and> lex_cmp cs ys' zs' = Less" using l(2) e z t(1)[of y z] by (auto split: if_splits)
    have "c x z = Less \<or> x = z \<and> lex_cmp cs xs' zs' = Less"
      using xy yz t(3)[OF e(3,4) z(2)] r(3)[OF e(5,6) z(3)] by blast
    then show "lex_cmp (c # cs) xs zs = Less" using e z t(1)[of x x] by auto
  qed
qed

lemma cmp_bytes_eq: "cmp_bytes xs ys = Equal \<longleftrightarrow> xs = ys"
  by (induction xs ys rule: cmp_bytes.induct) (auto split: ordering.splits)

lemma cmp_bytes_rev: "cmp_bytes ys xs = reverse_ordering (cmp_bytes xs ys)"
  by (induction xs ys rule: cmp_bytes.induct) (auto simp: cmp_def)

lemma cmp_bytes_trans: "cmp_bytes xs ys = Less \<Longrightarrow> cmp_bytes ys zs = Less \<Longrightarrow> cmp_bytes xs zs = Less"
proof (induction xs ys arbitrary: zs rule: cmp_bytes.induct)
  case (2 y ys)
  then show ?case by (cases zs) auto
next
  case (4 x xs y ys)
  then show ?case by (cases zs) (auto simp: cmp_def split: if_splits)
qed auto

lemma total_cmp_bytes: "total_cmp ok cmp_bytes"
  by unfold_locales (auto simp: cmp_bytes_eq intro: cmp_bytes_rev cmp_bytes_trans)

lemma total_cmp_string: "total_cmp ok (\<lambda>s t. cmp_bytes (bytes_of_string s) (bytes_of_string t))"
  by unfold_locales (auto simp: cmp_bytes_eq intro: cmp_bytes_rev cmp_bytes_trans)

subsection \<open>The contracts\<close>

text \<open>\<open>ok\<close> are the values of the type that can be stored: of the right shape, and below the size limits.\<close>

locale value_codec =
  fixes V :: "('a, 'm) Value_scheme" and ok :: "'a \<Rightarrow> bool"
  assumes encode: "ok x \<Longrightarrow> \<exists>b. as_bytes V x = Some b \<and> from_bytes V b = Some x"
    and width: "ok x \<Longrightarrow> fixed_width V = Some w \<Longrightarrow> as_bytes V x = Some b \<Longrightarrow> length b = w"
begin

lemma decode: "ok x \<Longrightarrow> as_bytes V x = Some b \<Longrightarrow> from_bytes V b = Some x"
  using encode by fastforce

lemma encode_inject: "ok x \<Longrightarrow> ok y \<Longrightarrow> as_bytes V x = Some b \<Longrightarrow> as_bytes V y = Some b \<Longrightarrow> x = y"
  using decode[of x b] decode[of y b] by simp

lemma encode_all:
  assumes "\<forall>x\<in>set xs. ok x"
  obtains bs where "map_opt (as_bytes V) xs = Some bs" "length bs = length xs"
    "\<And>i. i < length xs \<Longrightarrow> as_bytes V (xs ! i) = Some (bs ! i) \<and> from_bytes V (bs ! i) = Some (xs ! i)"
proof -
  have "as_bytes V x = Some (the (as_bytes V x))" if "x \<in> set xs" for x using encode assms that by fastforce
  then have m: "map_opt (as_bytes V) xs = Some (map (\<lambda>x. the (as_bytes V x)) xs)" by (rule map_opt_all_Some)
  show ?thesis
  proof (rule that[OF m])
    fix i assume "i < length xs"
    then show "as_bytes V (xs ! i) = Some (map (\<lambda>x. the (as_bytes V x)) xs ! i) \<and>
        from_bytes V (map (\<lambda>x. the (as_bytes V x)) xs ! i) = Some (xs ! i)"
      using encode[of "xs ! i"] assms by auto
  qed simp
qed

end

locale key_codec = value_codec K ok + total_cmp ok ord
  for K :: "'a Key" and ok :: "'a \<Rightarrow> bool" and ord :: "'a \<Rightarrow> 'a \<Rightarrow> ordering" +
  assumes compare_encoded: "ok x \<Longrightarrow> ok y \<Longrightarrow> as_bytes K x = Some a \<Longrightarrow> as_bytes K y = Some b \<Longrightarrow>
    compare K a b = Some (ord x y)"
begin

text \<open>Comparing stored keys is a total order on the byte strings, and equal only for equal ones.\<close>

definition encoded :: "bytes \<Rightarrow> bool" where
  "encoded b \<longleftrightarrow> (\<exists>x. ok x \<and> as_bytes K x = Some b)"

lemma compare_total: "encoded a \<Longrightarrow> encoded b \<Longrightarrow> \<exists>c. compare K a b = Some c"
  unfolding encoded_def using compare_encoded by blast

lemma compare_equal: "encoded a \<Longrightarrow> encoded b \<Longrightarrow> compare K a b = Some Equal \<longleftrightarrow> a = b"
proof -
  assume "encoded a" "encoded b"
  then obtain x y where x: "ok x" "as_bytes K x = Some a" and y: "ok y" "as_bytes K y = Some b" by (auto simp: encoded_def)
  then show ?thesis using compare_encoded[OF x(1) y(1) x(2) y(2)] ord_eq[OF x(1) y(1)] encode_inject[OF x(1) y(1) x(2)] by auto
qed

lemma compare_order: "total_cmp encoded (\<lambda>a b. the (compare K a b))"
proof
  fix a b c
  assume "encoded a" "encoded b"
  then obtain x y where x: "ok x" "as_bytes K x = Some a" and y: "ok y" "as_bytes K y = Some b" by (auto simp: encoded_def)
  note xy = compare_encoded[OF x(1) y(1) x(2) y(2)] compare_encoded[OF y(1) x(1) y(2) x(2)]
  show "(the (compare K a b) = Equal) = (a = b)"
    using xy(1) x y ord_eq[OF x(1) y(1)] encode_inject[OF x(1) y(1) x(2)] by auto
  show "the (compare K b a) = reverse_ordering (the (compare K a b))" using xy ord_rev[OF x(1) y(1)] by simp
  assume "encoded c" "the (compare K a b) = Less" "the (compare K b c) = Less"
  then obtain z where z: "ok z" "as_bytes K z = Some c" by (auto simp: encoded_def)
  from z \<open>the (compare K a b) = Less\<close> \<open>the (compare K b c) = Less\<close> show "the (compare K a c) = Less"
    using xy compare_encoded[OF y(1) z(1) y(2) z(2)] compare_encoded[OF x(1) z(1) x(2) z(2)] ord_trans[OF x(1) y(1) z(1)] by simp
qed

end

lemma key_codecI:
  assumes "value_codec V ok" "total_cmp ok ord"
    and "\<And>x y a b. ok x \<Longrightarrow> ok y \<Longrightarrow> as_bytes V x = Some a \<Longrightarrow> as_bytes V y = Some b \<Longrightarrow> c a b = Some (ord x y)"
  shows "key_codec (key_of V c) ok ord"
proof (intro key_codec.intro key_codec_axioms.intro)
  show "value_codec (key_of V c) ok" using assms(1) unfolding value_codec_def by simp
qed (use assms(2,3) in auto)

subsection \<open>The basic implementations\<close>

lemma unit_codec: "key_codec unit_key (\<lambda>_. True) (\<lambda>_ _. Equal)"
  unfolding unit_key_def
  by (rule key_codecI; unfold_locales) (auto simp: unit_value_def)

lemma bool_codec: "key_codec bool_key (\<lambda>_. True) cmp"
  unfolding bool_key_def
proof (rule key_codecI)
  show "value_codec bool_value (\<lambda>_. True)"
    by unfold_locales (auto simp: bool_value_def bool_from_bytes_def)
  show "total_cmp (\<lambda>_. True) (cmp :: bool \<Rightarrow> bool \<Rightarrow> ordering)" by (rule total_cmp_linorder)
qed (auto simp: bool_value_def bool_from_bytes_def)

lemma option_as_bytes_Some: "option_as_bytes T (Some x) = Some b \<longleftrightarrow> (\<exists>c. as_bytes T x = Some c \<and> b = 1 # c)"
  by (auto simp: option_as_bytes_def bind_Some_iff)

lemma option_as_bytes_None: "option_as_bytes T None = Some b \<longleftrightarrow> (\<exists>c. b = 0 # c \<and>
    c = (case fixed_width T of Some w \<Rightarrow> replicate w 0 | None \<Rightarrow> []))"
  by (auto simp: option_as_bytes_def split: option.splits)

lemma option_value_codec:
  assumes "value_codec T ok"
  shows "value_codec (option_value T) (option_ok ok)"
proof
  fix x assume x: "option_ok ok x"
  show "\<exists>b. as_bytes (option_value T) x = Some b \<and> from_bytes (option_value T) b = Some x"
  proof (cases x)
    case None
    then show ?thesis by (auto simp: option_value_def option_as_bytes_def option_from_bytes_def split: option.splits)
  next
    case (Some y)
    then obtain b where "as_bytes T y = Some b" "from_bytes T b = Some y"
      using value_codec.encode[OF assms, of y] x by auto
    then show ?thesis
      using Some by (simp add: option_value_def option_as_bytes_def option_from_bytes_def subslice_def)
  qed
next
  fix x w b assume "option_ok ok x" "fixed_width (option_value T) = Some w" "as_bytes (option_value T) x = Some b"
  then show "length b = w" using value_codec.width[OF assms]
    by (cases x) (auto simp: option_value_def option_as_bytes_def bind_Some_iff)
qed

lemma option_codec:
  assumes "key_codec K ok ord"
  shows "key_codec (option_key K) (option_ok ok) (option_ord ord)"
  unfolding option_key_def
proof (rule key_codecI)
  note k = key_codec.axioms[OF assms]
  show "value_codec (option_value K) (option_ok ok)" by (rule option_value_codec[OF k(1)])
  show "total_cmp (option_ok ok) (option_ord ord)" by (rule total_cmp_option[OF k(2)])
  fix x y a b
  assume "option_ok ok x" "option_ok ok y" "as_bytes (option_value K) x = Some a" "as_bytes (option_value K) y = Some b"
  then show "do { b1 \<leftarrow> idx a 0; b2 \<leftarrow> idx b 0;
      if b1 = 0 then Some (if b2 = 0 then Equal else Less) else if b2 = 0 then Some Greater
      else do { r1 \<leftarrow> subslice a 1 (length a); r2 \<leftarrow> subslice b 1 (length b); compare K r1 r2 } } = Some (option_ord ord x y)"
    by (cases x; cases y) (auto simp: option_value_def option_as_bytes_Some option_as_bytes_None subslice_def
        intro: key_codec.compare_encoded[OF assms])
qed

lemma bytes_codec: "key_codec bytes_key (\<lambda>_. True) cmp_bytes"
  unfolding bytes_key_def
  by (rule key_codecI[OF _ total_cmp_bytes]; (unfold_locales)?) (auto simp: bytes_value_def)

lemma byte_array_codec: "key_codec (byte_array_key n) (\<lambda>b. length b = n) cmp_bytes"
  unfolding byte_array_key_def
  by (rule key_codecI[OF _ total_cmp_bytes]; (unfold_locales)?) (auto simp: byte_array_value_def)

definition str_ok :: "string \<Rightarrow> bool" where
  "str_ok s \<longleftrightarrow> utf8_valid (bytes_of_string s)"

lemma str_codec: "key_codec str_key str_ok (\<lambda>s t. cmp_bytes (bytes_of_string s) (bytes_of_string t))"
  unfolding str_key_def
  by (rule key_codecI[OF _ total_cmp_string]; (unfold_locales)?) (auto simp: str_value_def str_ok_def)

lemma string_codec: "key_codec string_key str_ok (\<lambda>s t. cmp_bytes (bytes_of_string s) (bytes_of_string t))"
  unfolding string_key_def
  by (rule key_codecI[OF _ total_cmp_string]; (unfold_locales)?) (auto simp: string_value_def str_ok_def)

lemma take_le_bytes: "take k (le_bytes (k + m) n) = le_bytes k n"
  by (induction k arbitrary: n) auto

lemma length_3: "length xs = 3 \<Longrightarrow> \<exists>a b c. xs = [a, b, c]"
  by (auto simp: eval_nat_numeral length_Suc_conv)

lemma char_bytes: "is_char c \<Longrightarrow> char_from_bytes (take 3 (le_bytes 4 c)) = Some c"
proof -
  assume c: "is_char c"
  then have lt: "c < 256 ^ 3" by (auto simp: is_char_def)
  obtain a b d where b: "le_bytes 3 c = [a, b, d]" using length_3[OF length_le_bytes, of c] by blast
  have "take 3 (le_bytes 4 c) = le_bytes 3 c" using take_le_bytes[of 3 1 c] by simp
  moreover have "from_le (le_bytes 3 c @ [0]) = c" using from_le_le_bytes_id[OF lt] by (simp add: from_le_append)
  ultimately show ?thesis using c unfolding b by (simp add: char_from_bytes_def idx_def)
qed

lemma char_codec: "key_codec char_key is_char cmp"
  unfolding char_key_def
  by (rule key_codecI[OF _ total_cmp_linorder]; (unfold_locales)?) (auto simp: char_value_def char_bytes)

lemma le_round_trip:
  assumes "8 dvd LENGTH('a::len)"
  shows "le_from_bytes (le_bytes (LENGTH('a) div 8) (unat w)) = Some (w :: 'a word)"
proof -
  have "unat w < 2 ^ LENGTH('a)" by (rule unsigned_less)
  also have "\<dots> = (2 ^ 8) ^ (LENGTH('a) div 8)" using assms by (simp only: power_mult[symmetric] dvd_mult_div_cancel)
  finally have "unat w < 256 ^ (LENGTH('a) div 8)" by simp
  then show ?thesis by (simp add: le_from_bytes_def)
qed

lemma le_value_codec:
  assumes "8 dvd LENGTH('a::len)"
  shows "value_codec (le_value name :: 'a word Value) (\<lambda>_. True)"
  by unfold_locales (auto simp: le_value_def le_round_trip[OF assms])

lemma le_codec:
  assumes "8 dvd LENGTH('a::len)" and "inj (val :: 'a word \<Rightarrow> int)"
  shows "key_codec (le_impl val name) (\<lambda>_. True) (\<lambda>x y. cmp (val x) (val y))"
  unfolding le_impl_def
proof (rule key_codecI[OF le_value_codec[OF assms(1)]])
  show "total_cmp (\<lambda>_. True) (\<lambda>x y. cmp (val x) (val y))" by (rule total_cmp_inj) (use assms(2) in \<open>auto dest: injD\<close>)
qed (auto simp: le_value_def le_round_trip[OF assms(1)])

lemma inj_uint: "inj (uint :: 'a::len word \<Rightarrow> int)" by (auto intro: injI)
lemma inj_sint: "inj (sint :: 'a::len word \<Rightarrow> int)" by (auto intro: injI simp: signed_word_eqI)

interpretation u64: key_codec u64_key "\<lambda>_. True" "\<lambda>x y. cmp (uint x) (uint y)"
  unfolding u64_key_def by (rule le_codec[OF _ inj_uint]) simp

interpretation i64: key_codec i64_key "\<lambda>_. True" "\<lambda>x y. cmp (sint x) (sint y)"
  unfolding i64_key_def by (rule le_codec[OF _ inj_sint]) simp

interpretation bytes_k: key_codec bytes_key "\<lambda>_. True" cmp_bytes
  by (rule bytes_codec)

interpretation str_k: key_codec str_key str_ok "\<lambda>s t. cmp_bytes (bytes_of_string s) (bytes_of_string t)"
  by (rule str_codec)

subsection \<open>Arrays\<close>

lemma map_opt_eqI:
  "length xs = length is \<Longrightarrow> (\<And>i. i < length is \<Longrightarrow> f (is ! i) = Some (xs ! i)) \<Longrightarrow> map_opt f is = Some xs"
proof (induction "is" arbitrary: xs)
  case (Cons j js)
  then obtain y ys where xs: "xs = y # ys" by (cases xs) auto
  have "map_opt f js = Some ys" by (rule Cons.IH) (use Cons.prems(1) Cons.prems(2)[of "Suc i" for i] xs in auto)
  then show ?case using Cons.prems(2)[of 0] xs by simp
qed simp

lemma subslice_chunk:
  assumes "\<forall>b\<in>set bs. length b = w" "i < length bs"
  shows "subslice (concat bs) (w * i) (w * (i + 1)) = Some (bs ! i)"
proof -
  have len: "length (concat bs) = w * length bs" using length_concat_const[of bs "\<lambda>x. x" w] assms(1) by simp
  moreover have "take w (drop (w * i) (concat bs)) = bs ! i"
    using chunk_of_concat[of bs "\<lambda>x. x" w i "[]"] assms by simp
  moreover have "w * (i + 1) \<le> w * length bs" using assms(2) by (intro mult_le_mono2) simp
  ultimately show ?thesis by (simp add: subslice_def)
qed

lemma end_offsets_nth:
  "end_offsets pos ns = Some offs \<Longrightarrow> i < length ns \<Longrightarrow> offs ! i = pos + sum_list (take (Suc i) ns) \<and> offs ! i < 2 ^ 32"
proof (induction ns arbitrary: pos offs i)
  case (Cons n ns)
  then obtain rest where r: "end_offsets (pos + n) ns = Some rest" "offs = (pos + n) # rest" "pos + n < 2 ^ 32"
    by (auto simp: bind_Some_iff)
  show ?case
  proof (cases i)
    case 0
    then show ?thesis using r by simp
  next
    case (Suc j)
    then show ?thesis using Cons.IH[OF r(1), of j] Cons.prems(2) r(2) by simp
  qed
qed simp

lemma concat_split:
  assumes "i < length ps"
  shows "concat ps = concat (take i ps) @ ps ! i @ concat (drop (Suc i) ps)"
proof -
  have "concat ps = concat (take i ps @ ps ! i # drop (Suc i) ps)" using assms by (simp only: id_take_nth_drop[symmetric])
  then show ?thesis by simp
qed

lemma length_concat_take: "length (concat (take i ps)) = sum_list (take i (map length ps))"
  by (simp add: length_concat take_map)

lemma sections_nth:
  assumes offs: "end_offsets (4 * length ps) (map length ps) = Some offs"
    and data: "data = concat (map (le_bytes 4) offs) @ concat ps" and i: "i < length ps"
  shows "subslice data (4 * i) (4 * (i + 1)) = Some (le_bytes 4 (offs ! i))" "from_le (le_bytes 4 (offs ! i)) = offs ! i"
    "subslice data (if i = 0 then 4 * length ps else offs ! (i - 1)) (offs ! i) = Some (ps ! i)"
proof -
  let ?t = "concat (map (le_bytes 4) offs)"
  have lo: "length offs = length ps" using end_offsets_length[OF offs] by simp
  have lt: "length ?t = 4 * length ps" using length_concat_const[of offs "le_bytes 4" 4] lo by simp
  have "subslice ?t (4 * i) (4 * (i + 1)) = Some (map (le_bytes 4) offs ! i)"
    by (rule subslice_chunk) (use lo i in auto)
  moreover have "subslice data (4 * i) (4 * (i + 1)) = subslice ?t (4 * i) (4 * (i + 1))"
    using i lt by (simp add: subslice_def data)
  ultimately show "subslice data (4 * i) (4 * (i + 1)) = Some (le_bytes 4 (offs ! i))" using lo i by simp
  have o: "offs ! i = 4 * length ps + sum_list (take (Suc i) (map length ps))" "offs ! i < 2 ^ 32"
    using end_offsets_nth[OF offs, of i] i by auto
  then show "from_le (le_bytes 4 (offs ! i)) = offs ! i" by simp
  have start: "(if i = 0 then 4 * length ps else offs ! (i - 1)) = 4 * length ps + sum_list (take i (map length ps))"
    using end_offsets_nth[OF offs, of "i - 1"] i by (cases i) auto
  have "take (Suc i) (map length ps) = take i (map length ps) @ [length (ps ! i)]" using i by (simp add: take_Suc_conv_app_nth)
  then have e: "offs ! i = 4 * length ps + sum_list (take i (map length ps)) + length (ps ! i)" using o(1) by simp
  have "data = (?t @ concat (take i ps)) @ ps ! i @ concat (drop (Suc i) ps)" using concat_split[OF i] by (simp add: data)
  then show "subslice data (if i = 0 then 4 * length ps else offs ! (i - 1)) (offs ! i) = Some (ps ! i)"
    unfolding start e using subslice_append_mid[of "?t @ concat (take i ps)" _ "ps ! i"] lt length_concat_take[of i ps] by simp
qed

definition encoded_len :: "('a, 'm) Value_scheme \<Rightarrow> 'a list \<Rightarrow> nat" where
  "encoded_len T xs = sum_list (map (\<lambda>x. length (the (as_bytes T x))) xs)"

definition array_ok :: "nat \<Rightarrow> ('a, 'm) Value_scheme \<Rightarrow> ('a \<Rightarrow> bool) \<Rightarrow> 'a list \<Rightarrow> bool" where
  "array_ok n T ok xs \<longleftrightarrow> length xs = n \<and> (\<forall>x\<in>set xs. ok x) \<and> (fixed_width T = None \<longrightarrow> 4 * n + encoded_len T xs < 2 ^ 32)"

text \<open>What the encoding of an array looks like.\<close>

lemma array_encoded:
  assumes c: "value_codec T ok" and xs: "array_ok n T ok xs"
  shows "\<exists>bs. map_opt (as_bytes T) xs = Some bs \<and> length bs = n \<and>
    (\<forall>i<n. as_bytes T (xs ! i) = Some (bs ! i) \<and> from_bytes T (bs ! i) = Some (xs ! i)) \<and>
    (\<forall>w. fixed_width T = Some w \<longrightarrow> (\<forall>b\<in>set bs. length b = w) \<and> array_as_bytes n T xs = Some (concat bs)) \<and>
    (fixed_width T = None \<longrightarrow> (\<exists>offs. end_offsets (4 * length bs) (map length bs) = Some offs \<and>
       array_as_bytes n T xs = Some (concat (map (le_bytes 4) offs) @ concat bs)))"
proof -
  have len: "length xs = n" and all: "\<forall>x\<in>set xs. ok x" using xs by (simp_all add: array_ok_def)
  obtain bs where bs: "map_opt (as_bytes T) xs = Some bs" "length bs = length xs"
    "\<And>i. i < length xs \<Longrightarrow> as_bytes T (xs ! i) = Some (bs ! i) \<and> from_bytes T (bs ! i) = Some (xs ! i)"
    by (rule value_codec.encode_all[OF c all]) blast
  have fixed: "(\<forall>b\<in>set bs. length b = w) \<and> array_as_bytes n T xs = Some (concat bs)" if "fixed_width T = Some w" for w
  proof -
    have "length b = w" if "b \<in> set bs" for b
    proof -
      from that obtain i where "i < length xs" "b = bs ! i" using bs(2) by (auto simp: in_set_conv_nth)
      then show ?thesis using value_codec.width[OF c, of "xs ! i" w b] bs(3)[of i] all \<open>fixed_width T = Some w\<close> by auto
    qed
    then show ?thesis using that bs(1) by (simp add: array_as_bytes_def)
  qed
  have var: "\<exists>offs. end_offsets (4 * length bs) (map length bs) = Some offs \<and>
       array_as_bytes n T xs = Some (concat (map (le_bytes 4) offs) @ concat bs)" if none: "fixed_width T = None"
  proof -
    have "map (\<lambda>x. length (the (as_bytes T x))) xs = map length bs"
      by (rule nth_equalityI) (use bs(2,3) in auto)
    then have "4 * length bs + sum_list (map length bs) < 2 ^ 32"
      using xs none bs(2) by (simp add: array_ok_def encoded_len_def)
    from end_offsets_defined[OF this] none bs(1,2) len show ?thesis by (auto simp: array_as_bytes_def)
  qed
  have n: "length bs = n" using bs(2) len by simp
  have nth: "\<forall>i<n. as_bytes T (xs ! i) = Some (bs ! i) \<and> from_bytes T (bs ! i) = Some (xs ! i)"
    using bs(3) unfolding len by blast
  show ?thesis
    by (rule exI[of _ bs]) (intro conjI allI impI bs(1) n nth[rule_format] fixed[THEN conjunct1] fixed[THEN conjunct2] var)
qed

lemma array_value_codec:
  assumes c: "value_codec T ok"
  shows "value_codec (array_value n T) (array_ok n T ok)"
proof
  fix xs assume xs: "array_ok n T ok xs"
  obtain bs where bs: "length bs = n"
    "\<forall>i<n. as_bytes T (xs ! i) = Some (bs ! i) \<and> from_bytes T (bs ! i) = Some (xs ! i)"
    "\<forall>w. fixed_width T = Some w \<longrightarrow> (\<forall>b\<in>set bs. length b = w) \<and> array_as_bytes n T xs = Some (concat bs)"
    "fixed_width T = None \<longrightarrow> (\<exists>offs. end_offsets (4 * length bs) (map length bs) = Some offs \<and>
       array_as_bytes n T xs = Some (concat (map (le_bytes 4) offs) @ concat bs))"
    using array_encoded[OF c xs] by (elim exE conjE) (rule that)
  have len: "length xs = n" using xs by (simp add: array_ok_def)
  have "\<exists>b. array_as_bytes n T xs = Some b \<and> array_from_bytes n T b = Some xs"
  proof (cases "fixed_width T")
    case None
    with bs(4) obtain offs where o: "end_offsets (4 * length bs) (map length bs) = Some offs"
      "array_as_bytes n T xs = Some (concat (map (le_bytes 4) offs) @ concat bs)" by blast
    have "read_sections (concat (map (le_bytes 4) offs) @ concat bs) (from_bytes T) (length bs) 0 (4 * length bs) = Some xs"
      by (rule read_sections_written[OF o(1), where pre = "[]" and mid = "[]" and post = "[]"])
        (use bs(1,2) len end_offsets_length[OF o(1)] in auto)
    then show ?thesis using o(2) None bs(1) by (simp add: array_from_bytes_def)
  next
    case (Some w)
    have "map_opt (\<lambda>i. do { s \<leftarrow> subslice (concat bs) (w * i) (w * (i + 1)); from_bytes T s }) [0..<n] = Some xs"
    proof (rule map_opt_eqI)
      fix i assume "i < length [0..<n]"
      then show "(do { s \<leftarrow> subslice (concat bs) (w * ([0..<n] ! i)) (w * ([0..<n] ! i + 1)); from_bytes T s }) = Some (xs ! i)"
        using subslice_chunk[of bs w i] bs(1,2,3) Some by simp
    qed (use len in simp)
    then show ?thesis using bs(3) Some by (simp add: array_from_bytes_def)
  qed
  then show "\<exists>b. as_bytes (array_value n T) xs = Some b \<and> from_bytes (array_value n T) b = Some xs"
    by (simp add: array_value_def)
  fix w b assume "fixed_width (array_value n T) = Some w" "as_bytes (array_value n T) xs = Some b"
  then obtain v where v: "fixed_width T = Some v" "w = v * n" "array_as_bytes n T xs = Some b" by (auto simp: array_value_def)
  then show "length b = w" using bs(3) bs(1) length_concat_const[of bs "\<lambda>x. x" v] by simp
qed

lemma upt_step: "i < n \<Longrightarrow> [i..<n] = i # [Suc i..<n]"
  by (simp add: upt_conv_Cons)

lemma lex_cmp_drop:
  assumes "i < length xs" "length ys = length xs" "length cs = length xs"
  shows "lex_cmp (drop i cs) (drop i xs) (drop i ys) =
    (if (cs ! i) (xs ! i) (ys ! i) \<noteq> Equal then (cs ! i) (xs ! i) (ys ! i)
     else lex_cmp (drop (Suc i) cs) (drop (Suc i) xs) (drop (Suc i) ys))"
  using assms by (simp flip: Cons_nth_drop_Suc)

lemma array_compare_fixed_lex:
  assumes "length as = n" "length bs = n" "\<forall>b\<in>set as. length b = w" "\<forall>b\<in>set bs. length b = w"
    and "length xs = n" "length ys = n" and cmp: "\<And>i. i < n \<Longrightarrow> compare K (as ! i) (bs ! i) = Some (ord (xs ! i) (ys ! i))"
  shows "i \<le> n \<Longrightarrow> array_compare_fixed K w [i..<n] (concat as) (concat bs) =
    Some (lex_cmp (drop i (replicate n ord)) (drop i xs) (drop i ys))"
proof (induction "n - i" arbitrary: i)
  case 0
  then show ?case using assms by simp
next
  case (Suc k)
  then have i: "i < n" by simp
  have "subslice (concat as) (w * i) (w * (i + 1)) = Some (as ! i)" "subslice (concat bs) (w * i) (w * (i + 1)) = Some (bs ! i)"
    using subslice_chunk[of as w i] subslice_chunk[of bs w i] assms(1-4) i by auto
  moreover have "array_compare_fixed K w [Suc i..<n] (concat as) (concat bs) =
    Some (lex_cmp (drop (Suc i) (replicate n ord)) (drop (Suc i) xs) (drop (Suc i) ys))"
    using Suc.hyps(1)[of "Suc i"] Suc.hyps(2) i by simp
  ultimately show ?case
    using cmp[OF i] lex_cmp_drop[of i xs ys "replicate n ord"] i assms(5,6) by (simp add: upt_step del: drop_replicate)
qed

lemma array_compare_var_lex:
  assumes as: "end_offsets (4 * length as) (map length as) = Some oa" "da = concat (map (le_bytes 4) oa) @ concat as"
    and bs: "end_offsets (4 * length bs) (map length bs) = Some ob" "db = concat (map (le_bytes 4) ob) @ concat bs"
    and len: "length as = n" "length bs = n" "length xs = n" "length ys = n"
    and cmp: "\<And>i. i < n \<Longrightarrow> compare K (as ! i) (bs ! i) = Some (ord (xs ! i) (ys ! i))"
  shows "i \<le> n \<Longrightarrow> array_compare_var K [i..<n] (if i = 0 then 4 * n else oa ! (i - 1)) (if i = 0 then 4 * n else ob ! (i - 1)) da db =
    Some (lex_cmp (drop i (replicate n ord)) (drop i xs) (drop i ys))"
proof (induction "n - i" arbitrary: i)
  case 0
  then show ?case using len by simp
next
  case (Suc k)
  then have i: "i < n" by simp
  define sa sb where "sa = (if i = 0 then 4 * n else oa ! (i - 1))" and "sb = (if i = 0 then 4 * n else ob ! (i - 1))"
  have a: "subslice da (4 * i) (4 * (i + 1)) = Some (le_bytes 4 (oa ! i))" "from_le (le_bytes 4 (oa ! i)) = oa ! i"
      "subslice da sa (oa ! i) = Some (as ! i)"
    and b: "subslice db (4 * i) (4 * (i + 1)) = Some (le_bytes 4 (ob ! i))" "from_le (le_bytes 4 (ob ! i)) = ob ! i"
      "subslice db sb (ob ! i) = Some (bs ! i)"
    using sections_nth[OF as, of i, unfolded len, OF i] sections_nth[OF bs, of i, unfolded len, OF i]
    unfolding sa_def sb_def by blast+
  have "array_compare_var K [Suc i..<n] (oa ! i) (ob ! i) da db =
    Some (lex_cmp (drop (Suc i) (replicate n ord)) (drop (Suc i) xs) (drop (Suc i) ys))"
    using Suc.hyps(1)[of "Suc i"] Suc.hyps(2) i by simp
  then show ?case unfolding sa_def[symmetric] sb_def[symmetric] upt_step[OF i] array_compare_var.simps
    using a b cmp[OF i] lex_cmp_drop[of i xs ys "replicate n ord"] i len by (simp del: drop_replicate)
qed

lemma array_codec:
  assumes k: "key_codec K ok ord"
  shows "key_codec (array_key n K) (array_ok n K ok) (lex_cmp (replicate n ord))"
  unfolding array_key_def
proof (rule key_codecI)
  note ax = key_codec.axioms[OF k]
  show "value_codec (array_value n K) (array_ok n K ok)" by (rule array_value_codec[OF ax(1)])
  have "list_all2 total_cmp (replicate n ok) (replicate n ord)" using ax(2) by (simp add: list_all2_conv_all_nth)
  from total_cmp_lex[OF this] show "total_cmp (array_ok n K ok) (lex_cmp (replicate n ord))"
    by (rule total_cmp_weaken) (auto simp: array_ok_def list_all2_conv_all_nth)
  fix xs ys a b
  assume xs: "array_ok n K ok xs" and ys: "array_ok n K ok ys"
    and "as_bytes (array_value n K) xs = Some a" "as_bytes (array_value n K) ys = Some b"
  then have enc: "array_as_bytes n K xs = Some a" "array_as_bytes n K ys = Some b" by (simp_all add: array_value_def)
  obtain as where as: "length as = n" "\<forall>i<n. as_bytes K (xs ! i) = Some (as ! i) \<and> from_bytes K (as ! i) = Some (xs ! i)"
    "\<forall>w. fixed_width K = Some w \<longrightarrow> (\<forall>b\<in>set as. length b = w) \<and> array_as_bytes n K xs = Some (concat as)"
    "fixed_width K = None \<longrightarrow> (\<exists>offs. end_offsets (4 * length as) (map length as) = Some offs \<and>
       array_as_bytes n K xs = Some (concat (map (le_bytes 4) offs) @ concat as))"
    using array_encoded[OF ax(1) xs] by (elim exE conjE) (rule that)
  obtain bs where bs: "length bs = n" "\<forall>i<n. as_bytes K (ys ! i) = Some (bs ! i) \<and> from_bytes K (bs ! i) = Some (ys ! i)"
    "\<forall>w. fixed_width K = Some w \<longrightarrow> (\<forall>b\<in>set bs. length b = w) \<and> array_as_bytes n K ys = Some (concat bs)"
    "fixed_width K = None \<longrightarrow> (\<exists>offs. end_offsets (4 * length bs) (map length bs) = Some offs \<and>
       array_as_bytes n K ys = Some (concat (map (le_bytes 4) offs) @ concat bs))"
    using array_encoded[OF ax(1) ys] by (elim exE conjE) (rule that)
  have cmp: "compare K (as ! i) (bs ! i) = Some (ord (xs ! i) (ys ! i))" if "i < n" for i
    using key_codec.compare_encoded[OF k, of "xs ! i" "ys ! i"] as(2) bs(2) xs ys that by (simp add: array_ok_def)
  have len: "length xs = n" "length ys = n" using xs ys by (simp_all add: array_ok_def)
  show "(case fixed_width K of Some fixed \<Rightarrow> array_compare_fixed K fixed [0..<n] a b
     | None \<Rightarrow> array_compare_var K [0..<n] (4 * n) (4 * n) a b) = Some (lex_cmp (replicate n ord) xs ys)"
  proof (cases "fixed_width K")
    case None
    with as(4) bs(4) enc obtain oa ob where
      "end_offsets (4 * length as) (map length as) = Some oa" "a = concat (map (le_bytes 4) oa) @ concat as"
      "end_offsets (4 * length bs) (map length bs) = Some ob" "b = concat (map (le_bytes 4) ob) @ concat bs" by auto
    from array_compare_var_lex[OF this as(1) bs(1) len, where i = 0 and K = K and ord = ord] cmp None show ?thesis by simp
  next
    case (Some w)
    then have "a = concat as" "b = concat bs" "\<forall>b\<in>set as. length b = w" "\<forall>b\<in>set bs. length b = w"
      using as(3) bs(3) enc by auto
    with array_compare_fixed_lex[OF as(1) bs(1) _ _ len, where i = 0 and K = K and ord = ord and w = w] cmp Some
    show ?thesis by simp
  qed
qed

end
