(* ===== verification/Tuple_Types.thy ===== *)
theory Tuple_Types
  imports Value_Laws
begin

text \<open>
  Variable-length integers and vectors (\<^verbatim>\<open>src/src/complex_types.rs\<close>), tuples
  (\<^verbatim>\<open>src/src/tuple_types.rs\<close>) and the tuple format of version 2 (\<^verbatim>\<open>src/src/legacy_tuple_types.rs\<close>).
  The tuple implementations are macro instances for 2 to 12 element types; here they are one
  definition over the list of the element dictionaries, with the elements of a tuple in one HOL type.
\<close>

subsection \<open>Variable-length integers\<close>

definition encode_varint_len :: "nat \<Rightarrow> bytes \<Rightarrow> bytes option" where
  "encode_varint_len n output =
     (if n < 254 then Some (output @ [word_of_nat n])
      else if n \<le> 0xFFFF then Some (output @ [254] @ le_bytes 2 n)
      else do { assert_that (n < 2 ^ 32); Some (output @ [255] @ le_bytes 4 n) })"

definition decode_varint_len :: "bytes \<Rightarrow> (nat \<times> nat) option" where
  "decode_varint_len data = do {
     b \<leftarrow> idx data 0;
     if b \<le> 253 then Some (unat b, 1)
     else if b = 254 then do { s \<leftarrow> subslice data 1 3; Some (from_le s, 3) }
     else do { s \<leftarrow> subslice data 1 5; Some (from_le s, 5) } }"

subsection \<open>Vectors\<close>

fun vec_elements :: "('a, 'm) Value_scheme \<Rightarrow> nat \<Rightarrow> bytes \<Rightarrow> nat \<Rightarrow> ('a list \<times> nat) option" where
  "vec_elements T 0 data offset = Some ([], offset)"
| "vec_elements T (Suc n) data offset = do {
     (element_len, offset) \<leftarrow> (case fixed_width T of
         Some len \<Rightarrow> Some (len, offset)
       | None \<Rightarrow> do {
           rest \<leftarrow> subslice data offset (length data);
           (len, consumed) \<leftarrow> decode_varint_len rest;
           Some (len, offset + consumed) });
     s \<leftarrow> subslice data offset (offset + element_len);
     x \<leftarrow> from_bytes T s;
     (xs, offset) \<leftarrow> vec_elements T n data (offset + element_len);
     Some (x # xs, offset) }"

definition vec_from_bytes :: "('a, 'm) Value_scheme \<Rightarrow> bytes \<Rightarrow> 'a list option" where
  "vec_from_bytes T data = do {
     (elements, offset) \<leftarrow> decode_varint_len data;
     (result, offset) \<leftarrow> vec_elements T elements data offset;
     assert_that (offset = length data);
     Some result }"

definition vec_as_bytes :: "('a, 'm) Value_scheme \<Rightarrow> 'a list \<Rightarrow> bytes option" where
  "vec_as_bytes T v = do {
     result \<leftarrow> encode_varint_len (length v) [];
     fold_opt (\<lambda>element result. do {
         serialized \<leftarrow> as_bytes T element;
         result \<leftarrow> (if fixed_width T = None then encode_varint_len (length serialized) result else Some result);
         Some (result @ serialized) }) v result }"

definition vec_value :: "('a, 'm) Value_scheme \<Rightarrow> 'a list Value" where
  "vec_value T = \<lparr>fixed_width = None, from_bytes = vec_from_bytes T, as_bytes = vec_as_bytes T,
     type_name = tn_internal (''Vec<'' @ tn_name (type_name T) @ ''>'')\<rparr>"

subsection \<open>Tuples\<close>

text \<open>\<open>fixed_width_impl!\<close>: the sum of the widths, if all elements have one.\<close>

fun tuple_fixed_width :: "('a, 'm) Value_scheme list \<Rightarrow> nat option" where
  "tuple_fixed_width [] = Some 0"
| "tuple_fixed_width (T # Ts) = do { w \<leftarrow> fixed_width T; s \<leftarrow> tuple_fixed_width Ts; Some (w + s) }"

definition serialize_tuple_elements_variable :: "bool list \<Rightarrow> bytes list \<Rightarrow> bytes option" where
  "serialize_tuple_elements_variable is_fixed_width slices = do {
     let total_len = sum_list (map length slices);
     let worst_case_len_overhead = sum_list (map (\<lambda>x. if x then 0 else 5) is_fixed_width);
     assert_that (1 \<le> length slices);
     output \<leftarrow> fold_opt (\<lambda>(fixed, x) output. if fixed then Some output else encode_varint_len (length x) output)
       (take (length slices - 1) (zip is_fixed_width slices)) [];
     let output = output @ concat slices;
     assert_that (length output \<le> total_len + worst_case_len_overhead);
     Some output }"

definition serialize_tuple_elements_fixed :: "bytes list \<Rightarrow> bytes" where
  "serialize_tuple_elements_fixed slices = concat slices"

fun parse_lens :: "nat option list \<Rightarrow> bytes \<Rightarrow> nat \<Rightarrow> (nat \<times> nat list) option" where
  "parse_lens [] data offset = Some (offset, [])"
| "parse_lens (Some len # ws) data offset = do {
     (offset, lens) \<leftarrow> parse_lens ws data offset;
     Some (offset, len # lens) }"
| "parse_lens (None # ws) data offset = do {
     rest \<leftarrow> subslice data offset (length data);
     (len, bytes_read) \<leftarrow> decode_varint_len rest;
     (offset, lens) \<leftarrow> parse_lens ws data (offset + bytes_read);
     Some (offset, len # lens) }"

definition not_equal :: "'a Key \<Rightarrow> bytes \<Rightarrow> bytes \<Rightarrow> ordering option option" where
  "not_equal K d1 d2 = map_option (\<lambda>c. if c = Equal then None else Some c) (compare K d1 d2)"

definition tuple_as_bytes :: "('a, 'm) Value_scheme list \<Rightarrow> 'a list \<Rightarrow> bytes option" where
  "tuple_as_bytes Ts v = do {
     slices \<leftarrow> map_opt (\<lambda>(T, x). as_bytes T x) (zip Ts v);
     if tuple_fixed_width Ts \<noteq> None then Some (serialize_tuple_elements_fixed slices)
     else serialize_tuple_elements_variable (map (\<lambda>T. fixed_width T \<noteq> None) Ts) slices }"

definition tuple_type_name :: "('a, 'm) Value_scheme list \<Rightarrow> TypeName" where
  "tuple_type_name Ts =
     (let result = ''('' @ concat (map (\<lambda>i. (if i = 0 then '''' else '','') @ tn_name (type_name (Ts ! i))) [0..<length Ts]) @ '')''
      in if tuple_fixed_width Ts \<noteq> None then tn_internal result else tn_internal2 result)"

text \<open>\<open>from_bytes_variable_impl!\<close> behind the lengths: the last element takes the rest of the data.\<close>

fun tuple_from_lens :: "('a, 'm) Value_scheme list \<Rightarrow> nat list \<Rightarrow> bytes \<Rightarrow> nat \<Rightarrow> 'a list option" where
  "tuple_from_lens [T] [] data offset = do {
     s \<leftarrow> subslice data offset (length data);
     x \<leftarrow> from_bytes T s;
     Some [x] }"
| "tuple_from_lens (T # Ts) (len # lens) data offset = do {
     s \<leftarrow> subslice data offset (offset + len);
     x \<leftarrow> from_bytes T s;
     xs \<leftarrow> tuple_from_lens Ts lens data (offset + len);
     Some (x # xs) }"
| "tuple_from_lens _ _ data offset = None"

fun tuple_from_bytes_fixed :: "('a, 'm) Value_scheme list \<Rightarrow> bytes \<Rightarrow> nat \<Rightarrow> 'a list option" where
  "tuple_from_bytes_fixed [] data offset = Some []"
| "tuple_from_bytes_fixed (T # Ts) data offset = do {
     len \<leftarrow> fixed_width T;
     s \<leftarrow> subslice data offset (offset + len);
     x \<leftarrow> from_bytes T s;
     xs \<leftarrow> tuple_from_bytes_fixed Ts data (offset + len);
     Some (x # xs) }"

definition tuple_from_bytes :: "('a, 'm) Value_scheme list \<Rightarrow> bytes \<Rightarrow> 'a list option" where
  "tuple_from_bytes Ts data =
     (if tuple_fixed_width Ts \<noteq> None then tuple_from_bytes_fixed Ts data 0
      else do {
        (offset, lens) \<leftarrow> parse_lens (map fixed_width (butlast Ts)) data 0;
        tuple_from_lens Ts lens data offset })"

definition tuple_value :: "('a, 'm) Value_scheme list \<Rightarrow> 'a list Value" where
  "tuple_value Ts = \<lparr>fixed_width = tuple_fixed_width Ts, from_bytes = tuple_from_bytes Ts,
     as_bytes = tuple_as_bytes Ts, type_name = tuple_type_name Ts\<rparr>"

fun tuple_compare_lens :: "'a Key list \<Rightarrow> nat list \<Rightarrow> nat list \<Rightarrow> bytes \<Rightarrow> bytes \<Rightarrow> nat \<Rightarrow> nat \<Rightarrow> ordering option" where
  "tuple_compare_lens [K] [] [] d0 d1 offset0 offset1 = do {
     s0 \<leftarrow> subslice d0 offset0 (length d0);
     s1 \<leftarrow> subslice d1 offset1 (length d1);
     compare K s0 s1 }"
| "tuple_compare_lens (K # Ks) (len0 # lens0) (len1 # lens1) d0 d1 offset0 offset1 = do {
     s0 \<leftarrow> subslice d0 offset0 (offset0 + len0);
     s1 \<leftarrow> subslice d1 offset1 (offset1 + len1);
     r \<leftarrow> not_equal K s0 s1;
     case r of
       Some order \<Rightarrow> Some order
     | None \<Rightarrow> tuple_compare_lens Ks lens0 lens1 d0 d1 (offset0 + len0) (offset1 + len1) }"
| "tuple_compare_lens _ _ _ d0 d1 offset0 offset1 = None"

fun tuple_compare_fixed :: "'a Key list \<Rightarrow> bytes \<Rightarrow> bytes \<Rightarrow> nat \<Rightarrow> nat \<Rightarrow> ordering option" where
  "tuple_compare_fixed [] d0 d1 offset0 offset1 = Some Equal"
| "tuple_compare_fixed (K # Ks) d0 d1 offset0 offset1 = do {
     len \<leftarrow> fixed_width K;
     s0 \<leftarrow> subslice d0 offset0 (offset0 + len);
     s1 \<leftarrow> subslice d1 offset1 (offset1 + len);
     r \<leftarrow> not_equal K s0 s1;
     case r of
       Some order \<Rightarrow> Some order
     | None \<Rightarrow> tuple_compare_fixed Ks d0 d1 (offset0 + len) (offset1 + len) }"

definition tuple_compare :: "'a Key list \<Rightarrow> bytes \<Rightarrow> bytes \<Rightarrow> ordering option" where
  "tuple_compare Ks d0 d1 =
     (if tuple_fixed_width Ks \<noteq> None then tuple_compare_fixed Ks d0 d1 0 0
      else do {
        let fixed = map fixed_width (butlast Ks);
        (offset0, lens0) \<leftarrow> parse_lens fixed d0 0;
        (offset1, lens1) \<leftarrow> parse_lens fixed d1 0;
        tuple_compare_lens Ks lens0 lens1 d0 d1 offset0 offset1 })"

definition tuple_key :: "'a Key list \<Rightarrow> 'a list Key" where
  "tuple_key Ks = key_of (tuple_value Ks) (tuple_compare Ks)"

text \<open>The one-element tuple has the encoding of its element.\<close>

definition tuple1_value :: "('a, 'm) Value_scheme \<Rightarrow> 'a Value" where
  "tuple1_value T = \<lparr>fixed_width = fixed_width T, from_bytes = from_bytes T, as_bytes = as_bytes T,
     type_name = tn_internal (''('' @ tn_name (type_name T) @ '',)'')\<rparr>"

definition tuple1_key :: "'a Key \<Rightarrow> 'a Key" where
  "tuple1_key K = key_of (tuple1_value K) (compare K)"

subsection \<open>The legacy tuple format\<close>

definition legacy_serialize_variable :: "bytes list \<Rightarrow> bytes option" where
  "legacy_serialize_variable slices = do {
     assert_that (1 \<le> length slices);
     output \<leftarrow> fold_opt (\<lambda>x output. do {
         assert_that (length x < 2 ^ 32);
         Some (output @ le_bytes 4 (length x)) }) (take (length slices - 1) slices) [];
     Some (output @ concat slices) }"

definition legacy_serialize_fixed :: "bytes list \<Rightarrow> bytes" where
  "legacy_serialize_fixed slices = concat slices"

definition legacy_parse_lens :: "nat \<Rightarrow> bytes \<Rightarrow> nat list option" where
  "legacy_parse_lens n data = map_opt (\<lambda>i. do { s \<leftarrow> subslice data (4 * i) (4 * (i + 1)); Some (from_le s) }) [0..<n]"

definition legacy_as_bytes :: "('a, 'm) Value_scheme list \<Rightarrow> 'a list \<Rightarrow> bytes option" where
  "legacy_as_bytes Ts v = do {
     slices \<leftarrow> map_opt (\<lambda>(T, x). as_bytes T x) (zip Ts v);
     if tuple_fixed_width Ts \<noteq> None then Some (legacy_serialize_fixed slices)
     else legacy_serialize_variable slices }"

definition legacy_from_bytes :: "('a, 'm) Value_scheme list \<Rightarrow> bytes \<Rightarrow> 'a list option" where
  "legacy_from_bytes Ts data =
     (if tuple_fixed_width Ts \<noteq> None then tuple_from_bytes_fixed Ts data 0
      else do {
        lens \<leftarrow> legacy_parse_lens (length Ts - 1) data;
        tuple_from_lens Ts lens data ((length Ts - 1) * 4) })"

definition legacy_type_name :: "('a, 'm) Value_scheme list \<Rightarrow> TypeName" where
  "legacy_type_name Ts = tn_internal
     (''('' @ concat (map (\<lambda>i. (if i = 0 then '''' else '','') @ tn_name (type_name (Ts ! i))) [0..<length Ts]) @ '')'')"

definition legacy_value :: "('a, 'm) Value_scheme list \<Rightarrow> 'a list Value" where
  "legacy_value Ts = \<lparr>fixed_width = tuple_fixed_width Ts, from_bytes = legacy_from_bytes Ts,
     as_bytes = legacy_as_bytes Ts, type_name = legacy_type_name Ts\<rparr>"

definition legacy_compare :: "'a Key list \<Rightarrow> bytes \<Rightarrow> bytes \<Rightarrow> ordering option" where
  "legacy_compare Ks d0 d1 =
     (if tuple_fixed_width Ks \<noteq> None then tuple_compare_fixed Ks d0 d1 0 0
      else do {
        lens0 \<leftarrow> legacy_parse_lens (length Ks - 1) d0;
        lens1 \<leftarrow> legacy_parse_lens (length Ks - 1) d1;
        tuple_compare_lens Ks lens0 lens1 d0 d1 ((length Ks - 1) * 4) ((length Ks - 1) * 4) })"

definition legacy_key :: "'a Key list \<Rightarrow> 'a list Key" where
  "legacy_key Ks = key_of (legacy_value Ks) (legacy_compare Ks)"

definition legacy1_value :: "('a, 'm) Value_scheme \<Rightarrow> 'a Value" where
  "legacy1_value T = \<lparr>fixed_width = fixed_width T, from_bytes = from_bytes T, as_bytes = as_bytes T,
     type_name = tn_internal (''('' @ tn_name (type_name T) @ '',)'')\<rparr>"

definition legacy1_key :: "'a Key \<Rightarrow> 'a Key" where
  "legacy1_key K = key_of (legacy1_value K) (compare K)"

subsection \<open>Variable-length integers are self-delimiting\<close>

lemma varint_round_trip:
  assumes "encode_varint_len n output = Some v"
  obtains e where "v = output @ e" "\<And>rest. decode_varint_len (e @ rest) = Some (n, length e)" "length e \<le> 5" "0 < length e"
proof -
  consider (one) "n < 254" | (two) "\<not> n < 254" "n \<le> 0xFFFF" | (four) "\<not> n \<le> 0xFFFF" "n < 2 ^ 32"
    using assms by (fastforce simp: encode_varint_len_def bind_Some_iff split: if_splits)
  then show ?thesis
  proof cases
    case one
    then have u: "unat (word_of_nat n :: u8) = n" by (simp add: unat_of_nat)
    then have "(word_of_nat n :: u8) \<le> 253" using one by (simp add: word_le_nat_alt)
    then show ?thesis using one assms u
      by (intro that[of "[word_of_nat n]"]) (auto simp: encode_varint_len_def decode_varint_len_def)
  next
    case two
    then have "n < 256 ^ 2" by simp
    then have "from_le (le_bytes 2 n) = n" by (rule from_le_le_bytes_id)
    then show ?thesis using two assms
      by (intro that[of "254 # le_bytes 2 n"]) (auto simp: encode_varint_len_def decode_varint_len_def subslice_def)
  next
    case four
    then have "n < 256 ^ 4" by simp
    then have "from_le (le_bytes 4 n) = n" by (rule from_le_le_bytes_id)
    then show ?thesis using four assms
      by (intro that[of "255 # le_bytes 4 n"]) (auto simp: encode_varint_len_def decode_varint_len_def subslice_def)
  qed
qed

lemma varint_defined: "n < 2 ^ 32 \<Longrightarrow> \<exists>v. encode_varint_len n output = Some v"
  by (auto simp: encode_varint_len_def)

end
