(* ===== verification/Tuple_Laws.thy ===== *)
theory Tuple_Laws
  imports Tuple_Types
begin

text \<open>
  Vectors, tuples and legacy tuples satisfy the contracts of their traits when their element types do.
\<close>

subsection \<open>Vectors\<close>

lemma varint_append: "encode_varint_len n out = map_option (\<lambda>e. out @ e) (encode_varint_len n [])"
  by (simp add: encode_varint_len_def assert_that_def)

definition varint :: "nat \<Rightarrow> bytes" where
  "varint n = the (encode_varint_len n [])"

lemma varint_encode: "n < 2 ^ 32 \<Longrightarrow> encode_varint_len n out = Some (out @ varint n)"
  using varint_defined[of n "[]"] varint_append[of n out] by (auto simp: varint_def)

lemma varint_decode:
  assumes "n < 2 ^ 32"
  shows "decode_varint_len (varint n @ rest) = Some (n, length (varint n))" "length (varint n) \<le> 5"
proof -
  have e: "encode_varint_len n [] = Some (varint n)" using varint_encode[OF assms, of "[]"] by simp
  obtain e' where "varint n = [] @ e'" "\<And>rest. decode_varint_len (e' @ rest) = Some (n, length e')" "length e' \<le> 5"
    by (rule varint_round_trip[OF e]) blast
  then show "decode_varint_len (varint n @ rest) = Some (n, length (varint n))" "length (varint n) \<le> 5" by simp_all
qed

definition vec_ok :: "('a, 'm) Value_scheme \<Rightarrow> ('a \<Rightarrow> bool) \<Rightarrow> 'a list \<Rightarrow> bool" where
  "vec_ok T ok xs \<longleftrightarrow> length xs < 2 ^ 32 \<and>
     (\<forall>x\<in>set xs. ok x \<and> (fixed_width T = None \<longrightarrow> length (the (as_bytes T x)) < 2 ^ 32))"

text \<open>The bytes of one element, with its length in front if the type has no fixed width.\<close>

definition vec_item :: "('a, 'm) Value_scheme \<Rightarrow> 'a \<Rightarrow> bytes" where
  "vec_item T x = (if fixed_width T = None then varint (length (the (as_bytes T x))) else []) @ the (as_bytes T x)"

lemma vec_as_bytes_items:
  assumes c: "value_codec T ok" and xs: "vec_ok T ok xs"
  shows "vec_as_bytes T xs = Some (varint (length xs) @ concat (map (vec_item T) xs))"
proof -
  have "fold_opt (\<lambda>element result. do {
         serialized \<leftarrow> as_bytes T element;
         result \<leftarrow> (if fixed_width T = None then encode_varint_len (length serialized) result else Some result);
         Some (result @ serialized) }) ys out = Some (out @ concat (map (vec_item T) ys))"
    if "\<forall>x\<in>set ys. ok x \<and> (fixed_width T = None \<longrightarrow> length (the (as_bytes T x)) < 2 ^ 32)" for ys out
    using that
  proof (induction ys arbitrary: out)
    case (Cons y ys)
    then obtain b where b: "as_bytes T y = Some b" using value_codec.encode[OF c, of y] by auto
    show ?case
    proof (cases "fixed_width T")
      case None
      then show ?thesis using Cons b by (simp add: varint_encode vec_item_def)
    next
      case (Some w)
      then show ?thesis using Cons b by (simp add: vec_item_def)
    qed
  qed simp
  then show ?thesis using xs varint_encode[of "length xs" "[]"] by (simp add: vec_as_bytes_def vec_ok_def)
qed

lemma vec_elements_items:
  assumes c: "value_codec T ok"
    and "\<forall>x\<in>set xs. ok x \<and> (fixed_width T = None \<longrightarrow> length (the (as_bytes T x)) < 2 ^ 32)"
    and "data = pre @ concat (map (vec_item T) xs) @ post"
  shows "vec_elements T (length xs) data (length pre) = Some (xs, length pre + length (concat (map (vec_item T) xs)))"
  using assms(2,3)
proof (induction xs arbitrary: pre)
  case (Cons x xs)
  obtain b where b: "as_bytes T x = Some b" "from_bytes T b = Some x" using value_codec.encode[OF c, of x] Cons.prems(1) by auto
  have IH: "vec_elements T (length xs) data (length (pre @ vec_item T x)) =
      Some (xs, length (pre @ vec_item T x) + length (concat (map (vec_item T) xs)))"
    by (rule Cons.IH) (use Cons.prems in auto)
  show ?case
  proof (cases "fixed_width T")
    case None
    let ?v = "varint (length b)"
    have item: "vec_item T x = ?v @ b" using b None by (simp add: vec_item_def)
    have lt: "length b < 2 ^ 32" using Cons.prems(1) b None by simp
    have "subslice data (length pre) (length data) = Some (?v @ b @ concat (map (vec_item T) xs) @ post)"
      using Cons.prems(2) item by (simp add: subslice_def)
    moreover have "subslice data (length pre + length ?v) (length pre + length ?v + length b) = Some b"
      using Cons.prems(2) item by (simp add: subslice_def)
    ultimately show ?thesis using IH None b item varint_decode(1)[OF lt] by (simp add: add.assoc)
  next
    case (Some w)
    have item: "vec_item T x = b" using b Some by (simp add: vec_item_def)
    have w: "length b = w" using value_codec.width[OF c _ Some b(1)] Cons.prems(1) by simp
    have "subslice data (length pre) (length pre + w) = Some b" using Cons.prems(2) item w by (simp add: subslice_def)
    then show ?thesis using IH Some b item w by (simp add: add.assoc)
  qed
qed simp

lemma vec_value_codec:
  assumes c: "value_codec T ok"
  shows "value_codec (vec_value T) (vec_ok T ok)"
proof
  fix xs assume xs: "vec_ok T ok xs"
  let ?d = "varint (length xs) @ concat (map (vec_item T) xs)"
  have len: "length xs < 2 ^ 32" using xs by (simp add: vec_ok_def)
  have "vec_elements T (length xs) ?d (length (varint (length xs))) = Some (xs, length ?d)"
    using vec_elements_items[OF c, of xs ?d "varint (length xs)" "[]"] xs by (simp add: vec_ok_def)
  then have "vec_from_bytes T ?d = Some xs" using varint_decode(1)[OF len] by (simp add: vec_from_bytes_def)
  then show "\<exists>b. as_bytes (vec_value T) xs = Some b \<and> from_bytes (vec_value T) b = Some xs"
    using vec_as_bytes_items[OF c xs] by (simp add: vec_value_def)
qed (simp add: vec_value_def)

subsection \<open>Tuples\<close>

fun enc_all :: "('a, 'm) Value_scheme list \<Rightarrow> 'a list \<Rightarrow> bytes list \<Rightarrow> bool" where
  "enc_all [] [] [] = True"
| "enc_all (T # Ts) (x # xs) (s # ss) = (as_bytes T x = Some s \<and> from_bytes T s = Some x \<and>
     (\<forall>w. fixed_width T = Some w \<longrightarrow> length s = w) \<and> enc_all Ts xs ss)"
| "enc_all _ _ _ = False"

lemma enc_all_length: "enc_all Ts xs ss \<Longrightarrow> length xs = length Ts \<and> length ss = length Ts"
  by (induction Ts xs ss rule: enc_all.induct) auto

lemma enc_all_map_opt: "enc_all Ts xs ss \<Longrightarrow> map_opt (\<lambda>(T, x). as_bytes T x) (zip Ts xs) = Some ss"
  by (induction Ts xs ss rule: enc_all.induct) auto

lemma enc_all_exists:
  assumes "list_all2 value_codec Ts oks" "list_all2 (\<lambda>ok x. ok x) oks xs"
  shows "\<exists>ss. enc_all Ts xs ss"
  using assms
proof (induction Ts oks arbitrary: xs rule: list_all2_induct)
  case (Cons T Ts ok oks)
  then obtain x xs' where xs: "xs = x # xs'" "ok x" "list_all2 (\<lambda>ok x. ok x) oks xs'" by (auto simp: list_all2_Cons1)
  from Cons(3)[OF xs(3)] obtain ss where "enc_all Ts xs' ss" by blast
  moreover obtain s where "as_bytes T x = Some s" "from_bytes T s = Some x" using value_codec.encode[OF Cons(1) xs(2)] by blast
  ultimately have "enc_all (T # Ts) (x # xs') (s # ss)" using value_codec.width[OF Cons(1) xs(2)] by auto
  then show ?case using xs(1) by blast
next
  case Nil
  then show ?case by (intro exI[of _ "[]"]) simp
qed

lemma tuple_fixed_width_Cons:
  "tuple_fixed_width (T # Ts) \<noteq> None \<longleftrightarrow> fixed_width T \<noteq> None \<and> tuple_fixed_width Ts \<noteq> None"
  by (auto split: bind_splits)

lemma tuple_fixed_length:
  "enc_all Ts xs ss \<Longrightarrow> tuple_fixed_width Ts \<noteq> None \<Longrightarrow> tuple_fixed_width Ts = Some (length (concat ss))"
  by (induction Ts xs ss rule: enc_all.induct) (auto split: bind_splits)

lemma tuple_fixed_round_trip:
  "enc_all Ts xs ss \<Longrightarrow> tuple_fixed_width Ts \<noteq> None \<Longrightarrow>
    tuple_from_bytes_fixed Ts (pre @ concat ss @ post) (length pre) = Some xs"
proof (induction Ts xs ss arbitrary: pre rule: enc_all.induct)
  case (2 T Ts x xs s ss)
  then obtain w where w: "fixed_width T = Some w" "tuple_fixed_width Ts \<noteq> None"
    unfolding tuple_fixed_width_Cons by blast
  then have s: "length s = w" using 2(2) by auto
  have "tuple_from_bytes_fixed Ts ((pre @ s) @ concat ss @ post) (length (pre @ s)) = Some xs"
    by (rule 2(1)) (use 2(2) w in auto)
  then show ?case using 2(2) w s by (simp add: subslice_def)
qed auto

text \<open>The lengths in front of the elements of a tuple: one for each element without a fixed width.\<close>

fun lens_header :: "nat option list \<Rightarrow> bytes list \<Rightarrow> bytes" where
  "lens_header (Some w # ws) (s # ss) = lens_header ws ss"
| "lens_header (None # ws) (s # ss) = varint (length s) @ lens_header ws ss"
| "lens_header _ _ = []"

lemma lens_header_fold:
  assumes "length ws = length ss" "\<forall>s\<in>set ss. length s < 2 ^ 32"
  shows "fold_opt (\<lambda>(fixed, x) output. if fixed then Some output else encode_varint_len (length x) output)
    (zip (map (\<lambda>w. w \<noteq> None) ws) ss) out = Some (out @ lens_header ws ss)"
  using assms
proof (induction ws ss arbitrary: out rule: lens_header.induct)
  case (2 ws s ss)
  then show ?case by (simp add: varint_encode)
qed auto

lemma lens_header_length:
  "\<forall>s\<in>set ss. length s < 2 ^ 32 \<Longrightarrow> length (lens_header ws ss) \<le> sum_list (map (\<lambda>w. if w \<noteq> None then 0 else 5) ws)"
proof (induction ws ss rule: lens_header.induct)
  case (2 ws s ss)
  then show ?case using varint_decode(2)[of "length s"] by fastforce
qed auto

lemma parse_lens_header:
  assumes "length ws = length ss" "\<forall>s\<in>set ss. length s < 2 ^ 32" "\<forall>i<length ws. \<forall>w. ws ! i = Some w \<longrightarrow> length (ss ! i) = w"
  shows "parse_lens ws (pre @ lens_header ws ss @ rest) (length pre) =
    Some (length pre + length (lens_header ws ss), map length ss)"
  using assms
proof (induction ws ss arbitrary: pre rule: lens_header.induct)
  case (1 w ws s ss)
  have "parse_lens ws (pre @ lens_header ws ss @ rest) (length pre) =
      Some (length pre + length (lens_header ws ss), map length ss)"
    by (rule 1(1)) (use 1(2-4) in \<open>auto dest: spec[of _ "Suc _"]\<close>)
  then show ?case using 1(4) by force
next
  case (2 ws s ss)
  have lt: "length s < 2 ^ 32" using 2(3) by simp
  have "parse_lens ws ((pre @ varint (length s)) @ lens_header ws ss @ rest) (length (pre @ varint (length s))) =
      Some (length (pre @ varint (length s)) + length (lens_header ws ss), map length ss)"
    by (rule 2(1)) (use 2(2-4) in \<open>auto dest: spec[of _ "Suc _"]\<close>)
  then show ?case using varint_decode(1)[OF lt, of "lens_header ws ss @ rest"] by (simp add: subslice_def add.assoc)
qed auto

lemma tuple_from_lens_round_trip:
  "enc_all Ts xs ss \<Longrightarrow> Ts \<noteq> [] \<Longrightarrow>
    tuple_from_lens Ts (map length (butlast ss)) (pre @ concat ss) (length pre) = Some xs"
proof (induction Ts xs ss arbitrary: pre rule: enc_all.induct)
  case (2 T Ts x xs s ss)
  show ?case
  proof (cases Ts)
    case Nil
    then have "xs = []" "ss = []" using 2(2) enc_all_length[of Ts xs ss] by auto
    then show ?thesis using 2(2) Nil by (simp add: subslice_def)
  next
    case (Cons T' Ts')
    then have ss: "ss \<noteq> []" using 2(2) enc_all_length[of Ts xs ss] by auto
    have "tuple_from_lens Ts (map length (butlast ss)) ((pre @ s) @ concat ss) (length (pre @ s)) = Some xs"
      by (rule 2(1)) (use 2(2) Cons in auto)
    then show ?thesis using 2(2) ss by (simp add: subslice_def)
  qed
qed auto

definition tuple_ok :: "('a, 'm) Value_scheme list \<Rightarrow> ('a \<Rightarrow> bool) list \<Rightarrow> 'a list \<Rightarrow> bool" where
  "tuple_ok Ts oks xs \<longleftrightarrow> list_all2 (\<lambda>ok x. ok x) oks xs \<and>
     (\<forall>(T, x)\<in>set (butlast (zip Ts xs)). length (the (as_bytes T x)) < 2 ^ 32)"

text \<open>The encoding of a storable tuple.\<close>

lemma tuple_encoded:
  assumes c: "list_all2 value_codec Ts oks" and xs: "tuple_ok Ts oks xs" and ne: "Ts \<noteq> []"
  shows "\<exists>ss. enc_all Ts xs ss \<and> (\<forall>s\<in>set (butlast ss). length s < 2 ^ 32) \<and>
    tuple_as_bytes Ts xs = Some (if tuple_fixed_width Ts \<noteq> None then concat ss
      else lens_header (map fixed_width (butlast Ts)) (butlast ss) @ concat ss)"
proof -
  from enc_all_exists[OF c] xs obtain ss where ss: "enc_all Ts xs ss" by (auto simp: tuple_ok_def)
  have small: "\<forall>s\<in>set (butlast ss). length s < 2 ^ 32"
  proof -
    have "map (\<lambda>(T, x). the (as_bytes T x)) (zip Ts xs) = ss" using ss by (induction Ts xs ss rule: enc_all.induct) auto
    then have "butlast ss = map (\<lambda>(T, x). the (as_bytes T x)) (butlast (zip Ts xs))" by (metis map_butlast)
    then show ?thesis using xs by (auto simp: tuple_ok_def)
  qed
  have len: "length ss = length Ts" using enc_all_length[OF ss] by simp
  let ?ws = "map fixed_width (butlast Ts)"
  have "zip (map (\<lambda>T. fixed_width T \<noteq> None) Ts) ss = zip (map (\<lambda>w. w \<noteq> None) (map fixed_width Ts)) ss" by (simp add: comp_def)
  then have tk: "take (length ss - 1) (zip (map (\<lambda>T. fixed_width T \<noteq> None) Ts) ss) = zip (map (\<lambda>w. w \<noteq> None) ?ws) (butlast ss)"
    using len by (simp add: take_zip butlast_conv_take take_map comp_def)
  have fold: "fold_opt (\<lambda>(fixed, x) output. if fixed then Some output else encode_varint_len (length x) output)
      (take (length ss - 1) (zip (map (\<lambda>T. fixed_width T \<noteq> None) Ts) ss)) [] = Some (lens_header ?ws (butlast ss))"
    unfolding tk using lens_header_fold[of ?ws "butlast ss" "[]"] small len by simp
  have "length (lens_header ?ws (butlast ss)) \<le> sum_list (map (\<lambda>w. if w \<noteq> None then 0 else 5) ?ws)"
    by (rule lens_header_length[OF small])
  also have "\<dots> \<le> sum_list (map (\<lambda>x. if x then 0 else 5) (map (\<lambda>T. fixed_width T \<noteq> None) Ts))"
    using ne by (cases Ts rule: rev_cases) (auto simp: comp_def)
  finally have bound: "length (lens_header ?ws (butlast ss) @ concat ss) \<le>
      sum_list (map length ss) + sum_list (map (\<lambda>x. if x then 0 else 5) (map (\<lambda>T. fixed_width T \<noteq> None) Ts))"
    by (simp add: length_concat)
  have "serialize_tuple_elements_variable (map (\<lambda>T. fixed_width T \<noteq> None) Ts) ss =
      Some (lens_header ?ws (butlast ss) @ concat ss)"
    using fold bound len ne by (simp add: serialize_tuple_elements_variable_def Suc_le_eq del: length_append)
  then show ?thesis
    using ss small enc_all_map_opt[OF ss] by (auto simp: tuple_as_bytes_def serialize_tuple_elements_fixed_def)
qed

lemma enc_all_widths:
  assumes "enc_all Ts xs ss"
  shows "\<forall>i<length (butlast Ts). \<forall>w. map fixed_width (butlast Ts) ! i = Some w \<longrightarrow> length (butlast ss ! i) = w"
proof -
  have "\<forall>i<length Ts. \<forall>w. fixed_width (Ts ! i) = Some w \<longrightarrow> length (ss ! i) = w"
    using assms
  proof (induction Ts xs ss rule: enc_all.induct)
    case (2 T Ts x xs s ss)
    then show ?case by (auto simp: nth_Cons split: nat.splits)
  qed auto
  then show ?thesis using enc_all_length[OF assms] by (simp add: nth_butlast)
qed

lemma parse_tuple_lens:
  assumes "enc_all Ts xs ss" "\<forall>s\<in>set (butlast ss). length s < 2 ^ 32"
  shows "parse_lens (map fixed_width (butlast Ts)) (lens_header (map fixed_width (butlast Ts)) (butlast ss) @ rest) 0 =
    Some (length (lens_header (map fixed_width (butlast Ts)) (butlast ss)), map length (butlast ss))"
  using parse_lens_header[of "map fixed_width (butlast Ts)" "butlast ss" "[]" rest] assms enc_all_length[OF assms(1)]
    enc_all_widths[OF assms(1)] by simp

lemma tuple_value_codec:
  assumes c: "list_all2 value_codec Ts oks" and ne: "Ts \<noteq> []"
  shows "value_codec (tuple_value Ts) (tuple_ok Ts oks)"
proof
  fix xs assume xs: "tuple_ok Ts oks xs"
  let ?h = "lens_header (map fixed_width (butlast Ts))"
  from tuple_encoded[OF c xs ne] obtain ss where ss: "enc_all Ts xs ss" "\<forall>s\<in>set (butlast ss). length s < 2 ^ 32"
    and b: "tuple_as_bytes Ts xs = Some (if tuple_fixed_width Ts \<noteq> None then concat ss else ?h (butlast ss) @ concat ss)" by blast
  show "\<exists>b. as_bytes (tuple_value Ts) xs = Some b \<and> from_bytes (tuple_value Ts) b = Some xs"
  proof (cases "tuple_fixed_width Ts")
    case None
    then show ?thesis
      using b parse_tuple_lens[OF ss, of "concat ss"] tuple_from_lens_round_trip[OF ss(1) ne, of "?h (butlast ss)"]
      by (simp add: tuple_value_def tuple_from_bytes_def)
  next
    case (Some w)
    then show ?thesis using b tuple_fixed_round_trip[OF ss(1), of "[]" "[]"] by (simp add: tuple_value_def tuple_from_bytes_def)
  qed
  fix w d assume "fixed_width (tuple_value Ts) = Some w" "as_bytes (tuple_value Ts) xs = Some d"
  then show "length d = w" using b tuple_fixed_length[OF ss(1)] by (auto simp: tuple_value_def)
qed

subsection \<open>Comparing tuples\<close>

fun cmp_all :: "'a Key list \<Rightarrow> ('a \<Rightarrow> 'a \<Rightarrow> ordering) list \<Rightarrow> 'a list \<Rightarrow> 'a list \<Rightarrow> bytes list \<Rightarrow> bytes list \<Rightarrow> bool" where
  "cmp_all [] [] [] [] [] [] = True"
| "cmp_all (K # Ks) (c # cs) (x # xs) (y # ys) (a # as) (b # bs) =
     (compare K a b = Some (c x y) \<and> (\<forall>w. fixed_width K = Some w \<longrightarrow> length a = w \<and> length b = w) \<and> cmp_all Ks cs xs ys as bs)"
| "cmp_all _ _ _ _ _ _ = False"

lemma cmp_all_length: "cmp_all Ks cs xs ys as bs \<Longrightarrow> length as = length Ks \<and> length bs = length Ks"
  by (induction Ks cs xs ys as bs rule: cmp_all.induct) auto

lemma tuple_compare_fixed_lex:
  "cmp_all Ks cs xs ys as bs \<Longrightarrow> tuple_fixed_width Ks \<noteq> None \<Longrightarrow>
    tuple_compare_fixed Ks (p @ concat as @ q) (p' @ concat bs @ q') (length p) (length p') = Some (lex_cmp cs xs ys)"
proof (induction Ks cs xs ys as bs arbitrary: p p' rule: cmp_all.induct)
  case (2 K Ks c cs x xs y ys a as b bs)
  then obtain w where w: "fixed_width K = Some w" "tuple_fixed_width Ks \<noteq> None" unfolding tuple_fixed_width_Cons by blast
  then have l: "length a = w" "length b = w" and k: "compare K a b = Some (c x y)" using 2(2) by auto
  have "tuple_compare_fixed Ks ((p @ a) @ concat as @ q) ((p' @ b) @ concat bs @ q') (length (p @ a)) (length (p' @ b)) =
      Some (lex_cmp cs xs ys)" by (rule 2(1)) (use 2(2) w in auto)
  moreover have "subslice (p @ concat (a # as) @ q) (length p) (length p + w) = Some a"
    "subslice (p' @ concat (b # bs) @ q') (length p') (length p' + w) = Some b" using l by (simp_all add: subslice_def)
  ultimately show ?case using w(1) l k by (simp add: not_equal_def)
qed auto

lemma tuple_compare_lens_lex:
  "cmp_all Ks cs xs ys as bs \<Longrightarrow> Ks \<noteq> [] \<Longrightarrow>
    tuple_compare_lens Ks (map length (butlast as)) (map length (butlast bs)) (p @ concat as) (p' @ concat bs) (length p) (length p') =
    Some (lex_cmp cs xs ys)"
proof (induction Ks cs xs ys as bs arbitrary: p p' rule: cmp_all.induct)
  case (2 K Ks c cs x xs y ys a as b bs)
  have k: "compare K a b = Some (c x y)" using 2(2) by simp
  show ?case
  proof (cases Ks)
    case Nil
    then have e: "as = []" "bs = []" using 2(2) cmp_all_length[of Ks cs xs ys as bs] by auto
    have "lex_cmp cs xs ys = Equal" using 2(2) Nil by (cases cs; cases xs; cases ys) (auto simp: e)
    then show ?thesis using k Nil e by (simp add: subslice_def)
  next
    case (Cons K' Ks')
    then have ne: "as \<noteq> []" "bs \<noteq> []" using 2(2) cmp_all_length[of Ks cs xs ys as bs] by auto
    have "tuple_compare_lens Ks (map length (butlast as)) (map length (butlast bs)) ((p @ a) @ concat as) ((p' @ b) @ concat bs)
        (length (p @ a)) (length (p' @ b)) = Some (lex_cmp cs xs ys)" by (rule 2(1)) (use 2(2) Cons in auto)
    moreover have "subslice (p @ concat (a # as)) (length p) (length p + length a) = Some a"
      "subslice (p' @ concat (b # bs)) (length p') (length p' + length b) = Some b" by (simp_all add: subslice_def)
    ultimately show ?thesis using k ne by (simp add: not_equal_def)
  qed
qed auto

text \<open>Element-wise key codecs, with their orders.\<close>

fun keys_codec :: "'a Key list \<Rightarrow> ('a \<Rightarrow> bool) list \<Rightarrow> ('a \<Rightarrow> 'a \<Rightarrow> ordering) list \<Rightarrow> bool" where
  "keys_codec [] [] [] = True"
| "keys_codec (K # Ks) (ok # oks) (c # cs) = (key_codec K ok c \<and> keys_codec Ks oks cs)"
| "keys_codec _ _ _ = False"

lemma keys_codec_all2:
  "keys_codec Ks oks cs \<Longrightarrow> list_all2 value_codec Ks oks \<and> list_all2 total_cmp oks cs"
  by (induction Ks oks cs rule: keys_codec.induct) (auto dest: key_codec.axioms)

lemma cmp_all_exists:
  "keys_codec Ks oks cs \<Longrightarrow> list_all2 (\<lambda>ok x. ok x) oks xs \<Longrightarrow> list_all2 (\<lambda>ok x. ok x) oks ys \<Longrightarrow>
    enc_all Ks xs as \<Longrightarrow> enc_all Ks ys bs \<Longrightarrow> cmp_all Ks cs xs ys as bs"
proof (induction Ks oks cs arbitrary: xs ys as bs rule: keys_codec.induct)
  case 1
  then show ?case by (cases as; cases bs) (auto simp: list_all2_Nil)
next
  case (2 K Ks ok oks c cs)
  obtain x xs' y ys' where e: "xs = x # xs'" "ys = y # ys'" "ok x" "ok y" using 2(3,4) by (auto simp: list_all2_Cons1)
  obtain a as' b bs' where f: "as = a # as'" "bs = b # bs'" using 2(5,6) e by (cases as; cases bs) auto
  have "cmp_all Ks cs xs' ys' as' bs'" by (rule 2(1)) (use 2 e f in auto)
  moreover have "compare K a b = Some (c x y)"
    using key_codec.compare_encoded[of K ok c x y a b] 2(2,5,6) e f by auto
  ultimately show ?case using 2(5,6) e f by auto
qed auto

lemma tuple_codec:
  assumes k: "keys_codec Ks oks cs" and ne: "Ks \<noteq> []"
  shows "key_codec (tuple_key Ks) (tuple_ok Ks oks) (lex_cmp cs)"
  unfolding tuple_key_def
proof (rule key_codecI)
  note all2 = keys_codec_all2[OF k]
  show "value_codec (tuple_value Ks) (tuple_ok Ks oks)" by (rule tuple_value_codec[OF conjunct1[OF all2] ne])
  show "total_cmp (tuple_ok Ks oks) (lex_cmp cs)"
    by (rule total_cmp_weaken[OF total_cmp_lex[OF conjunct2[OF all2]]]) (simp add: tuple_ok_def)
  let ?h = "lens_header (map fixed_width (butlast Ks))"
  fix xs ys a b
  assume xs: "tuple_ok Ks oks xs" and ys: "tuple_ok Ks oks ys"
    and "as_bytes (tuple_value Ks) xs = Some a" "as_bytes (tuple_value Ks) ys = Some b"
  then have enc: "tuple_as_bytes Ks xs = Some a" "tuple_as_bytes Ks ys = Some b" by (simp_all add: tuple_value_def)
  from tuple_encoded[OF conjunct1[OF all2] xs ne] enc obtain as where as: "enc_all Ks xs as" "\<forall>s\<in>set (butlast as). length s < 2 ^ 32"
    "a = (if tuple_fixed_width Ks \<noteq> None then concat as else ?h (butlast as) @ concat as)" by auto
  from tuple_encoded[OF conjunct1[OF all2] ys ne] enc obtain bs where bs: "enc_all Ks ys bs" "\<forall>s\<in>set (butlast bs). length s < 2 ^ 32"
    "b = (if tuple_fixed_width Ks \<noteq> None then concat bs else ?h (butlast bs) @ concat bs)" by auto
  have cmp: "cmp_all Ks cs xs ys as bs" using cmp_all_exists[OF k _ _ as(1) bs(1)] xs ys by (simp add: tuple_ok_def)
  show "tuple_compare Ks a b = Some (lex_cmp cs xs ys)"
  proof (cases "tuple_fixed_width Ks")
    case None
    then show ?thesis
      using as(3) bs(3) parse_tuple_lens[OF as(1,2), of "concat as"] parse_tuple_lens[OF bs(1,2), of "concat bs"]
        tuple_compare_lens_lex[OF cmp ne, of "?h (butlast as)" "?h (butlast bs)"] by (simp add: tuple_compare_def)
  next
    case (Some w)
    then show ?thesis using as(3) bs(3) tuple_compare_fixed_lex[OF cmp, of "[]" "[]" "[]" "[]"] by (simp add: tuple_compare_def)
  qed
qed

subsection \<open>Legacy tuples\<close>

lemma legacy_header:
  assumes "\<forall>s\<in>set ss. length s < 2 ^ 32"
  shows "fold_opt (\<lambda>x output. do { assert_that (length x < 2 ^ 32); Some (output @ le_bytes 4 (length x)) }) ss out =
    Some (out @ concat (map (\<lambda>s. le_bytes 4 (length s)) ss))"
  using assms by (induction ss arbitrary: out) auto

lemma legacy_lens:
  assumes "\<forall>s\<in>set ss. length s < 2 ^ 32"
  shows "legacy_parse_lens (length ss) (concat (map (\<lambda>s. le_bytes 4 (length s)) ss) @ rest) = Some (map length ss)"
  unfolding legacy_parse_lens_def
proof (rule map_opt_eqI)
  let ?t = "map (\<lambda>s. le_bytes 4 (length s)) ss"
  have len: "length (concat ?t) = 4 * length ss" by (rule length_concat_const) simp
  fix i assume "i < length [0..<length ss]"
  then have i: "i < length ss" by simp
  have "subslice (concat ?t) (4 * i) (4 * (i + 1)) = Some (?t ! i)" by (rule subslice_chunk) (use i in auto)
  moreover have "subslice (concat ?t @ rest) (4 * i) (4 * (i + 1)) = subslice (concat ?t) (4 * i) (4 * (i + 1))"
    using i len by (simp add: subslice_def)
  ultimately show "(do { s \<leftarrow> subslice (concat ?t @ rest) (4 * ([0..<length ss] ! i)) (4 * ([0..<length ss] ! i + 1)); Some (from_le s) }) =
      Some (map length ss ! i)" using i assms by simp
qed simp

lemma legacy_encoded:
  assumes c: "list_all2 value_codec Ts oks" and xs: "tuple_ok Ts oks xs" and ne: "Ts \<noteq> []"
  shows "\<exists>ss. enc_all Ts xs ss \<and> (\<forall>s\<in>set (butlast ss). length s < 2 ^ 32) \<and>
    legacy_as_bytes Ts xs = Some (if tuple_fixed_width Ts \<noteq> None then concat ss
      else concat (map (\<lambda>s. le_bytes 4 (length s)) (butlast ss)) @ concat ss)"
proof -
  from tuple_encoded[OF c xs ne] obtain ss where ss: "enc_all Ts xs ss" "\<forall>s\<in>set (butlast ss). length s < 2 ^ 32" by blast
  have "take (length ss - Suc 0) ss = butlast ss" by (simp add: butlast_conv_take)
  moreover have "Suc 0 \<le> length ss" using enc_all_length[OF ss(1)] ne by (cases Ts) auto
  ultimately have "legacy_serialize_variable ss = Some (concat (map (\<lambda>s. le_bytes 4 (length s)) (butlast ss)) @ concat ss)"
    using legacy_header[OF ss(2), of "[]"] by (simp add: legacy_serialize_variable_def)
  then show ?thesis using ss enc_all_map_opt[OF ss(1)] by (auto simp: legacy_as_bytes_def legacy_serialize_fixed_def)
qed

lemma legacy_parse:
  assumes "enc_all Ts xs ss" "\<forall>s\<in>set (butlast ss). length s < 2 ^ 32"
  shows "legacy_parse_lens (length Ts - Suc 0) (concat (map (\<lambda>s. le_bytes 4 (length s)) (butlast ss)) @ rest) = Some (map length (butlast ss))"
    "length (concat (map (\<lambda>s. le_bytes 4 (length s)) (butlast ss))) = (length Ts - Suc 0) * 4"
proof -
  have l: "length (butlast ss) = length Ts - Suc 0" using enc_all_length[OF assms(1)] by simp
  show "legacy_parse_lens (length Ts - Suc 0) (concat (map (\<lambda>s. le_bytes 4 (length s)) (butlast ss)) @ rest) = Some (map length (butlast ss))"
    using legacy_lens[OF assms(2), of rest] unfolding l .
  have "length (concat (map (\<lambda>s. le_bytes 4 (length s)) (butlast ss))) = 4 * length (butlast ss)"
    by (rule length_concat_const) simp
  then show "length (concat (map (\<lambda>s. le_bytes 4 (length s)) (butlast ss))) = (length Ts - Suc 0) * 4" using l by simp
qed

lemma legacy_value_codec:
  assumes c: "list_all2 value_codec Ts oks" and ne: "Ts \<noteq> []"
  shows "value_codec (legacy_value Ts) (tuple_ok Ts oks)"
proof
  fix xs assume xs: "tuple_ok Ts oks xs"
  let ?h = "\<lambda>ss. concat (map (\<lambda>s. le_bytes 4 (length s)) (butlast ss))"
  from legacy_encoded[OF c xs ne] obtain ss where ss: "enc_all Ts xs ss" "\<forall>s\<in>set (butlast ss). length s < 2 ^ 32"
    and b: "legacy_as_bytes Ts xs = Some (if tuple_fixed_width Ts \<noteq> None then concat ss else ?h ss @ concat ss)" by blast
  show "\<exists>b. as_bytes (legacy_value Ts) xs = Some b \<and> from_bytes (legacy_value Ts) b = Some xs"
  proof (cases "tuple_fixed_width Ts")
    case None
    then show ?thesis
      using b legacy_parse[OF ss] tuple_from_lens_round_trip[OF ss(1) ne, of "?h ss"]
      by (simp add: legacy_value_def legacy_from_bytes_def)
  next
    case (Some w)
    then show ?thesis using b tuple_fixed_round_trip[OF ss(1), of "[]" "[]"] by (simp add: legacy_value_def legacy_from_bytes_def)
  qed
  fix w d assume "fixed_width (legacy_value Ts) = Some w" "as_bytes (legacy_value Ts) xs = Some d"
  then show "length d = w" using b tuple_fixed_length[OF ss(1)] by (auto simp: legacy_value_def)
qed

lemma legacy_codec:
  assumes k: "keys_codec Ks oks cs" and ne: "Ks \<noteq> []"
  shows "key_codec (legacy_key Ks) (tuple_ok Ks oks) (lex_cmp cs)"
  unfolding legacy_key_def
proof (rule key_codecI)
  note all2 = keys_codec_all2[OF k]
  show "value_codec (legacy_value Ks) (tuple_ok Ks oks)" by (rule legacy_value_codec[OF conjunct1[OF all2] ne])
  show "total_cmp (tuple_ok Ks oks) (lex_cmp cs)"
    by (rule total_cmp_weaken[OF total_cmp_lex[OF conjunct2[OF all2]]]) (simp add: tuple_ok_def)
  let ?h = "\<lambda>ss. concat (map (\<lambda>s. le_bytes 4 (length s)) (butlast ss))"
  fix xs ys a b
  assume xs: "tuple_ok Ks oks xs" and ys: "tuple_ok Ks oks ys"
    and "as_bytes (legacy_value Ks) xs = Some a" "as_bytes (legacy_value Ks) ys = Some b"
  then have enc: "legacy_as_bytes Ks xs = Some a" "legacy_as_bytes Ks ys = Some b" by (simp_all add: legacy_value_def)
  from legacy_encoded[OF conjunct1[OF all2] xs ne] enc obtain as where as: "enc_all Ks xs as" "\<forall>s\<in>set (butlast as). length s < 2 ^ 32"
    "a = (if tuple_fixed_width Ks \<noteq> None then concat as else ?h as @ concat as)" by auto
  from legacy_encoded[OF conjunct1[OF all2] ys ne] enc obtain bs where bs: "enc_all Ks ys bs" "\<forall>s\<in>set (butlast bs). length s < 2 ^ 32"
    "b = (if tuple_fixed_width Ks \<noteq> None then concat bs else ?h bs @ concat bs)" by auto
  have cmp: "cmp_all Ks cs xs ys as bs" using cmp_all_exists[OF k _ _ as(1) bs(1)] xs ys by (simp add: tuple_ok_def)
  show "legacy_compare Ks a b = Some (lex_cmp cs xs ys)"
  proof (cases "tuple_fixed_width Ks")
    case None
    then show ?thesis
      using as(3) bs(3) legacy_parse[OF as(1,2)] legacy_parse[OF bs(1,2)]
        tuple_compare_lens_lex[OF cmp ne, of "?h as" "?h bs"] by (simp add: legacy_compare_def)
  next
    case (Some w)
    then show ?thesis using as(3) bs(3) tuple_compare_fixed_lex[OF cmp, of "[]" "[]" "[]" "[]"] by (simp add: legacy_compare_def)
  qed
qed

lemma tuple1_codec:
  assumes "key_codec K ok ord"
  shows "key_codec (tuple1_key K) ok ord" "key_codec (legacy1_key K) ok ord"
proof -
  note ax = key_codec.axioms[OF assms]
  have v: "value_codec (tuple1_value K) ok" "value_codec (legacy1_value K) ok"
    using ax(1) by (simp_all add: value_codec_def tuple1_value_def legacy1_value_def)
  show "key_codec (tuple1_key K) ok ord" "key_codec (legacy1_key K) ok ord"
    unfolding tuple1_key_def legacy1_key_def
    by (rule key_codecI[OF v(1) ax(2)], simp add: tuple1_value_def key_codec.compare_encoded[OF assms])
      (rule key_codecI[OF v(2) ax(2)], simp add: legacy1_value_def key_codec.compare_encoded[OF assms])
qed

subsection \<open>Properties\<close>

text \<open>
  C32. Every basic key type satisfies the contract of the traits: its values encode, decode to
  themselves, have the fixed width the type announces, and comparing two encodings gives the order of
  the values (numeric, of either sign; by code point; by bytes).
\<close>

theorem basic_keys_sound:
  "key_codec unit_key (\<lambda>_. True) (\<lambda>_ _. Equal) \<and>
   key_codec bool_key (\<lambda>_. True) cmp \<and>
   key_codec bytes_key (\<lambda>_. True) cmp_bytes \<and>
   key_codec (byte_array_key n) (\<lambda>b. length b = n) cmp_bytes \<and>
   key_codec str_key str_ok (\<lambda>s t. cmp_bytes (bytes_of_string s) (bytes_of_string t)) \<and>
   key_codec string_key str_ok (\<lambda>s t. cmp_bytes (bytes_of_string s) (bytes_of_string t)) \<and>
   key_codec char_key is_char cmp \<and>
   key_codec u8_key (\<lambda>_. True) (\<lambda>x y. cmp (uint x) (uint y)) \<and>
   key_codec u16_key (\<lambda>_. True) (\<lambda>x y. cmp (uint x) (uint y)) \<and>
   key_codec u32_key (\<lambda>_. True) (\<lambda>x y. cmp (uint x) (uint y)) \<and>
   key_codec u64_key (\<lambda>_. True) (\<lambda>x y. cmp (uint x) (uint y)) \<and>
   key_codec u128_key (\<lambda>_. True) (\<lambda>x y. cmp (uint x) (uint y)) \<and>
   key_codec i8_key (\<lambda>_. True) (\<lambda>x y. cmp (sint x) (sint y)) \<and>
   key_codec i16_key (\<lambda>_. True) (\<lambda>x y. cmp (sint x) (sint y)) \<and>
   key_codec i32_key (\<lambda>_. True) (\<lambda>x y. cmp (sint x) (sint y)) \<and>
   key_codec i64_key (\<lambda>_. True) (\<lambda>x y. cmp (sint x) (sint y)) \<and>
   key_codec i128_key (\<lambda>_. True) (\<lambda>x y. cmp (sint x) (sint y)) \<and>
   value_codec f32_value (\<lambda>_. True) \<and>
   value_codec f64_value (\<lambda>_. True)"
  unfolding u8_key_def u16_key_def u32_key_def u64_key_def u128_key_def i8_key_def i16_key_def i32_key_def i64_key_def
    i128_key_def f32_value_def f64_value_def
  by (intro conjI) (rule unit_codec bool_codec bytes_codec byte_array_codec str_codec string_codec char_codec
      le_codec[OF _ inj_uint] le_codec[OF _ inj_sint] le_value_codec | simp)+

lemma codec_round_trip:
  assumes "value_codec V ok"
  shows "ok x \<Longrightarrow> \<exists>b. as_bytes V x = Some b \<and> from_bytes V b = Some x \<and> (\<forall>w. fixed_width V = Some w \<longrightarrow> length b = w)"
  using value_codec.encode[OF assms, of x] value_codec.width[OF assms, of x] by blast

text \<open>
  C30. Options, arrays, vectors, tuples and legacy tuples of sound element types round-trip, and
  an encoding has the fixed width of the type whenever the type has one.
\<close>

theorem compound_values_round_trip:
  assumes "value_codec T ok" and "list_all2 value_codec Ts oks" "Ts \<noteq> []"
  shows "(option_ok ok v \<longrightarrow> (\<exists>b. as_bytes (option_value T) v = Some b \<and> from_bytes (option_value T) b = Some v \<and>
      (\<forall>w. fixed_width (option_value T) = Some w \<longrightarrow> length b = w))) \<and>
    (array_ok n T ok xs \<longrightarrow> (\<exists>b. as_bytes (array_value n T) xs = Some b \<and> from_bytes (array_value n T) b = Some xs \<and>
      (\<forall>w. fixed_width (array_value n T) = Some w \<longrightarrow> length b = w))) \<and>
    (vec_ok T ok xs \<longrightarrow> (\<exists>b. as_bytes (vec_value T) xs = Some b \<and> from_bytes (vec_value T) b = Some xs)) \<and>
    (tuple_ok Ts oks ys \<longrightarrow> (\<exists>b. as_bytes (tuple_value Ts) ys = Some b \<and> from_bytes (tuple_value Ts) b = Some ys \<and>
      (\<forall>w. fixed_width (tuple_value Ts) = Some w \<longrightarrow> length b = w))) \<and>
    (tuple_ok Ts oks ys \<longrightarrow> (\<exists>b. as_bytes (legacy_value Ts) ys = Some b \<and> from_bytes (legacy_value Ts) b = Some ys \<and>
      (\<forall>w. fixed_width (legacy_value Ts) = Some w \<longrightarrow> length b = w)))"
  using codec_round_trip[OF option_value_codec[OF assms(1)]] codec_round_trip[OF array_value_codec[OF assms(1)]]
    value_codec.encode[OF vec_value_codec[OF assms(1)]]
    codec_round_trip[OF tuple_value_codec[OF assms(2,3)]] codec_round_trip[OF legacy_value_codec[OF assms(2,3)]] by blast

theorem compound_values_round_trip_witness:
  "(\<exists>b. as_bytes (vec_value (option_value u64_key)) [Some 5, None, Some 7] = Some b \<and>
     from_bytes (vec_value (option_value u64_key)) b = Some [Some 5, None, Some 7]) \<and>
   (\<exists>b. as_bytes (tuple_value [bytes_key, bytes_key]) [[1, 2], [3]] = Some b \<and>
     from_bytes (tuple_value [bytes_key, bytes_key]) b = Some [[1, 2], [3]])"
proof -
  have o: "value_codec (option_value u64_key) (option_ok (\<lambda>_. True))"
    by (rule option_value_codec) (rule u64.value_codec_axioms)
  have b: "list_all2 value_codec [bytes_key, bytes_key] [\<lambda>_. True, \<lambda>_. True]"
    using bytes_k.value_codec_axioms by simp
  have "fixed_width (option_value u64_key) \<noteq> None" by (simp add: option_value_def u64_key_def le_impl_def le_value_def)
  then have "vec_ok (option_value u64_key) (option_ok (\<lambda>_. True)) [Some 5, None, Some 7]" by (auto simp: vec_ok_def)
  moreover have "tuple_ok [bytes_key, bytes_key] [\<lambda>_. True, \<lambda>_. True] [[1, 2], [3]]"
    by (simp add: tuple_ok_def bytes_key_def bytes_value_def)
  ultimately show ?thesis using compound_values_round_trip[OF o b] by blast
qed

text \<open>
  C31. Comparing the encodings of options, arrays and tuples is comparing the values: an absent
  value is less than every present one, and arrays and tuples compare by their first different element,
  in the order of that element's type.
\<close>

theorem compound_keys_order:
  assumes "key_codec K ok ord" and "keys_codec Ks oks cs" "Ks \<noteq> []"
  shows "(option_ok ok u \<longrightarrow> option_ok ok v \<longrightarrow> as_bytes (option_key K) u = Some a \<longrightarrow> as_bytes (option_key K) v = Some b \<longrightarrow>
      compare (option_key K) a b = Some (option_ord ord u v)) \<and>
    (array_ok n K ok xs \<longrightarrow> array_ok n K ok ys \<longrightarrow> as_bytes (array_key n K) xs = Some a \<longrightarrow> as_bytes (array_key n K) ys = Some b \<longrightarrow>
      compare (array_key n K) a b = Some (lex_cmp (replicate n ord) xs ys)) \<and>
    (tuple_ok Ks oks xs \<longrightarrow> tuple_ok Ks oks ys \<longrightarrow> as_bytes (tuple_key Ks) xs = Some a \<longrightarrow> as_bytes (tuple_key Ks) ys = Some b \<longrightarrow>
      compare (tuple_key Ks) a b = Some (lex_cmp cs xs ys)) \<and>
    (tuple_ok Ks oks xs \<longrightarrow> tuple_ok Ks oks ys \<longrightarrow> as_bytes (legacy_key Ks) xs = Some a \<longrightarrow> as_bytes (legacy_key Ks) ys = Some b \<longrightarrow>
      compare (legacy_key Ks) a b = Some (lex_cmp cs xs ys))"
  using key_codec.compare_encoded[OF option_codec[OF assms(1)]] key_codec.compare_encoded[OF array_codec[OF assms(1)]]
    key_codec.compare_encoded[OF tuple_codec[OF assms(2,3)]] key_codec.compare_encoded[OF legacy_codec[OF assms(2,3)]] by blast

theorem compound_keys_order_witness:
  "compare (tuple_key [bytes_key, bytes_key]) (the (as_bytes (tuple_key [bytes_key, bytes_key]) [[1, 2], [3]]))
     (the (as_bytes (tuple_key [bytes_key, bytes_key]) [[1, 2], [4]])) = Some Less"
proof -
  have k: "keys_codec [bytes_key, bytes_key] [\<lambda>_. True, \<lambda>_. True] [cmp_bytes, cmp_bytes]" using bytes_codec by simp
  have ok: "tuple_ok [bytes_key, bytes_key] [\<lambda>_. True, \<lambda>_. True] [[1, 2], [x]]" for x
    by (simp add: tuple_ok_def bytes_key_def bytes_value_def)
  have "as_bytes (tuple_key [bytes_key, bytes_key]) [[1, 2], [x]] \<noteq> None" for x
    using value_codec.encode[OF key_codec.axioms(1)[OF tuple_codec[OF k]], OF _ ok[of x]] by auto
  then obtain a b where "as_bytes (tuple_key [bytes_key, bytes_key]) [[1, 2], [3]] = Some a"
    "as_bytes (tuple_key [bytes_key, bytes_key]) [[1, 2], [4]] = Some b" by blast
  then show ?thesis
    using compound_keys_order[OF bytes_codec k, where xs = "[[1, 2], [3]]" and ys = "[[1, 2], [4]]" and a = a and b = b] ok
    by (simp add: cmp_def)
qed

end
