(* ===== verification/Errors.thy ===== *)
theory Errors
  imports TypeNames
begin

text \<open>
  The error types of \<^verbatim>\<open>src/src/error.rs\<close>, their conversions and their messages. An \<open>io::Error\<close> and a
  source location are represented by the text they display, a read transaction that is still in use by
  its transaction id.
\<close>

subsection \<open>Error types\<close>

type_synonym io_error = string
type_synonym location = string

definition MAX_VALUE_LENGTH :: nat where
  "MAX_VALUE_LENGTH = 3 * 1024 * 1024 * 1024"

definition FILE_FORMAT_VERSION3 :: nat where
  "FILE_FORMAT_VERSION3 = 3"

datatype StorageError =
    Corrupted string
  | ValueTooLarge nat
  | Io io_error
  | PreviousIo
  | DatabaseClosed
  | LockPoisoned location

datatype TableError =
    TableTypeMismatch (tm_table: string) (tm_key: TypeName) (tm_value: TypeName)
  | TableIsMultimap string
  | TableIsNotMultimap string
  | TypeDefinitionChanged (td_name: TypeName) (td_alignment: nat) (td_width: "nat option")
  | TableDoesNotExist string
  | TableExists string
  | TableAlreadyOpen string location
  | Storage StorageError

datatype DatabaseError =
    DatabaseAlreadyOpen
  | RepairAborted
  | UpgradeRequired nat
  | Storage StorageError
  | IncorrectPassword
  | CorruptedEncryption string
  | UnsupportedEncryption string
  | KeyDerivationFailed
  | EncryptionFailed string
  | DecryptionFailed string
  | SaltGenerationFailed
  | IncompatibleFileFormat

datatype SavepointError = InvalidSavepoint | Storage StorageError

datatype CompactionError =
    PersistentSavepointExists
  | EphemeralSavepointExists
  | TransactionInProgress
  | Storage StorageError

datatype SetDurabilityError = PersistentSavepointModified

datatype TransactionError = Storage StorageError | ReadTransactionStillInUse nat

datatype CommitError = Storage StorageError

datatype Error =
    DatabaseAlreadyOpen
  | InvalidSavepoint
  | RepairAborted
  | PersistentSavepointModified
  | PersistentSavepointExists
  | EphemeralSavepointExists
  | TransactionInProgress
  | Corrupted string
  | UpgradeRequired nat
  | ValueTooLarge nat
  | TableTypeMismatch string TypeName TypeName
  | TableIsMultimap string
  | TableIsNotMultimap string
  | TypeDefinitionChanged TypeName nat "nat option"
  | TableDoesNotExist string
  | TableExists string
  | TableAlreadyOpen string location
  | Io io_error
  | DatabaseClosed
  | PreviousIo
  | LockPoisoned location
  | ReadTransactionStillInUse nat
  | IncorrectPassword
  | CorruptedEncryption string
  | UnsupportedEncryption string
  | KeyDerivationFailed
  | EncryptionFailed string
  | DecryptionFailed string
  | SaltGenerationFailed
  | IncompatibleFileFormat

subsection \<open>Conversions\<close>

definition storage_from_poison :: "location \<Rightarrow> StorageError" where
  "storage_from_poison caller = StorageError.LockPoisoned caller"

definition storage_from_io :: "io_error \<Rightarrow> StorageError" where
  "storage_from_io err = StorageError.Io err"

fun error_from_storage :: "StorageError \<Rightarrow> Error" where
  "error_from_storage (StorageError.Corrupted msg) = Error.Corrupted msg"
| "error_from_storage (StorageError.ValueTooLarge x) = Error.ValueTooLarge x"
| "error_from_storage (StorageError.Io x) = Error.Io x"
| "error_from_storage StorageError.PreviousIo = Error.PreviousIo"
| "error_from_storage StorageError.DatabaseClosed = Error.DatabaseClosed"
| "error_from_storage (StorageError.LockPoisoned l) = Error.LockPoisoned l"

fun error_from_table :: "TableError \<Rightarrow> Error" where
  "error_from_table (TableError.TypeDefinitionChanged name alignment width) = Error.TypeDefinitionChanged name alignment width"
| "error_from_table (TableError.TableTypeMismatch table key value) = Error.TableTypeMismatch table key value"
| "error_from_table (TableError.TableIsMultimap table) = Error.TableIsMultimap table"
| "error_from_table (TableError.TableIsNotMultimap table) = Error.TableIsNotMultimap table"
| "error_from_table (TableError.TableDoesNotExist table) = Error.TableDoesNotExist table"
| "error_from_table (TableError.TableExists table) = Error.TableExists table"
| "error_from_table (TableError.TableAlreadyOpen name l) = Error.TableAlreadyOpen name l"
| "error_from_table (TableError.Storage storage) = error_from_storage storage"

definition table_from_storage :: "StorageError \<Rightarrow> TableError" where
  "table_from_storage err = TableError.Storage err"

fun error_from_database :: "DatabaseError \<Rightarrow> Error" where
  "error_from_database DatabaseError.DatabaseAlreadyOpen = Error.DatabaseAlreadyOpen"
| "error_from_database DatabaseError.RepairAborted = Error.RepairAborted"
| "error_from_database (DatabaseError.UpgradeRequired x) = Error.UpgradeRequired x"
| "error_from_database (DatabaseError.Storage storage) = error_from_storage storage"
| "error_from_database DatabaseError.IncorrectPassword = Error.IncorrectPassword"
| "error_from_database (DatabaseError.CorruptedEncryption msg) = Error.CorruptedEncryption msg"
| "error_from_database (DatabaseError.UnsupportedEncryption msg) = Error.UnsupportedEncryption msg"
| "error_from_database DatabaseError.KeyDerivationFailed = Error.KeyDerivationFailed"
| "error_from_database (DatabaseError.EncryptionFailed msg) = Error.EncryptionFailed msg"
| "error_from_database (DatabaseError.DecryptionFailed msg) = Error.DecryptionFailed msg"
| "error_from_database DatabaseError.SaltGenerationFailed = Error.SaltGenerationFailed"
| "error_from_database DatabaseError.IncompatibleFileFormat = Error.IncompatibleFileFormat"

definition database_from_io :: "io_error \<Rightarrow> DatabaseError" where
  "database_from_io err = DatabaseError.Storage (StorageError.Io err)"

definition database_from_storage :: "StorageError \<Rightarrow> DatabaseError" where
  "database_from_storage err = DatabaseError.Storage err"

fun error_from_savepoint :: "SavepointError \<Rightarrow> Error" where
  "error_from_savepoint SavepointError.InvalidSavepoint = Error.InvalidSavepoint"
| "error_from_savepoint (SavepointError.Storage storage) = error_from_storage storage"

definition savepoint_from_storage :: "StorageError \<Rightarrow> SavepointError" where
  "savepoint_from_storage err = SavepointError.Storage err"

fun error_from_compaction :: "CompactionError \<Rightarrow> Error" where
  "error_from_compaction CompactionError.PersistentSavepointExists = Error.PersistentSavepointExists"
| "error_from_compaction CompactionError.EphemeralSavepointExists = Error.EphemeralSavepointExists"
| "error_from_compaction CompactionError.TransactionInProgress = Error.TransactionInProgress"
| "error_from_compaction (CompactionError.Storage storage) = error_from_storage storage"

definition compaction_from_storage :: "StorageError \<Rightarrow> CompactionError" where
  "compaction_from_storage err = CompactionError.Storage err"

fun error_from_set_durability :: "SetDurabilityError \<Rightarrow> Error" where
  "error_from_set_durability SetDurabilityError.PersistentSavepointModified = Error.PersistentSavepointModified"

fun error_from_transaction :: "TransactionError \<Rightarrow> Error" where
  "error_from_transaction (TransactionError.Storage storage) = error_from_storage storage"
| "error_from_transaction (TransactionError.ReadTransactionStillInUse txn) = Error.ReadTransactionStillInUse txn"

definition transaction_from_storage :: "StorageError \<Rightarrow> TransactionError" where
  "transaction_from_storage err = TransactionError.Storage err"

fun transaction_into_storage_error :: "TransactionError \<Rightarrow> StorageError option" where
  "transaction_into_storage_error (TransactionError.Storage storage) = Some storage"
| "transaction_into_storage_error (TransactionError.ReadTransactionStillInUse _) = None"

fun error_from_commit :: "CommitError \<Rightarrow> Error" where
  "error_from_commit (CommitError.Storage storage) = error_from_storage storage"

definition commit_from_storage :: "StorageError \<Rightarrow> CommitError" where
  "commit_from_storage err = CommitError.Storage err"

fun commit_into_storage_error :: "CommitError \<Rightarrow> StorageError" where
  "commit_into_storage_error (CommitError.Storage storage) = storage"

definition error_from_poison :: "location \<Rightarrow> Error" where
  "error_from_poison caller = Error.LockPoisoned caller"

definition error_from_io :: "io_error \<Rightarrow> Error" where
  "error_from_io err = Error.Io err"

subsection \<open>Messages\<close>

text \<open>\<open>Debug\<close> for \<open>Option<usize>\<close>.\<close>

definition debug_option_nat :: "nat option \<Rightarrow> string" where
  "debug_option_nat w = (case w of None \<Rightarrow> ''None'' | Some n \<Rightarrow> ''Some('' @ show_nat n @ '')'')"

fun storage_error_fmt :: "StorageError \<Rightarrow> string" where
  "storage_error_fmt (StorageError.Corrupted msg) = ''DB corrupted: '' @ msg"
| "storage_error_fmt (StorageError.ValueTooLarge len) = ''The value (length='' @ show_nat len @
     '') being inserted exceeds the maximum of '' @ show_nat (MAX_VALUE_LENGTH div 1024 div 1024 div 1024) @ ''GiB''"
| "storage_error_fmt (StorageError.Io err) = ''I/O error: '' @ err"
| "storage_error_fmt StorageError.DatabaseClosed = ''Database has been closed''"
| "storage_error_fmt StorageError.PreviousIo = ''Previous I/O error occurred. Please close and re-open the database.''"
| "storage_error_fmt (StorageError.LockPoisoned l) = ''Poisoned internal lock: '' @ l"

fun table_error_fmt :: "TableError \<Rightarrow> string" where
  "table_error_fmt (TableError.TypeDefinitionChanged name alignment width) = ''Current definition of '' @ tn_name name @
     '' does not match stored definition (width='' @ debug_option_nat width @ '', alignment='' @ show_nat alignment @ '')''"
| "table_error_fmt (TableError.TableTypeMismatch table key value) =
     table @ '' is of type Table<'' @ tn_name key @ '', '' @ tn_name value @ ''>''"
| "table_error_fmt (TableError.TableIsMultimap table) = table @ '' is a multimap table''"
| "table_error_fmt (TableError.TableIsNotMultimap table) = table @ '' is not a multimap table''"
| "table_error_fmt (TableError.TableDoesNotExist table) = ''Table '' @ [CHR 0x27] @ table @ [CHR 0x27] @ '' does not exist''"
| "table_error_fmt (TableError.TableExists table) = ''Table '' @ [CHR 0x27] @ table @ [CHR 0x27] @ '' already exists''"
| "table_error_fmt (TableError.TableAlreadyOpen name l) = ''Table '' @ [CHR 0x27] @ name @ [CHR 0x27] @ '' already opened at: '' @ l"
| "table_error_fmt (TableError.Storage storage) = storage_error_fmt storage"

fun table_into_storage_error_or_corrupted :: "TableError \<Rightarrow> string \<Rightarrow> StorageError" where
  "table_into_storage_error_or_corrupted (TableError.Storage storage) msg = storage"
| "table_into_storage_error_or_corrupted e msg = StorageError.Corrupted (msg @ '': '' @ table_error_fmt e)"

fun database_error_fmt :: "DatabaseError \<Rightarrow> string" where
  "database_error_fmt (DatabaseError.UpgradeRequired actual) = ''Manual upgrade required. Expected file format version '' @
     show_nat FILE_FORMAT_VERSION3 @ '', but file is version '' @ show_nat actual"
| "database_error_fmt DatabaseError.RepairAborted = ''Database repair aborted.''"
| "database_error_fmt DatabaseError.DatabaseAlreadyOpen = ''Database already open. Cannot acquire lock.''"
| "database_error_fmt (DatabaseError.Storage storage) = storage_error_fmt storage"
| "database_error_fmt DatabaseError.IncorrectPassword = ''Incorrect password provided for encrypted database.''"
| "database_error_fmt (DatabaseError.CorruptedEncryption msg) = ''Encryption data is corrupted: '' @ msg"
| "database_error_fmt (DatabaseError.UnsupportedEncryption msg) = ''Unsupported encryption algorithm or parameters: '' @ msg"
| "database_error_fmt DatabaseError.KeyDerivationFailed = ''Key derivation failed.''"
| "database_error_fmt (DatabaseError.EncryptionFailed msg) = ''Encryption operation failed: '' @ msg"
| "database_error_fmt (DatabaseError.DecryptionFailed msg) = ''Decryption operation failed: '' @ msg"
| "database_error_fmt DatabaseError.SaltGenerationFailed = ''Salt generation failed.''"
| "database_error_fmt DatabaseError.IncompatibleFileFormat = ''Incompatible file format.''"

fun savepoint_error_fmt :: "SavepointError \<Rightarrow> string" where
  "savepoint_error_fmt SavepointError.InvalidSavepoint = ''Savepoint is invalid or cannot be created.''"
| "savepoint_error_fmt (SavepointError.Storage storage) = storage_error_fmt storage"

fun compaction_error_fmt :: "CompactionError \<Rightarrow> string" where
  "compaction_error_fmt CompactionError.PersistentSavepointExists = ''Persistent savepoint exists. Operation cannot be performed.''"
| "compaction_error_fmt CompactionError.EphemeralSavepointExists = ''Ephemeral savepoint exists. Operation cannot be performed.''"
| "compaction_error_fmt CompactionError.TransactionInProgress = ''A transaction is still in progress. Operation cannot be performed.''"
| "compaction_error_fmt (CompactionError.Storage storage) = storage_error_fmt storage"

fun set_durability_error_fmt :: "SetDurabilityError \<Rightarrow> string" where
  "set_durability_error_fmt SetDurabilityError.PersistentSavepointModified =
     ''Persistent savepoint modified. Cannot reduce transaction durability''"

fun transaction_error_fmt :: "TransactionError \<Rightarrow> string" where
  "transaction_error_fmt (TransactionError.Storage storage) = storage_error_fmt storage"
| "transaction_error_fmt (TransactionError.ReadTransactionStillInUse _) = ''Transaction still in use''"

fun commit_error_fmt :: "CommitError \<Rightarrow> string" where
  "commit_error_fmt (CommitError.Storage storage) = storage_error_fmt storage"

fun error_fmt :: "Error \<Rightarrow> string" where
  "error_fmt (Error.Corrupted msg) = ''DB corrupted: '' @ msg"
| "error_fmt (Error.UpgradeRequired actual) = ''Manual upgrade required. Expected file format version '' @
     show_nat FILE_FORMAT_VERSION3 @ '', but file is version '' @ show_nat actual"
| "error_fmt (Error.ValueTooLarge len) = ''The value (length='' @ show_nat len @
     '') being inserted exceeds the maximum of '' @ show_nat (MAX_VALUE_LENGTH div 1024 div 1024 div 1024) @ ''GiB''"
| "error_fmt (Error.TypeDefinitionChanged name alignment width) = ''Current definition of '' @ tn_name name @
     '' does not match stored definition (width='' @ debug_option_nat width @ '', alignment='' @ show_nat alignment @ '')''"
| "error_fmt (Error.TableTypeMismatch table key value) =
     table @ '' is of type Table<'' @ tn_name key @ '', '' @ tn_name value @ ''>''"
| "error_fmt (Error.TableIsMultimap table) = table @ '' is a multimap table''"
| "error_fmt (Error.TableIsNotMultimap table) = table @ '' is not a multimap table''"
| "error_fmt (Error.TableDoesNotExist table) = ''Table '' @ [CHR 0x27] @ table @ [CHR 0x27] @ '' does not exist''"
| "error_fmt (Error.TableExists table) = ''Table '' @ [CHR 0x27] @ table @ [CHR 0x27] @ '' already exists''"
| "error_fmt (Error.TableAlreadyOpen name l) = ''Table '' @ [CHR 0x27] @ name @ [CHR 0x27] @ '' already opened at: '' @ l"
| "error_fmt (Error.Io err) = ''I/O error: '' @ err"
| "error_fmt Error.DatabaseClosed = ''Database has been closed''"
| "error_fmt Error.PreviousIo = ''Previous I/O error occurred. Please close and re-open the database.''"
| "error_fmt (Error.LockPoisoned l) = ''Poisoned internal lock: '' @ l"
| "error_fmt Error.DatabaseAlreadyOpen = ''Database already open. Cannot acquire lock.''"
| "error_fmt Error.RepairAborted = ''Database repair aborted.''"
| "error_fmt Error.PersistentSavepointModified = ''Persistent savepoint modified. Cannot reduce transaction durability''"
| "error_fmt Error.PersistentSavepointExists = ''Persistent savepoint exists. Operation cannot be performed.''"
| "error_fmt Error.EphemeralSavepointExists = ''Ephemeral savepoint exists. Operation cannot be performed.''"
| "error_fmt Error.TransactionInProgress = ''A transaction is still in progress. Operation cannot be performed.''"
| "error_fmt Error.InvalidSavepoint = ''Savepoint is invalid or cannot be created.''"
| "error_fmt (Error.ReadTransactionStillInUse _) = ''Transaction still in use''"
| "error_fmt Error.IncorrectPassword = ''Incorrect password provided for encrypted database.''"
| "error_fmt (Error.CorruptedEncryption msg) = ''Encryption data is corrupted: '' @ msg"
| "error_fmt (Error.UnsupportedEncryption msg) = ''Unsupported encryption algorithm or parameters: '' @ msg"
| "error_fmt Error.KeyDerivationFailed = ''Key derivation failed.''"
| "error_fmt (Error.EncryptionFailed msg) = ''Encryption operation failed: '' @ msg"
| "error_fmt (Error.DecryptionFailed msg) = ''Decryption operation failed: '' @ msg"
| "error_fmt Error.SaltGenerationFailed = ''Salt generation failed.''"
| "error_fmt Error.IncompatibleFileFormat = ''Incompatible file format.''"

subsection \<open>Properties\<close>

lemma storage_fmt [simp]: "error_fmt (error_from_storage e) = storage_error_fmt e"
  by (cases e) simp_all

lemma error_from_storage_inject: "error_from_storage a = error_from_storage b \<longleftrightarrow> a = b"
  by (cases a; cases b) auto


end
