(* ===== verification/Ordered_Map.thy ===== *)
theory Ordered_Map
  imports Prelude "HOL-Library.Multiset"
begin

text \<open>
  \<open>BTreeMap\<close> and \<open>BTreeSet\<close> of the standard library as key-sorted association lists, and the
  reference-counting idiom the program builds on them: an entry per live key, removed when its count
  drops to zero. The contract of a reference count is the locale \<open>refcount\<close>.
\<close>

subsection \<open>Maps sorted by key\<close>

type_synonym ('k, 'v) btree_map = "('k \<times> 'v) list"

definition om_ok :: "('k::linorder \<times> 'v) list \<Rightarrow> bool" where
  "om_ok m \<longleftrightarrow> sorted_wrt (<) (map fst m)"

fun om_insert :: "'k::linorder \<Rightarrow> 'v \<Rightarrow> ('k \<times> 'v) list \<Rightarrow> ('k \<times> 'v) list" where
  "om_insert k v [] = [(k, v)]"
| "om_insert k v ((x, y) # m) =
     (if k < x then (k, v) # (x, y) # m else if k = x then (k, v) # m else (x, y) # om_insert k v m)"

definition om_remove :: "'k \<Rightarrow> ('k \<times> 'v) list \<Rightarrow> ('k \<times> 'v) list" where
  "om_remove k m = filter (\<lambda>e. fst e \<noteq> k) m"

definition om_first :: "('k \<times> 'v) list \<Rightarrow> ('k \<times> 'v) option" where
  "om_first m = (case m of [] \<Rightarrow> None | e # _ \<Rightarrow> Some e)"

named_theorems om_simps \<open>lookups in sorted maps\<close>

lemma om_ok_simps [simp]:
  "om_ok []"
  "om_ok ((k, v) # m) \<longleftrightarrow> (\<forall>x \<in> fst ` set m. k < x) \<and> om_ok m"
  by (auto simp: om_ok_def)

lemma om_insert_keys: "fst ` set (om_insert k v m) = insert k (fst ` set m)"
proof (induction m)
  case (Cons e m)
  then show ?case by (cases e) (simp add: insert_commute)
qed simp

lemma om_insert_ok [simp]: "om_ok m \<Longrightarrow> om_ok (om_insert k v m)"
proof (induction m)
  case (Cons e m)
  obtain x y where e: "e = (x, y)" by (cases e)
  show ?case using Cons e om_insert_keys[of k v m] by (auto dest: less_trans)
qed simp

lemma om_insert_get [om_simps]: "om_ok m \<Longrightarrow> map_of (om_insert k v m) = (map_of m)(k \<mapsto> v)"
proof (induction m)
  case (Cons e m)
  obtain x y where e: "e = (x, y)" by (cases e)
  show ?case using Cons e by (auto simp: fun_eq_iff)
qed (auto simp: fun_eq_iff)

lemma om_remove_ok [simp]: "om_ok m \<Longrightarrow> om_ok (om_remove k m)"
  by (induction m) (auto simp: om_remove_def)

lemma om_remove_get [om_simps]: "map_of (om_remove k m) = (map_of m)(k := None)"
  by (induction m) (auto simp: om_remove_def fun_eq_iff)

lemma om_filter_ok [simp]: "om_ok m \<Longrightarrow> om_ok (filter P m)"
  by (induction m) auto

lemma om_ok_distinct: "om_ok m \<Longrightarrow> distinct (map fst m)"
  by (auto simp: om_ok_def strict_sorted_iff)

lemma om_filter_get: "om_ok m \<Longrightarrow> map_of (filter (\<lambda>e. P (fst e)) m) k = (if P k then map_of m k else None)"
  by (induction m) auto

text \<open>The first entry has the least key.\<close>

lemma om_first_least:
  "om_ok m \<Longrightarrow> om_first m = Some (k, v) \<longleftrightarrow> map_of m k = Some v \<and> (\<forall>k' \<in> dom (map_of m). k \<le> k')"
  "om_first m = None \<longleftrightarrow> map_of m = Map.empty"
proof -
  show "om_first m = None \<longleftrightarrow> map_of m = Map.empty" by (cases m) (auto simp: om_first_def)
  assume ok: "om_ok m"
  show "om_first m = Some (k, v) \<longleftrightarrow> map_of m k = Some v \<and> (\<forall>k' \<in> dom (map_of m). k \<le> k')"
  proof (cases m)
    case (Cons e r)
    obtain x y where e: "e = (x, y)" by (cases e)
    have less: "\<And>z. z \<in> fst ` set r \<Longrightarrow> x < z" using ok Cons e by auto
    have dom: "dom (map_of m) = insert x (fst ` set r)" using Cons e by (auto simp: dom_map_of_conv_image_fst)
    show ?thesis
    proof
      assume "om_first m = Some (k, v)"
      then show "map_of m k = Some v \<and> (\<forall>k' \<in> dom (map_of m). k \<le> k')"
        using Cons e dom less by (auto simp: om_first_def less_imp_le)
    next
      assume a: "map_of m k = Some v \<and> (\<forall>k' \<in> dom (map_of m). k \<le> k')"
      then have "k \<le> x" "k \<in> insert x (fst ` set r)" using dom by auto
      then have "k = x" using less by force
      then show "om_first m = Some (k, v)" using a Cons e by (simp add: om_first_def)
    qed
  qed (simp add: om_first_def)
qed

subsection \<open>Reference counts\<close>

locale refcount =
  fixes ok :: "'m \<Rightarrow> bool"
    and cnt :: "'m \<Rightarrow> 'k \<Rightarrow> nat"
    and acquire :: "'k \<Rightarrow> 'm \<Rightarrow> 'm"
    and release :: "'k \<Rightarrow> 'm \<Rightarrow> 'm option"
  assumes ok_acquire: "ok m \<Longrightarrow> ok (acquire k m)"
    and cnt_acquire: "ok m \<Longrightarrow> cnt (acquire k m) = (cnt m)(k := cnt m k + 1)"
    and release_some: "ok m \<Longrightarrow> 0 < cnt m k \<Longrightarrow>
      \<exists>m'. release k m = Some m' \<and> ok m' \<and> cnt m' = (cnt m)(k := cnt m k - 1)"
begin

text \<open>The counts of a map are the multiplicities of the multiset of its holders.\<close>

lemma acquire_holders: "ok m \<Longrightarrow> cnt m = count H \<Longrightarrow> ok (acquire k m) \<and> cnt (acquire k m) = count (add_mset k H)"
  by (auto simp: ok_acquire cnt_acquire fun_eq_iff)

lemma release_holders:
  assumes "ok m" "cnt m = count H" "k \<in># H"
  shows "\<exists>m'. release k m = Some m' \<and> ok m' \<and> cnt m' = count (H - {#k#})"
proof -
  have "0 < cnt m k" using assms(2,3) by simp
  from release_some[OF assms(1) this] assms(2) show ?thesis by (auto simp: fun_eq_iff)
qed

lemma release_list_holders:
  assumes "ok m" "cnt m = count H" "mset ks \<subseteq># H"
  shows "\<exists>m'. fold_opt release ks m = Some m' \<and> ok m' \<and> cnt m' = count (H - mset ks)"
  using assms
proof (induction ks arbitrary: m H)
  case (Cons k ks)
  then have "k \<in># H" by (auto simp: insert_subset_eq_iff)
  from release_holders[OF Cons.prems(1,2) this] obtain m' where
    m': "release k m = Some m'" "ok m'" "cnt m' = count (H - {#k#})" by blast
  have "mset ks \<subseteq># H - {#k#}" using Cons.prems(3) by (simp add: insert_subset_eq_iff)
  from Cons.IH[OF m'(2,3) this] m'(1) show ?case by simp
qed simp

end

text \<open>The idiom on a sorted map: \<open>entry(k).and_modify(|x| *x += 1).or_insert(1)\<close> and its undoing.\<close>

definition rc_acquire :: "'k::linorder \<Rightarrow> ('k, nat) btree_map \<Rightarrow> ('k, nat) btree_map" where
  "rc_acquire k m = (case map_of m k of Some n \<Rightarrow> om_insert k (n + 1) m | None \<Rightarrow> om_insert k 1 m)"

definition rc_release :: "'k::linorder \<Rightarrow> ('k, nat) btree_map \<Rightarrow> ('k, nat) btree_map option" where
  "rc_release k m = do {
     n \<leftarrow> map_of m k;
     assert_that (0 < n);
     Some (if n - 1 = 0 then om_remove k m else om_insert k (n - 1) m) }"

definition rc_ok :: "('k::linorder, nat) btree_map \<Rightarrow> bool" where
  "rc_ok m \<longleftrightarrow> om_ok m \<and> (\<forall>k. map_of m k \<noteq> Some 0)"

definition rc_count :: "('k::linorder, nat) btree_map \<Rightarrow> 'k \<Rightarrow> nat" where
  "rc_count m k = (case map_of m k of Some n \<Rightarrow> n | None \<Rightarrow> 0)"

interpretation rc: refcount rc_ok rc_count rc_acquire rc_release
proof unfold_locales
  fix m :: "('k::linorder, nat) btree_map" and k :: 'k
  assume ok: "rc_ok m"
  show "rc_ok (rc_acquire k m)" "rc_count (rc_acquire k m) = (rc_count m)(k := rc_count m k + 1)"
    using ok by (auto simp: rc_ok_def rc_acquire_def rc_count_def om_simps fun_eq_iff split: option.splits)
  assume "0 < rc_count m k"
  then obtain n where n: "map_of m k = Some n" "0 < n" by (auto simp: rc_count_def split: option.splits)
  let ?m' = "if n - 1 = 0 then om_remove k m else om_insert k (n - 1) m"
  have "rc_release k m = Some ?m'" using n by (simp add: rc_release_def)
  moreover have "rc_ok ?m'" "rc_count ?m' = (rc_count m)(k := rc_count m k - 1)"
    using n ok by (auto simp: rc_ok_def rc_count_def om_simps fun_eq_iff)
  ultimately show "\<exists>m'. rc_release k m = Some m' \<and> rc_ok m' \<and> rc_count m' = (rc_count m)(k := rc_count m k - 1)"
    by blast
qed

lemma rc_dom: "rc_ok m \<Longrightarrow> rc_count m = count H \<Longrightarrow> dom (map_of m) = set_mset H"
proof (intro set_eqI)
  fix k assume ok: "rc_ok m" and c: "rc_count m = count H"
  have "k \<in> dom (map_of m) \<longleftrightarrow> 0 < rc_count m k"
  proof (cases "map_of m k")
    case (Some n)
    moreover have "n \<noteq> 0" using Some ok unfolding rc_ok_def by metis
    ultimately show ?thesis by (auto simp: rc_count_def)
  qed (simp add: rc_count_def domIff)
  then show "k \<in> dom (map_of m) \<longleftrightarrow> k \<in> set_mset H" using c by simp
qed

end
