(* ===== verification/Bitmap.thy ===== *)
theory Bitmap
  imports Prelude
begin

text \<open>
  The bitmaps of \<^verbatim>\<open>src/src/tree_store/page_store/bitmap.rs\<close>: \<open>U64GroupedBitmap\<close>, a vector of
  64-bit groups with a logical length, and \<open>BtreeBitmap\<close>, a 64-way tree of them in which a bit
  of one level says whether the corresponding group of the next level is completely set.

  A set bit means "allocated". The theory shows that the tree operations implement a finite
  set of unset indices: \<open>find_first_unset\<close> returns the least one, \<open>set\<close> and \<open>clear\<close> remove and add one,
  \<open>alloc\<close> takes the least one, \<open>count_unset\<close> counts them, and the serialised form
  reads back to a tree with the same set. The interface that the buddy allocator and the
  region tracker use is the locale \<open>free_index\<close> at the end.
\<close>

subsection \<open>Grouped bitmaps\<close>

record U64GroupedBitmap =
  gb_len :: nat
  gb_data :: "u64 list"

definition u64_MAX :: u64 where
  "u64_MAX = - 1"

definition required_words :: "nat \<Rightarrow> nat" where
  "required_words elements = div_ceil elements 64"

definition gb_new_full :: "nat \<Rightarrow> nat \<Rightarrow> U64GroupedBitmap" where
  "gb_new_full len capacity = \<lparr>gb_len = len, gb_data = replicate (required_words capacity) u64_MAX\<rparr>"

definition data_index_of :: "nat \<Rightarrow> nat \<times> nat" where
  "data_index_of b = (b div 64, b mod 64)"

definition select_mask :: "nat \<Rightarrow> u64" where
  "select_mask b = push_bit b 1"

definition count_zeros :: "u64 \<Rightarrow> nat" where
  "count_zeros w = length (filter (\<lambda>i. \<not> bit w i) [0..<64])"

definition trailing_ones :: "u64 \<Rightarrow> nat" where
  "trailing_ones w = length (takeWhile (bit w) [0..<64])"

definition gb_count_unset :: "U64GroupedBitmap \<Rightarrow> nat" where
  "gb_count_unset b = sum_list (map count_zeros (gb_data b))"

definition gb_any_unset :: "U64GroupedBitmap \<Rightarrow> bool" where
  "gb_any_unset b = list_ex (\<lambda>x. 0 < count_zeros x) (gb_data b)"

definition gb_first_unset :: "U64GroupedBitmap \<Rightarrow> nat \<Rightarrow> nat \<Rightarrow> nat option option" where
  "gb_first_unset b start_bit end_bit = do {
     assert_that (end_bit = (start_bit - start_bit mod 64) + 64);
     if gb_len b = 0 then Some None
     else do {
       let (index, bi) = data_index_of start_bit;
       let mask = push_bit bi 1 - 1;
       g \<leftarrow> idx (gb_data b) index;
       let group = g OR mask;
       let x = trailing_ones group;
       if x = 64 then Some None else Some (Some (start_bit + x - bi)) } }"

definition gb_get :: "U64GroupedBitmap \<Rightarrow> nat \<Rightarrow> bool option" where
  "gb_get b i = do {
     assert_that (i < gb_len b);
     let (index, bit_index) = data_index_of i;
     group \<leftarrow> idx (gb_data b) index;
     Some (group AND select_mask bit_index \<noteq> 0) }"

text \<open>\<open>set\<close> also returns whether the bit's group is now completely set.\<close>

definition gb_set :: "U64GroupedBitmap \<Rightarrow> nat \<Rightarrow> (bool \<times> U64GroupedBitmap) option" where
  "gb_set b i = do {
     assert_that (i < gb_len b);
     let (index, bit_index) = data_index_of i;
     g \<leftarrow> idx (gb_data b) index;
     let group = g OR select_mask bit_index;
     Some (group = u64_MAX, b\<lparr>gb_data := (gb_data b)[index := group]\<rparr>) }"

definition gb_clear :: "U64GroupedBitmap \<Rightarrow> nat \<Rightarrow> U64GroupedBitmap option" where
  "gb_clear b i = do {
     assert_that (i < gb_len b);
     let (index, bit_index) = data_index_of i;
     g \<leftarrow> idx (gb_data b) index;
     Some (b\<lparr>gb_data := (gb_data b)[index := g AND NOT (select_mask bit_index)]\<rparr>) }"

definition gb_resize :: "U64GroupedBitmap \<Rightarrow> nat \<Rightarrow> bool \<Rightarrow> U64GroupedBitmap option" where
  "gb_resize b new_len full =
     (let default_value = (if full then u64_MAX else 0);
          data = (if length (gb_data b) < required_words new_len
                  then gb_data b @ replicate (required_words new_len - length (gb_data b)) default_value
                  else gb_data b);
          old_len = gb_len b;
          b' = \<lparr>gb_len = new_len, gb_data = data\<rparr>
      in fold_opt (\<lambda>i c. if full then map_option snd (gb_set c i) else gb_clear c i)
           [old_len..<new_len] b')"

definition gb_to_vec :: "U64GroupedBitmap \<Rightarrow> bytes option" where
  "gb_to_vec b = do {
     groups \<leftarrow> subslice (gb_data b) 0 (required_words (gb_len b));
     Some (le_bytes 4 (gb_len b) @ concat (map (\<lambda>x. le_bytes 8 (unat x)) groups)) }"

definition gb_from_bytes :: "bytes \<Rightarrow> U64GroupedBitmap option" where
  "gb_from_bytes serialized = do {
     assert_that (4 \<le> length serialized);
     assert_that ((length serialized - 4) mod 8 = 0);
     l \<leftarrow> subslice serialized 0 4;
     let words = (length serialized - 4) div 8;
     data \<leftarrow> map_opt (\<lambda>i. do {
         v \<leftarrow> subslice serialized (4 + i * 8) (4 + i * 8 + 8);
         Some (word_of_nat (from_le v)) }) [0..<words];
     Some \<lparr>gb_len = from_le l, gb_data = data\<rparr> }"

text \<open>The checksum function is a parameter; see the header of the root theory.\<close>

definition gb_xxh3_hash :: "(bytes \<Rightarrow> u128) \<Rightarrow> U64GroupedBitmap \<Rightarrow> u128 option" where
  "gb_xxh3_hash xxh3 b =
     (if gb_len b = 0 then Some 0
      else do {
        groups \<leftarrow> subslice (gb_data b) 0 (required_words (gb_len b) - 1);
        let (index, bi) = data_index_of (gb_len b - 1);
        let mask = (push_bit bi 1 - 1) OR push_bit bi 1;
        g \<leftarrow> idx (gb_data b) index;
        Some (xxh3 (le_bytes 4 (gb_len b) @ concat (map (\<lambda>x. le_bytes 8 (unat x)) groups)
               @ le_bytes 8 (unat (g AND mask)))) })"

subsection \<open>The 64-way tree\<close>

record BtreeBitmap =
  bt_heights :: "U64GroupedBitmap list"

text \<open>Level 0 is the root and the last level holds the leaves.\<close>

definition bt_get_level :: "BtreeBitmap \<Rightarrow> nat \<Rightarrow> U64GroupedBitmap option" where
  "bt_get_level m i = idx (bt_heights m) i"

definition bt_leaf_level :: "BtreeBitmap \<Rightarrow> U64GroupedBitmap option" where
  "bt_leaf_level m = do {
     assert_that (0 < length (bt_heights m));
     bt_get_level m (length (bt_heights m) - 1) }"

definition bt_count_unset :: "BtreeBitmap \<Rightarrow> nat option" where
  "bt_count_unset m = map_option gb_count_unset (bt_leaf_level m)"

definition bt_has_unset :: "BtreeBitmap \<Rightarrow> bool option" where
  "bt_has_unset m = map_option gb_any_unset (bt_leaf_level m)"

definition bt_get :: "BtreeBitmap \<Rightarrow> nat \<Rightarrow> bool option" where
  "bt_get m i = do { l \<leftarrow> bt_leaf_level m; gb_get l i }"

definition bt_len :: "BtreeBitmap \<Rightarrow> nat option" where
  "bt_len m = map_option gb_len (bt_leaf_level m)"

text \<open>The descent of \<open>find_first_unset\<close> below the root, one level per step.\<close>

fun bt_descend :: "U64GroupedBitmap list \<Rightarrow> nat \<Rightarrow> nat option" where
  "bt_descend [] entry = Some entry"
| "bt_descend (l # ls) entry = do {
     r \<leftarrow> gb_first_unset l (entry * 64) (entry * 64 + 64);
     e \<leftarrow> r;
     bt_descend ls e }"

definition bt_find_first_unset :: "BtreeBitmap \<Rightarrow> nat option option" where
  "bt_find_first_unset m = do {
     root \<leftarrow> bt_get_level m 0;
     r \<leftarrow> gb_first_unset root 0 64;
     case r of
       Some entry \<Rightarrow> map_option Some (bt_descend (tl (bt_heights m)) entry)
     | None \<Rightarrow> Some None }"

text \<open>
  \<open>update_to_root\<close> walks the levels above the leaves from the nearest parent to the root; the
  argument lists them in that order.
\<close>

fun bt_update_levels :: "U64GroupedBitmap list \<Rightarrow> nat \<Rightarrow> bool \<Rightarrow> U64GroupedBitmap list option" where
  "bt_update_levels [] parent_entry full = Some []"
| "bt_update_levels (p # ps) parent_entry full = do {
     (full', p') \<leftarrow> (if full then gb_set p parent_entry
                     else do { p' \<leftarrow> gb_clear p parent_entry; Some (False, p') });
     ps' \<leftarrow> bt_update_levels ps (parent_entry div 64) full';
     Some (p' # ps') }"

definition bt_update_to_root ::
  "U64GroupedBitmap \<Rightarrow> U64GroupedBitmap list \<Rightarrow> nat \<Rightarrow> bool \<Rightarrow> BtreeBitmap option" where
  "bt_update_to_root leaf parents i full = do {
     ps \<leftarrow> bt_update_levels parents (i div 64) full;
     Some \<lparr>bt_heights = rev (leaf # ps)\<rparr> }"

definition bt_set :: "BtreeBitmap \<Rightarrow> nat \<Rightarrow> BtreeBitmap option" where
  "bt_set m i = (case rev (bt_heights m) of
       [] \<Rightarrow> None
     | leaf # parents \<Rightarrow> do {
         (full, leaf') \<leftarrow> gb_set leaf i;
         bt_update_to_root leaf' parents i full })"

definition bt_clear :: "BtreeBitmap \<Rightarrow> nat \<Rightarrow> BtreeBitmap option" where
  "bt_clear m i = (case rev (bt_heights m) of
       [] \<Rightarrow> None
     | leaf # parents \<Rightarrow> do {
         leaf' \<leftarrow> gb_clear leaf i;
         bt_update_to_root leaf' parents i False })"

definition bt_alloc :: "BtreeBitmap \<Rightarrow> (nat option \<times> BtreeBitmap) option" where
  "bt_alloc m = do {
     r \<leftarrow> bt_find_first_unset m;
     case r of
       None \<Rightarrow> Some (None, m)
     | Some entry \<Rightarrow> do { m' \<leftarrow> bt_set m entry; Some (Some entry, m') } }"

function bt_new_levels :: "nat \<Rightarrow> nat \<Rightarrow> U64GroupedBitmap list" where
  "bt_new_levels num_pages capacity =
     gb_new_full num_pages capacity #
       (if capacity \<le> 64 then [] else bt_new_levels (div_ceil num_pages 64) (div_ceil capacity 64))"
  by pat_completeness auto
termination
proof (relation "measure snd")
  fix num_pages capacity :: nat
  assume "\<not> capacity \<le> 64"
  then have "div_ceil capacity 64 < capacity"
    by (auto simp: div_ceil_def)
  then show "((div_ceil num_pages 64, div_ceil capacity 64), num_pages, capacity) \<in> measure snd"
    by simp
qed simp

declare bt_new_levels.simps [simp del]

definition bt_new :: "nat \<Rightarrow> nat \<Rightarrow> BtreeBitmap" where
  "bt_new num_pages capacity = \<lparr>bt_heights = rev (bt_new_levels num_pages capacity)\<rparr>"

fun bt_resize_levels :: "U64GroupedBitmap list \<Rightarrow> nat \<Rightarrow> bool \<Rightarrow> U64GroupedBitmap list option" where
  "bt_resize_levels [] new_len full = Some []"
| "bt_resize_levels (l # ls) new_len full = do {
     l' \<leftarrow> gb_resize l new_len full;
     ls' \<leftarrow> bt_resize_levels ls (div_ceil new_len 64) full;
     Some (l' # ls') }"

definition bt_resize :: "BtreeBitmap \<Rightarrow> nat \<Rightarrow> bool \<Rightarrow> BtreeBitmap option" where
  "bt_resize m new_len full = do {
     ls \<leftarrow> bt_resize_levels (rev (bt_heights m)) new_len full;
     root \<leftarrow> idx (rev ls) 0;
     assert_that (gb_len root \<le> 64);
     Some \<lparr>bt_heights = rev ls\<rparr> }"

definition bt_to_vec :: "BtreeBitmap \<Rightarrow> bytes option" where
  "bt_to_vec m = do {
     assert_that (length (bt_heights m) < 2 ^ 32);
     vecs \<leftarrow> map_opt gb_to_vec (bt_heights m);
     offs \<leftarrow> end_offsets (4 + length (bt_heights m) * 4) (map length vecs);
     Some (le_bytes 4 (length (bt_heights m)) @ concat (map (le_bytes 4) offs) @ concat vecs) }"

definition bt_from_bytes :: "bytes \<Rightarrow> BtreeBitmap option" where
  "bt_from_bytes data = do {
     h \<leftarrow> subslice data 0 4;
     let height = from_le h;
     heights \<leftarrow> read_sections data gb_from_bytes height 4 (4 + height * 4);
     Some \<lparr>bt_heights = heights\<rparr> }"

definition bt_xxh3_hash :: "(bytes \<Rightarrow> u128) \<Rightarrow> BtreeBitmap \<Rightarrow> u128 option" where
  "bt_xxh3_hash xxh3 m =
     fold_opt (\<lambda>l r. map_option (\<lambda>h. r XOR h) (gb_xxh3_hash xxh3 l)) (bt_heights m) 0"

subsection \<open>Words as groups of bits\<close>

lemma select_mask_bit: "bit (select_mask n) m \<longleftrightarrow> m = n \<and> n < 64"
  by (auto simp: select_mask_def bit_exp_iff push_bit_eq_mult possible_bit_def)

lemma and_select_mask: "n < 64 \<Longrightarrow> (w AND select_mask n \<noteq> 0) \<longleftrightarrow> bit w n"
  by (auto simp: bit_eq_iff[of _ "0::u64"] bit_and_iff select_mask_bit)

lemma u64_MAX_iff: "w = u64_MAX \<longleftrightarrow> (\<forall>i<64. bit w i)"
  by (auto simp: u64_MAX_def bit_eq_iff[of w] bit_minus_1_iff possible_bit_def)

lemma takeWhile_upt_length:
  assumes "x = length (takeWhile P [0..<n])"
  shows "x \<le> n" "\<And>j. j < x \<Longrightarrow> P j" "x < n \<Longrightarrow> \<not> P x"
proof -
  show le: "x \<le> n" using assms length_takeWhile_le[of P "[0..<n]"] by simp
  show "P j" if "j < x" for j
    using nth_mem[of j "takeWhile P [0..<n]"] that assms le takeWhile_nth[of j P "[0..<n]"]
      set_takeWhileD by fastforce
  show "\<not> P x" if "x < n"
    using nth_length_takeWhile[of P "[0..<n]"] that assms by simp
qed

lemma trailing_ones_spec:
  "trailing_ones w \<le> 64"
  "j < trailing_ones w \<Longrightarrow> bit w j"
  "trailing_ones w < 64 \<Longrightarrow> \<not> bit w (trailing_ones w)"
  by (rule takeWhile_upt_length[OF trailing_ones_def], assumption?)+

lemma trailing_ones_64: "trailing_ones w = 64 \<longleftrightarrow> w = u64_MAX"
proof
  assume "trailing_ones w = 64"
  then show "w = u64_MAX" using trailing_ones_spec(2)[of _ w] by (simp add: u64_MAX_iff)
next
  assume "w = u64_MAX"
  then show "trailing_ones w = 64"
    using trailing_ones_spec(1)[of w] trailing_ones_spec(3)[of w]
    by (cases "trailing_ones w < 64") (simp_all add: u64_MAX_iff)
qed

lemma count_zeros_card: "count_zeros w = card {i. i < 64 \<and> \<not> bit w i}"
proof -
  have "{i. i < 64 \<and> \<not> bit w i} = set (filter (\<lambda>i. \<not> bit w i) [0..<64])" by auto
  also have "card \<dots> = count_zeros w"
    unfolding count_zeros_def by (rule distinct_card) simp
  finally show ?thesis by simp
qed

subsection \<open>Grouped bitmaps as sets of unset bits\<close>

text \<open>
  \<open>gb_ok\<close> is the representation invariant: the groups cover the length, and every bit between
  the length and the capacity is set, so the operations that scan whole groups
  (\<open>first_unset\<close>, \<open>count_unset\<close>, \<open>any_unset\<close>) never see an unset bit outside the bitmap.
\<close>

definition gb_bit :: "U64GroupedBitmap \<Rightarrow> nat \<Rightarrow> bool" where
  "gb_bit b i = bit (gb_data b ! (i div 64)) (i mod 64)"

definition gb_unset :: "U64GroupedBitmap \<Rightarrow> nat set" where
  "gb_unset b = {i. i < gb_len b \<and> \<not> gb_bit b i}"

definition gb_ok :: "U64GroupedBitmap \<Rightarrow> bool" where
  "gb_ok b \<longleftrightarrow> gb_len b \<le> 64 * length (gb_data b) \<and>
     (\<forall>i. gb_len b \<le> i \<longrightarrow> i < 64 * length (gb_data b) \<longrightarrow> gb_bit b i)"

lemma gb_ok_bound: "gb_ok b \<Longrightarrow> i < gb_len b \<Longrightarrow> i div 64 < length (gb_data b)"
  by (auto simp: gb_ok_def)

lemma gb_ok_words: "gb_ok b \<Longrightarrow> required_words (gb_len b) \<le> length (gb_data b)"
  by (auto simp: gb_ok_def required_words_def div_ceil_le_iff)

lemma gb_ok_unset_iff:
  "gb_ok b \<Longrightarrow> i \<in> gb_unset b \<longleftrightarrow> i < 64 * length (gb_data b) \<and> \<not> gb_bit b i"
  by (auto simp: gb_ok_def gb_unset_def) (meson not_le)

lemma finite_gb_unset [simp]: "finite (gb_unset b)"
  by (rule finite_subset[of _ "{..<gb_len b}"]) (auto simp: gb_unset_def)

text \<open>A group is completely set exactly when none of its indices is unset.\<close>

lemma group_full_iff:
  assumes "gb_ok b" and "k < length (gb_data b)"
  shows "gb_data b ! k = u64_MAX \<longleftrightarrow> (\<forall>i. i div 64 = k \<longrightarrow> i \<notin> gb_unset b)"
proof -
  have "(\<forall>i. i div 64 = k \<longrightarrow> i \<notin> gb_unset b) \<longleftrightarrow> (\<forall>i. i div 64 = k \<longrightarrow> gb_bit b i)"
    using assms by (auto simp: gb_ok_unset_iff)
  also have "\<dots> \<longleftrightarrow> (\<forall>r<64. bit (gb_data b ! k) r)"
  proof safe
    fix r :: nat assume all: "\<forall>i. i div 64 = k \<longrightarrow> gb_bit b i" and r: "r < 64"
    have "gb_bit b (64 * k + r)" using all r by simp
    then show "bit (gb_data b ! k) r" using r by (simp add: gb_bit_def)
  next
    fix i assume "\<forall>r<64. bit (gb_data b ! (i div 64)) r"
    then show "gb_bit b i" by (simp add: gb_bit_def)
  qed
  finally show ?thesis by (simp add: u64_MAX_iff)
qed

lemma gb_get_correct:
  "gb_ok b \<Longrightarrow> i < gb_len b \<Longrightarrow> gb_get b i = Some (i \<notin> gb_unset b)"
  by (simp add: gb_get_def data_index_of_def gb_ok_bound and_select_mask gb_unset_def gb_bit_def)

text \<open>Writing one group, with the new value of the bit at \<open>i\<close>.\<close>

lemma gb_write:
  assumes ok: "gb_ok b" and i: "i < gb_len b"
    and b': "b' = b\<lparr>gb_data := (gb_data b)[i div 64 := w]\<rparr>"
    and w: "\<And>r. r < 64 \<Longrightarrow> bit w r \<longleftrightarrow> (if r = i mod 64 then v else bit (gb_data b ! (i div 64)) r)"
  shows "gb_ok b'" "gb_len b' = gb_len b" "length (gb_data b') = length (gb_data b)"
    "gb_unset b' = (if v then gb_unset b - {i} else insert i (gb_unset b))"
    "\<And>k. k \<noteq> i div 64 \<Longrightarrow> gb_data b' ! k = gb_data b ! k"
    "gb_data b' ! (i div 64) = w"
proof -
  note bound = gb_ok_bound[OF ok i]
  have bits: "gb_bit b' j \<longleftrightarrow> (if j = i then v else gb_bit b j)" for j
  proof (cases "j div 64 = i div 64")
    case True
    then have "j mod 64 = i mod 64 \<longleftrightarrow> j = i" by (metis mult_div_mod_eq)
    then show ?thesis using True bound w[of "j mod 64"] by (simp add: gb_bit_def b')
  next
    case False
    then show ?thesis by (auto simp: gb_bit_def b')
  qed
  show "gb_len b' = gb_len b" "length (gb_data b') = length (gb_data b)"
    "\<And>k. k \<noteq> i div 64 \<Longrightarrow> gb_data b' ! k = gb_data b ! k" "gb_data b' ! (i div 64) = w"
    using bound by (simp_all add: b')
  then show "gb_ok b'" "gb_unset b' = (if v then gb_unset b - {i} else insert i (gb_unset b))"
    using ok i by (auto simp: gb_ok_def gb_unset_def bits)
qed

lemma gb_set_correct:
  assumes "gb_ok b" and "i < gb_len b"
  obtains b' where "gb_set b i = Some (gb_data b' ! (i div 64) = u64_MAX, b')"
    "gb_ok b'" "gb_len b' = gb_len b" "length (gb_data b') = length (gb_data b)"
    "gb_unset b' = gb_unset b - {i}"
    "\<And>k. k \<noteq> i div 64 \<Longrightarrow> gb_data b' ! k = gb_data b ! k"
proof -
  let ?w = "gb_data b ! (i div 64) OR select_mask (i mod 64)"
  let ?b' = "b\<lparr>gb_data := (gb_data b)[i div 64 := ?w]\<rparr>"
  have w: "bit ?w r \<longleftrightarrow> (if r = i mod 64 then True else bit (gb_data b ! (i div 64)) r)" for r
    by (auto simp: bit_or_iff select_mask_bit)
  note upd = gb_write[OF assms refl, of ?w True, OF w]
  show ?thesis
  proof (rule that[of ?b'])
    show "gb_set b i = Some (gb_data ?b' ! (i div 64) = u64_MAX, ?b')"
      using assms gb_ok_bound[OF assms] by (simp add: gb_set_def data_index_of_def Let_def)
  qed (use upd in simp_all)
qed

lemma gb_clear_correct:
  assumes "gb_ok b" and "i < gb_len b"
  obtains b' where "gb_clear b i = Some b'"
    "gb_ok b'" "gb_len b' = gb_len b" "length (gb_data b') = length (gb_data b)"
    "gb_unset b' = insert i (gb_unset b)"
    "\<And>k. k \<noteq> i div 64 \<Longrightarrow> gb_data b' ! k = gb_data b ! k"
proof -
  let ?w = "gb_data b ! (i div 64) AND NOT (select_mask (i mod 64))"
  let ?b' = "b\<lparr>gb_data := (gb_data b)[i div 64 := ?w]\<rparr>"
  have w: "bit ?w r \<longleftrightarrow> (if r = i mod 64 then False else bit (gb_data b ! (i div 64)) r)"
    if "r < 64" for r
    using that by (auto simp: bit_and_iff bit_not_iff select_mask_bit possible_bit_def)
  note upd = gb_write[OF assms refl, of ?w False, OF w]
  show ?thesis
  proof (rule that[of ?b'])
    show "gb_clear b i = Some ?b'"
      using assms gb_ok_bound[OF assms] by (simp add: gb_clear_def data_index_of_def)
  qed (use upd in simp_all)
qed

lemma gb_first_unset_None_iff:
  assumes "gb_ok b" and "0 < gb_len b" and "e < length (gb_data b)"
  shows "gb_first_unset b (e * 64) (e * 64 + 64) = Some None \<longleftrightarrow> gb_data b ! e = u64_MAX"
  using assms by (simp add: gb_first_unset_def data_index_of_def trailing_ones_64 Let_def)

lemma gb_first_unset_Some:
  assumes ok: "gb_ok b" and e: "e < length (gb_data b)" and nf: "gb_data b ! e \<noteq> u64_MAX"
  obtains j where "gb_first_unset b (e * 64) (e * 64 + 64) = Some (Some j)"
    "j \<in> gb_unset b" "j div 64 = e" "\<And>k. k div 64 = e \<Longrightarrow> k \<in> gb_unset b \<Longrightarrow> j \<le> k"
proof -
  let ?x = "trailing_ones (gb_data b ! e)"
  have x: "?x < 64" using nf trailing_ones_64 trailing_ones_spec(1) by (metis le_neq_implies_less)
  have un: "64 * e + ?x \<in> gb_unset b"
    using ok e x trailing_ones_spec(3)[of "gb_data b ! e"] by (simp add: gb_ok_unset_iff gb_bit_def)
  then have "gb_len b \<noteq> 0" by (auto simp: gb_unset_def)
  show ?thesis
  proof (rule that[of "64 * e + ?x"])
    show "gb_first_unset b (e * 64) (e * 64 + 64) = Some (Some (64 * e + ?x))"
      using \<open>gb_len b \<noteq> 0\<close> e x by (simp add: gb_first_unset_def data_index_of_def)
    fix k assume k: "k div 64 = e" "k \<in> gb_unset b"
    then have "\<not> bit (gb_data b ! e) (k mod 64)" by (auto simp: gb_unset_def gb_bit_def)
    then have "?x \<le> k mod 64" using trailing_ones_spec(2) not_le by blast
    then show "64 * e + ?x \<le> k" using k(1) by (metis add_left_mono mult_div_mod_eq)
  qed (use un x in simp_all)
qed

text \<open>Counting zeros group by group counts the unset indices.\<close>

lemma gb_count_unset_correct:
  assumes ok: "gb_ok b"
  shows "gb_count_unset b = card (gb_unset b)"
proof -
  let ?n = "length (gb_data b)"
  let ?A = "\<lambda>k. (\<lambda>r. 64 * k + r) ` {r. r < 64 \<and> \<not> bit (gb_data b ! k) r}"
  have "gb_unset b = (\<Union>k\<in>{..<?n}. ?A k)"
  proof (intro set_eqI iffI)
    fix i assume "i \<in> gb_unset b"
    then have "i div 64 < ?n" "\<not> bit (gb_data b ! (i div 64)) (i mod 64)"
      using ok by (auto simp: gb_ok_unset_iff gb_bit_def)
    then show "i \<in> (\<Union>k\<in>{..<?n}. ?A k)" by (intro UN_I[of "i div 64"] image_eqI[of _ _ "i mod 64"]) auto
  next
    fix i assume "i \<in> (\<Union>k\<in>{..<?n}. ?A k)"
    then show "i \<in> gb_unset b" using ok by (auto simp: gb_ok_unset_iff gb_bit_def)
  qed
  also have "card \<dots> = (\<Sum>k<?n. card (?A k))"
  proof (rule card_UN_disjoint)
    show "\<forall>i\<in>{..<?n}. \<forall>j\<in>{..<?n}. i \<noteq> j \<longrightarrow> ?A i \<inter> ?A j = {}" by auto presburger?
  qed auto
  also have "\<dots> = (\<Sum>k<?n. count_zeros (gb_data b ! k))"
    by (intro sum.cong refl) (simp add: count_zeros_card card_image inj_on_def)
  also have "\<dots> = gb_count_unset b"
    by (simp add: gb_count_unset_def sum_list_sum_nth atLeast0LessThan)
  finally show ?thesis by simp
qed

lemma gb_any_unset_correct:
  assumes "gb_ok b"
  shows "gb_any_unset b \<longleftrightarrow> gb_unset b \<noteq> {}"
proof -
  have "\<not> gb_any_unset b \<longleftrightarrow> gb_count_unset b = 0"
    by (auto simp: gb_any_unset_def gb_count_unset_def list_ex_iff)
  then show ?thesis using gb_count_unset_correct[OF assms] by auto
qed

subsection \<open>The tree invariant\<close>

text \<open>
  A level summarises the next one: it has one bit per group of 64 entries, set exactly when
  that group is completely set.
\<close>

definition summarises :: "U64GroupedBitmap \<Rightarrow> U64GroupedBitmap \<Rightarrow> bool" where
  "summarises p c \<longleftrightarrow> gb_len p = div_ceil (gb_len c) 64 \<and>
     (\<forall>k<gb_len p. k \<notin> gb_unset p \<longleftrightarrow> gb_data c ! k = u64_MAX)"

definition bt_inv :: "BtreeBitmap \<Rightarrow> bool" where
  "bt_inv m \<longleftrightarrow> bt_heights m \<noteq> [] \<and> length (bt_heights m) < 2 ^ 32 \<and>
     (\<forall>l\<in>set (bt_heights m). gb_ok l) \<and>
     successively summarises (bt_heights m) \<and> gb_len (hd (bt_heights m)) \<le> 64"

definition bt_unset :: "BtreeBitmap \<Rightarrow> nat set" where
  "bt_unset m = gb_unset (last (bt_heights m))"

definition bt_size :: "BtreeBitmap \<Rightarrow> nat" where
  "bt_size m = gb_len (last (bt_heights m))"

text \<open>The number of levels, and with it the largest length the tree can be resized to, never changes.\<close>

definition bt_capacity :: "BtreeBitmap \<Rightarrow> nat" where
  "bt_capacity m = 64 ^ length (bt_heights m)"

abbreviation bt_dims :: "BtreeBitmap \<Rightarrow> nat \<times> nat" where
  "bt_dims m \<equiv> (bt_size m, bt_capacity m)"

lemma bt_leaf_level_last: "bt_heights m \<noteq> [] \<Longrightarrow> bt_leaf_level m = Some (last (bt_heights m))"
  by (simp add: bt_leaf_level_def bt_get_level_def last_conv_nth)

lemma bt_invD:
  assumes "bt_inv m"
  shows "bt_heights m \<noteq> []" "gb_ok (last (bt_heights m))" "bt_leaf_level m = Some (last (bt_heights m))"
  using assms by (simp_all add: bt_inv_def bt_leaf_level_last)

lemma bt_unset_bound: "i \<in> bt_unset m \<Longrightarrow> i < bt_size m"
  by (auto simp: bt_unset_def bt_size_def gb_unset_def)

lemma finite_bt_unset [simp]: "finite (bt_unset m)"
  by (simp add: bt_unset_def)

lemma bt_len_correct: "bt_inv m \<Longrightarrow> bt_len m = Some (bt_size m)"
  by (simp add: bt_len_def bt_invD bt_size_def)

lemma bt_get_correct: "bt_inv m \<Longrightarrow> i < bt_size m \<Longrightarrow> bt_get m i = Some (i \<notin> bt_unset m)"
  by (simp add: bt_get_def bt_invD gb_get_correct bt_size_def bt_unset_def)

lemma bt_count_unset_correct: "bt_inv m \<Longrightarrow> bt_count_unset m = Some (card (bt_unset m))"
  by (simp add: bt_count_unset_def bt_invD gb_count_unset_correct bt_unset_def)

lemma bt_has_unset_correct: "bt_inv m \<Longrightarrow> bt_has_unset m = Some (bt_unset m \<noteq> {})"
  by (simp add: bt_has_unset_def bt_invD gb_any_unset_correct bt_unset_def)

subsection \<open>Finding the least unset index\<close>

definition least_unset :: "U64GroupedBitmap \<Rightarrow> nat \<Rightarrow> bool" where
  "least_unset b e \<longleftrightarrow> e \<in> gb_unset b \<and> (\<forall>j\<in>gb_unset b. e \<le> j)"

lemma summarises_unset_iff:
  assumes "summarises p c" and "gb_ok c"
  shows "k \<in> gb_unset p \<longleftrightarrow> (\<exists>j\<in>gb_unset c. j div 64 = k)"
proof (cases "k < gb_len p")
  case True
  then have "k * 64 < gb_len c" using assms(1) by (simp add: summarises_def less_div_ceil_iff)
  then have "k < length (gb_data c)" using assms(2) by (auto simp: gb_ok_def)
  then show ?thesis using assms True group_full_iff[OF assms(2), of k] by (auto simp: summarises_def)
next
  case False
  have "j div 64 < gb_len p" if "j \<in> gb_unset c" for j
    using that assms(1) div_less_div_ceil[of 64 j "gb_len c"] by (auto simp: summarises_def gb_unset_def)
  then show ?thesis using False by (auto simp: gb_unset_def)
qed

lemma descend_step:
  assumes s: "summarises p c" and ok: "gb_ok c" and least: "least_unset p e"
  obtains j where "gb_first_unset c (e * 64) (e * 64 + 64) = Some (Some j)" "least_unset c j"
proof -
  from least summarises_unset_iff[OF s ok] obtain i where i: "i \<in> gb_unset c" "i div 64 = e"
    by (auto simp: least_unset_def)
  then have e: "e < length (gb_data c)" using ok by (auto simp: gb_unset_def intro: gb_ok_bound)
  then have "gb_data c ! e \<noteq> u64_MAX" using group_full_iff[OF ok e] i by auto
  from gb_first_unset_Some[OF ok e this] obtain j where
    j: "gb_first_unset c (e * 64) (e * 64 + 64) = Some (Some j)" "j \<in> gb_unset c" "j div 64 = e"
       "\<And>k. k div 64 = e \<Longrightarrow> k \<in> gb_unset c \<Longrightarrow> j \<le> k"
    by blast
  have "j \<le> k" if k: "k \<in> gb_unset c" for k
  proof (cases "k div 64 = e")
    case False
    have "e \<le> k div 64" using least summarises_unset_iff[OF s ok] k by (auto simp: least_unset_def)
    with False j(3) have "j div 64 < k div 64" by simp
    then show ?thesis using div_le_mono[of k j 64] by linarith
  qed (use j k in blast)
  with j that show ?thesis by (auto simp: least_unset_def)
qed

lemma bt_descend_correct:
  assumes "successively summarises (p # ls)" and "\<forall>l\<in>set ls. gb_ok l" and "least_unset p e"
  shows "\<exists>j. bt_descend ls e = Some j \<and> least_unset (last (p # ls)) j"
  using assms
proof (induction ls arbitrary: p e)
  case (Cons c ls)
  then have s: "summarises p c" "gb_ok c" by auto
  from descend_step[OF s Cons.prems(3)] obtain j where
    j: "gb_first_unset c (e * 64) (e * 64 + 64) = Some (Some j)" "least_unset c j" .
  from Cons.IH[OF _ _ j(2)] Cons.prems j(1) show ?case by simp
qed simp

lemma successively_empty_iff:
  assumes "successively summarises (p # ls)" and "\<forall>l\<in>set ls. gb_ok l"
  shows "gb_unset (last (p # ls)) = {} \<longleftrightarrow> gb_unset p = {}"
  using assms
proof (induction ls arbitrary: p)
  case (Cons c ls)
  then have "gb_unset p = {} \<longleftrightarrow> gb_unset c = {}"
    using summarises_unset_iff[of p c] by auto
  with Cons show ?case by simp
qed simp

lemma gb_first_unset_root:
  assumes "gb_ok r" and "gb_len r \<le> 64"
  shows "gb_first_unset r 0 64 = Some None \<and> gb_unset r = {} \<or>
    (\<exists>e. gb_first_unset r 0 64 = Some (Some e) \<and> least_unset r e)"
proof (cases "gb_len r = 0")
  case True
  then show ?thesis by (simp add: gb_first_unset_def gb_unset_def)
next
  case False
  then have pos: "0 < length (gb_data r)" using assms(1) by (auto simp: gb_ok_def)
  have small: "i div 64 = 0" if "i \<in> gb_unset r" for i
    using that assms(2) by (auto simp: gb_unset_def)
  show ?thesis
  proof (cases "gb_data r ! 0 = u64_MAX")
    case True
    then have "gb_unset r = {}" using group_full_iff[OF assms(1) pos] small by auto
    then show ?thesis using gb_first_unset_None_iff[OF assms(1) _ pos] True False by simp
  next
    case nf: False
    from gb_first_unset_Some[OF assms(1) pos nf] obtain j where
      "gb_first_unset r 0 64 = Some (Some j)" "j \<in> gb_unset r"
      "\<And>k. k div 64 = 0 \<Longrightarrow> k \<in> gb_unset r \<Longrightarrow> j \<le> k"
      by auto
    then show ?thesis using small by (auto simp: least_unset_def)
  qed
qed

theorem bt_find_first_unset_correct:
  assumes "bt_inv m"
  shows "bt_find_first_unset m =
    Some (if bt_unset m = {} then None else Some (Min (bt_unset m)))"
proof -
  obtain r ls where h: "bt_heights m = r # ls" using bt_invD(1)[OF assms] by (cases "bt_heights m") auto
  have inv: "successively summarises (r # ls)" "\<forall>l\<in>set ls. gb_ok l" "gb_ok r" "gb_len r \<le> 64"
    using assms by (auto simp: bt_inv_def h)
  have level: "bt_get_level m 0 = Some r" by (simp add: bt_get_level_def h)
  note empty = successively_empty_iff[OF inv(1,2)]
  from gb_first_unset_root[OF inv(3,4)] show ?thesis
  proof (elim disjE exE conjE)
    assume "gb_first_unset r 0 64 = Some None" "gb_unset r = {}"
    then show ?thesis using level empty by (simp add: bt_find_first_unset_def bt_unset_def h)
  next
    fix e assume e: "gb_first_unset r 0 64 = Some (Some e)" "least_unset r e"
    from bt_descend_correct[OF inv(1,2) e(2)] obtain j where
      j: "bt_descend ls e = Some j" "least_unset (last (r # ls)) j" by blast
    then have "Min (bt_unset m) = j" "bt_unset m \<noteq> {}"
      by (auto simp: bt_unset_def h least_unset_def intro!: Min_eqI)
    then show ?thesis using level e j by (simp add: bt_find_first_unset_def h)
  qed
qed

subsection \<open>Setting and clearing an index\<close>

text \<open>The two branches of one step of \<open>update_to_root\<close> have the same contract.\<close>

lemma update_step:
  assumes ok: "gb_ok p" and e: "e < gb_len p"
  obtains full' p' where
    "(if full then gb_set p e else do { p' \<leftarrow> gb_clear p e; Some (False, p') }) = Some (full', p')"
    "gb_ok p'" "gb_len p' = gb_len p" "full' \<longleftrightarrow> gb_data p' ! (e div 64) = u64_MAX"
    "\<And>k. k \<noteq> e div 64 \<Longrightarrow> gb_data p' ! k = gb_data p ! k"
    "gb_unset p' = (if full then gb_unset p - {e} else insert e (gb_unset p))"
proof (cases full)
  case True
  show ?thesis by (rule gb_set_correct[OF ok e], rule that) (use True in simp_all)
next
  case False
  obtain p' where p': "gb_clear p e = Some p'" "gb_ok p'"
    "gb_len p' = gb_len p" "length (gb_data p') = length (gb_data p)" "gb_unset p' = insert e (gb_unset p)"
    "\<And>k. k \<noteq> e div 64 \<Longrightarrow> gb_data p' ! k = gb_data p ! k"
    by (rule gb_clear_correct[OF ok e]) blast
  have nf: "gb_data p' ! (e div 64) \<noteq> u64_MAX"
    using group_full_iff[OF p'(2), of "e div 64"] gb_ok_bound[OF ok e] p'(4,5) by auto
  show ?thesis
  proof (rule that[of False p'])
    show "gb_data p' ! k = gb_data p ! k" if "k \<noteq> e div 64" for k by (rule p'(6)[OF that])
  qed (use p'(1-5) nf False in simp_all)
qed

lemma bt_update_levels_correct:
  assumes "successively (\<lambda>c p. summarises p c) (c # ps)" and "\<forall>l\<in>set ps. gb_ok l"
    and "gb_len c' = gb_len c" and "e * 64 < gb_len c"
    and "\<And>k. k \<noteq> e \<Longrightarrow> gb_data c' ! k = gb_data c ! k"
    and "full \<longleftrightarrow> gb_data c' ! e = u64_MAX"
  shows "\<exists>ps'. bt_update_levels ps e full = Some ps' \<and> map gb_len ps' = map gb_len ps \<and>
    successively (\<lambda>c p. summarises p c) (c' # ps') \<and> (\<forall>l\<in>set ps'. gb_ok l)"
  using assms
proof (induction ps arbitrary: c c' e full)
  case (Cons p ps)
  have s: "summarises p c" and ok: "gb_ok p" using Cons.prems by auto
  have e: "e < gb_len p" using s Cons.prems(4) by (simp add: summarises_def less_div_ceil_iff)
  from update_step[OF ok e, of full] obtain full' p' where
    step: "(if full then gb_set p e else do { p' \<leftarrow> gb_clear p e; Some (False, p') }) = Some (full', p')"
    and p': "gb_ok p'" "gb_len p' = gb_len p" "full' \<longleftrightarrow> gb_data p' ! (e div 64) = u64_MAX"
      "\<And>k. k \<noteq> e div 64 \<Longrightarrow> gb_data p' ! k = gb_data p ! k"
      "gb_unset p' = (if full then gb_unset p - {e} else insert e (gb_unset p))" by blast
  have s': "summarises p' c'"
    using s p'(2,5) Cons.prems(3,5,6) e by (auto simp: summarises_def) metis+
  have "\<exists>ps'. bt_update_levels ps (e div 64) full' = Some ps' \<and> map gb_len ps' = map gb_len ps \<and>
    successively (\<lambda>c p. summarises p c) (p' # ps') \<and> (\<forall>l\<in>set ps'. gb_ok l)"
  proof (rule Cons.IH)
    show "e div 64 * 64 < gb_len p" using e by (meson div_times_less_eq_dividend le_less_trans)
  qed (use Cons.prems p' in auto)
  with step s' p' show ?case by auto
qed simp

lemma successively_rev_levels:
  "successively (\<lambda>c p. summarises p c) (rev hs) \<longleftrightarrow> successively summarises hs"
  by (simp add: successively_rev)

lemma bt_update_to_root_correct:
  assumes inv: "bt_inv m" and h: "rev (bt_heights m) = leaf # parents"
    and leaf: "gb_ok leaf'" "gb_len leaf' = gb_len leaf" "i < gb_len leaf"
      "\<And>k. k \<noteq> i div 64 \<Longrightarrow> gb_data leaf' ! k = gb_data leaf ! k"
      "full \<longleftrightarrow> gb_data leaf' ! (i div 64) = u64_MAX"
  shows "\<exists>m'. bt_update_to_root leaf' parents i full = Some m' \<and> bt_inv m' \<and>
    bt_size m' = bt_size m \<and> bt_unset m' = gb_unset leaf'"
proof -
  have hs: "bt_heights m = rev parents @ [leaf]" using h by (simp add: rev_swap)
  have "successively (\<lambda>c p. summarises p c) (leaf # parents)"
    using inv h by (metis bt_inv_def successively_rev_levels)
  moreover have "\<forall>l\<in>set parents. gb_ok l" using inv by (auto simp: bt_inv_def hs)
  moreover have "i div 64 * 64 < gb_len leaf"
    using leaf(3) by (meson div_times_less_eq_dividend le_less_trans)
  ultimately obtain ps' where ps': "bt_update_levels parents (i div 64) full = Some ps'"
    "map gb_len ps' = map gb_len parents"
    "successively (\<lambda>c p. summarises p c) (leaf' # ps')" "\<forall>l\<in>set ps'. gb_ok l"
    using bt_update_levels_correct[of leaf parents leaf' "i div 64" full] leaf by blast
  let ?m = "\<lparr>bt_heights = rev (leaf' # ps')\<rparr>"
  have len: "length ps' = length parents" using ps'(2) map_eq_imp_length_eq by blast
  have "map gb_len (bt_heights ?m) = map gb_len (bt_heights m)"
    using ps'(2) leaf(2) by (simp add: hs rev_map[symmetric])
  then have "gb_len (hd (bt_heights ?m)) = gb_len (hd (bt_heights m))"
    by (metis Nil_is_append_conv bt_invD(1) hd_map inv list.map_disc_iff list.distinct(1)
        rev_is_Nil_conv select_convs(1))
  moreover have "successively summarises (bt_heights ?m)"
    using ps'(3) successively_rev_levels[of "bt_heights ?m"] by simp
  ultimately have "bt_inv ?m" using inv ps'(4) leaf(1) len by (auto simp: bt_inv_def hs)
  then show ?thesis
    using ps'(1) leaf(2) by (simp add: bt_update_to_root_def bt_size_def bt_unset_def hs)
qed

lemma rev_heights:
  assumes "bt_inv m"
  obtains leaf parents where "rev (bt_heights m) = leaf # parents" "gb_ok leaf"
    "bt_size m = gb_len leaf" "bt_unset m = gb_unset leaf"
  using bt_invD[OF assms] that
  by (cases "bt_heights m" rule: rev_cases) (auto simp: bt_size_def bt_unset_def)

theorem bt_set_correct:
  assumes inv: "bt_inv m" and i: "i < bt_size m"
  shows "\<exists>m'. bt_set m i = Some m' \<and> bt_inv m' \<and> bt_size m' = bt_size m \<and>
    bt_unset m' = bt_unset m - {i}"
proof -
  obtain l ps where h: "rev (bt_heights m) = l # ps" and l: "gb_ok l" "bt_size m = gb_len l"
    "bt_unset m = gb_unset l" by (rule rev_heights[OF inv])
  have i': "i < gb_len l" using i l by simp
  obtain l' where l': "gb_set l i = Some (gb_data l' ! (i div 64) = u64_MAX, l')" "gb_ok l'"
    "gb_len l' = gb_len l" "gb_unset l' = gb_unset l - {i}"
    "\<And>k. k \<noteq> i div 64 \<Longrightarrow> gb_data l' ! k = gb_data l ! k"
    by (rule gb_set_correct[OF l(1) i']) blast
  show ?thesis
    using bt_update_to_root_correct[OF inv h l'(2,3) i' l'(5) refl] l'(1,4) l(3)
    by (simp add: bt_set_def h)
qed

theorem bt_clear_correct:
  assumes inv: "bt_inv m" and i: "i < bt_size m"
  shows "\<exists>m'. bt_clear m i = Some m' \<and> bt_inv m' \<and> bt_size m' = bt_size m \<and>
    bt_unset m' = insert i (bt_unset m)"
proof -
  obtain l ps where h: "rev (bt_heights m) = l # ps" and l: "gb_ok l" "bt_size m = gb_len l"
    "bt_unset m = gb_unset l" by (rule rev_heights[OF inv])
  have i': "i < gb_len l" using i l by simp
  obtain l' where l': "gb_clear l i = Some l'" "gb_ok l'" "gb_len l' = gb_len l"
    "length (gb_data l') = length (gb_data l)" "gb_unset l' = insert i (gb_unset l)"
    "\<And>k. k \<noteq> i div 64 \<Longrightarrow> gb_data l' ! k = gb_data l ! k"
    by (rule gb_clear_correct[OF l(1) i']) blast
  have nf: "False \<longleftrightarrow> gb_data l' ! (i div 64) = u64_MAX"
    using group_full_iff[OF l'(2), of "i div 64"] l'(4,5) gb_ok_bound[OF l(1) i'] by auto
  show ?thesis
    using bt_update_to_root_correct[OF inv h l'(2,3) i' l'(6) nf] l'(1,5) l(3)
    by (simp add: bt_clear_def h)
qed

text \<open>\<open>alloc\<close> takes the least unset index and leaves the tree alone when there is none.\<close>

theorem bt_alloc_correct:
  assumes inv: "bt_inv m"
  shows "if bt_unset m = {} then bt_alloc m = Some (None, m)
    else \<exists>m'. bt_alloc m = Some (Some (Min (bt_unset m)), m') \<and> bt_inv m' \<and>
      bt_size m' = bt_size m \<and> bt_unset m' = bt_unset m - {Min (bt_unset m)}"
proof (cases "bt_unset m = {}")
  case True
  then show ?thesis using bt_find_first_unset_correct[OF inv] by (simp add: bt_alloc_def)
next
  case False
  then have "Min (bt_unset m) < bt_size m" by (simp add: bt_unset_bound)
  from bt_set_correct[OF inv this] show ?thesis
    using bt_find_first_unset_correct[OF inv] False by (auto simp: bt_alloc_def)
qed

subsection \<open>Creating and resizing\<close>

lemma summarisesI:
  assumes "gb_ok c" and "gb_len p = div_ceil (gb_len c) 64"
    and "\<And>k. k \<in> gb_unset p \<longleftrightarrow> (\<exists>j\<in>gb_unset c. j div 64 = k)"
  shows "summarises p c"
proof -
  have "k < length (gb_data c)" if "k < gb_len p" for k
    using that assms(1,2) by (auto simp: gb_ok_def less_div_ceil_iff)
  then show ?thesis using assms group_full_iff[OF assms(1)] by (auto simp: summarises_def)
qed

lemma gb_new_full_correct:
  assumes "n \<le> capacity"
  shows "gb_ok (gb_new_full n capacity)" "gb_unset (gb_new_full n capacity) = {}"
    "gb_len (gb_new_full n capacity) = n"
proof -
  have cap: "capacity \<le> 64 * required_words capacity"
    unfolding required_words_def using div_ceil_le_iff[of 64 capacity "div_ceil capacity 64"] by simp
  have "gb_bit (gb_new_full n capacity) i" if "i < 64 * required_words capacity" for i
    using that u64_MAX_iff[of u64_MAX] by (auto simp: gb_bit_def gb_new_full_def)
  then show "gb_ok (gb_new_full n capacity)" "gb_unset (gb_new_full n capacity) = {}"
    "gb_len (gb_new_full n capacity) = n"
    using assms cap by (auto simp: gb_ok_def gb_unset_def gb_new_full_def)
qed

lemma bt_new_levels_correct:
  "n \<le> capacity \<Longrightarrow>
    successively (\<lambda>c p. summarises p c) (bt_new_levels n capacity) \<and>
    (\<forall>l\<in>set (bt_new_levels n capacity). gb_ok l) \<and> bt_new_levels n capacity \<noteq> [] \<and>
    hd (bt_new_levels n capacity) = gb_new_full n capacity \<and>
    gb_len (last (bt_new_levels n capacity)) \<le> 64 \<and>
    length (bt_new_levels n capacity) \<le> max 1 capacity"
proof (induction n capacity rule: bt_new_levels.induct)
  case (1 n capacity)
  show ?case
  proof (cases "capacity \<le> 64")
    case True
    then have "bt_new_levels n capacity = [gb_new_full n capacity]"
      by (subst bt_new_levels.simps) simp
    then show ?thesis using 1(2) True by (simp add: gb_new_full_correct)
  next
    case False
    let ?n = "div_ceil n 64" and ?c = "div_ceil capacity 64"
    have c: "?c < capacity" using False by (auto simp: div_ceil_def)
    have nc: "?n \<le> ?c" using 1(2) by (simp add: div_ceil_mono)
    have s: "summarises (gb_new_full ?n ?c) (gb_new_full n capacity)"
      by (rule summarisesI) (use 1(2) nc in \<open>simp_all add: gb_new_full_correct\<close>)
    have eq: "bt_new_levels n capacity = gb_new_full n capacity # bt_new_levels ?n ?c"
      using False by (subst bt_new_levels.simps) simp
    from 1(1)[OF False nc] s c False 1(2) show ?thesis
      by (cases "bt_new_levels ?n ?c") (auto simp: eq gb_new_full_correct max_def split: if_splits)
  qed
qed

theorem bt_new_correct:
  assumes "n \<le> capacity" and "capacity < 2 ^ 32"
  shows "bt_inv (bt_new n capacity) \<and> bt_size (bt_new n capacity) = n \<and> bt_unset (bt_new n capacity) = {}"
proof -
  from bt_new_levels_correct[OF assms(1)] have lv:
    "successively (\<lambda>c p. summarises p c) (bt_new_levels n capacity)"
    "\<forall>l\<in>set (bt_new_levels n capacity). gb_ok l" "bt_new_levels n capacity \<noteq> []"
    "hd (bt_new_levels n capacity) = gb_new_full n capacity"
    "gb_len (last (bt_new_levels n capacity)) \<le> 64"
    "length (bt_new_levels n capacity) \<le> max 1 capacity" by simp_all
  have "successively summarises (rev (bt_new_levels n capacity))"
    using lv(1) successively_rev_levels[of "rev (bt_new_levels n capacity)"] by simp
  moreover have "length (bt_new_levels n capacity) < 2 ^ 32" using lv(6) assms(2) by auto
  ultimately show ?thesis
    using lv assms(1) by (simp add: bt_inv_def bt_new_def bt_size_def bt_unset_def hd_rev last_rev gb_new_full_correct)
qed

lemma gb_grow_data:
  assumes ok: "gb_ok b" and below: "gb_unset b \<subseteq> {..<n}"
    and b': "b' = \<lparr>gb_len = n, gb_data = gb_data b @ replicate (required_words n - length (gb_data b)) u64_MAX\<rparr>"
  shows "gb_ok b'" "gb_unset b' = gb_unset b"
proof -
  let ?d = "length (gb_data b)"
  have bits: "gb_bit b' i \<longleftrightarrow> (if i < 64 * ?d then gb_bit b i else True)" if "i < 64 * length (gb_data b')" for i
    using that u64_MAX_iff[of u64_MAX] by (auto simp: gb_bit_def b' nth_append)
  have "n \<le> 64 * required_words n"
    unfolding required_words_def using div_ceil_le_iff[of 64 n "div_ceil n 64"] by simp
  then have n: "n \<le> 64 * length (gb_data b')" by (simp add: b')
  have mono: "length (gb_data b) \<le> length (gb_data b')" by (simp add: b')
  have "gb_bit b' i" if "n \<le> i" "i < 64 * length (gb_data b')" for i
    using that below bits[of i] gb_ok_unset_iff[OF ok, of i] by auto
  then show ok': "gb_ok b'" using n by (simp add: gb_ok_def b')
  have "i \<in> gb_unset b' \<longleftrightarrow> i \<in> gb_unset b" for i
    unfolding gb_ok_unset_iff[OF ok] gb_ok_unset_iff[OF ok'] using bits[of i] mono by (auto split: if_splits)
  then show "gb_unset b' = gb_unset b" by blast
qed

lemma gb_resize_correct:
  assumes ok: "gb_ok b" and below: "gb_unset b \<subseteq> {..<n}"
  shows "\<exists>b'. gb_resize b n True = Some b' \<and> gb_ok b' \<and> gb_len b' = n \<and> gb_unset b' = gb_unset b"
proof -
  let ?b = "\<lparr>gb_len = n, gb_data = gb_data b @ replicate (required_words n - length (gb_data b)) u64_MAX\<rparr>"
  note grown = gb_grow_data[OF ok below refl]
  let ?P = "\<lambda>i :: nat. \<lambda>c. gb_ok c \<and> gb_len c = n \<and> gb_unset c = gb_unset b"
  have "\<exists>b'. fold_opt (\<lambda>i c. map_option snd (gb_set c i)) [gb_len b..<n] ?b = Some b' \<and>
    ?P (length [gb_len b..<n]) b'"
  proof (rule fold_opt_inv[where P = ?P])
    show "?P 0 ?b" using grown by simp
  next
    fix i c assume i: "i < length [gb_len b..<n]" and c: "?P i c"
    let ?j = "[gb_len b..<n] ! i"
    have j: "?j < gb_len c" "?j \<notin> gb_unset b" using i c by (auto simp: gb_unset_def)
    from c have okc: "gb_ok c" by simp
    obtain c' where "gb_set c ?j = Some (gb_data c' ! (?j div 64) = u64_MAX, c')"
      "gb_ok c'" "gb_len c' = gb_len c" "gb_unset c' = gb_unset c - {?j}"
      by (rule gb_set_correct[OF okc j(1)])
    then show "\<exists>c'. map_option snd (gb_set c ?j) = Some c' \<and> ?P (Suc i) c'" using c j(2) by auto
  qed
  moreover have "gb_resize b n True = fold_opt (\<lambda>i c. map_option snd (gb_set c i)) [gb_len b..<n] ?b"
    unfolding gb_resize_def Let_def
    by (cases "length (gb_data b) < required_words n") simp_all
  ultimately show ?thesis by simp
qed

text \<open>
  Resizing keeps the unset indices; shrinking requires that none of them is cut off. The
  number of levels stays, so the new length is limited by it: the final assertion of the
  source is the bound \<open>64 ^ height\<close>.
\<close>

lemma bt_resize_levels_correct:
  assumes "successively (\<lambda>c p. summarises p c) ls" and "\<forall>l\<in>set ls. gb_ok l"
    and "ls \<noteq> []" and "gb_unset (hd ls) \<subseteq> {..<n}"
  shows "\<exists>ls'. bt_resize_levels ls n True = Some ls' \<and> length ls' = length ls \<and>
    successively (\<lambda>c p. summarises p c) ls' \<and> (\<forall>l\<in>set ls'. gb_ok l) \<and>
    gb_len (hd ls') = n \<and> gb_unset (hd ls') = gb_unset (hd ls) \<and>
    (gb_len (last ls') \<le> 64 \<longleftrightarrow> n \<le> 64 ^ length ls)"
  using assms
proof (induction ls arbitrary: n)
  case (Cons c ps)
  from gb_resize_correct[of c n] Cons.prems obtain c' where
    c': "gb_resize c n True = Some c'" "gb_ok c'" "gb_len c' = n" "gb_unset c' = gb_unset c" by auto
  show ?case
  proof (cases ps)
    case Nil
    then show ?thesis using c' by simp
  next
    case (Cons p qs)
    have s: "summarises p c" using Cons.prems Cons by simp
    have unset: "k \<in> gb_unset p \<longleftrightarrow> (\<exists>j\<in>gb_unset c. j div 64 = k)" for k
      using summarises_unset_iff[OF s] Cons.prems by simp
    then have "gb_unset p \<subseteq> {..<div_ceil n 64}"
      using Cons.prems(4) div_less_div_ceil[of 64 _ n] by (auto simp: subset_iff)
    from Cons.IH[of "div_ceil n 64"] Cons.prems Cons this obtain ls' where
      ls': "bt_resize_levels ps (div_ceil n 64) True = Some ls'" "length ls' = length ps"
        "successively (\<lambda>c p. summarises p c) ls'" "\<forall>l\<in>set ls'. gb_ok l"
        "gb_len (hd ls') = div_ceil n 64" "gb_unset (hd ls') = gb_unset p"
        "gb_len (last ls') \<le> 64 \<longleftrightarrow> div_ceil n 64 \<le> 64 ^ length ps"
      by auto
    obtain p' qs' where p': "ls' = p' # qs'" using ls'(2) Cons by (cases ls') auto
    have "summarises p' c'"
      by (rule summarisesI) (use c' ls' p' unset in auto)
    then show ?thesis using c' ls' p' by (simp add: div_ceil_le_iff mult.commute)
  qed
qed simp

theorem bt_resize_correct:
  assumes inv: "bt_inv m" and below: "bt_unset m \<subseteq> {..<n}" and fits: "n \<le> 64 ^ length (bt_heights m)"
  shows "\<exists>m'. bt_resize m n True = Some m' \<and> bt_inv m' \<and> bt_size m' = n \<and>
    bt_unset m' = bt_unset m \<and> length (bt_heights m') = length (bt_heights m)"
proof -
  have ne: "bt_heights m \<noteq> []" using inv by (simp add: bt_inv_def)
  have "successively (\<lambda>c p. summarises p c) (rev (bt_heights m))" "\<forall>l\<in>set (rev (bt_heights m)). gb_ok l"
    using inv by (simp_all add: bt_inv_def successively_rev_levels)
  from bt_resize_levels_correct[OF this, of n] ne below obtain ls' where
    ls': "bt_resize_levels (rev (bt_heights m)) n True = Some ls'" "length ls' = length (bt_heights m)"
      "successively (\<lambda>c p. summarises p c) ls'" "\<forall>l\<in>set ls'. gb_ok l" "gb_len (hd ls') = n"
      "gb_unset (hd ls') = bt_unset m" "gb_len (last ls') \<le> 64 \<longleftrightarrow> n \<le> 64 ^ length (bt_heights m)"
    by (auto simp: hd_rev bt_unset_def)
  have ne': "ls' \<noteq> []" using ls'(2) ne by auto
  then have root: "idx (rev ls') 0 = Some (last ls')" by (simp add: hd_rev flip: hd_conv_nth)
  have "successively summarises (rev ls')"
    using ls'(3) successively_rev_levels[of "rev ls'"] by simp
  then show ?thesis
    using ls' root fits ne' inv
    by (simp add: bt_resize_def bt_inv_def bt_size_def bt_unset_def hd_rev last_rev)
qed

lemma bt_resize_too_big:
  assumes inv: "bt_inv m" and below: "bt_unset m \<subseteq> {..<n}" and big: "64 ^ length (bt_heights m) < n"
  shows "bt_resize m n True = None"
proof -
  have ne: "bt_heights m \<noteq> []" using inv by (simp add: bt_inv_def)
  have "successively (\<lambda>c p. summarises p c) (rev (bt_heights m))" "\<forall>l\<in>set (rev (bt_heights m)). gb_ok l"
    using inv by (simp_all add: bt_inv_def successively_rev_levels)
  from bt_resize_levels_correct[OF this, of n] ne below obtain ls' where
    ls': "bt_resize_levels (rev (bt_heights m)) n True = Some ls'" "length ls' = length (bt_heights m)"
      "gb_len (last ls') \<le> 64 \<longleftrightarrow> n \<le> 64 ^ length (bt_heights m)"
    by (auto simp: hd_rev bt_unset_def)
  have "ls' \<noteq> []" using ls'(2) ne by auto
  then have "idx (rev ls') 0 = Some (last ls')" by (simp add: hd_rev flip: hd_conv_nth)
  then show ?thesis using ls' big by (simp add: bt_resize_def)
qed

subsection \<open>Serialisation and checksum\<close>

text \<open>
  Only the groups that the length needs are written, so reading back drops spare capacity:
  the result is \<open>gb_trim\<close> of the bitmap.
\<close>

definition gb_trim :: "U64GroupedBitmap \<Rightarrow> U64GroupedBitmap" where
  "gb_trim b = b\<lparr>gb_data := take (required_words (gb_len b)) (gb_data b)\<rparr>"

lemma gb_trim_simps [simp]:
  "gb_len (gb_trim b) = gb_len b"
  "gb_data (gb_trim b) = take (required_words (gb_len b)) (gb_data b)"
  by (simp_all add: gb_trim_def)

lemma gb_trim_ok:
  assumes ok: "gb_ok b"
  shows "gb_ok (gb_trim b)" "gb_unset (gb_trim b) = gb_unset b"
proof -
  have bits: "gb_bit (gb_trim b) i = gb_bit b i" if "i < 64 * required_words (gb_len b)" for i
    using that by (auto simp: gb_bit_def)
  have n: "gb_len b \<le> 64 * required_words (gb_len b)"
    unfolding required_words_def using div_ceil_le_iff[of 64 "gb_len b" "div_ceil (gb_len b) 64"] by simp
  show "gb_ok (gb_trim b)"
    using ok n bits gb_ok_words[OF ok] by (auto simp: gb_ok_def min_def)
  show "gb_unset (gb_trim b) = gb_unset b"
    using n bits by (auto simp: gb_unset_def)
qed

lemma summarises_trim:
  assumes "summarises p c" "gb_ok p" "gb_ok c"
  shows "summarises (gb_trim p) (gb_trim c)"
  by (rule summarisesI)
    (use assms summarises_unset_iff[OF assms(1,3)] in \<open>simp_all add: gb_trim_ok summarises_def\<close>)

lemma gb_to_vec_defined:
  "gb_ok b \<Longrightarrow> gb_to_vec b = Some (le_bytes 4 (gb_len b) @
     concat (map (\<lambda>x. le_bytes 8 (unat x)) (take (required_words (gb_len b)) (gb_data b))))"
  by (simp add: gb_to_vec_def subslice_def gb_ok_words)

lemma gb_to_vec_length:
  "gb_to_vec b = Some v \<Longrightarrow> length v = 4 + 8 * required_words (gb_len b)"
  by (auto simp: gb_to_vec_def bind_Some_iff subslice_eq_Some_iff length_concat_const[where k = 8])

lemma gb_round_trip:
  assumes ok: "gb_ok b" and len: "gb_len b < 2 ^ 32" and v: "gb_to_vec b = Some v"
  shows "gb_from_bytes v = Some (gb_trim b)"
proof -
  let ?gs = "take (required_words (gb_len b)) (gb_data b)"
  let ?f = "\<lambda>x :: u64. le_bytes 8 (unat x)"
  have v': "v = le_bytes 4 (gb_len b) @ concat (map ?f ?gs)" using v gb_to_vec_defined[OF ok] by simp
  have gl: "length ?gs = required_words (gb_len b)" using gb_ok_words[OF ok] by simp
  have lv: "length v = 4 + 8 * length ?gs" using gb_to_vec_length[OF v] gl by simp
  have "subslice v (4 + i * 8) (4 + i * 8 + 8) = Some (?f (?gs ! i))" if "i < length ?gs" for i
  proof -
    have "take 8 (drop (8 * i) (concat (map ?f ?gs) @ [])) = ?f (?gs ! i)"
      by (rule chunk_of_concat[OF _ that]) simp
    moreover have "4 + i * 8 + 8 \<le> length v" using that lv by linarith
    ultimately show ?thesis by (simp add: subslice_def v' mult.commute)
  qed
  then have "map_opt (\<lambda>i. do { x \<leftarrow> subslice v (4 + i * 8) (4 + i * 8 + 8); Some (word_of_nat (from_le x) :: u64) })
      [0..<length ?gs] = Some (map (\<lambda>i. ?gs ! i) [0..<length ?gs])"
    by (intro map_opt_all_Some) simp
  moreover have "subslice v 0 4 = Some (le_bytes 4 (gb_len b))" by (simp add: v' subslice_prefix)
  moreover have "map (\<lambda>i. ?gs ! i) [0..<length ?gs] = ?gs" by (rule map_nth)
  ultimately show ?thesis
    using lv len by (simp add: gb_from_bytes_def gb_trim_def)
qed

definition bt_trim :: "BtreeBitmap \<Rightarrow> BtreeBitmap" where
  "bt_trim m = \<lparr>bt_heights = map gb_trim (bt_heights m)\<rparr>"

lemma successively_map_imp:
  "successively P xs \<Longrightarrow> (\<And>x y. x \<in> set xs \<Longrightarrow> y \<in> set xs \<Longrightarrow> P x y \<Longrightarrow> Q (f x) (f y)) \<Longrightarrow>
    successively Q (map f xs)"
  by (induction P xs rule: successively.induct) auto

lemma bt_trim_correct:
  assumes inv: "bt_inv m"
  shows "bt_inv (bt_trim m)" "bt_size (bt_trim m) = bt_size m" "bt_unset (bt_trim m) = bt_unset m"
proof -
  have ne: "bt_heights m \<noteq> []" by (rule bt_invD(1)[OF inv])
  have "successively summarises (map gb_trim (bt_heights m))"
    by (rule successively_map_imp[where P = summarises])
      (use inv in \<open>auto simp: bt_inv_def intro: summarises_trim\<close>)
  then show "bt_inv (bt_trim m)" using inv ne by (auto simp: bt_inv_def bt_trim_def hd_map gb_trim_ok)
  show "bt_size (bt_trim m) = bt_size m" "bt_unset (bt_trim m) = bt_unset m"
    using ne inv by (simp_all add: bt_size_def bt_unset_def bt_trim_def last_map bt_invD gb_trim_ok)
qed

text \<open>The levels above the leaves are no longer than the leaves.\<close>

lemma level_len_le:
  assumes "successively (\<lambda>c p. summarises p c) (c # ps)"
  shows "\<forall>l\<in>set ps. gb_len l \<le> gb_len c"
  using assms
proof (induction ps arbitrary: c)
  case (Cons p ps)
  then have "gb_len p = div_ceil (gb_len c) 64" by (simp add: summarises_def)
  moreover have "div_ceil (gb_len c) 64 \<le> gb_len c" by (simp add: div_ceil_le_iff)
  ultimately show ?case using Cons by fastforce
qed simp

lemma bt_level_len:
  assumes inv: "bt_inv m" and "l \<in> set (bt_heights m)"
  shows "gb_len l \<le> bt_size m"
proof -
  obtain c ps where h: "rev (bt_heights m) = c # ps" "bt_size m = gb_len c" by (rule rev_heights[OF inv])
  have "successively (\<lambda>c p. summarises p c) (c # ps)"
    using inv h(1) by (metis bt_inv_def successively_rev_levels)
  then have "\<forall>l\<in>set (rev (bt_heights m)). gb_len l \<le> gb_len c" using level_len_le h(1) by auto
  then show ?thesis using assms(2) h(2) by simp
qed

lemma bt_to_vec_sections:
  assumes "bt_to_vec m = Some v"
  obtains vecs offs where "map_opt gb_to_vec (bt_heights m) = Some vecs"
    "end_offsets (4 + length (bt_heights m) * 4) (map length vecs) = Some offs"
    "v = le_bytes 4 (length (bt_heights m)) @ concat (map (le_bytes 4) offs) @ concat vecs"
  using assms by (auto simp: bt_to_vec_def bind_Some_iff)

theorem bt_round_trip:
  assumes inv: "bt_inv m" and size: "bt_size m < 2 ^ 32" and v: "bt_to_vec m = Some v"
  shows "bt_from_bytes v = Some (bt_trim m)"
proof -
  let ?n = "length (bt_heights m)"
  from bt_to_vec_sections[OF v] obtain vecs offs where
    vecs: "map_opt gb_to_vec (bt_heights m) = Some vecs"
    and offs: "end_offsets (4 + ?n * 4) (map length vecs) = Some offs"
    and v': "v = le_bytes 4 ?n @ concat (map (le_bytes 4) offs) @ concat vecs" .
  have n: "length vecs = ?n" "length offs = ?n"
    using map_opt_length[OF vecs] end_offsets_length[OF offs] by simp_all
  have sec: "gb_from_bytes (vecs ! i) = Some (map gb_trim (bt_heights m) ! i)" if "i < length vecs" for i
  proof -
    have i: "i < ?n" using that n by simp
    then have "gb_len (bt_heights m ! i) < 2 ^ 32" using bt_level_len[OF inv] size nth_mem le_less_trans by blast
    moreover have "gb_ok (bt_heights m ! i)" using inv i by (simp add: bt_inv_def)
    ultimately show ?thesis using gb_round_trip[OF _ _ map_opt_nth[OF vecs i]] i by simp
  qed
  have "read_sections v gb_from_bytes (length vecs) 4 (4 + ?n * 4) = Some (map gb_trim (bt_heights m))"
    by (rule read_sections_written[OF offs sec, where pre = "le_bytes 4 ?n" and mid = "[]" and post = "[]"])
      (use n v' in simp_all)
  moreover have "subslice v 0 4 = Some (le_bytes 4 ?n)" by (simp add: v' subslice_prefix)
  moreover have "?n < 2 ^ 32" using inv by (simp add: bt_inv_def)
  ultimately show ?thesis using n by (simp add: bt_from_bytes_def bt_trim_def)
qed

lemma bt_sections_length:
  assumes inv: "bt_inv m" and vecs: "map_opt gb_to_vec (bt_heights m) = Some vecs"
  shows "sum_list (map length vecs) \<le> length (bt_heights m) * (12 + bt_size m)"
proof -
  let ?n = "length (bt_heights m)"
  have "length x \<le> 12 + bt_size m" if "x \<in> set vecs" for x
  proof -
    from that obtain i where i: "i < ?n" "x = vecs ! i"
      using map_opt_length[OF vecs] by (auto simp: in_set_conv_nth)
    have "64 * required_words (gb_len (bt_heights m ! i)) < gb_len (bt_heights m ! i) + 64"
      by (simp add: required_words_def div_ceil_def) (use mult_div_mod_eq[of 64 "gb_len (bt_heights m ! i)"] in linarith)
    moreover have "gb_len (bt_heights m ! i) \<le> bt_size m" using bt_level_len[OF inv] i(1) by simp
    ultimately show ?thesis using gb_to_vec_length[OF map_opt_nth[OF vecs i(1)]] unfolding i(2) by linarith
  qed
  then have "sum_list (map length vecs) \<le> sum_list (map (\<lambda>_. 12 + bt_size m) vecs)"
    by (intro sum_list_mono) auto
  then show ?thesis using map_opt_length[OF vecs] by (simp add: sum_list_triv)
qed

lemma bt_to_vec_defined:
  assumes inv: "bt_inv m" and small: "4 + length (bt_heights m) * (16 + bt_size m) < 2 ^ 32"
  shows "\<exists>v. bt_to_vec m = Some v"
proof -
  let ?n = "length (bt_heights m)"
  obtain vecs where vecs: "map_opt gb_to_vec (bt_heights m) = Some vecs"
    using map_opt_all_Some[of "bt_heights m" gb_to_vec, OF gb_to_vec_defined] inv by (auto simp: bt_inv_def)
  have "(4 + ?n * 4) + sum_list (map length vecs) < 2 ^ 32"
    using small bt_sections_length[OF inv vecs] by (simp add: algebra_simps)
  from end_offsets_defined[OF this] vecs inv show ?thesis by (auto simp: bt_to_vec_def bt_inv_def)
qed

lemma gb_to_vec_trim: "gb_ok b \<Longrightarrow> gb_to_vec (gb_trim b) = gb_to_vec b"
  by (simp add: gb_to_vec_defined gb_trim_ok)

lemma bt_to_vec_trim:
  assumes "bt_inv m"
  shows "bt_to_vec (bt_trim m) = bt_to_vec m"
proof -
  have "map_opt gb_to_vec (map gb_trim ls) = map_opt gb_to_vec ls" if "\<forall>l\<in>set ls. gb_ok l" for ls
    using that by (induction ls) (auto simp: gb_to_vec_trim)
  then show ?thesis using assms by (simp add: bt_to_vec_def bt_trim_def bt_inv_def)
qed

text \<open>
  The representation is canonical: the groups that are hashed and written are determined by
  the length and the set of unset indices, so spare capacity cannot change a checksum.
\<close>

lemma gb_canonical:
  assumes "gb_ok a" and "gb_ok b" and "gb_len a = gb_len b" and "gb_unset a = gb_unset b"
  shows "take (required_words (gb_len b)) (gb_data a) = take (required_words (gb_len b)) (gb_data b)"
proof (rule nth_equalityI)
  note words = gb_ok_words[OF assms(1)] gb_ok_words[OF assms(2)]
  show "length (take (required_words (gb_len b)) (gb_data a)) =
      length (take (required_words (gb_len b)) (gb_data b))"
    using words assms(3) by simp
  fix k assume "k < length (take (required_words (gb_len b)) (gb_data a))"
  then have k: "k < required_words (gb_len b)" "k < length (gb_data a)" "k < length (gb_data b)"
    using words assms(3) by simp_all
  have "bit (gb_data a ! k) r = bit (gb_data b ! k) r" if "r < 64" for r
  proof -
    have "64 * k + r \<in> gb_unset a \<longleftrightarrow> 64 * k + r \<in> gb_unset b" using assms(4) by simp
    then show ?thesis using gb_ok_unset_iff[OF assms(1)] gb_ok_unset_iff[OF assms(2)] k that
      by (simp add: gb_bit_def)
  qed
  then have "gb_data a ! k = gb_data b ! k" by (auto simp: bit_eq_iff possible_bit_def)
  then show "take (required_words (gb_len b)) (gb_data a) ! k = take (required_words (gb_len b)) (gb_data b) ! k"
    using k(1) by simp
qed

lemma gb_xxh3_hash_trim:
  assumes "gb_ok b"
  shows "gb_xxh3_hash xxh3 (gb_trim b) = gb_xxh3_hash xxh3 b"
proof (cases "gb_len b = 0")
  case False
  let ?w = "required_words (gb_len b)"
  have "(gb_len b - 1) div 64 < ?w" "0 < ?w"
    using False by (simp_all add: required_words_def div_less_div_ceil div_ceil_pos_iff)
  then show ?thesis using gb_ok_words[OF assms] False
    by (auto simp: gb_xxh3_hash_def subslice_def data_index_of_def min_def)
qed (simp add: gb_xxh3_hash_def)

lemma bt_xxh3_hash_trim:
  assumes "bt_inv m"
  shows "bt_xxh3_hash xxh3 (bt_trim m) = bt_xxh3_hash xxh3 m"
proof -
  have "fold_opt (\<lambda>l r. map_option (\<lambda>h. r XOR h) (gb_xxh3_hash xxh3 l)) (map gb_trim ls) s =
        fold_opt (\<lambda>l r. map_option (\<lambda>h. r XOR h) (gb_xxh3_hash xxh3 l)) ls s"
    if "\<forall>l\<in>set ls. gb_ok l" for ls s
    using that
  proof (induction ls arbitrary: s)
    case (Cons l ls)
    then show ?case by (cases "gb_xxh3_hash xxh3 l") (auto simp: gb_xxh3_hash_trim)
  qed simp
  then show ?thesis using assms by (simp add: bt_xxh3_hash_def bt_trim_def bt_inv_def)
qed

lemma gb_trim_canonical:
  assumes "gb_ok a" and "gb_ok b" and "gb_len a = gb_len b" and "gb_unset a = gb_unset b"
  shows "gb_trim a = gb_trim b"
  using gb_canonical[OF assms] assms(3) by (simp add: gb_trim_def)

lemma levels_canonical:
  assumes "successively (\<lambda>c p. summarises p c) (c # ps)" and "successively (\<lambda>c p. summarises p c) (d # qs)"
    and "\<forall>l\<in>set (c # ps). gb_ok l" and "\<forall>l\<in>set (d # qs). gb_ok l" and "length ps = length qs"
    and "gb_len c = gb_len d" and "gb_unset c = gb_unset d"
  shows "map gb_trim (c # ps) = map gb_trim (d # qs)"
  using assms
proof (induction ps arbitrary: c d qs)
  case Nil
  then show ?case using gb_trim_canonical[of c d] by simp
next
  case (Cons p ps)
  then obtain q qs' where qs: "qs = q # qs'" by (cases qs) auto
  have s: "summarises p c" "summarises q d" and ok: "gb_ok c" "gb_ok d" using Cons.prems qs by auto
  have "gb_len p = gb_len q" using s Cons.prems(6) by (simp add: summarises_def)
  moreover have "gb_unset p = gb_unset q"
    using summarises_unset_iff[OF s(1) ok(1)] summarises_unset_iff[OF s(2) ok(2)] Cons.prems(7) by auto
  ultimately have "map gb_trim (p # ps) = map gb_trim (q # qs')"
    using Cons.prems qs by (intro Cons.IH) auto
  then show ?case using qs gb_trim_canonical[OF ok Cons.prems(6,7)] by simp
qed

text \<open>Two trees of the same height with the same unset indices are the same up to spare capacity.\<close>

lemma bt_trim_canonical:
  assumes inv: "bt_inv a" "bt_inv b" and "length (bt_heights a) = length (bt_heights b)"
    and "bt_size a = bt_size b" and "bt_unset a = bt_unset b"
  shows "bt_trim a = bt_trim b"
proof -
  obtain c ps where c: "rev (bt_heights a) = c # ps" "bt_size a = gb_len c" "bt_unset a = gb_unset c"
    by (rule rev_heights[OF inv(1)])
  obtain d qs where d: "rev (bt_heights b) = d # qs" "bt_size b = gb_len d" "bt_unset b = gb_unset d"
    by (rule rev_heights[OF inv(2)])
  have "successively (\<lambda>c p. summarises p c) (c # ps)" "successively (\<lambda>c p. summarises p c) (d # qs)"
    using inv c(1) d(1) by (metis bt_inv_def successively_rev_levels)+
  moreover have "\<forall>l\<in>set (c # ps). gb_ok l" "\<forall>l\<in>set (d # qs). gb_ok l"
    using inv by (simp_all add: bt_inv_def flip: c(1) d(1))
  moreover have "length ps = length qs" using assms(3) c(1) d(1) by (metis length_Cons length_rev nat.inject)
  ultimately have "map gb_trim (rev (bt_heights a)) = map gb_trim (rev (bt_heights b))"
    unfolding c(1) d(1) using levels_canonical c(2,3) d(2,3) assms(4,5) by metis
  then show ?thesis by (simp add: bt_trim_def rev_map[symmetric])
qed

lemma bt_xxh3_hash_canonical:
  assumes "bt_inv a" "bt_inv b" "bt_dims a = bt_dims b" "bt_unset a = bt_unset b"
  shows "bt_xxh3_hash xxh3 a = bt_xxh3_hash xxh3 b"
proof -
  have "length (bt_heights a) = length (bt_heights b)"
    using assms(3) power_inject_exp[of "64 :: nat"] by (simp add: bt_capacity_def)
  then have "bt_trim a = bt_trim b" using assms by (intro bt_trim_canonical) simp_all
  then show ?thesis using bt_xxh3_hash_trim[OF assms(1)] bt_xxh3_hash_trim[OF assms(2)] by metis
qed

subsection \<open>Capacity\<close>

lemma bt_update_levels_length: "bt_update_levels ps e full = Some ps' \<Longrightarrow> length ps' = length ps"
  by (induction ps arbitrary: e full ps') (auto simp: bind_Some_iff split: if_splits)

lemma bt_update_to_root_length:
  "bt_update_to_root leaf ps i full = Some m' \<Longrightarrow> length (bt_heights m') = Suc (length ps)"
  by (auto simp: bt_update_to_root_def bind_Some_iff dest: bt_update_levels_length)

lemma bt_set_capacity: "bt_set m i = Some m' \<Longrightarrow> bt_capacity m' = bt_capacity m"
proof -
  assume *: "bt_set m i = Some m'"
  then obtain l ps where h: "rev (bt_heights m) = l # ps" by (auto simp: bt_set_def split: list.splits)
  then have "length (bt_heights m) = Suc (length ps)" by (metis length_Cons length_rev)
  with * h show ?thesis
    by (auto simp: bt_set_def bind_Some_iff bt_capacity_def dest!: bt_update_to_root_length)
qed

lemma bt_clear_capacity: "bt_clear m i = Some m' \<Longrightarrow> bt_capacity m' = bt_capacity m"
proof -
  assume *: "bt_clear m i = Some m'"
  then obtain l ps where h: "rev (bt_heights m) = l # ps" by (auto simp: bt_clear_def split: list.splits)
  then have "length (bt_heights m) = Suc (length ps)" by (metis length_Cons length_rev)
  with * h show ?thesis
    by (auto simp: bt_clear_def bind_Some_iff bt_capacity_def dest!: bt_update_to_root_length)
qed

lemma bt_alloc_capacity: "bt_alloc m = Some (r, m') \<Longrightarrow> bt_capacity m' = bt_capacity m"
  by (auto simp: bt_alloc_def bind_Some_iff split: option.splits dest: bt_set_capacity)

lemma bt_new_levels_capacity: "capacity \<le> 64 ^ length (bt_new_levels n capacity)"
proof (induction n capacity rule: bt_new_levels.induct)
  case (1 n capacity)
  show ?case
  proof (cases "capacity \<le> 64")
    case False
    with 1 have "capacity \<le> 64 * 64 ^ length (bt_new_levels (div_ceil n 64) (div_ceil capacity 64))"
      by (simp add: div_ceil_le_iff mult.commute)
    then show ?thesis using False by (subst bt_new_levels.simps) simp
  qed (subst bt_new_levels.simps, simp)
qed

lemma bt_new_levels_height: "capacity \<le> 64 ^ Suc k \<Longrightarrow> length (bt_new_levels n capacity) \<le> Suc k"
proof (induction k arbitrary: n capacity)
  case 0
  then show ?case by (subst bt_new_levels.simps) simp
next
  case (Suc k)
  then have "div_ceil capacity 64 \<le> 64 ^ Suc k" by (simp add: div_ceil_le_iff mult.commute)
  from Suc.IH[OF this] show ?case by (subst bt_new_levels.simps) simp
qed

lemma bt_new_capacity: "capacity \<le> bt_capacity (bt_new n capacity)"
  by (simp add: bt_capacity_def bt_new_def bt_new_levels_capacity)

lemma level_capacity:
  assumes "successively (\<lambda>c p. summarises p c) (c # ps)" and "gb_len (last (c # ps)) \<le> 64"
  shows "gb_len c \<le> 64 ^ length (c # ps)"
  using assms
proof (induction ps arbitrary: c)
  case (Cons p ps)
  then have "div_ceil (gb_len c) 64 \<le> 64 ^ length (p # ps)"
    using Cons.IH[of p] by (simp add: summarises_def)
  then show ?case by (simp add: div_ceil_le_iff)
qed simp

lemma bt_size_capacity:
  assumes inv: "bt_inv m"
  shows "bt_size m \<le> bt_capacity m"
proof -
  obtain c ps where h: "rev (bt_heights m) = c # ps" "bt_size m = gb_len c" by (rule rev_heights[OF inv])
  have "successively (\<lambda>c p. summarises p c) (c # ps)"
    using inv h(1) by (metis bt_inv_def successively_rev_levels)
  moreover have "gb_len (last (c # ps)) \<le> 64"
    using inv h(1) by (metis bt_inv_def hd_rev last_rev rev_rev_ident)
  ultimately have "gb_len c \<le> 64 ^ length (c # ps)" by (rule level_capacity)
  then show ?thesis using h by (metis bt_capacity_def length_rev)
qed

subsection \<open>The interface: an index of free slots\<close>

text \<open>
  The buddy allocator and the region tracker each own a vector of such indexes, one per page
  order, and address one of them at a time with \<open>get_order_free_mut(order)\<close> or
  \<open>order_trackers[order]\<close>. \<open>at_order\<close> is that access: it runs an operation on the entry and stores
  the result back.
\<close>

definition at_order :: "('m \<Rightarrow> 'm option) \<Rightarrow> 'm list \<Rightarrow> nat \<Rightarrow> 'm list option" where
  "at_order f ms order = do { m \<leftarrow> idx ms order; m' \<leftarrow> f m; Some (ms[order := m']) }"

text \<open>
  \<open>free_index\<close> is what those clients rely on: a finite set of free slots below a size, from
  which slots are removed and to which they are added, and whose size changes up to a capacity.
\<close>

locale free_index =
  fixes inv :: "'m \<Rightarrow> bool" and dims :: "'m \<Rightarrow> nat \<times> nat" and unset :: "'m \<Rightarrow> nat set"
    and set_slot :: "'m \<Rightarrow> nat \<Rightarrow> 'm option" and clear_slot :: "'m \<Rightarrow> nat \<Rightarrow> 'm option"
    and get_slot :: "'m \<Rightarrow> nat \<Rightarrow> bool option" and take_slot :: "'m \<Rightarrow> (nat option \<times> 'm) option"
    and resize_slots :: "'m \<Rightarrow> nat \<Rightarrow> 'm option"
  assumes unset_below: "inv m \<Longrightarrow> i \<in> unset m \<Longrightarrow> i < fst (dims m)"
    and size_capacity: "inv m \<Longrightarrow> fst (dims m) \<le> snd (dims m)"
    and set_law: "inv m \<Longrightarrow> i < fst (dims m) \<Longrightarrow>
      \<exists>m'. set_slot m i = Some m' \<and> inv m' \<and> dims m' = dims m \<and> unset m' = unset m - {i}"
    and clear_law: "inv m \<Longrightarrow> i < fst (dims m) \<Longrightarrow>
      \<exists>m'. clear_slot m i = Some m' \<and> inv m' \<and> dims m' = dims m \<and> unset m' = insert i (unset m)"
    and get_law: "inv m \<Longrightarrow> i < fst (dims m) \<Longrightarrow> get_slot m i = Some (i \<notin> unset m)"
    and take_law: "inv m \<Longrightarrow> if unset m = {} then take_slot m = Some (None, m)
      else \<exists>m'. take_slot m = Some (Some (Min (unset m)), m') \<and> inv m' \<and>
        dims m' = dims m \<and> unset m' = unset m - {Min (unset m)}"
    and resize_law: "inv m \<Longrightarrow> unset m \<subseteq> {..<n} \<Longrightarrow> n \<le> snd (dims m) \<Longrightarrow>
      \<exists>m'. resize_slots m n = Some m' \<and> inv m' \<and> dims m' = (n, snd (dims m)) \<and> unset m' = unset m"
begin

lemma finite_unset: "inv m \<Longrightarrow> finite (unset m)"
  by (rule finite_subset[of _ "{..<fst (dims m)}"]) (auto dest: unset_below)

lemma order_law:
  assumes "\<forall>m\<in>set ms. inv m" and "k < length ms"
    and "\<exists>m'. f (ms ! k) = Some m' \<and> inv m' \<and> dims m' = dims (ms ! k) \<and> unset m' = u"
  shows "\<exists>ms'. at_order f ms k = Some ms' \<and> (\<forall>m\<in>set ms'. inv m) \<and>
    map dims ms' = map dims ms \<and> map unset ms' = (map unset ms)[k := u]"
proof -
  from assms(3) obtain m' where m': "f (ms ! k) = Some m'" "inv m'" "dims m' = dims (ms ! k)"
    "unset m' = u" by blast
  have "map dims (ms[k := m']) = map dims ms"
    using m'(3) assms(2) by (metis list_update_id map_update nth_map)
  then show ?thesis using m' assms(1,2)
    by (auto simp: at_order_def map_update dest: set_update_subset_insert[THEN subsetD])
qed

lemma order_set:
  assumes "\<forall>m\<in>set ms. inv m" and "k < length ms" and "i < fst (dims (ms ! k))"
  shows "\<exists>ms'. at_order (\<lambda>m. set_slot m i) ms k = Some ms' \<and> (\<forall>m\<in>set ms'. inv m) \<and>
    map dims ms' = map dims ms \<and> map unset ms' = (map unset ms)[k := unset (ms ! k) - {i}]"
  using assms by (intro order_law set_law) auto

lemma order_clear:
  assumes "\<forall>m\<in>set ms. inv m" and "k < length ms" and "i < fst (dims (ms ! k))"
  shows "\<exists>ms'. at_order (\<lambda>m. clear_slot m i) ms k = Some ms' \<and> (\<forall>m\<in>set ms'. inv m) \<and>
    map dims ms' = map dims ms \<and> map unset ms' = (map unset ms)[k := insert i (unset (ms ! k))]"
  using assms by (intro order_law clear_law) auto

text \<open>A slot that is taken out and put back leaves the free set unchanged.\<close>

lemma set_clear_inverse:
  assumes "inv m" and "i \<in> unset m"
  shows "\<exists>m1 m2. set_slot m i = Some m1 \<and> clear_slot m1 i = Some m2 \<and> inv m2 \<and> unset m2 = unset m"
proof -
  note i = unset_below[OF assms]
  from set_law[OF assms(1) i] obtain m1 where
    m1: "set_slot m i = Some m1" "inv m1" "dims m1 = dims m" "unset m1 = unset m - {i}" by blast
  from clear_law[OF m1(2)] m1(3) i obtain m2 where "clear_slot m1 i = Some m2" "inv m2"
    "unset m2 = insert i (unset m1)" by auto
  with m1 assms(2) show ?thesis by (metis insert_Diff)
qed

text \<open>Taking slots in turn drains the index in increasing order.\<close>

lemma take_least:
  assumes "inv m" and "take_slot m = Some (Some i, m')"
  shows "i \<in> unset m" "\<forall>j\<in>unset m'. i < j" "get_slot m' i = Some True" "inv m'"
proof -
  have ne: "unset m \<noteq> {}" using take_law[OF assms(1)] assms(2) by (auto split: if_splits)
  then have *: "i = Min (unset m)" "inv m'" "dims m' = dims m" "unset m' = unset m - {i}"
    using take_law[OF assms(1)] assms(2) by auto
  show i: "i \<in> unset m" using * ne finite_unset[OF assms(1)] by simp
  show "\<forall>j\<in>unset m'. i < j"
    using * ne finite_unset[OF assms(1)] by (metis DiffE Min_le insertI1 order.not_eq_order_implies_strict)
  show "get_slot m' i = Some True" using get_law[of m' i] * unset_below[OF assms(1) i] by simp
  show "inv m'" by (rule *(2))
qed

end

interpretation bt: free_index bt_inv bt_dims bt_unset bt_set bt_clear bt_get bt_alloc
  "\<lambda>m n. bt_resize m n True"
proof unfold_locales
  fix m i assume m: "bt_inv m"
  show "bt_get m i = Some (i \<notin> bt_unset m)" if "i < fst (bt_dims m)"
    using m that by (simp add: bt_get_correct)
  show "\<exists>m'. bt_set m i = Some m' \<and> bt_inv m' \<and> bt_dims m' = bt_dims m \<and> bt_unset m' = bt_unset m - {i}"
    if "i < fst (bt_dims m)"
    using bt_set_correct[OF m, of i] that by (auto dest: bt_set_capacity)
  show "\<exists>m'. bt_clear m i = Some m' \<and> bt_inv m' \<and> bt_dims m' = bt_dims m \<and> bt_unset m' = insert i (bt_unset m)"
    if "i < fst (bt_dims m)"
    using bt_clear_correct[OF m, of i] that by (auto dest: bt_clear_capacity)
  show "if bt_unset m = {} then bt_alloc m = Some (None, m)
    else \<exists>m'. bt_alloc m = Some (Some (Min (bt_unset m)), m') \<and> bt_inv m' \<and>
      bt_dims m' = bt_dims m \<and> bt_unset m' = bt_unset m - {Min (bt_unset m)}"
    using bt_alloc_correct[OF m] bt_alloc_capacity[of m] by (auto split: if_splits)
next
  fix m n assume "bt_inv m" "bt_unset m \<subseteq> {..<n}" "n \<le> snd (bt_dims m)"
  then show "\<exists>m'. bt_resize m n True = Some m' \<and> bt_inv m' \<and> bt_dims m' = (n, snd (bt_dims m)) \<and>
      bt_unset m' = bt_unset m"
    using bt_resize_correct[of m n] by (auto simp: bt_capacity_def)
qed (simp_all add: bt_unset_bound bt_size_capacity)

subsection \<open>Properties\<close>

text \<open>
  The specification of a run: the abstract state is the length and the set of unset indices,
  and each operation is one set operation.
\<close>

datatype bitmap_op = Op_set nat | Op_clear nat | Op_alloc | Op_resize nat

fun bt_step :: "bitmap_op \<Rightarrow> BtreeBitmap \<Rightarrow> (nat option \<times> BtreeBitmap) option" where
  "bt_step (Op_set i) m = map_option (Pair None) (bt_set m i)"
| "bt_step (Op_clear i) m = map_option (Pair None) (bt_clear m i)"
| "bt_step Op_alloc m = bt_alloc m"
| "bt_step (Op_resize n) m = map_option (Pair None) (bt_resize m n True)"

fun bt_run :: "bitmap_op list \<Rightarrow> BtreeBitmap \<Rightarrow> (nat option list \<times> BtreeBitmap) option" where
  "bt_run [] m = Some ([], m)"
| "bt_run (x # xs) m = do {
     (r, m') \<leftarrow> bt_step x m;
     (rs, m'') \<leftarrow> bt_run xs m';
     Some (r # rs, m'') }"

fun slots_step :: "bitmap_op \<Rightarrow> nat \<times> nat set \<Rightarrow> nat option \<times> nat \<times> nat set" where
  "slots_step (Op_set i) (n, S) = (None, n, S - {i})"
| "slots_step (Op_clear i) (n, S) = (None, n, insert i S)"
| "slots_step Op_alloc (n, S) = (if S = {} then (None, n, S) else (Some (Min S), n, S - {Min S}))"
| "slots_step (Op_resize k) (n, S) = (None, k, S)"

fun slots_run :: "bitmap_op list \<Rightarrow> nat \<times> nat set \<Rightarrow> nat option list \<times> nat \<times> nat set" where
  "slots_run [] s = ([], s)"
| "slots_run (x # xs) s =
     (let (r, s') = slots_step x s; (rs, s'') = slots_run xs s' in (r # rs, s''))"

fun op_allowed :: "nat \<Rightarrow> bitmap_op \<Rightarrow> nat \<times> nat set \<Rightarrow> bool" where
  "op_allowed cap (Op_set i) (n, S) \<longleftrightarrow> i < n"
| "op_allowed cap (Op_clear i) (n, S) \<longleftrightarrow> i < n"
| "op_allowed cap Op_alloc (n, S) \<longleftrightarrow> True"
| "op_allowed cap (Op_resize k) (n, S) \<longleftrightarrow> k \<le> cap \<and> S \<subseteq> {..<k}"

fun ops_allowed :: "nat \<Rightarrow> bitmap_op list \<Rightarrow> nat \<times> nat set \<Rightarrow> bool" where
  "ops_allowed cap [] s \<longleftrightarrow> True"
| "ops_allowed cap (x # xs) s \<longleftrightarrow> op_allowed cap x s \<and> ops_allowed cap xs (snd (slots_step x s))"

lemma bt_step_refines:
  assumes inv: "bt_inv m" and cap: "cap \<le> bt_capacity m" and ok: "op_allowed cap x (bt_size m, bt_unset m)"
  shows "\<exists>r m'. bt_step x m = Some (r, m') \<and> bt_inv m' \<and> cap \<le> bt_capacity m' \<and>
    slots_step x (bt_size m, bt_unset m) = (r, bt_size m', bt_unset m')"
proof (cases x)
  case (Op_set i)
  then show ?thesis using bt.set_law[OF inv, of i] ok cap by auto
next
  case (Op_clear i)
  then show ?thesis using bt.clear_law[OF inv, of i] ok cap by auto
next
  case Op_alloc
  then show ?thesis using bt.take_law[OF inv] inv cap by (auto split: if_splits)
next
  case (Op_resize n)
  then show ?thesis using bt.resize_law[OF inv, of n] ok cap by auto
qed

lemma bt_run_refines:
  assumes "bt_inv m" and "cap \<le> bt_capacity m" and "ops_allowed cap xs (bt_size m, bt_unset m)"
  shows "\<exists>rs m'. bt_run xs m = Some (rs, m') \<and> bt_inv m' \<and>
    slots_run xs (bt_size m, bt_unset m) = (rs, bt_size m', bt_unset m')"
  using assms
proof (induction xs arbitrary: m)
  case (Cons x xs)
  from bt_step_refines[OF Cons.prems(1,2), of x] Cons.prems(3) obtain r m1 where
    m1: "bt_step x m = Some (r, m1)" "bt_inv m1" "cap \<le> bt_capacity m1"
      "slots_step x (bt_size m, bt_unset m) = (r, bt_size m1, bt_unset m1)" by auto
  from Cons.IH[OF m1(2,3)] Cons.prems(3) m1(4) obtain rs m2 where
    "bt_run xs m1 = Some (rs, m2)" "bt_inv m2"
    "slots_run xs (bt_size m1, bt_unset m1) = (rs, bt_size m2, bt_unset m2)" by auto
  with m1 show ?case by simp
qed simp

text \<open>
  C6. A bitmap tree behaves as a set of free indices: starting from \<open>BtreeBitmap::new\<close>, every
  sequence of \<open>set\<close>, \<open>clear\<close>, \<open>alloc\<close> and \<open>resize\<close> calls within the length and the
  capacity runs without a panic, returns from each \<open>alloc\<close> the least free index (or nothing
  when there is none), keeps the tree invariant, and afterwards \<open>find_first_unset\<close>, \<open>get\<close>,
  \<open>count_unset\<close>, \<open>has_unset\<close> and \<open>len\<close> all answer as the set does.
\<close>

theorem bitmap_run_refines_set:
  assumes "n \<le> capacity" and "capacity < 2 ^ 32" and "ops_allowed capacity ops (n, {})"
  shows "\<exists>m. bt_run ops (bt_new n capacity) = Some (fst (slots_run ops (n, {})), m) \<and> bt_inv m \<and>
    (case snd (slots_run ops (n, {})) of (len, S) \<Rightarrow>
       bt_len m = Some len \<and> bt_count_unset m = Some (card S) \<and> bt_has_unset m = Some (S \<noteq> {}) \<and>
       bt_find_first_unset m = Some (if S = {} then None else Some (Min S)) \<and>
       (\<forall>i<len. bt_get m i = Some (i \<notin> S)))"
proof -
  note new = bt_new_correct[OF assms(1,2)]
  from bt_run_refines[of "bt_new n capacity" capacity ops] new bt_new_capacity assms(3)
  obtain rs m where "bt_run ops (bt_new n capacity) = Some (rs, m)" "bt_inv m"
    "slots_run ops (n, {}) = (rs, bt_size m, bt_unset m)" by auto
  then show ?thesis
    by (simp add: bt_len_correct bt_count_unset_correct bt_has_unset_correct
        bt_find_first_unset_correct bt_get_correct)
qed

theorem bitmap_run_refines_set_witness:
  "\<exists>m. bt_run [Op_clear 70, Op_clear 3, Op_alloc, Op_resize 90, Op_alloc, Op_alloc] (bt_new 100 128)
       = Some ([None, None, Some 3, None, Some 70, None], m) \<and> bt_inv m \<and> bt_len m = Some 90 \<and>
     bt_find_first_unset m = Some None"
  using bitmap_run_refines_set[of 100 128
      "[Op_clear 70, Op_clear 3, Op_alloc, Op_resize 90, Op_alloc, Op_alloc]"]
  by (auto simp: insert_Diff_if)

text \<open>
  C13. Serialising a bitmap tree and reading it back gives a tree with the same length, the same
  unset indices, the same checksum and the same serialised form, although spare capacity words
  are not written; and serialising succeeds for every tree of at most a million indices.
\<close>

theorem bitmap_serialisation_round_trip:
  assumes "bt_inv m" and "bt_size m \<le> 2 ^ 20" and "length (bt_heights m) \<le> 1024"
  shows "\<exists>v m'. bt_to_vec m = Some v \<and> bt_from_bytes v = Some m' \<and> bt_inv m' \<and>
    bt_len m' = bt_len m \<and> bt_unset m' = bt_unset m \<and>
    bt_xxh3_hash xxh3 m' = bt_xxh3_hash xxh3 m \<and> bt_to_vec m' = Some v"
proof -
  have "length (bt_heights m) * (16 + bt_size m) \<le> 1024 * (16 + 2 ^ 20)"
    using assms(2,3) by (intro mult_le_mono) auto
  then obtain v where v: "bt_to_vec m = Some v" using bt_to_vec_defined[OF assms(1)] by auto
  then show ?thesis
    using bt_to_vec_trim[OF assms(1)] bt_round_trip[OF assms(1) _ v] assms bt_trim_correct[OF assms(1)]
    by (simp add: bt_len_correct bt_xxh3_hash_trim)
qed

theorem bitmap_serialisation_round_trip_witness:
  "\<exists>m v m'. bt_clear (bt_new 100 100) 70 = Some m \<and> bt_to_vec m = Some v \<and>
     bt_from_bytes v = Some m' \<and> bt_unset m' = {70} \<and> bt_len m' = Some 100"
proof -
  have new: "bt_inv (bt_new 100 100)" "bt_size (bt_new 100 100) = 100" "bt_unset (bt_new 100 100) = {}"
    using bt_new_correct[of 100 100] by simp_all
  have h: "length (bt_heights (bt_new 100 100)) = 2"
    by code_simp
  from bt_clear_correct[OF new(1), of 70] new obtain m where
    m: "bt_clear (bt_new 100 100) 70 = Some m" "bt_inv m" "bt_size m = 100" "bt_unset m = {70}" by auto
  then have "length (bt_heights m) = 2"
    using bt_clear_capacity[OF m(1)] power_inject_exp[of "64 :: nat" "length (bt_heights m)" 2]
    unfolding bt_capacity_def h by simp
  then show ?thesis
    using bitmap_serialisation_round_trip[of m "\<lambda>_. 0"] m by (auto simp: bt_len_correct)
qed

end
