(* ===== verification/Buddy.thy ===== *)
theory Buddy
  imports Bitmap
begin

text \<open>
  The buddy allocator of \<^verbatim>\<open>src/src/tree_store/page_store/buddy_allocator.rs\<close>: one free index per
  page order, where a page of order \<open>o\<close> covers \<open>2 ^ o\<close> pages of the region. The debug assertions of
  the source are part of the model, so the theorems also show that they hold.

  The state is determined by the set of free pages: the index of each order holds exactly the
  maximal aligned free blocks of that order (\<open>maxfree\<close>). Every operation is proved against that set.
\<close>

subsection \<open>The allocator\<close>

definition MAX_MAX_PAGE_ORDER :: nat where
  "MAX_MAX_PAGE_ORDER = 20"

record BuddyAllocator =
  ba_free :: "BtreeBitmap list"
  ba_len :: nat
  ba_max_order :: nat

definition calculate_usable_order :: "nat \<Rightarrow> nat option" where
  "calculate_usable_order pages = do {
     let lz = leading_zeros32 pages;
     assert_that (lz + 1 \<le> 32);
     Some (min MAX_MAX_PAGE_ORDER (32 - lz - 1)) }"

definition next_higher_order :: "nat \<Rightarrow> nat" where
  "next_higher_order page_number = page_number div 2"

definition buddy_page :: "nat \<Rightarrow> nat" where
  "buddy_page page_number = page_number XOR 1"

fun new_orders :: "nat \<Rightarrow> nat \<Rightarrow> nat \<Rightarrow> BtreeBitmap list" where
  "new_orders 0 pages capacity = []"
| "new_orders (Suc n) pages capacity =
     bt_new pages capacity # new_orders n (next_higher_order pages) (next_higher_order capacity)"

text \<open>
  Three operations process a range of pages from the highest order down, in the largest aligned
  blocks that fit: \<open>for order in (0..=max_order).rev() { while processed + order_size <= limit {
  f(processed / order_size, order); processed += order_size } }\<close>. \<open>fill_orders\<close> is that loop, with the
  block operation as its argument.
\<close>

function fill_order :: "(nat \<Rightarrow> nat \<Rightarrow> 's \<Rightarrow> 's option) \<Rightarrow> nat \<Rightarrow> nat \<Rightarrow> 's \<Rightarrow> nat \<Rightarrow> ('s \<times> nat) option" where
  "fill_order f limit order s processed =
     (if processed + 2 ^ order \<le> limit then do {
        s' \<leftarrow> f (processed div 2 ^ order) order s;
        fill_order f limit order s' (processed + 2 ^ order) }
      else Some (s, processed))"
  by pat_completeness auto
termination
  by (relation "measure (\<lambda>(f, n, order, s, p). n - p)") (auto simp: step_measure)

declare fill_order.simps [simp del]

definition fill_orders :: "(nat \<Rightarrow> nat \<Rightarrow> 's \<Rightarrow> 's option) \<Rightarrow> nat \<Rightarrow> nat \<Rightarrow> 's \<Rightarrow> nat \<Rightarrow> ('s \<times> nat) option" where
  "fill_orders f limit max_order s processed =
     fold_opt (\<lambda>order (s, p). fill_order f limit order s p) (rev [0..<Suc max_order]) (s, processed)"

definition ba_new :: "nat \<Rightarrow> nat \<Rightarrow> BuddyAllocator option" where
  "ba_new num_pages max_page_capacity = do {
     max_order \<leftarrow> calculate_usable_order max_page_capacity;
     let free = new_orders (Suc max_order) num_pages max_page_capacity;
     (free', accounted_pages) \<leftarrow>
       fill_orders (\<lambda>page order free. at_order (\<lambda>m. bt_clear m page) free order) num_pages max_order free 0;
     assert_that (accounted_pages = num_pages);
     Some \<lparr>ba_free = free', ba_len = num_pages, ba_max_order = max_order\<rparr> }"

definition ba_xxh3_hash :: "(bytes \<Rightarrow> u128) \<Rightarrow> BuddyAllocator \<Rightarrow> u128 option" where
  "ba_xxh3_hash xxh3 b =
     fold_opt (\<lambda>x r. map_option (\<lambda>h. r XOR h) (bt_xxh3_hash xxh3 x)) (ba_free b) 0"

definition ba_to_vec :: "BuddyAllocator \<Rightarrow> bytes option" where
  "ba_to_vec b = do {
     vecs \<leftarrow> map_opt bt_to_vec (ba_free b);
     let end_metadata = 8 + (ba_max_order b + 1) * 4;
     offs \<leftarrow> end_offsets end_metadata (map length vecs);
     assert_that (end_metadata = 8 + 4 * length offs);
     Some (word_of_nat (ba_max_order b) # [0, 0, 0] @ le_bytes 4 (ba_len b)
           @ concat (map (le_bytes 4) offs) @ concat vecs) }"

definition ba_from_bytes :: "bytes \<Rightarrow> BuddyAllocator option" where
  "ba_from_bytes data = do {
     mo \<leftarrow> idx data 0;
     n \<leftarrow> subslice data 4 8;
     let max_order = unat mo;
     free \<leftarrow> read_sections data bt_from_bytes (Suc max_order) 8 (8 + (max_order + 1) * 4);
     Some \<lparr>ba_free = free, ba_len = from_le n, ba_max_order = max_order\<rparr> }"

definition get_order_free :: "BuddyAllocator \<Rightarrow> nat \<Rightarrow> BtreeBitmap option" where
  "get_order_free b order = idx (ba_free b) order"

definition highest_free_order :: "BuddyAllocator \<Rightarrow> nat option option" where
  "highest_free_order b =
     find_opt (\<lambda>order. do { m \<leftarrow> get_order_free b order; bt_has_unset m }) (rev [0..<Suc (ba_max_order b)])"

definition count_free_pages :: "BuddyAllocator \<Rightarrow> nat option" where
  "count_free_pages b = fold_opt (\<lambda>order pages. do {
       m \<leftarrow> get_order_free b order;
       c \<leftarrow> bt_count_unset m;
       Some (pages + c * 2 ^ order) }) [0..<Suc (ba_max_order b)] 0"

definition count_allocated_pages :: "BuddyAllocator \<Rightarrow> nat option" where
  "count_allocated_pages b = do {
     c \<leftarrow> count_free_pages b;
     assert_that (c \<le> ba_len b);
     Some (ba_len b - c) }"

fun find_free_from :: "BuddyAllocator \<Rightarrow> nat list \<Rightarrow> nat \<Rightarrow> nat option option" where
  "find_free_from b [] page = Some None"
| "find_free_from b (order # orders) page = do {
     m \<leftarrow> get_order_free b order;
     l \<leftarrow> bt_len m;
     hit \<leftarrow> (if page < l then map_option Not (bt_get m page) else Some False);
     if hit then Some (Some order) else find_free_from b orders (next_higher_order page) }"

definition find_free_order :: "BuddyAllocator \<Rightarrow> nat \<Rightarrow> nat option option" where
  "find_free_order b page = find_free_from b [0..<Suc (ba_max_order b)] page"

function trailing_loop :: "BuddyAllocator \<Rightarrow> nat \<Rightarrow> nat \<Rightarrow> nat option" where
  "trailing_loop b next_page free_pages = do {
     r \<leftarrow> find_free_order b next_page;
     case r of
       None \<Rightarrow> Some free_pages
     | Some order \<Rightarrow>
         if 2 ^ order > next_page then Some (free_pages + 2 ^ order)
         else trailing_loop b (next_page - 2 ^ order) (free_pages + 2 ^ order) }"
  by pat_completeness auto
termination
proof (relation "measure (\<lambda>(b, next_page, n). next_page)")
  fix b :: BuddyAllocator and next_page n order :: nat
  assume "\<not> next_page < 2 ^ order"
  moreover have "(0::nat) < 2 ^ order" by simp
  ultimately have "next_page - 2 ^ order < next_page" by (intro diff_less) linarith+
  then show "((b, next_page - 2 ^ order, n + 2 ^ order), b, next_page, n) \<in> measure (\<lambda>(b, next_page, n). next_page)"
    by simp
qed simp

declare trailing_loop.simps [simp del]

definition trailing_free_pages :: "BuddyAllocator \<Rightarrow> nat option" where
  "trailing_free_pages b = do { assert_that (0 < ba_len b); trailing_loop b (ba_len b - 1) 0 }"

subsection \<open>Allocating and freeing\<close>

text \<open>\<open>set_free\<close> stores the free indexes back into the allocator.\<close>

definition set_free :: "BuddyAllocator \<Rightarrow> BtreeBitmap list \<Rightarrow> BuddyAllocator" where
  "set_free b free = b\<lparr>ba_free := free\<rparr>"

lemma set_free_simps [simp]:
  "ba_free (set_free b fs) = fs" "ba_len (set_free b fs) = ba_len b"
  "ba_max_order (set_free b fs) = ba_max_order b" "set_free (set_free b fs) gs = set_free b gs"
  "set_free b (ba_free b) = b"
  by (simp_all add: set_free_def)

lemma at_order_length: "at_order f ms k = Some ms' \<Longrightarrow> length ms' = length ms"
  by (auto simp: at_order_def bind_Some_iff)

function alloc_inner :: "BuddyAllocator \<Rightarrow> nat \<Rightarrow> (nat option \<times> BuddyAllocator) option" where
  "alloc_inner b order =
     (if order > ba_max_order b then Some (None, b)
      else do {
        m \<leftarrow> get_order_free b order;
        (r, m') \<leftarrow> bt_alloc m;
        let b1 = set_free b ((ba_free b)[order := m']);
        case r of
          Some x \<Rightarrow> Some (Some x, b1)
        | None \<Rightarrow> do {
            (upper, b2) \<leftarrow> alloc_inner b1 (order + 1);
            case upper of
              None \<Rightarrow> Some (None, b2)
            | Some upper_page \<Rightarrow> do {
                m2 \<leftarrow> get_order_free b2 order;
                g1 \<leftarrow> bt_get m2 (upper_page * 2);
                assert_that g1;
                g2 \<leftarrow> bt_get m2 (upper_page * 2 + 1);
                assert_that g2;
                free \<leftarrow> at_order (\<lambda>m. bt_clear m (upper_page * 2 + 1)) (ba_free b2) order;
                Some (Some (upper_page * 2), set_free b2 free) } } })"
  by pat_completeness auto
termination
  by (relation "measure (\<lambda>(b, order). Suc (ba_max_order b) - order)") auto

declare alloc_inner.simps [simp del]

definition ba_alloc :: "BuddyAllocator \<Rightarrow> nat \<Rightarrow> (nat option \<times> BuddyAllocator) option" where
  "ba_alloc b order = alloc_inner b order"

function record_alloc_inner :: "BuddyAllocator \<Rightarrow> nat \<Rightarrow> nat \<Rightarrow> BuddyAllocator option" where
  "record_alloc_inner b page_number order = do {
     m \<leftarrow> get_order_free b order;
     allocated \<leftarrow> bt_get m page_number;
     if allocated then do {
       let upper_page = next_higher_order page_number;
       b1 \<leftarrow> record_alloc_inner b upper_page (order + 1);
       let (free1, free2) = (upper_page * 2, upper_page * 2 + 1);
       assert_that (free1 = page_number \<or> free2 = page_number);
       free \<leftarrow> at_order (\<lambda>m. bt_clear m (if free1 = page_number then free2 else free1)) (ba_free b1) order;
       Some (set_free b1 free) }
     else do {
       free \<leftarrow> at_order (\<lambda>m. bt_set m page_number) (ba_free b) order;
       Some (set_free b free) } }"
  by pat_completeness auto
termination
  by (relation "measure (\<lambda>(b, page, order). length (ba_free b) - order)")
    (auto simp: get_order_free_def idx_eq_Some_iff)

declare record_alloc_inner.simps [simp del]

definition record_alloc :: "BuddyAllocator \<Rightarrow> nat \<Rightarrow> nat \<Rightarrow> BuddyAllocator option" where
  "record_alloc b page_number order = do {
     assert_that (order \<le> ba_max_order b);
     record_alloc_inner b page_number order }"

function free_inner :: "BuddyAllocator \<Rightarrow> nat \<Rightarrow> nat \<Rightarrow> BuddyAllocator option" where
  "free_inner b page_number order =
     (if order = ba_max_order b then do {
        free \<leftarrow> at_order (\<lambda>m. bt_clear m page_number) (ba_free b) order;
        Some (set_free b free) }
      else do {
        m \<leftarrow> get_order_free b order;
        let buddy = buddy_page page_number;
        l \<leftarrow> bt_len m;
        unmergeable \<leftarrow> (if buddy \<ge> l then Some True else bt_get m buddy);
        if unmergeable then do {
          free \<leftarrow> at_order (\<lambda>m. bt_clear m page_number) (ba_free b) order;
          Some (set_free b free) }
        else do {
          free \<leftarrow> at_order (\<lambda>m. bt_set m buddy) (ba_free b) order;
          free_inner (set_free b free) (next_higher_order page_number) (order + 1) } })"
  by pat_completeness auto
termination
  by (relation "measure (\<lambda>(b, page, order). length (ba_free b) - order)")
    (auto simp: get_order_free_def idx_eq_Some_iff dest!: at_order_length)

declare free_inner.simps [simp del]

definition ba_free_page :: "BuddyAllocator \<Rightarrow> nat \<Rightarrow> nat \<Rightarrow> BuddyAllocator option" where
  "ba_free_page b page_number order = do {
     m \<leftarrow> get_order_free b order;
     allocated \<leftarrow> bt_get m page_number;
     assert_that allocated;
     free_inner b page_number order }"

text \<open>
  The search loop of \<open>alloc_lowest\<close> carries the allocator, the best index at the requested
  order, the best block and the multiplier; the second loop splits the best block down.
\<close>

definition lowest_step ::
  "nat \<Rightarrow> BuddyAllocator \<times> nat \<times> (nat \<times> nat) \<times> nat \<Rightarrow>
     (BuddyAllocator \<times> nat \<times> (nat \<times> nat) \<times> nat) option" where
  "lowest_step i = (\<lambda>(b, best_index_at_order, best, multiplier). do {
     (r, b1) \<leftarrow> alloc_inner b i;
     (b2, best_index', best') \<leftarrow> (case r of
         None \<Rightarrow> Some (b1, best_index_at_order, best)
       | Some index \<Rightarrow>
           if index * multiplier < best_index_at_order then do {
             b2 \<leftarrow> free_inner b1 (fst best) (snd best);
             Some (b2, index * multiplier, (index, i)) }
           else do {
             b2 \<leftarrow> free_inner b1 index i;
             Some (b2, best_index_at_order, best) });
     Some (b2, best_index', best', multiplier * 2) })"

function split_down :: "nat \<Rightarrow> BuddyAllocator \<Rightarrow> nat \<times> nat \<Rightarrow> (BuddyAllocator \<times> nat \<times> nat) option" where
  "split_down order b best =
     (if snd best > order then do {
        let (best_index, best_order) = best;
        let (free1, free2) = (best_index * 2, best_index * 2 + 1);
        m \<leftarrow> get_order_free b (best_order - 1);
        g1 \<leftarrow> bt_get m free1;
        assert_that g1;
        g2 \<leftarrow> bt_get m free2;
        assert_that g2;
        free \<leftarrow> at_order (\<lambda>m. bt_clear m free2) (ba_free b) (best_order - 1);
        split_down order (set_free b free) (free1, best_order - 1) }
      else Some (b, best))"
  by pat_completeness auto
termination
  by (relation "measure (\<lambda>(order, b, best). snd best)") auto

declare split_down.simps [simp del]

definition alloc_lowest :: "BuddyAllocator \<Rightarrow> nat \<Rightarrow> (nat option \<times> BuddyAllocator) option" where
  "alloc_lowest b order = do {
     (r, b1) \<leftarrow> alloc_inner b order;
     case r of
       None \<Rightarrow> Some (None, b1)
     | Some first \<Rightarrow> do {
         (b2, best_index_at_order, best, multiplier) \<leftarrow>
           fold_opt lowest_step [order + 1..<Suc (ba_max_order b1)] (b1, first, (first, order), 2);
         (b3, best') \<leftarrow> split_down order b2 best;
         assert_that (fst best' = best_index_at_order);
         Some (Some (fst best'), b3) } }"

subsection \<open>Resizing\<close>

fun resize_orders :: "BtreeBitmap list \<Rightarrow> nat \<Rightarrow> BtreeBitmap list option" where
  "resize_orders [] pages_for_order = Some []"
| "resize_orders (m # ms) pages_for_order = do {
     m' \<leftarrow> bt_resize m pages_for_order True;
     ms' \<leftarrow> resize_orders ms (next_higher_order pages_for_order);
     Some (m' # ms') }"

function grow_align :: "nat \<Rightarrow> BuddyAllocator \<Rightarrow> nat \<Rightarrow> (BuddyAllocator \<times> nat) option" where
  "grow_align new_size b processed_pages =
     (if processed_pages < new_size then do {
        let order = trailing_zeros32 processed_pages;
        assert_that (order < 32);
        let page = processed_pages div 2 ^ order;
        assert_that (processed_pages mod 2 ^ order = 0);
        if order \<ge> ba_max_order b \<or> processed_pages + 2 ^ order > new_size then Some (b, processed_pages)
        else do {
          b' \<leftarrow> free_inner b page order;
          grow_align new_size b' (processed_pages + 2 ^ order) } }
      else Some (b, processed_pages))"
  by pat_completeness auto
termination
  by (relation "measure (\<lambda>(n, b, p). n - p)") (auto simp: step_measure)

declare grow_align.simps [simp del]

function shrink_align :: "nat \<Rightarrow> BuddyAllocator \<Rightarrow> nat \<Rightarrow> (BuddyAllocator \<times> nat) option" where
  "shrink_align len b processed_pages =
     (if processed_pages < len then do {
        let order = trailing_zeros32 processed_pages;
        if order \<ge> ba_max_order b then Some (b, processed_pages)
        else do {
          let page = processed_pages div 2 ^ order;
          assert_that (processed_pages mod 2 ^ order = 0);
          if processed_pages + 2 ^ order > len then Some (b, processed_pages)
          else do {
            b' \<leftarrow> record_alloc_inner b page order;
            shrink_align len b' (processed_pages + 2 ^ order) } } }
      else Some (b, processed_pages))"
  by pat_completeness auto
termination
  by (relation "measure (\<lambda>(n, b, p). n - p)") (auto simp: step_measure)

declare shrink_align.simps [simp del]

text \<open>The debug check: no page is free at two orders, and buddies below the highest order are merged.\<close>

fun check_page :: "BuddyAllocator \<Rightarrow> nat list \<Rightarrow> nat \<Rightarrow> bool \<Rightarrow> unit option" where
  "check_page b [] page found = Some ()"
| "check_page b (order # orders) page found = do {
     m \<leftarrow> get_order_free b order;
     l \<leftarrow> bt_len m;
     if l \<le> page then Some ()
     else do {
       g \<leftarrow> bt_get m page;
       assert_that (\<not> g \<longrightarrow> \<not> found);
       check_page b orders (next_higher_order page) (found \<or> \<not> g) } }"

definition check_merged :: "BuddyAllocator \<Rightarrow> nat \<Rightarrow> nat \<Rightarrow> unit option" where
  "check_merged b order page = do {
     m \<leftarrow> get_order_free b order;
     g \<leftarrow> bt_get m page;
     if g then Some ()
     else do {
       let buddy = buddy_page page;
       l \<leftarrow> bt_len m;
       if buddy < l then do { g' \<leftarrow> bt_get m buddy; assert_that g' } else Some () } }"

definition debug_check_consistency :: "BuddyAllocator \<Rightarrow> unit option" where
  "debug_check_consistency b = do {
     fold_opt (\<lambda>processed _. check_page b [0..<Suc (ba_max_order b)] processed False) [0..<ba_len b] ();
     fold_opt (\<lambda>order _. fold_opt (\<lambda>page _. check_merged b order page) [0..<ba_len b div 2 ^ order] ())
       (rev [0..<ba_max_order b]) () }"

definition ba_resize :: "BuddyAllocator \<Rightarrow> nat \<Rightarrow> BuddyAllocator option" where
  "ba_resize b new_size = do {
     debug_check_consistency b;
     b' \<leftarrow> (if new_size > ba_len b then do {
         free \<leftarrow> resize_orders (ba_free b) new_size;
         (b1, processed) \<leftarrow> grow_align new_size (set_free b free) (ba_len b);
         (b2, processed') \<leftarrow>
           fill_orders (\<lambda>page order b. free_inner b page order) new_size (ba_max_order b) b1 processed;
         assert_that (processed' = new_size);
         Some b2 }
       else do {
         (b1, processed) \<leftarrow> shrink_align (ba_len b) b new_size;
         (b2, processed') \<leftarrow>
           fill_orders (\<lambda>page order b. record_alloc_inner b page order) (ba_len b) (ba_max_order b) b1 processed;
         assert_that (processed' = ba_len b);
         free \<leftarrow> resize_orders (ba_free b2) new_size;
         Some (set_free b2 free) });
     let b'' = b'\<lparr>ba_len := new_size\<rparr>;
     debug_check_consistency b'';
     Some b'' }"

subsection \<open>Aligned blocks and maximal free blocks\<close>

definition blk :: "nat \<Rightarrow> nat \<Rightarrow> nat set" where
  "blk k n = {p. p div 2 ^ n = k}"

definition maxfree :: "nat \<Rightarrow> nat set \<Rightarrow> nat \<Rightarrow> nat set" where
  "maxfree M F n = {k. blk k n \<subseteq> F \<and> (n < M \<longrightarrow> \<not> blk (k div 2) (Suc n) \<subseteq> F)}"

lemma in_blk [simp]: "p \<in> blk k n \<longleftrightarrow> p div 2 ^ n = k"
  by (simp add: blk_def)

lemma blk_interval: "blk k n = {k * 2 ^ n..<(k + 1) * 2 ^ n}"
proof -
  have *: "p div 2 ^ n = k \<longleftrightarrow> k * 2 ^ n \<le> p \<and> p < (k + 1) * 2 ^ n" for p
  proof
    assume "p div 2 ^ n = k"
    then show "k * 2 ^ n \<le> p \<and> p < (k + 1) * 2 ^ n"
      using div_times_less_eq_dividend[of p "2 ^ n"] dividend_less_div_times[of "2 ^ n" p]
      by (auto simp: add.commute)
  next
    assume "k * 2 ^ n \<le> p \<and> p < (k + 1) * 2 ^ n"
    then show "p div 2 ^ n = k" by (intro div_nat_eqI) (simp_all add: mult.commute)
  qed
  show ?thesis unfolding blk_def by (intro set_eqI) (simp only: mem_Collect_eq atLeastLessThan_iff *)
qed

lemma blk_start: "k * 2 ^ n \<in> blk k n"
  by simp

lemma blk_nonempty [simp]: "blk k n \<noteq> {}"
  using blk_start by blast

lemma card_blk [simp]: "card (blk k n) = 2 ^ n"
  by (simp add: blk_interval)

lemma finite_blk [simp]: "finite (blk k n)"
  by (simp add: blk_interval)

lemma blk_0 [simp]: "blk k 0 = {k}"
  by auto

lemma div_pow_mono: "m \<le> n \<Longrightarrow> p div 2 ^ n = p div 2 ^ m div 2 ^ (n - m)" for p :: nat
  by (metis div_mult2_eq le_add_diff_inverse power_add)

lemma blk_subset_iff:
  assumes "m \<le> n"
  shows "blk j m \<subseteq> blk k n \<longleftrightarrow> j div 2 ^ (n - m) = k"
proof
  assume "blk j m \<subseteq> blk k n"
  then have "j * 2 ^ m \<in> blk k n" using blk_start by blast
  then show "j div 2 ^ (n - m) = k" using div_pow_mono[OF assms, of "j * 2 ^ m"] by simp
next
  assume "j div 2 ^ (n - m) = k"
  then show "blk j m \<subseteq> blk k n" using div_pow_mono[OF assms] by auto
qed

lemma blk_nested: "m \<le> n \<Longrightarrow> blk j m \<subseteq> blk k n \<or> blk j m \<inter> blk k n = {}"
proof -
  assume mn: "m \<le> n"
  show ?thesis
  proof (cases "j div 2 ^ (n - m) = k")
    case False
    then show ?thesis using div_pow_mono[OF mn] by auto
  qed (simp add: blk_subset_iff mn)
qed

lemma blk_parent: "blk k n \<subseteq> blk (k div 2) (Suc n)"
  by (simp add: blk_subset_iff)

text \<open>The parent of a block below a larger block lies inside that block.\<close>

lemma parent_subset: "m < n \<Longrightarrow> blk j m \<subseteq> blk k n \<Longrightarrow> blk (j div 2) (Suc m) \<subseteq> blk k n"
  by (simp add: blk_subset_iff) (metis Suc_diff_Suc div_mult2_eq power_Suc)

lemma buddy_page_eq: "buddy_page p = (if even p then p + 1 else p - 1)"
  unfolding buddy_page_def xor_one_eq by simp

lemma buddy_div [simp]: "buddy_page p div 2 = p div 2"
  by (auto simp: buddy_page_eq elim: oddE)

lemma buddy_neq: "buddy_page p \<noteq> p"
  by (auto simp: buddy_page_eq elim: oddE)

lemma buddy_buddy [simp]: "buddy_page (buddy_page p) = p"
  by (auto simp: buddy_page_eq elim: oddE)

lemma blk_split: "blk (k div 2) (Suc n) = blk k n \<union> blk (buddy_page k) n"
proof -
  have *: "p div 2 ^ Suc n = k div 2 \<longleftrightarrow> p div 2 ^ n = k \<or> p div 2 ^ n = buddy_page k" for p
  proof -
    have "p div 2 ^ Suc n = p div 2 ^ n div 2" by (metis div_mult2_eq power_Suc2)
    moreover have "q div 2 = k div 2 \<longleftrightarrow> q = k \<or> q = buddy_page k" for q
      by (auto simp: buddy_page_eq elim!: oddE evenE)
    ultimately show ?thesis by simp
  qed
  show ?thesis unfolding blk_def by (intro set_eqI) (simp only: mem_Collect_eq Un_iff *)
qed

lemma blk_children: "blk k (Suc n) = blk (2 * k) n \<union> blk (2 * k + 1) n"
  using blk_split[of "2 * k" n] by (simp add: buddy_page_eq)

lemma blk_buddy_disjoint: "blk k n \<inter> blk (buddy_page k) n = {}"
  using buddy_neq[of k] by auto

text \<open>Two different maximal blocks are disjoint.\<close>

lemma maxfree_disjoint_le:
  assumes "k \<in> maxfree M F n" and "j \<in> maxfree M F m" and "m \<le> n" and "n \<le> M" and "(m, j) \<noteq> (n, k)"
  shows "blk j m \<inter> blk k n = {}"
proof (rule ccontr)
  assume "blk j m \<inter> blk k n \<noteq> {}"
  then have sub: "blk j m \<subseteq> blk k n" using blk_nested assms(3) by blast
  show False
  proof (cases "m = n")
    case True
    then show False using sub assms(5) by (simp add: blk_subset_iff)
  next
    case False
    with parent_subset[OF _ sub] assms show False by (auto simp: maxfree_def)
  qed
qed

lemma maxfree_disjoint:
  assumes "k \<in> maxfree M F n" and "j \<in> maxfree M F m" and "n \<le> M" and "m \<le> M" and "(m, j) \<noteq> (n, k)"
  shows "blk j m \<inter> blk k n = {}"
  using maxfree_disjoint_le[of k M F n j m] maxfree_disjoint_le[of j M F m k n] assms
  by (cases "m \<le> n") auto

lemma maxfree_remove:
  assumes k: "k \<in> maxfree M F n" and n: "n \<le> M" and m: "m \<le> M"
  shows "maxfree M (F - blk k n) m = (if m = n then maxfree M F n - {k} else maxfree M F m)"
proof -
  have "j \<in> maxfree M (F - blk k n) m \<longleftrightarrow> j \<in> maxfree M F m \<and> (m, j) \<noteq> (n, k)" for j
  proof
    assume j: "j \<in> maxfree M F m \<and> (m, j) \<noteq> (n, k)"
    then have "blk j m \<inter> blk k n = {}" using maxfree_disjoint[OF k _ n m] by blast
    then show "j \<in> maxfree M (F - blk k n) m" using j by (auto simp: maxfree_def)
  next
    assume j: "j \<in> maxfree M (F - blk k n) m"
    then have sub: "blk j m \<subseteq> F" "blk j m \<inter> blk k n = {}" by (auto simp: maxfree_def)
    have "\<not> blk (j div 2) (Suc m) \<subseteq> F" if "m < M"
    proof
      assume P: "blk (j div 2) (Suc m) \<subseteq> F"
      from j that have "\<not> blk (j div 2) (Suc m) \<subseteq> F - blk k n" by (simp add: maxfree_def)
      with P have meet: "blk (j div 2) (Suc m) \<inter> blk k n \<noteq> {}" by blast
      show False
      proof (cases "Suc m \<le> n")
        case True
        with blk_nested[OF True] meet have "blk (j div 2) (Suc m) \<subseteq> blk k n" by blast
        with blk_parent[of j m] sub(2) blk_nonempty[of j m] show False by blast
      next
        case False
        with blk_nested[of n "Suc m" k "j div 2"] meet have "blk k n \<subseteq> blk (j div 2) (Suc m)" by auto
        with parent_subset[of n "Suc m" k "j div 2"] False P have "blk (k div 2) (Suc n) \<subseteq> F" by auto
        with k False that show False by (auto simp: maxfree_def)
      qed
    qed
    with sub show "j \<in> maxfree M F m \<and> (m, j) \<noteq> (n, k)" by (auto simp: maxfree_def)
  qed
  then show ?thesis by auto
qed

lemma maxfree_add:
  assumes disj: "blk j n \<inter> F = {}" and n: "n \<le> M" and m: "m \<le> M"
    and unmerged: "n < M \<Longrightarrow> \<not> blk (buddy_page j) n \<subseteq> F"
  shows "maxfree M (F \<union> blk j n) m = (if m = n then insert j (maxfree M F n) else maxfree M F m)"
proof -
  let ?F = "F \<union> blk j n"
  have "\<not> blk (j div 2) (Suc n) \<subseteq> ?F" if "n < M"
    using unmerged[OF that] blk_buddy_disjoint[of j n] by (auto simp: blk_split)
  then have j: "j \<in> maxfree M ?F n" by (auto simp: maxfree_def)
  have "?F - blk j n = F" using disj by blast
  with maxfree_remove[OF j n m] j show ?thesis by (auto split: if_splits)
qed

text \<open>Every free block lies in a maximal one, and so does every free page.\<close>

lemma maxfree_cover:
  assumes "blk k n \<subseteq> F" and "n \<le> M"
  shows "\<exists>m j. n \<le> m \<and> m \<le> M \<and> j \<in> maxfree M F m \<and> blk k n \<subseteq> blk j m"
  using assms
proof (induction "M - n" arbitrary: k n)
  case 0
  then show ?case by (intro exI[of _ n] exI[of _ k]) (simp add: maxfree_def)
next
  case (Suc d)
  show ?case
  proof (cases "blk (k div 2) (Suc n) \<subseteq> F")
    case True
    have "d = M - Suc n" "Suc n \<le> M" using Suc.hyps(2) by simp_all
    from Suc.hyps(1)[OF this(1) True this(2)] obtain m j where
      "Suc n \<le> m" "m \<le> M" "j \<in> maxfree M F m" "blk (k div 2) (Suc n) \<subseteq> blk j m" by blast
    then show ?thesis using blk_parent[of k n] by (meson Suc_leD order_trans)
  next
    case False
    then show ?thesis using Suc.prems by (intro exI[of _ n] exI[of _ k]) (simp add: maxfree_def)
  qed
qed

lemma maxfree_union: "(\<Union>n\<in>{..M}. \<Union>k\<in>maxfree M F n. blk k n) = F"
proof (intro set_eqI iffI)
  fix p assume "p \<in> F"
  then obtain m j where mj: "m \<le> M" "j \<in> maxfree M F m" "blk p 0 \<subseteq> blk j m"
    using maxfree_cover[of p 0 F M] by auto
  from mj(3) have "p \<in> blk j m" using blk_start[of p 0] by auto
  with mj(1,2) show "p \<in> (\<Union>n\<in>{..M}. \<Union>k\<in>maxfree M F n. blk k n)" by blast
qed (auto simp: maxfree_def blk_def)

lemma maxfree_inject:
  assumes "\<And>n. n \<le> M \<Longrightarrow> maxfree M F n = maxfree M G n"
  shows "F = G"
proof -
  have "(\<Union>n\<in>{..M}. \<Union>k\<in>maxfree M F n. blk k n) = (\<Union>n\<in>{..M}. \<Union>k\<in>maxfree M G n. blk k n)"
    using assms by (intro SUP_cong) auto
  then show ?thesis unfolding maxfree_union .
qed

lemma blk_below: "blk j n \<subseteq> {..<l} \<longleftrightarrow> j < l div 2 ^ n"
proof -
  have "blk j n \<subseteq> {..<l} \<longleftrightarrow> Suc j * 2 ^ n \<le> l"
    unfolding blk_interval by (auto simp: ivl_subset lessThan_atLeast0)
  also have "\<dots> \<longleftrightarrow> Suc j \<le> l div 2 ^ n" by (simp only: less_eq_div_iff_mult_less_eq zero_less_numeral zero_less_power)
  finally show ?thesis by (simp add: Suc_le_eq)
qed

subsection \<open>Representation of the set of free pages\<close>

definition ba_rep :: "BuddyAllocator \<Rightarrow> nat set \<Rightarrow> bool" where
  "ba_rep b F \<longleftrightarrow> length (ba_free b) = Suc (ba_max_order b) \<and> ba_max_order b \<le> MAX_MAX_PAGE_ORDER \<and>
     (\<forall>m\<in>set (ba_free b). bt_inv m) \<and> F \<subseteq> {..<ba_len b} \<and>
     (\<forall>n\<le>ba_max_order b. bt_size (ba_free b ! n) = ba_len b div 2 ^ n \<and>
        bt_unset (ba_free b ! n) = maxfree (ba_max_order b) F n)"

definition same_shape :: "BuddyAllocator \<Rightarrow> BuddyAllocator \<Rightarrow> bool" where
  "same_shape b b' \<longleftrightarrow> ba_len b' = ba_len b \<and> ba_max_order b' = ba_max_order b \<and>
     map bt_capacity (ba_free b') = map bt_capacity (ba_free b)"

lemma same_shape_refl [simp]: "same_shape b b"
  by (simp add: same_shape_def)

lemma same_shape_trans [trans]: "same_shape a b \<Longrightarrow> same_shape b c \<Longrightarrow> same_shape a c"
  by (simp add: same_shape_def)

lemma same_shapeD:
  "same_shape b b' \<Longrightarrow> ba_len b' = ba_len b" "same_shape b b' \<Longrightarrow> ba_max_order b' = ba_max_order b"
  by (simp_all add: same_shape_def)

lemma ba_rep_unique: "ba_rep b F \<Longrightarrow> ba_rep b G \<Longrightarrow> F = G"
  by (rule maxfree_inject[of "ba_max_order b"]) (simp add: ba_rep_def)

lemma ba_repD:
  assumes "ba_rep b F" and "n \<le> ba_max_order b"
  shows "get_order_free b n = Some (ba_free b ! n)" "bt_inv (ba_free b ! n)" "n < length (ba_free b)"
    "bt_size (ba_free b ! n) = ba_len b div 2 ^ n" "bt_unset (ba_free b ! n) = maxfree (ba_max_order b) F n"
  using assms by (simp_all add: ba_rep_def get_order_free_def)

lemma ba_rep_get:
  assumes "ba_rep b F" and "n \<le> ba_max_order b" and "k < ba_len b div 2 ^ n"
  shows "bt_get (ba_free b ! n) k = Some (k \<notin> maxfree (ba_max_order b) F n)"
  using bt_get_correct[of "ba_free b ! n" k] ba_repD[OF assms(1,2)] assms(3) by simp

lemma maxfree_below: "ba_rep b F \<Longrightarrow> k \<in> maxfree (ba_max_order b) F n \<Longrightarrow> k < ba_len b div 2 ^ n"
  unfolding blk_below[symmetric] by (auto simp: ba_rep_def maxfree_def)

lemma rep_update:
  assumes rep: "ba_rep b F" and n: "n \<le> ba_max_order b"
    and at: "\<exists>ms. at_order f (ba_free b) n = Some ms \<and> (\<forall>m\<in>set ms. bt_inv m) \<and>
      map bt_dims ms = map bt_dims (ba_free b) \<and> map bt_unset ms = (map bt_unset (ba_free b))[n := u]"
    and G: "G \<subseteq> {..<ba_len b}"
      "\<And>m. m \<le> ba_max_order b \<Longrightarrow>
        maxfree (ba_max_order b) G m = (if m = n then u else maxfree (ba_max_order b) F m)"
  shows "\<exists>ms. at_order f (ba_free b) n = Some ms \<and> ba_rep (set_free b ms) G \<and> same_shape b (set_free b ms)"
proof -
  from at obtain ms where ms: "at_order f (ba_free b) n = Some ms" "\<forall>m\<in>set ms. bt_inv m"
    "map bt_dims ms = map bt_dims (ba_free b)" "map bt_unset ms = (map bt_unset (ba_free b))[n := u]" by blast
  have len: "length ms = length (ba_free b)" by (rule at_order_length[OF ms(1)])
  have dims: "bt_size (ms ! i) = bt_size (ba_free b ! i)" if "i < length ms" for i
    using arg_cong[OF ms(3), of "\<lambda>xs. xs ! i"] that len by simp
  have unset: "bt_unset (ms ! i) = (if i = n then u else bt_unset (ba_free b ! i))" if "i < length ms" for i
    using arg_cong[OF ms(4), of "\<lambda>xs. xs ! i"] that len by simp
  have "map snd (map bt_dims ms) = map snd (map bt_dims (ba_free b))" by (simp only: ms(3))
  then have "map bt_capacity ms = map bt_capacity (ba_free b)" by (simp add: comp_def)
  then have "same_shape b (set_free b ms)" by (simp add: same_shape_def)
  moreover have "ba_rep (set_free b ms) G"
    unfolding ba_rep_def set_free_simps
  proof (intro conjI allI impI)
    fix i assume i: "i \<le> ba_max_order b"
    note old = ba_repD[OF rep i]
    then have "i < length ms" using len by simp
    then show "bt_size (ms ! i) = ba_len b div 2 ^ i" "bt_unset (ms ! i) = maxfree (ba_max_order b) G i"
      using dims unset old(4,5) G(2)[OF i] by simp_all
  qed (use rep len ms(2) G(1) in \<open>simp_all add: ba_rep_def\<close>)
  ultimately show ?thesis using ms(1) by blast
qed

lemma rep_take:
  assumes rep: "ba_rep b F" and n: "n \<le> ba_max_order b" and k: "k \<in> maxfree (ba_max_order b) F n"
  shows "\<exists>ms. at_order (\<lambda>m. bt_set m k) (ba_free b) n = Some ms \<and>
    ba_rep (set_free b ms) (F - blk k n) \<and> same_shape b (set_free b ms)"
proof (rule rep_update[OF rep n])
  show "\<exists>ms. at_order (\<lambda>m. bt_set m k) (ba_free b) n = Some ms \<and> (\<forall>m\<in>set ms. bt_inv m) \<and>
      map bt_dims ms = map bt_dims (ba_free b) \<and>
      map bt_unset ms = (map bt_unset (ba_free b))[n := maxfree (ba_max_order b) F n - {k}]"
    using bt.order_set[of "ba_free b" n k] ba_repD[OF rep n] maxfree_below[OF rep k] rep
    by (simp add: ba_rep_def)
next
  show "F - blk k n \<subseteq> {..<ba_len b}" using rep by (auto simp: ba_rep_def)
qed (use maxfree_remove[OF k n] in simp)

lemma rep_add:
  assumes rep: "ba_rep b F" and n: "n \<le> ba_max_order b" and below: "blk j n \<subseteq> {..<ba_len b}"
    and disj: "blk j n \<inter> F = {}" and unmerged: "n < ba_max_order b \<Longrightarrow> \<not> blk (buddy_page j) n \<subseteq> F"
  shows "\<exists>ms. at_order (\<lambda>m. bt_clear m j) (ba_free b) n = Some ms \<and>
    ba_rep (set_free b ms) (F \<union> blk j n) \<and> same_shape b (set_free b ms)"
proof (rule rep_update[OF rep n])
  show "\<exists>ms. at_order (\<lambda>m. bt_clear m j) (ba_free b) n = Some ms \<and> (\<forall>m\<in>set ms. bt_inv m) \<and>
      map bt_dims ms = map bt_dims (ba_free b) \<and>
      map bt_unset ms = (map bt_unset (ba_free b))[n := insert j (maxfree (ba_max_order b) F n)]"
    using bt.order_clear[of "ba_free b" n j] ba_repD[OF rep n] below[unfolded blk_below] rep
    by (simp add: ba_rep_def)
next
  show "F \<union> blk j n \<subseteq> {..<ba_len b}" using rep below unfolding ba_rep_def by blast
qed (use maxfree_add[OF disj n _ unmerged] in simp)

subsection \<open>Allocation\<close>

text \<open>The splitting step shared by \<open>alloc_inner\<close> and \<open>alloc_lowest\<close>.\<close>

lemma rep_split:
  assumes rep: "ba_rep b (F - blk u (Suc n))" and n: "n < ba_max_order b" and u: "blk u (Suc n) \<subseteq> F"
    and F: "F \<subseteq> {..<ba_len b}"
  shows "bt_get (ba_free b ! n) (u * 2) = Some True" "bt_get (ba_free b ! n) (u * 2 + 1) = Some True"
    "\<exists>ms. at_order (\<lambda>m. bt_clear m (u * 2 + 1)) (ba_free b) n = Some ms \<and>
      ba_rep (set_free b ms) (F - blk (u * 2) n) \<and> same_shape b (set_free b ms)"
proof -
  let ?F = "F - blk u (Suc n)"
  have ch: "blk u (Suc n) = blk (u * 2) n \<union> blk (u * 2 + 1) n" using blk_children[of u n] by (simp add: mult.commute)
  have disj: "blk (u * 2) n \<inter> blk (u * 2 + 1) n = {}" using blk_buddy_disjoint[of "u * 2" n] by (simp add: buddy_page_eq)
  have not1: "\<not> blk (u * 2) n \<subseteq> ?F" "\<not> blk (u * 2 + 1) n \<subseteq> ?F"
    using ch blk_nonempty[of "u * 2" n] blk_nonempty[of "u * 2 + 1" n] by blast+
  have "blk (u * 2) n \<subseteq> {..<ba_len b}" and below: "blk (u * 2 + 1) n \<subseteq> {..<ba_len b}"
    using ch u F by blast+
  then show "bt_get (ba_free b ! n) (u * 2) = Some True" "bt_get (ba_free b ! n) (u * 2 + 1) = Some True"
    using ba_rep_get[OF rep, of n] n not1 unfolding blk_below by (auto simp: maxfree_def)
  have "\<exists>ms. at_order (\<lambda>m. bt_clear m (u * 2 + 1)) (ba_free b) n = Some ms \<and>
      ba_rep (set_free b ms) (?F \<union> blk (u * 2 + 1) n) \<and> same_shape b (set_free b ms)"
    by (rule rep_add[OF rep _ below]) (use n ch not1 in \<open>auto simp: buddy_page_eq\<close>)
  moreover have "?F \<union> blk (u * 2 + 1) n = F - blk (u * 2) n" using ch u disj by blast
  ultimately show "\<exists>ms. at_order (\<lambda>m. bt_clear m (u * 2 + 1)) (ba_free b) n = Some ms \<and>
      ba_rep (set_free b ms) (F - blk (u * 2) n) \<and> same_shape b (set_free b ms)" by simp
qed

text \<open>Which block \<open>alloc_inner\<close> takes: the first maximal block of the lowest order that has one.\<close>

definition chosen :: "nat \<Rightarrow> nat set \<Rightarrow> nat \<Rightarrow> nat \<Rightarrow> bool" where
  "chosen M F n k \<longleftrightarrow> (\<exists>m. n \<le> m \<and> m \<le> M \<and> maxfree M F m \<noteq> {} \<and>
     (\<forall>i. n \<le> i \<longrightarrow> i < m \<longrightarrow> maxfree M F i = {}) \<and> k = Min (maxfree M F m) * 2 ^ (m - n))"

lemma finite_maxfree: "finite F \<Longrightarrow> finite (maxfree M F n)"
proof -
  assume F: "finite F"
  have "maxfree M F n \<subseteq> (\<lambda>p. p div 2 ^ n) ` F"
  proof
    fix k assume "k \<in> maxfree M F n"
    then have "blk k n \<subseteq> F" by (simp add: maxfree_def)
    then have "k * 2 ^ n \<in> F" using blk_start[of k n] by blast
    then show "k \<in> (\<lambda>p. p div 2 ^ n) ` F" by (metis blk_start image_eqI in_blk)
  qed
  then show ?thesis using F finite_surj by blast
qed

lemma ba_rep_finite: "ba_rep b F \<Longrightarrow> finite F"
  by (auto simp: ba_rep_def intro: finite_subset)

lemma chosen_free:
  assumes "chosen M F n k" and "finite F"
  shows "blk k n \<subseteq> F"
proof -
  from assms(1) obtain m where m: "n \<le> m" "maxfree M F m \<noteq> {}" "k = Min (maxfree M F m) * 2 ^ (m - n)"
    by (auto simp: chosen_def)
  then have "Min (maxfree M F m) \<in> maxfree M F m" using finite_maxfree[OF assms(2)] by simp
  then have "blk (Min (maxfree M F m)) m \<subseteq> F" by (simp add: maxfree_def)
  moreover have "blk k n \<subseteq> blk (Min (maxfree M F m)) m" using m by (simp add: blk_subset_iff)
  ultimately show ?thesis by blast
qed

lemma alloc_take:
  assumes rep: "ba_rep b F" and n: "n \<le> ba_max_order b" and ne: "maxfree (ba_max_order b) F n \<noteq> {}"
  shows "\<exists>m'. bt_alloc (ba_free b ! n) = Some (Some (Min (maxfree (ba_max_order b) F n)), m') \<and>
    ba_rep (set_free b ((ba_free b)[n := m'])) (F - blk (Min (maxfree (ba_max_order b) F n)) n) \<and>
    same_shape b (set_free b ((ba_free b)[n := m']))"
proof -
  let ?S = "maxfree (ba_max_order b) F n"
  note D = ba_repD[OF rep n]
  from bt.take_law[OF D(2)] D(5) ne obtain m' where m': "bt_alloc (ba_free b ! n) = Some (Some (Min ?S), m')"
    "bt_inv m'" "bt_dims m' = bt_dims (ba_free b ! n)" "bt_unset m' = ?S - {Min ?S}" by auto
  have k: "Min ?S \<in> ?S" using ne finite_maxfree[OF ba_rep_finite[OF rep]] by simp
  have "\<exists>ms. at_order (\<lambda>_. Some m') (ba_free b) n = Some ms \<and>
      ba_rep (set_free b ms) (F - blk (Min ?S) n) \<and> same_shape b (set_free b ms)"
  proof (rule rep_update[OF rep n])
    show "\<exists>ms. at_order (\<lambda>_. Some m') (ba_free b) n = Some ms \<and> (\<forall>m\<in>set ms. bt_inv m) \<and>
        map bt_dims ms = map bt_dims (ba_free b) \<and> map bt_unset ms = (map bt_unset (ba_free b))[n := ?S - {Min ?S}]"
      by (rule bt.order_law) (use m' D rep in \<open>simp_all add: ba_rep_def\<close>)
    show "F - blk (Min ?S) n \<subseteq> {..<ba_len b}" using rep by (auto simp: ba_rep_def)
  qed (use maxfree_remove[OF k n] in simp)
  then show ?thesis using m'(1) D(3) by (simp add: at_order_def)
qed

lemma chosen_Suc:
  assumes "maxfree M F n = {}" and "chosen M F (Suc n) u"
  shows "chosen M F n (u * 2)"
proof -
  from assms(2) obtain m where m: "Suc n \<le> m" "m \<le> M" "maxfree M F m \<noteq> {}"
    "\<forall>i. Suc n \<le> i \<longrightarrow> i < m \<longrightarrow> maxfree M F i = {}" "u = Min (maxfree M F m) * 2 ^ (m - Suc n)"
    by (auto simp: chosen_def)
  have "\<forall>i. n \<le> i \<longrightarrow> i < m \<longrightarrow> maxfree M F i = {}" using m(4) assms(1) by (metis le_antisym not_less_eq_eq)
  moreover have "(2::nat) ^ (m - n) = 2 ^ (m - Suc n) * 2"
    using m(1) by (metis Suc_diff_le diff_Suc_Suc power_Suc2)
  ultimately show ?thesis unfolding chosen_def
    by (intro exI[of _ m]) (use m in simp)
qed

text \<open>An empty order defers to the next one and splits the block found there.\<close>

lemma alloc_inner_empty:
  assumes rep: "ba_rep b F" and n: "n \<le> ba_max_order b" and empty: "maxfree (ba_max_order b) F n = {}"
  shows "alloc_inner b (Suc n) = Some (None, b) \<Longrightarrow> alloc_inner b n = Some (None, b)"
    "\<lbrakk>alloc_inner b (Suc n) = Some (Some u, b2); ba_rep b2 (F - blk u (Suc n)); same_shape b b2;
      blk u (Suc n) \<subseteq> F; n < ba_max_order b\<rbrakk> \<Longrightarrow>
      \<exists>b'. alloc_inner b n = Some (Some (u * 2), b') \<and> ba_rep b' (F - blk (u * 2) n) \<and> same_shape b b'"
proof -
  note D = ba_repD[OF rep n]
  have none: "bt_alloc (ba_free b ! n) = Some (None, ba_free b ! n)"
    using bt.take_law[OF D(2)] D(5) empty by simp
  show "alloc_inner b n = Some (None, b)" if "alloc_inner b (Suc n) = Some (None, b)"
    using n D(1,3) none that by (subst alloc_inner.simps) (simp add: Let_def)
  assume u: "alloc_inner b (Suc n) = Some (Some u, b2)" "ba_rep b2 (F - blk u (Suc n))" "same_shape b b2"
    "blk u (Suc n) \<subseteq> F" "n < ba_max_order b"
  have F: "F \<subseteq> {..<ba_len b2}" and lt: "n < ba_max_order b2"
    using rep u(3,5) by (simp_all add: ba_rep_def same_shape_def)
  note split = rep_split[OF u(2) lt u(4) F]
  from split(3) obtain ms where ms: "at_order (\<lambda>m. bt_clear m (u * 2 + 1)) (ba_free b2) n = Some ms"
    "ba_rep (set_free b2 ms) (F - blk (u * 2) n)" "same_shape b2 (set_free b2 ms)" by blast
  have "get_order_free b2 n = Some (ba_free b2 ! n)" using ba_repD(1)[OF u(2), of n] lt by simp
  then have "alloc_inner b n = Some (Some (u * 2), set_free b2 ms)"
    using n D(1,3) none u(1) split(1,2) ms(1) by (subst alloc_inner.simps) (simp add: Let_def)
  then show "\<exists>b'. alloc_inner b n = Some (Some (u * 2), b') \<and> ba_rep b' (F - blk (u * 2) n) \<and> same_shape b b'"
    using ms(2) same_shape_trans[OF u(3) ms(3)] by blast
qed

lemma alloc_inner_correct:
  assumes rep: "ba_rep b F"
  shows "if \<exists>m. n \<le> m \<and> m \<le> ba_max_order b \<and> maxfree (ba_max_order b) F m \<noteq> {}
    then \<exists>k b'. alloc_inner b n = Some (Some k, b') \<and> chosen (ba_max_order b) F n k \<and>
      ba_rep b' (F - blk k n) \<and> same_shape b b'
    else alloc_inner b n = Some (None, b)"
proof (induction "Suc (ba_max_order b) - n" arbitrary: n)
  case 0
  then show ?case by (subst (2) alloc_inner.simps) auto
next
  case (Suc d)
  let ?M = "ba_max_order b"
  have n: "n \<le> ?M" using Suc.hyps(2) by simp
  show ?case
  proof (cases "maxfree ?M F n = {}")
    case False
    from alloc_take[OF rep n False] obtain m' where m':
      "bt_alloc (ba_free b ! n) = Some (Some (Min (maxfree ?M F n)), m')"
      "ba_rep (set_free b ((ba_free b)[n := m'])) (F - blk (Min (maxfree ?M F n)) n)"
      "same_shape b (set_free b ((ba_free b)[n := m']))" by blast
    moreover have "chosen ?M F n (Min (maxfree ?M F n))"
      using n False by (auto simp: chosen_def intro!: exI[of _ n])
    moreover have "alloc_inner b n = Some (Some (Min (maxfree ?M F n)), set_free b ((ba_free b)[n := m']))"
      using n ba_repD(1)[OF rep n] m'(1) by (subst alloc_inner.simps) (simp add: Let_def)
    ultimately show ?thesis using n False by auto
  next
    case True
    have ex: "(\<exists>m. n \<le> m \<and> m \<le> ?M \<and> maxfree ?M F m \<noteq> {}) \<longleftrightarrow>
        (\<exists>m. Suc n \<le> m \<and> m \<le> ?M \<and> maxfree ?M F m \<noteq> {})"
      using True by (metis Suc_leD le_antisym not_less_eq_eq)
    have d: "d = Suc ?M - Suc n" using Suc.hyps(2) by simp
    note IH = Suc.hyps(1)[OF d]
    show ?thesis
    proof (cases "\<exists>m. Suc n \<le> m \<and> m \<le> ?M \<and> maxfree ?M F m \<noteq> {}")
      case False
      then show ?thesis using IH ex alloc_inner_empty(1)[OF rep n True] by simp
    next
      case nonempty: True
      with IH obtain u b2 where u: "alloc_inner b (Suc n) = Some (Some u, b2)" "chosen ?M F (Suc n) u"
        "ba_rep b2 (F - blk u (Suc n))" "same_shape b b2" by auto
      have "n < ?M" using u(2) by (auto simp: chosen_def)
      with alloc_inner_empty(2)[OF rep n True u(1,3,4) chosen_free[OF u(2) ba_rep_finite[OF rep]]]
        chosen_Suc[OF True u(2)] ex nonempty
      show ?thesis by auto
    qed
  qed
qed

lemma some_block_iff:
  "(\<exists>m. n \<le> m \<and> m \<le> M \<and> maxfree M F m \<noteq> {}) \<longleftrightarrow> n \<le> M \<and> (\<exists>k. blk k n \<subseteq> F)"
proof
  assume "\<exists>m. n \<le> m \<and> m \<le> M \<and> maxfree M F m \<noteq> {}"
  then obtain m k where m: "n \<le> m" "m \<le> M" "k \<in> maxfree M F m" by blast
  then have "blk (k * 2 ^ (m - n)) n \<subseteq> blk k m" "blk k m \<subseteq> F"
    by (simp_all add: blk_subset_iff maxfree_def)
  with m show "n \<le> M \<and> (\<exists>k. blk k n \<subseteq> F)" by (meson order_trans)
next
  assume "n \<le> M \<and> (\<exists>k. blk k n \<subseteq> F)"
  then show "\<exists>m. n \<le> m \<and> m \<le> M \<and> maxfree M F m \<noteq> {}" using maxfree_cover by blast
qed

subsection \<open>Recording an allocation and freeing\<close>

lemma record_alloc_inner_correct:
  assumes "ba_rep b F" and "n \<le> ba_max_order b" and "blk k n \<subseteq> F"
  shows "\<exists>b'. record_alloc_inner b k n = Some b' \<and> ba_rep b' (F - blk k n) \<and> same_shape b b'"
  using assms(2,3)
proof (induction "ba_max_order b - n" arbitrary: n k rule: less_induct)
  case less
  note rep = assms(1)
  let ?M = "ba_max_order b"
  note D = ba_repD[OF rep less.prems(1)]
  have kl: "k < ba_len b div 2 ^ n" using less.prems(2) rep unfolding blk_below[symmetric] ba_rep_def by blast
  note get = ba_rep_get[OF rep less.prems(1) kl]
  show ?case
  proof (cases "k \<in> maxfree ?M F n")
    case True
    from rep_take[OF rep less.prems(1) True] get D(1) True show ?thesis
      by (subst record_alloc_inner.simps) auto
  next
    case False
    then have n: "n < ?M" and up: "blk (k div 2) (Suc n) \<subseteq> F" using less.prems(2) by (auto simp: maxfree_def)
    have "?M - Suc n < ?M - n" using n by simp
    from less.hyps[OF this _ up] n obtain b1 where b1: "record_alloc_inner b (k div 2) (Suc n) = Some b1"
      "ba_rep b1 (F - blk (k div 2) (Suc n))" "same_shape b b1" by auto
    let ?j = "buddy_page k" and ?F = "F - blk (k div 2) (Suc n)"
    have other: "(if k div 2 * 2 = k then Suc (k div 2 * 2) else k div 2 * 2) = ?j"
      and child: "k div 2 * 2 = k \<or> Suc (k div 2 * 2) = k"
      by (auto simp: buddy_page_eq elim!: oddE)
    have "\<exists>ms. at_order (\<lambda>m. bt_clear m ?j) (ba_free b1) n = Some ms \<and>
        ba_rep (set_free b1 ms) (?F \<union> blk ?j n) \<and> same_shape b1 (set_free b1 ms)"
    proof (rule rep_add[OF b1(2)])
      show "n \<le> ba_max_order b1" using n b1(3) by (simp add: same_shape_def)
      show "blk ?j n \<subseteq> {..<ba_len b1}"
        using up rep b1(3) blk_split[of k n] by (auto simp: ba_rep_def same_shape_def)
      show "blk ?j n \<inter> ?F = {}" using blk_split[of k n] by blast
      show "\<not> blk (buddy_page ?j) n \<subseteq> ?F" using blk_split[of k n] blk_nonempty[of k n] by (simp del: blk_nonempty) blast
    qed
    then obtain ms where ms: "at_order (\<lambda>m. bt_clear m ?j) (ba_free b1) n = Some ms"
      "ba_rep (set_free b1 ms) (?F \<union> blk ?j n)" "same_shape b1 (set_free b1 ms)" by blast
    have "?F \<union> blk ?j n = F - blk k n" using blk_split[of k n] blk_buddy_disjoint[of k n] up by blast
    moreover have "record_alloc_inner b k n = Some (set_free b1 ms)"
      using D(1) get False b1(1) ms(1)
      by (subst record_alloc_inner.simps) (simp add: Let_def next_higher_order_def other child)
    ultimately show ?thesis using ms(2) same_shape_trans[OF b1(3) ms(3)] by auto
  qed
qed

lemma free_inner_correct:
  assumes "ba_rep b F" and "n \<le> ba_max_order b" and "blk k n \<subseteq> {..<ba_len b}" and "blk k n \<inter> F = {}"
  shows "\<exists>b'. free_inner b k n = Some b' \<and> ba_rep b' (F \<union> blk k n) \<and> same_shape b b'"
  using assms
proof (induction "ba_max_order b - n" arbitrary: b F n k rule: less_induct)
  case less
  note rep = less.prems(1)
  let ?M = "ba_max_order b"
  show ?case
  proof (cases "n = ?M \<or> \<not> blk (buddy_page k) n \<subseteq> F")
    case True
    then have "\<exists>ms. at_order (\<lambda>m. bt_clear m k) (ba_free b) n = Some ms \<and>
        ba_rep (set_free b ms) (F \<union> blk k n) \<and> same_shape b (set_free b ms)"
      by (intro rep_add[OF less.prems]) auto
    moreover have "bt_get (ba_free b ! n) (buddy_page k) = Some True"
      if "buddy_page k < bt_size (ba_free b ! n)" "n \<noteq> ?M"
      using ba_rep_get[OF rep less.prems(2)] that ba_repD(4)[OF rep less.prems(2)] True by (simp add: maxfree_def)
    ultimately show ?thesis
      using ba_repD[OF rep less.prems(2)] bt_len_correct[of "ba_free b ! n"]
      by (subst free_inner.simps) (auto simp: Let_def)
  next
    case False
    then have n: "n < ?M" and bud: "blk (buddy_page k) n \<subseteq> F" using less.prems(2) by auto
    have "\<not> blk (k div 2) (Suc n) \<subseteq> F" using less.prems(4) blk_split[of k n] blk_nonempty[of k n] by blast
    then have mf: "buddy_page k \<in> maxfree ?M F n" using bud by (simp add: maxfree_def)
    let ?F = "F - blk (buddy_page k) n"
    from rep_take[OF rep less.prems(2) mf] obtain ms where
      ms: "at_order (\<lambda>m. bt_set m (buddy_page k)) (ba_free b) n = Some ms"
        "ba_rep (set_free b ms) ?F" "same_shape b (set_free b ms)" by blast
    have bl: "buddy_page k < ba_len b div 2 ^ n" by (rule maxfree_below[OF rep mf])
    have "\<exists>b'. free_inner (set_free b ms) (k div 2) (Suc n) = Some b' \<and>
        ba_rep b' (?F \<union> blk (k div 2) (Suc n)) \<and> same_shape (set_free b ms) b'"
    proof (rule less.hyps[OF _ ms(2)])
      show "blk (k div 2) (Suc n) \<subseteq> {..<ba_len (set_free b ms)}"
        using less.prems(3) bud rep blk_split[of k n] by (auto simp: ba_rep_def)
      show "blk (k div 2) (Suc n) \<inter> ?F = {}" using less.prems(4) blk_split[of k n] by blast
    qed (use n in simp_all)
    moreover have "free_inner b k n = free_inner (set_free b ms) (k div 2) (Suc n)"
      using n ba_repD[OF rep less.prems(2)] bt_len_correct[of "ba_free b ! n"] bl ms(1)
        ba_rep_get[OF rep less.prems(2) bl] mf
      by (subst free_inner.simps) (simp add: Let_def next_higher_order_def)
    moreover have "?F \<union> blk (k div 2) (Suc n) = F \<union> blk k n" using bud blk_split[of k n] by blast
    ultimately show ?thesis using same_shape_trans[OF ms(3)] by auto
  qed
qed

subsection \<open>Lowest allocation\<close>

lemma start_le:
  assumes "n \<le> i" and "i \<le> m" and "blk j i \<subseteq> blk k m"
  shows "k * 2 ^ (m - n) \<le> j * 2 ^ (i - n)"
proof -
  have "k * 2 ^ (m - i) \<le> j" using assms(2,3) by (metis blk_subset_iff div_times_less_eq_dividend)
  then have "k * 2 ^ (m - i) * 2 ^ (i - n) \<le> j * 2 ^ (i - n)" by (rule mult_le_mono1)
  moreover have "(2::nat) ^ (m - n) = 2 ^ (m - i) * 2 ^ (i - n)"
    using assms(1,2) by (simp flip: power_add)
  ultimately show ?thesis by (simp add: mult.assoc)
qed

text \<open>Maximal blocks other than the one a taken block came from are not affected by taking it.\<close>

lemma maxfree_other:
  assumes "k2 \<in> maxfree M F m2" and "m2 \<le> M" and "blk k m \<subseteq> blk k2 m2"
    and "j \<in> maxfree M F i" and "i \<le> M" and "(i, j) \<noteq> (m2, k2)"
  shows "j \<in> maxfree M (F - blk k m) i"
  using maxfree_disjoint[OF assms(1,4,2,5,6)] assms(3,4) by (auto simp: maxfree_def)

lemma maxfree_back:
  assumes k2: "k2 \<in> maxfree M F m2" "m2 \<le> M" "blk k m \<subseteq> blk k2 m2"
    and j: "j \<in> maxfree M (F - blk k m) i" "i \<le> M"
    and n: "n \<le> i" and low: "j * 2 ^ (i - n) < k2 * 2 ^ (m2 - n)"
  shows "j \<in> maxfree M F i"
proof -
  have "blk j i \<subseteq> F" using j(1) by (auto simp: maxfree_def)
  from maxfree_cover[OF this j(2)] obtain m3 j3 where
    j3: "i \<le> m3" "m3 \<le> M" "j3 \<in> maxfree M F m3" "blk j i \<subseteq> blk j3 m3" by blast
  show ?thesis
  proof (cases "(m3, j3) = (m2, k2)")
    case True
    then show ?thesis using start_le[OF n j3(1,4)] low by simp
  next
    case False
    note other = maxfree_other[OF k2 j3(3,2) False]
    have "i = m3"
    proof (rule ccontr)
      assume "i \<noteq> m3"
      then have "blk (j div 2) (Suc i) \<subseteq> F - blk k m" "i < M"
        using parent_subset[of i m3 j j3] j3 other unfolding maxfree_def by auto
      then show False using j(1) by (simp add: maxfree_def)
    qed
    then show ?thesis using j3(3,4) by (simp add: blk_subset_iff)
  qed
qed

text \<open>
  The invariant of the search over higher orders: the best block is taken out of \<open>F\<close>, starts
  where a maximal block of \<open>F\<close> starts, and no maximal block of the orders seen starts lower.
\<close>

definition lowest_inv ::
  "BuddyAllocator \<Rightarrow> nat set \<Rightarrow> nat \<Rightarrow> nat \<Rightarrow> BuddyAllocator \<times> nat \<times> (nat \<times> nat) \<times> nat \<Rightarrow> bool" where
  "lowest_inv b0 F n i = (\<lambda>(b, bi, (k, m), mult).
     n \<le> m \<and> m \<le> ba_max_order b0 \<and> bi = k * 2 ^ (m - n) \<and> ba_rep b (F - blk k m) \<and> same_shape b0 b \<and>
     (\<exists>m2 k2. m2 \<le> ba_max_order b0 \<and> n \<le> m2 \<and> k2 \<in> maxfree (ba_max_order b0) F m2 \<and>
        blk k m \<subseteq> blk k2 m2 \<and> bi = k2 * 2 ^ (m2 - n)) \<and>
     (\<forall>m'. n \<le> m' \<longrightarrow> m' < i \<longrightarrow> (\<forall>k'\<in>maxfree (ba_max_order b0) F m'. bi \<le> k' * 2 ^ (m' - n))) \<and>
     mult = 2 ^ (i - n))"

lemma lowest_inv_free: "lowest_inv b0 F n i (b, bi, (k, m), mult) \<Longrightarrow> blk k m \<subseteq> F"
  unfolding lowest_inv_def maxfree_def by auto

lemma chosen_least:
  assumes "chosen M F i index" and "finite F" and "k' \<in> maxfree M F i"
  shows "index \<le> k'"
proof -
  from assms(1,3) obtain m where "i \<le> m" "maxfree M F m \<noteq> {}" "index = Min (maxfree M F m) * 2 ^ (m - i)" "m = i"
    unfolding chosen_def by (metis emptyE le_neq_implies_less order_refl)
  then show ?thesis using assms(2,3) by (simp add: finite_maxfree)
qed

lemma chosen_maxblock:
  assumes "chosen M F i index" and "finite F" and "n \<le> i"
  obtains m j where "i \<le> m" "m \<le> M" "j \<in> maxfree M F m" "blk index i \<subseteq> blk j m"
    "index * 2 ^ (i - n) = j * 2 ^ (m - n)"
proof -
  from assms(1) obtain m where m: "i \<le> m" "m \<le> M" "maxfree M F m \<noteq> {}"
    "index = Min (maxfree M F m) * 2 ^ (m - i)" by (auto simp: chosen_def)
  have "(2::nat) ^ (m - n) = 2 ^ (m - i) * 2 ^ (i - n)" using m(1) assms(3) by (simp flip: power_add)
  with m show ?thesis
    by (intro that[of m "Min (maxfree M F m)"]) (simp_all add: finite_maxfree assms(2) blk_subset_iff)
qed

lemma lowest_step_None:
  assumes inv: "lowest_inv b0 F n i (b, bi, best, mult)" and i: "n < i" "i \<le> ba_max_order b0"
    and none: "maxfree (ba_max_order b0) (F - blk (fst best) (snd best)) i = {}"
  shows "lowest_inv b0 F n (Suc i) (b, bi, best, mult * 2)"
proof -
  obtain k m where best: "best = (k, m)" by fastforce
  from inv obtain m2 k2 where k2: "m2 \<le> ba_max_order b0" "k2 \<in> maxfree (ba_max_order b0) F m2"
    "blk k m \<subseteq> blk k2 m2" "bi = k2 * 2 ^ (m2 - n)" by (auto simp: lowest_inv_def best)
  have "bi \<le> k' * 2 ^ (i - n)" if "k' \<in> maxfree (ba_max_order b0) F i" for k'
    using maxfree_other[OF k2(2,1,3) that i(2)] none k2(4) by (cases "(i, k') = (m2, k2)") (auto simp: best)
  then show ?thesis using inv i by (auto simp: lowest_inv_def best less_Suc_eq Suc_diff_le)
qed

text \<open>One order of the search, when it offers a block: it either becomes the best or is put back.\<close>

lemma lowest_step_better:
  assumes inv: "lowest_inv b0 F n i (b, bi, (k, m), mult)" and i: "n < i" "i \<le> ba_max_order b0" and F: "finite F"
    and ch: "chosen (ba_max_order b0) (F - blk k m) i index" and low: "index * mult < bi"
    and rep: "ba_rep b2 (F - blk index i)" "same_shape b0 b2"
  shows "lowest_inv b0 F n (Suc i) (b2, index * mult, (index, i), mult * 2)"
proof -
  let ?M = "ba_max_order b0" and ?F = "F - blk k m"
  from inv obtain m2 k2 where k2: "m2 \<le> ?M" "k2 \<in> maxfree ?M F m2" "blk k m \<subseteq> blk k2 m2"
    "bi = k2 * 2 ^ (m2 - n)" and old: "\<And>m' k'. n \<le> m' \<Longrightarrow> m' < i \<Longrightarrow> k' \<in> maxfree ?M F m' \<Longrightarrow> bi \<le> k' * 2 ^ (m' - n)"
    and mult: "mult = 2 ^ (i - n)" by (auto simp: lowest_inv_def)
  obtain m3 j3 where j3: "i \<le> m3" "m3 \<le> ?M" "j3 \<in> maxfree ?M ?F m3" "blk index i \<subseteq> blk j3 m3"
    "index * 2 ^ (i - n) = j3 * 2 ^ (m3 - n)"
    by (rule chosen_maxblock[OF ch _ less_imp_le[OF i(1)]]) (use F in simp_all)
  have j3F: "j3 \<in> maxfree ?M F m3"
    by (rule maxfree_back[OF k2(2,1,3) j3(3,2)]) (use i j3(1,5) low k2(4) mult in simp_all)
  have "index * mult \<le> k' * 2 ^ (m' - n)" if "n \<le> m'" "m' < Suc i" "k' \<in> maxfree ?M F m'" for m' k'
  proof (cases "m' < i \<or> (m', k') = (m2, k2)")
    case True
    then show ?thesis using old[OF that(1) _ that(3)] low k2(4) by auto
  next
    case False
    then have "m' = i" using that(2) by simp
    then have "index \<le> k'"
      using maxfree_other[OF k2(2,1,3) that(3)] i(2) False chosen_least[OF ch] F by auto
    then show ?thesis using \<open>m' = i\<close> mult by simp
  qed
  moreover have "\<exists>m2 k2. m2 \<le> ?M \<and> n \<le> m2 \<and> k2 \<in> maxfree ?M F m2 \<and> blk index i \<subseteq> blk k2 m2 \<and>
      index * mult = k2 * 2 ^ (m2 - n)"
    by (rule exI[of _ m3], rule exI[of _ j3]) (use i j3 j3F mult in simp)
  ultimately show ?thesis using i rep mult unfolding lowest_inv_def by (simp add: Suc_diff_le)
qed

lemma lowest_step_keep:
  assumes inv: "lowest_inv b0 F n i (b, bi, (k, m), mult)" and i: "n < i" "i \<le> ba_max_order b0" and F: "finite F"
    and ch: "chosen (ba_max_order b0) (F - blk k m) i index" and low: "\<not> index * mult < bi"
    and rep: "ba_rep b2 (F - blk k m)" "same_shape b0 b2"
  shows "lowest_inv b0 F n (Suc i) (b2, bi, (k, m), mult * 2)"
proof -
  from inv obtain m2 k2 where k2: "m2 \<le> ba_max_order b0" "k2 \<in> maxfree (ba_max_order b0) F m2"
    "blk k m \<subseteq> blk k2 m2" "bi = k2 * 2 ^ (m2 - n)" and mult: "mult = 2 ^ (i - n)" by (auto simp: lowest_inv_def)
  have "bi \<le> k' * 2 ^ (i - n)" if k': "k' \<in> maxfree (ba_max_order b0) F i" for k'
  proof (cases "(i, k') = (m2, k2)")
    case False
    then have "index \<le> k'" using maxfree_other[OF k2(2,1,3) k' i(2)] chosen_least[OF ch] F by simp
    then have "index * mult \<le> k' * mult" by (rule mult_le_mono1)
    then show ?thesis using low unfolding mult by linarith
  qed (use k2 in simp)
  then show ?thesis using inv i rep by (auto simp: lowest_inv_def less_Suc_eq Suc_diff_le)
qed

lemma lowest_step_correct:
  assumes inv: "lowest_inv b0 F n i s" and i: "n < i" "i \<le> ba_max_order b0"
    and F: "F \<subseteq> {..<ba_len b0}" "ba_max_order b0 \<le> MAX_MAX_PAGE_ORDER"
  shows "\<exists>s'. lowest_step i s = Some s' \<and> lowest_inv b0 F n (Suc i) s'"
proof -
  obtain b bi k m mult where s: "s = (b, bi, (k, m), mult)" by (metis surj_pair)
  let ?M = "ba_max_order b0" and ?F = "F - blk k m"
  from inv have rep: "ba_rep b ?F" and sh: "same_shape b0 b" and m: "m \<le> ?M"
    and sub: "blk k m \<subseteq> F" by (auto simp: lowest_inv_def s maxfree_def)
  have shb: "ba_max_order b = ?M" "ba_len b = ba_len b0" using sh by (simp_all add: same_shape_def)
  have fin: "finite F" using F(1) finite_subset by blast
  note alloc = alloc_inner_correct[OF rep, of i, unfolded shb]
  show ?thesis
  proof (cases "\<exists>m'. i \<le> m' \<and> m' \<le> ?M \<and> maxfree ?M ?F m' \<noteq> {}")
    case False
    then have "maxfree ?M ?F i = {}" using i(2) by auto
    with lowest_step_None[OF inv[unfolded s] i] alloc False show ?thesis
      by (auto simp: lowest_step_def s)
  next
    case True
    with alloc obtain index b1 where b1: "alloc_inner b i = Some (Some index, b1)" "chosen ?M ?F i index"
      "ba_rep b1 (?F - blk index i)" "same_shape b b1" by auto
    have sh1: "ba_max_order b1 = ?M" "ba_len b1 = ba_len b0" "same_shape b0 b1"
      using same_shape_trans[OF sh b1(4)] by (simp_all add: same_shape_def)
    have idx: "blk index i \<subseteq> ?F" by (rule chosen_free[OF b1(2)]) (simp add: fin)
    show ?thesis
    proof (cases "index * mult < bi")
      case better: True
      have "\<exists>b2. free_inner b1 k m = Some b2 \<and> ba_rep b2 (?F - blk index i \<union> blk k m) \<and> same_shape b1 b2"
        by (rule free_inner_correct[OF b1(3)]) (use sub F(1) m sh1 in auto)
      moreover have "?F - blk index i \<union> blk k m = F - blk index i" using sub idx by blast
      ultimately obtain b2 where b2: "free_inner b1 k m = Some b2" "ba_rep b2 (F - blk index i)" "same_shape b0 b2"
        using same_shape_trans[OF sh1(3)] by auto
      from lowest_step_better[OF inv[unfolded s] i fin b1(2) better b2(2,3)] b1(1) b2(1) better show ?thesis
        by (simp add: lowest_step_def s)
    next
      case keep: False
      have "\<exists>b2. free_inner b1 index i = Some b2 \<and> ba_rep b2 (?F - blk index i \<union> blk index i) \<and> same_shape b1 b2"
        by (rule free_inner_correct[OF b1(3)]) (use idx F(1) i sh1 in auto)
      moreover have "?F - blk index i \<union> blk index i = ?F" using idx by blast
      ultimately obtain b2 where b2: "free_inner b1 index i = Some b2" "ba_rep b2 ?F" "same_shape b0 b2"
        using same_shape_trans[OF sh1(3)] by auto
      from lowest_step_keep[OF inv[unfolded s] i fin b1(2) keep b2(2,3)] b1(1) b2(1) keep show ?thesis
        by (simp add: lowest_step_def s)
    qed
  qed
qed

lemma split_down_correct:
  assumes "ba_rep b (F - blk k m)" and "n \<le> m" and "m \<le> ba_max_order b" and "blk k m \<subseteq> F" and "F \<subseteq> {..<ba_len b}"
  shows "\<exists>b'. split_down n b (k, m) = Some (b', k * 2 ^ (m - n), n) \<and>
    ba_rep b' (F - blk (k * 2 ^ (m - n)) n) \<and> same_shape b b'"
  using assms
proof (induction m arbitrary: b k)
  case 0
  then show ?case by (subst split_down.simps) simp
next
  case (Suc m)
  show ?case
  proof (cases "n = Suc m")
    case True
    then show ?thesis using Suc.prems by (subst split_down.simps) simp
  next
    case False
    then have m: "n \<le> m" "m < ba_max_order b" using Suc.prems by simp_all
    note split = rep_split[OF Suc.prems(1) m(2) Suc.prems(4,5)]
    from split(3) obtain ms where ms: "at_order (\<lambda>m. bt_clear m (k * 2 + 1)) (ba_free b) m = Some ms"
      "ba_rep (set_free b ms) (F - blk (k * 2) m)" "same_shape b (set_free b ms)" by blast
    have sub: "blk (k * 2) m \<subseteq> F" using Suc.prems(4) blk_children[of k m] by (simp add: mult.commute)
    from Suc.IH[OF ms(2)] m sub Suc.prems(5) obtain b' where
      b': "split_down n (set_free b ms) (k * 2, m) = Some (b', k * 2 * 2 ^ (m - n), n)"
        "ba_rep b' (F - blk (k * 2 * 2 ^ (m - n)) n)" "same_shape (set_free b ms) b'" by auto
    have "split_down n b (k, Suc m) = split_down n (set_free b ms) (k * 2, m)"
      using m ms(1) split(1,2) ba_repD(1)[OF Suc.prems(1), of m] by (subst split_down.simps) simp
    moreover have eq: "k * 2 ^ (Suc m - n) = k * 2 * 2 ^ (m - n)" using m(1) by (simp add: Suc_diff_le)
    ultimately show ?thesis unfolding eq using b'(1,2) same_shape_trans[OF ms(3) b'(3)] by auto
  qed
qed

theorem alloc_lowest_correct:
  assumes rep: "ba_rep b F"
  shows "if n \<le> ba_max_order b \<and> (\<exists>k. blk k n \<subseteq> F)
    then \<exists>k b'. alloc_lowest b n = Some (Some k, b') \<and> blk k n \<subseteq> F \<and> (\<forall>j. blk j n \<subseteq> F \<longrightarrow> k \<le> j) \<and>
      ba_rep b' (F - blk k n) \<and> same_shape b b'
    else alloc_lowest b n = Some (None, b)"
proof (cases "n \<le> ba_max_order b \<and> (\<exists>k. blk k n \<subseteq> F)")
  case False
  then show ?thesis using alloc_inner_correct[OF rep, of n] by (simp add: some_block_iff alloc_lowest_def)
next
  case True
  let ?M = "ba_max_order b"
  have F: "F \<subseteq> {..<ba_len b}" "?M \<le> MAX_MAX_PAGE_ORDER" using rep by (simp_all add: ba_rep_def)
  note fin = ba_rep_finite[OF rep]
  from alloc_inner_correct[OF rep, of n] True obtain k b1 where
    k: "alloc_inner b n = Some (Some k, b1)" "chosen ?M F n k" "ba_rep b1 (F - blk k n)" "same_shape b b1"
    by (auto simp: some_block_iff)
  obtain m2 k2 where "n \<le> m2" "m2 \<le> ?M" "k2 \<in> maxfree ?M F m2" "blk k n \<subseteq> blk k2 m2" "k = k2 * 2 ^ (m2 - n)"
    by (rule chosen_maxblock[OF k(2) fin order_refl]) simp
  then have init: "lowest_inv b F n (Suc n) (b1, k, (k, n), 2)"
    using k(3,4) True chosen_least[OF k(2) fin] by (auto simp: lowest_inv_def less_Suc_eq)
  have "\<exists>s'. fold_opt lowest_step [Suc n..<Suc ?M] (b1, k, (k, n), 2) = Some s' \<and>
      lowest_inv b F n (Suc n + length [Suc n..<Suc ?M]) s'"
  proof (rule fold_opt_inv[where P = "\<lambda>i. lowest_inv b F n (Suc n + i)"])
    fix i s assume i: "i < length [Suc n..<Suc ?M]" "lowest_inv b F n (Suc n + i) s"
    then show "\<exists>s'. lowest_step ([Suc n..<Suc ?M] ! i) s = Some s' \<and> lowest_inv b F n (Suc n + Suc i) s'"
      using lowest_step_correct[OF i(2) _ _ F] by (simp del: upt_Suc)
  qed (use init in simp)
  moreover have "Suc n + length [Suc n..<Suc ?M] = Suc ?M" using True by simp
  ultimately obtain r where r: "fold_opt lowest_step [Suc n..<Suc ?M] (b1, k, (k, n), 2) = Some r"
    "lowest_inv b F n (Suc ?M) r" by (simp del: upt_Suc) blast
  obtain b2 bi k' m' mult where "r = (b2, bi, (k', m'), mult)" by (cases r) auto
  with r have s: "fold_opt lowest_step [Suc n..<Suc ?M] (b1, k, (k, n), 2) = Some (b2, bi, (k', m'), mult)"
    "lowest_inv b F n (Suc ?M) (b2, bi, (k', m'), mult)" by simp_all
  from s(2) have inv: "n \<le> m'" "m' \<le> ?M" "bi = k' * 2 ^ (m' - n)" "ba_rep b2 (F - blk k' m')" "same_shape b b2"
    and "\<forall>m. n \<le> m \<longrightarrow> m < Suc ?M \<longrightarrow> (\<forall>j\<in>maxfree ?M F m. bi \<le> j * 2 ^ (m - n))"
    unfolding lowest_inv_def prod.case by blast+
  then have least: "\<And>m j. n \<le> m \<Longrightarrow> m \<le> ?M \<Longrightarrow> j \<in> maxfree ?M F m \<Longrightarrow> bi \<le> j * 2 ^ (m - n)"
    by (meson less_Suc_eq_le)
  note sub = lowest_inv_free[OF s(2)]
  from split_down_correct[OF inv(4,1)] inv sub F(1) obtain b3 where
    b3: "split_down n b2 (k', m') = Some (b3, bi, n)" "ba_rep b3 (F - blk bi n)" "same_shape b2 b3"
    by (auto simp: same_shape_def)
  have "bi \<le> j" if j: "blk j n \<subseteq> F" for j
  proof -
    from maxfree_cover[OF j] True obtain m i where
      mi: "n \<le> m" "m \<le> ?M" "i \<in> maxfree ?M F m" "blk j n \<subseteq> blk i m" by blast
    then show ?thesis using least[OF mi(1-3)] start_le[OF order_refl mi(1,4)] by simp
  qed
  moreover have "blk bi n \<subseteq> F" using inv(1,3) sub blk_subset_iff[of n m' bi k'] by simp
  moreover have "alloc_lowest b n = Some (Some bi, b3)"
    using k(1,4) s(1) b3(1) by (simp add: alloc_lowest_def same_shape_def del: upt_Suc)
  ultimately show ?thesis using True b3(2) same_shape_trans[OF inv(5) b3(3)] by auto
qed

subsection \<open>Filling a range with aligned blocks\<close>

lemma fill_order_correct:
  assumes "P p s" and "p \<le> L" and "\<exists>t. 2 ^ t dvd p \<and> (n \<le> t \<or> L < p + 2 ^ t)"
    and "n < M \<Longrightarrow> L < p + 2 ^ Suc n"
    and step: "\<And>p s. 2 ^ n dvd p \<Longrightarrow> p + 2 ^ n \<le> L \<Longrightarrow> (n < M \<Longrightarrow> L < p + 2 ^ Suc n) \<Longrightarrow> P p s \<Longrightarrow>
      \<exists>s'. f (p div 2 ^ n) n s = Some s' \<and> P (p + 2 ^ n) s'"
  shows "\<exists>s' p'. fill_order f L n s p = Some (s', p') \<and> P p' s' \<and> p' \<le> L \<and> L < p' + 2 ^ n \<and>
    (\<exists>t. 2 ^ t dvd p' \<and> (n \<le> t \<or> L < p' + 2 ^ t))"
  using assms(1-4)
proof (induction "L - p" arbitrary: p s rule: less_induct)
  case less
  show ?case
  proof (cases "p + 2 ^ n \<le> L")
    case False
    then show ?thesis using less.prems by (subst fill_order.simps) auto
  next
    case True
    from less.prems(3) obtain t where t: "2 ^ t dvd p" "n \<le> t \<or> L < p + 2 ^ t" by blast
    have "n \<le> t"
    proof (rule ccontr)
      assume "\<not> n \<le> t"
      then have "(2::nat) ^ t \<le> 2 ^ n" by (simp add: power_increasing)
      then show False using t(2) True \<open>\<not> n \<le> t\<close> by linarith
    qed
    then have dvd: "2 ^ n dvd p" using t(1) power_le_dvd by blast
    from step[OF dvd True less.prems(4) less.prems(1)] obtain s1 where
      s1: "f (p div 2 ^ n) n s = Some s1" "P (p + 2 ^ n) s1" by blast
    have "\<exists>s' p'. fill_order f L n s1 (p + 2 ^ n) = Some (s', p') \<and> P p' s' \<and> p' \<le> L \<and> L < p' + 2 ^ n \<and>
        (\<exists>t. 2 ^ t dvd p' \<and> (n \<le> t \<or> L < p' + 2 ^ t))"
    proof (rule less.hyps[OF step_measure[OF True] s1(2) True])
      show "\<exists>t. 2 ^ t dvd p + 2 ^ n \<and> (n \<le> t \<or> L < p + 2 ^ n + 2 ^ t)"
        by (rule exI[of _ n]) (use dvd in simp)
    qed (use less.prems(4) in auto)
    then show ?thesis using True s1(1) by (subst fill_order.simps) simp
  qed
qed

lemma fill_orders_correct:
  assumes "P p s" and "p \<le> L" and "\<exists>t. 2 ^ t dvd p \<and> (M \<le> t \<or> L < p + 2 ^ t)"
    and step: "\<And>n p s. n \<le> M \<Longrightarrow> 2 ^ n dvd p \<Longrightarrow> p + 2 ^ n \<le> L \<Longrightarrow> (n < M \<Longrightarrow> L < p + 2 ^ Suc n) \<Longrightarrow>
      P p s \<Longrightarrow> \<exists>s'. f (p div 2 ^ n) n s = Some s' \<and> P (p + 2 ^ n) s'"
  shows "\<exists>s'. fill_orders f L M s p = Some (s', L) \<and> P L s'"
proof -
  have "\<exists>s'. fold_opt (\<lambda>n (s, p). fill_order f L n s p) (rev [0..<Suc k]) (s, p) = Some (s', L) \<and> P L s'"
    if "k \<le> M" "P p s" "p \<le> L" "\<exists>t. 2 ^ t dvd p \<and> (k \<le> t \<or> L < p + 2 ^ t)" "k < M \<Longrightarrow> L < p + 2 ^ Suc k" for k p s
    using that
  proof (induction k arbitrary: p s)
    case 0
    obtain s' p' where "fill_order f L 0 s p = Some (s', p')" "P p' s'" "p' \<le> L" "L < p' + 2 ^ 0"
      using fill_order_correct[of P p s L 0 M f] 0 step[of 0] by fastforce
    moreover from this have "p' = L" by simp
    ultimately show ?case by simp
  next
    case (Suc k)
    obtain s' p' where s': "fill_order f L (Suc k) s p = Some (s', p')" "P p' s'" "p' \<le> L" "L < p' + 2 ^ Suc k"
      "\<exists>t. 2 ^ t dvd p' \<and> (Suc k \<le> t \<or> L < p' + 2 ^ t)"
      using fill_order_correct[of P p s L "Suc k" M f] Suc.prems step[of "Suc k"] by blast
    have "\<exists>t. 2 ^ t dvd p' \<and> (k \<le> t \<or> L < p' + 2 ^ t)" using s'(5) Suc_leD by blast
    from Suc.IH[OF _ s'(2,3) this s'(4)] Suc.prems(1) s'(1) show ?case by simp
  qed
  from this[of M p s] assms(1-3) show ?thesis by (simp add: fill_orders_def)
qed

end
