(* ===== verification/PageNumbers.thy ===== *)
theory PageNumbers
  imports Buddy
begin

text \<open>
  Page numbers, their on-disk encoding, order and address range, and the trackers of allocated
  and open pages, from \<^verbatim>\<open>src/src/tree_store/page_store/base.rs\<close>. The encoding is kept as a 64-bit word:
  20 bits of index, of which only the lowest \<open>20 - order\<close> are read, 20 bits of region, 19 reserved
  bits and 5 bits of order.
\<close>

subsection \<open>Page numbers\<close>

record PageNumber =
  region :: nat
  page_index :: nat
  page_order :: nat

definition MAX_PAGE_INDEX :: nat where
  "MAX_PAGE_INDEX = 0x000FFFFF"

definition MAX_REGIONS :: nat where
  "MAX_REGIONS = 0x00100000"

definition pn_new :: "nat \<Rightarrow> nat \<Rightarrow> nat \<Rightarrow> PageNumber option" where
  "pn_new r i n = do {
     assert_that (r \<le> 0x000FFFFF);
     assert_that (i \<le> MAX_PAGE_INDEX);
     assert_that (n \<le> MAX_MAX_PAGE_ORDER);
     Some \<lparr>region = r, page_index = i, page_order = n\<rparr> }"

text \<open>The packed form, which is also what the hash of a page number feeds to the hasher.\<close>

definition pn_pack :: "PageNumber \<Rightarrow> u64" where
  "pn_pack p = (0x000FFFFF AND word_of_nat (page_index p))
     OR push_bit 20 (0x000FFFFF AND word_of_nat (region p))
     OR push_bit 59 (0x1F AND word_of_nat (page_order p))"

definition pn_to_le_bytes :: "PageNumber \<Rightarrow> bytes" where
  "pn_to_le_bytes p = le_bytes 8 (unat (pn_pack p))"

definition pn_unpack :: "u64 \<Rightarrow> PageNumber" where
  "pn_unpack temp =
     (let order = unat (drop_bit 59 temp);
          index = unat (temp AND drop_bit order 0x000FFFFF);
          r = unat (drop_bit 20 temp AND 0x000FFFFF)
      in \<lparr>region = r, page_index = index, page_order = order\<rparr>)"

definition pn_from_le_bytes :: "bytes \<Rightarrow> PageNumber option" where
  "pn_from_le_bytes bs = do {
     assert_that (length bs = 8);
     Some (pn_unpack (word_of_nat (from_le bs))) }"

text \<open>\<open>Ord::cmp\<close>; the \<open>u32\<close> products and the overlap assertion can panic.\<close>

definition pn_cmp :: "PageNumber \<Rightarrow> PageNumber \<Rightarrow> ordering option" where
  "pn_cmp a b = (case cmp (region a) (region b) of
       Less \<Rightarrow> Some Less
     | Equal \<Rightarrow> do {
         let a0 = page_index a * 2 ^ page_order a;
         assert_that (a0 < 2 ^ 32);
         let b0 = page_index b * 2 ^ page_order b;
         assert_that (b0 < 2 ^ 32);
         assert_that (a0 \<noteq> b0 \<or> page_order a = page_order b);
         Some (cmp a0 b0) }
     | Greater \<Rightarrow> Some Greater)"

definition page_size_bytes :: "PageNumber \<Rightarrow> nat \<Rightarrow> nat" where
  "page_size_bytes p page_size = 2 ^ page_order p * page_size"

definition address_range :: "PageNumber \<Rightarrow> nat \<Rightarrow> nat \<Rightarrow> nat \<Rightarrow> nat \<Rightarrow> (nat \<times> nat) option" where
  "address_range p data_section_offset region_size region_pages_start page_size = do {
     let regional_start = region_pages_start + page_index p * page_size_bytes p page_size;
     assert_that (regional_start < region_size);
     let region_base = region p * region_size;
     let start = data_section_offset + region_base + regional_start;
     Some (start, start + page_size_bytes p page_size) }"

subsection \<open>Trackers\<close>

datatype PageTrackerPolicy = Ignore | Track "PageNumber set" | Closed

definition new_tracking :: PageTrackerPolicy where
  "new_tracking = Track {}"

fun tracker_is_empty :: "PageTrackerPolicy \<Rightarrow> bool" where
  "tracker_is_empty Ignore = True"
| "tracker_is_empty Closed = True"
| "tracker_is_empty (Track x) = (x = {})"

fun tracker_remove :: "PageTrackerPolicy \<Rightarrow> PageNumber \<Rightarrow> PageTrackerPolicy option" where
  "tracker_remove Ignore page = Some Ignore"
| "tracker_remove (Track x) page = do { assert_that (page \<in> x); Some (Track (x - {page})) }"
| "tracker_remove Closed page = None"

fun tracker_insert :: "PageTrackerPolicy \<Rightarrow> PageNumber \<Rightarrow> PageTrackerPolicy option" where
  "tracker_insert Ignore page = Some Ignore"
| "tracker_insert (Track x) page = do { assert_that (page \<notin> x); Some (Track (insert page x)) }"
| "tracker_insert Closed page = None"

fun tracker_close :: "PageTrackerPolicy \<Rightarrow> (PageNumber set \<times> PageTrackerPolicy) option" where
  "tracker_close Ignore = Some ({}, Closed)"
| "tracker_close (Track x) = Some (x, Closed)"
| "tracker_close Closed = None"

text \<open>
  The debug-build map of open read guards: each \<open>PageImpl\<close> counts once, cloning it counts it again,
  dropping it removes the entry with the last guard.
\<close>

type_synonym open_pages = "PageNumber \<rightharpoonup> nat"

definition page_impl_clone :: "open_pages \<Rightarrow> PageNumber \<Rightarrow> open_pages option" where
  "page_impl_clone m p = do { n \<leftarrow> m p; Some (m(p \<mapsto> n + 1)) }"

definition page_impl_drop :: "open_pages \<Rightarrow> PageNumber \<Rightarrow> open_pages option" where
  "page_impl_drop m p = do {
     n \<leftarrow> m p;
     assert_that (0 < n);
     Some (if n - 1 = 0 then m(p := None) else m(p \<mapsto> n - 1)) }"

text \<open>The open mutable page guards: dropping one removes its page.\<close>

definition page_mut_drop :: "PageNumber set \<Rightarrow> PageNumber \<Rightarrow> PageNumber set option" where
  "page_mut_drop dirty p = do { assert_that (p \<in> dirty); Some (dirty - {p}) }"

subsection \<open>Encoding\<close>

text \<open>A page number that the allocators hand out: its blocks lie inside a region of \<open>2 ^ 20\<close> pages.\<close>

definition pn_valid :: "PageNumber \<Rightarrow> bool" where
  "pn_valid p \<longleftrightarrow> page_order p \<le> MAX_MAX_PAGE_ORDER \<and> region p < MAX_REGIONS \<and>
     page_index p < 2 ^ (MAX_MAX_PAGE_ORDER - page_order p)"

lemmas pn_consts = MAX_MAX_PAGE_ORDER_def MAX_REGIONS_def MAX_PAGE_INDEX_def

lemma bit_nat_less: "k < 2 ^ n \<Longrightarrow> bit (k :: nat) i \<Longrightarrow> i < n"
proof (rule ccontr)
  assume "k < 2 ^ n" "bit k i" "\<not> i < n"
  then have "k < 2 ^ i" by (meson less_le_trans not_less one_le_numeral power_increasing)
  then show False using \<open>bit k i\<close> by (simp add: bit_iff_odd)
qed

lemma mask_20: "(0x000FFFFF :: u64) = mask 20"
  by (simp add: mask_eq_exp_minus_1)

lemma mask_5: "(0x1F :: u64) = mask 5"
  by (simp add: mask_eq_exp_minus_1)

lemma bit_pn_pack:
  "bit (pn_pack p) i \<longleftrightarrow> i < 64 \<and> (if i < 20 then bit (page_index p) i
     else if i < 40 then bit (region p) (i - 20) else if i < 59 then False else bit (page_order p) (i - 59))"
  unfolding pn_pack_def mask_20 mask_5
  by (auto simp: bit_simps possible_bit_def)

text \<open>Reading ignores the reserved bits and the index bits that the order makes redundant.\<close>

definition reserved_only :: "nat \<Rightarrow> u64 \<Rightarrow> bool" where
  "reserved_only order junk \<longleftrightarrow>
     (\<forall>i. bit junk i \<longrightarrow> 20 - order \<le> i \<and> i < 20 \<or> 40 \<le> i \<and> i < 59)"

lemma unat_eqI: "(w :: u64) = word_of_nat k \<Longrightarrow> k < 2 ^ 64 \<Longrightarrow> unat w = k"
  by (simp add: unat_of_nat)

lemma pn_unpack_pack:
  assumes valid: "pn_valid p" and junk: "reserved_only (page_order p) junk"
  shows "pn_unpack (pn_pack p OR junk) = p"
proof -
  let ?t = "pn_pack p OR junk"
  have v: "page_order p \<le> 20" "region p < 2 ^ 20" "page_index p < 2 ^ (20 - page_order p)"
    using valid by (simp_all add: pn_valid_def pn_consts)
  have small: "page_index p < 2 ^ 20"
    using v(3) by (meson diff_le_self less_le_trans one_le_numeral power_increasing)
  have bits: "bit (page_order p) i \<Longrightarrow> i < 5" "bit (region p) i \<Longrightarrow> i < 20"
    "bit (page_index p) i \<Longrightarrow> i < 20 - page_order p" for i
    using bit_nat_less[of "page_order p" 5 i] bit_nat_less[OF v(2), of i] bit_nat_less[OF v(3), of i] v(1) by auto
  have order: "unat (drop_bit 59 ?t) = page_order p"
  proof (rule unat_eqI)
    show "drop_bit 59 ?t = word_of_nat (page_order p)"
    proof (rule bit_word_eqI)
      fix i assume "i < LENGTH(64)"
      show "bit (drop_bit 59 ?t) i \<longleftrightarrow> bit (word_of_nat (page_order p) :: u64) i"
        using junk bits(1)[of i] by (auto simp: bit_simps bit_pn_pack reserved_only_def possible_bit_def)
    qed
  qed (use v(1) in simp)
  have index: "unat (?t AND drop_bit (page_order p) 0x000FFFFF) = page_index p"
  proof (rule unat_eqI)
    show "?t AND drop_bit (page_order p) 0x000FFFFF = word_of_nat (page_index p)"
      unfolding mask_20
    proof (rule bit_word_eqI)
      fix i assume "i < LENGTH(64)"
      show "bit (?t AND drop_bit (page_order p) (mask 20)) i \<longleftrightarrow> bit (word_of_nat (page_index p) :: u64) i"
        using junk bits(3)[of i] v(1) by (auto simp: bit_simps bit_pn_pack reserved_only_def possible_bit_def)
    qed
  qed (use small in simp)
  have region: "unat (drop_bit 20 ?t AND 0x000FFFFF) = region p"
  proof (rule unat_eqI)
    show "drop_bit 20 ?t AND 0x000FFFFF = word_of_nat (region p)"
      unfolding mask_20
    proof (rule bit_word_eqI)
      fix i assume "i < LENGTH(64)"
      show "bit (drop_bit 20 ?t AND mask 20) i \<longleftrightarrow> bit (word_of_nat (region p) :: u64) i"
        using junk bits(2)[of i] by (auto simp: bit_simps bit_pn_pack reserved_only_def possible_bit_def)
    qed
  qed (use v(2) in simp)
  show ?thesis unfolding pn_unpack_def Let_def order index region by simp
qed

lemma pn_bytes_round_trip:
  assumes "pn_valid p"
  shows "pn_from_le_bytes (pn_to_le_bytes p) = Some p"
  using pn_unpack_pack[OF assms, of 0] by (simp add: pn_from_le_bytes_def pn_to_le_bytes_def reserved_only_def)

lemma pn_to_le_bytes_length [simp]: "length (pn_to_le_bytes p) = 8"
  by (simp add: pn_to_le_bytes_def)

subsection \<open>Order and addresses\<close>

lemma pn_block_bound:
  assumes "pn_valid p"
  shows "(page_index p + 1) * 2 ^ page_order p \<le> 2 ^ 20"
proof -
  have v: "page_order p \<le> 20" "page_index p + 1 \<le> 2 ^ (20 - page_order p)"
    using assms by (auto simp: pn_valid_def pn_consts)
  then have "(page_index p + 1) * 2 ^ page_order p \<le> 2 ^ (20 - page_order p) * 2 ^ page_order p"
    by (intro mult_right_mono) auto
  also have "\<dots> = 2 ^ 20" using v(1) by (simp flip: power_add)
  finally show ?thesis .
qed

lemma address_range_eq:
  "address_range p d rs ps sz = Some (a, b) \<longleftrightarrow> ps + page_index p * 2 ^ page_order p * sz < rs \<and>
     a = d + region p * rs + ps + page_index p * 2 ^ page_order p * sz \<and>
     b = d + region p * rs + ps + (page_index p + 1) * 2 ^ page_order p * sz"
  by (auto simp: address_range_def page_size_bytes_def assert_that_def Let_def algebra_simps split: if_splits)

lemma pn_cmp_equal_region:
  assumes "pn_valid a" "pn_valid b" "region a = region b"
    "blk (page_index a) (page_order a) \<inter> blk (page_index b) (page_order b) = {} \<or> a = b"
  shows "pn_cmp a b = Some (cmp (page_index a * 2 ^ page_order a) (page_index b * 2 ^ page_order b))"
proof -
  have "page_index a * 2 ^ page_order a < 2 ^ 32" "page_index b * 2 ^ page_order b < 2 ^ 32"
    using pn_block_bound[OF assms(1)] pn_block_bound[OF assms(2)] by auto
  moreover have "page_index a * 2 ^ page_order a \<noteq> page_index b * 2 ^ page_order b \<or> page_order a = page_order b"
  proof (rule ccontr)
    assume neg: "\<not> ?thesis"
    then have eq: "page_index a * 2 ^ page_order a = page_index b * 2 ^ page_order b" by blast
    then have "page_index a * 2 ^ page_order a \<in> blk (page_index a) (page_order a) \<inter> blk (page_index b) (page_order b)"
      using blk_start[of "page_index a" "page_order a"] blk_start[of "page_index b" "page_order b"] by simp
    with assms(4) neg show False by auto
  qed
  ultimately show ?thesis using assms(3) by (simp add: pn_cmp_def cmp_def assert_that_def Let_def)
qed

lemma address_order_regions:
  assumes "address_range a d rs ps sz = Some (a0, a1)" "address_range b d rs ps sz = Some (b0, b1)"
    and "region a < region b"
  shows "a0 < b0"
proof -
  have "(region a + 1) * rs \<le> region b * rs" using assms(3) by (intro mult_right_mono) auto
  then show ?thesis using assms(1,2) by (auto simp: address_range_eq)
qed

lemma address_order_blocks:
  assumes "address_range a d rs ps sz = Some (a0, a1)" "address_range b d rs ps sz = Some (b0, b1)"
    and "region a = region b" "0 < sz"
  shows "cmp (page_index a * 2 ^ page_order a) (page_index b * 2 ^ page_order b) = cmp a0 b0"
  using assms by (auto simp: address_range_eq cmp_def)

subsection \<open>Properties\<close>

text \<open>
  C16. The on-disk form of a page number is read back exactly, whatever the reserved bits (40 to 58,
  and the index bits at or above \<open>20 - order\<close>) contain, and its 8 bytes are the packed word.
\<close>

theorem page_number_round_trip:
  assumes "pn_valid p" and "reserved_only (page_order p) junk"
  shows "pn_from_le_bytes (pn_to_le_bytes p) = Some p \<and>
    pn_from_le_bytes (le_bytes 8 (unat (pn_pack p OR junk))) = Some p"
  using pn_bytes_round_trip[OF assms(1)] pn_unpack_pack[OF assms] by (simp_all add: pn_from_le_bytes_def)

theorem page_number_round_trip_witness:
  "pn_from_le_bytes (le_bytes 8 (unat (pn_pack \<lparr>region = 5, page_index = 3, page_order = 4\<rparr> OR push_bit 45 1)))
     = Some \<lparr>region = 5, page_index = 3, page_order = 4\<rparr>"
proof -
  have "reserved_only 4 (push_bit 45 1 :: u64)"
    unfolding reserved_only_def bit_push_bit_iff by (auto simp: bit_1_iff)
  then show ?thesis
    using page_number_round_trip[of "\<lparr>region = 5, page_index = 3, page_order = 4\<rparr>" "push_bit 45 1"]
    by (simp add: pn_valid_def pn_consts)
qed

text \<open>
  C17. \<open>Ord\<close> for page numbers never panics on pages that are equal or do not overlap, and it orders
  them by the address at which they start in the file.
\<close>

theorem page_number_order_is_address_order:
  assumes "pn_valid a" "pn_valid b"
    and "region a \<noteq> region b \<or> a = b \<or>
      blk (page_index a) (page_order a) \<inter> blk (page_index b) (page_order b) = {}"
    and "address_range a d rs ps sz = Some (a0, a1)" "address_range b d rs ps sz = Some (b0, b1)" "0 < sz"
  shows "pn_cmp a b = Some (cmp a0 b0)"
proof (cases "region a" "region b" rule: linorder_cases)
  case equal
  then show ?thesis
    using pn_cmp_equal_region[OF assms(1,2) equal] address_order_blocks[OF assms(4,5) equal assms(6)] assms(3) by auto
next
  case less
  then show ?thesis using address_order_regions[OF assms(4,5)] by (simp add: pn_cmp_def cmp_def)
next
  case greater
  then show ?thesis using address_order_regions[OF assms(5,4)] by (simp add: pn_cmp_def cmp_def)
qed

theorem page_number_order_is_address_order_witness:
  "pn_cmp \<lparr>region = 1, page_index = 2, page_order = 1\<rparr> \<lparr>region = 1, page_index = 3, page_order = 0\<rparr> = Some Greater"
proof -
  let ?a = "\<lparr>region = 1, page_index = 2, page_order = 1\<rparr>" and ?b = "\<lparr>region = 1, page_index = 3, page_order = 0\<rparr>"
  have "blk 2 1 \<inter> blk 3 0 = {}" by auto
  moreover have "address_range ?a 4096 40960 4096 4096 = Some (65536, 73728)"
    "address_range ?b 4096 40960 4096 4096 = Some (61440, 65536)"
    by (simp_all add: address_range_eq)
  ultimately show ?thesis
    using page_number_order_is_address_order[of ?a ?b 4096 40960 4096 4096 65536 73728 61440 65536]
    by (simp add: pn_valid_def pn_consts cmp_def)
qed

end
