(* ===== verification/Layout.thy ===== *)
theory Layout
  imports PageNumbers
begin

text \<open>
  The layout of the file in regions, from \<^verbatim>\<open>src/src/tree_store/page_store/layout.rs\<close>: one header page,
  then the regions, each with its header pages and its data pages. Sizes are \<open>nat\<close>; conversions to
  \<open>u32\<close> and the subtractions of the source are checked, and \<open>layout_addresses_fit\<close> shows
  that the \<open>u64\<close> sums and products stay far below \<open>2 ^ 64\<close>.
\<close>

subsection \<open>Regions\<close>

definition round_up_to_multiple_of :: "nat \<Rightarrow> nat \<Rightarrow> nat" where
  "round_up_to_multiple_of v multiple =
     (if v mod multiple = 0 then v else v + multiple - v mod multiple)"

record RegionLayout =
  rl_num_pages :: nat
  rl_header_pages :: nat
  rl_page_size :: nat

definition rl_new :: "nat \<Rightarrow> nat \<Rightarrow> nat \<Rightarrow> RegionLayout option" where
  "rl_new n h ps = do {
     assert_that (0 < n);
     Some \<lparr>rl_num_pages = n, rl_header_pages = h, rl_page_size = ps\<rparr> }"

definition rl_calculate :: "nat \<Rightarrow> nat \<Rightarrow> nat \<Rightarrow> nat \<Rightarrow> RegionLayout option" where
  "rl_calculate desired page_capacity h ps = do {
     assert_that (desired \<le> page_capacity * ps);
     let n = round_up_to_multiple_of desired ps div ps;
     assert_that (n < 2 ^ 32);
     Some \<lparr>rl_num_pages = n, rl_header_pages = h, rl_page_size = ps\<rparr> }"

definition rl_usable_bytes :: "RegionLayout \<Rightarrow> nat" where
  "rl_usable_bytes r = rl_page_size r * rl_num_pages r"

definition rl_data_section :: "RegionLayout \<Rightarrow> nat \<times> nat" where
  "rl_data_section r = (let header_bytes = rl_header_pages r * rl_page_size r
     in (header_bytes, header_bytes + rl_usable_bytes r))"

definition rl_len :: "RegionLayout \<Rightarrow> nat" where
  "rl_len r = rl_header_pages r * rl_page_size r + rl_usable_bytes r"

subsection \<open>The database\<close>

record DatabaseLayout =
  full_region_layout :: RegionLayout
  num_full_regions :: nat
  trailing_partial_region :: "RegionLayout option"

definition dl_new :: "nat \<Rightarrow> RegionLayout \<Rightarrow> RegionLayout option \<Rightarrow> DatabaseLayout" where
  "dl_new n full trailing =
     \<lparr>full_region_layout = full, num_full_regions = n, trailing_partial_region = trailing\<rparr>"

definition reduce_last_region :: "DatabaseLayout \<Rightarrow> nat \<Rightarrow> DatabaseLayout option" where
  "reduce_last_region l pages = (case trailing_partial_region l of
       Some trailing \<Rightarrow> do {
         assert_that (pages \<le> rl_num_pages trailing);
         let t = trailing\<lparr>rl_num_pages := rl_num_pages trailing - pages\<rparr>;
         Some (l\<lparr>trailing_partial_region := (if rl_num_pages t = 0 then None else Some t)\<rparr>) }
     | None \<Rightarrow> do {
         assert_that (1 \<le> num_full_regions l);
         let full = full_region_layout l;
         let l1 = l\<lparr>num_full_regions := num_full_regions l - 1\<rparr>;
         if pages < rl_num_pages full then do {
           t \<leftarrow> rl_new (rl_num_pages full - pages) (rl_header_pages full) (rl_page_size full);
           Some (l1\<lparr>trailing_partial_region := Some t\<rparr>) }
         else Some l1 })"

definition recalculate :: "nat \<Rightarrow> nat \<Rightarrow> nat \<Rightarrow> nat \<Rightarrow> DatabaseLayout option" where
  "recalculate file_len h region_max_data_pages ps = do {
     assert_that (ps \<le> file_len);
     let remaining = file_len - ps;
     let full_region_size = (h + region_max_data_pages) * ps;
     assert_that (0 < full_region_size);
     let full_regions = remaining div full_region_size;
     let remaining = remaining - full_regions * full_region_size;
     trailing \<leftarrow> (if (h + 1) * ps \<le> remaining then do {
         let remaining = remaining - h * ps;
         assert_that (remaining < 2 ^ 32);
         let data_pages = remaining div ps;
         assert_that (data_pages < region_max_data_pages);
         t \<leftarrow> rl_new data_pages h ps;
         Some (Some t) }
       else Some None);
     full \<leftarrow> rl_new region_max_data_pages h ps;
     assert_that (full_regions < 2 ^ 32);
     Some \<lparr>full_region_layout = full, num_full_regions = full_regions, trailing_partial_region = trailing\<rparr> }"

definition dl_calculate :: "nat \<Rightarrow> nat \<Rightarrow> nat \<Rightarrow> nat \<Rightarrow> DatabaseLayout option" where
  "dl_calculate desired page_capacity h ps = do {
     full \<leftarrow> rl_new page_capacity h ps;
     if desired \<le> rl_usable_bytes full then do {
       r \<leftarrow> rl_calculate desired page_capacity h ps;
       Some \<lparr>full_region_layout = full, num_full_regions = 0, trailing_partial_region = Some r\<rparr> }
     else do {
       assert_that (0 < rl_usable_bytes full);
       let full_regions = desired div rl_usable_bytes full;
       let remaining_desired = desired - full_regions * rl_usable_bytes full;
       assert_that (0 < full_regions);
       trailing \<leftarrow> (if 0 < remaining_desired then do {
           t \<leftarrow> rl_calculate remaining_desired page_capacity h ps;
           Some (Some t) }
         else Some None);
       assert_that (case trailing of Some t \<Rightarrow> rl_header_pages t = rl_header_pages full | None \<Rightarrow> True);
       assert_that (full_regions < 2 ^ 32);
       Some \<lparr>full_region_layout = full, num_full_regions = full_regions, trailing_partial_region = trailing\<rparr> } }"

definition num_regions :: "DatabaseLayout \<Rightarrow> nat" where
  "num_regions l = (if trailing_partial_region l \<noteq> None then num_full_regions l + 1 else num_full_regions l)"

definition region_base_address :: "DatabaseLayout \<Rightarrow> nat \<Rightarrow> nat option" where
  "region_base_address l r = do {
     assert_that (r < num_regions l);
     Some (rl_page_size (full_region_layout l) + r * rl_len (full_region_layout l)) }"

definition region_layout :: "DatabaseLayout \<Rightarrow> nat \<Rightarrow> RegionLayout option" where
  "region_layout l r = do {
     assert_that (r < num_regions l);
     if r = num_full_regions l then trailing_partial_region l else Some (full_region_layout l) }"

definition dl_len :: "DatabaseLayout \<Rightarrow> nat option" where
  "dl_len l = do {
     assert_that (1 \<le> num_regions l);
     let last = num_regions l - 1;
     base \<leftarrow> region_base_address l last;
     r \<leftarrow> region_layout l last;
     Some (base + rl_len r) }"

definition dl_usable_bytes :: "DatabaseLayout \<Rightarrow> nat" where
  "dl_usable_bytes l = num_full_regions l * rl_usable_bytes (full_region_layout l) +
     (case trailing_partial_region l of Some t \<Rightarrow> rl_usable_bytes t | None \<Rightarrow> 0)"

subsection \<open>Well-formed layouts\<close>

text \<open>\<open>h\<close> header pages, at most \<open>cap\<close> data pages of \<open>ps\<close> bytes in each region, at least one region.\<close>

definition layout_ok :: "nat \<Rightarrow> nat \<Rightarrow> nat \<Rightarrow> DatabaseLayout \<Rightarrow> bool" where
  "layout_ok h cap ps l \<longleftrightarrow> 0 < cap \<and> 0 < ps \<and> 0 < num_regions l \<and>
     full_region_layout l = \<lparr>rl_num_pages = cap, rl_header_pages = h, rl_page_size = ps\<rparr> \<and>
     (\<forall>t. trailing_partial_region l = Some t \<longrightarrow>
        rl_header_pages t = h \<and> rl_page_size t = ps \<and> 0 < rl_num_pages t \<and> rl_num_pages t \<le> cap)"

text \<open>The pages of the last region, and the equivalence of layouts with the same regions.\<close>

definition region_pages :: "DatabaseLayout \<Rightarrow> nat \<Rightarrow> nat" where
  "region_pages l r = (if r < num_full_regions l then rl_num_pages (full_region_layout l)
     else if r = num_full_regions l then (case trailing_partial_region l of Some t \<Rightarrow> rl_num_pages t | None \<Rightarrow> 0)
     else 0)"

definition same_regions :: "DatabaseLayout \<Rightarrow> DatabaseLayout \<Rightarrow> bool" where
  "same_regions l l' \<longleftrightarrow> num_regions l = num_regions l' \<and>
     (\<forall>r < num_regions l. region_layout l r = region_layout l' r \<and> region_base_address l r = region_base_address l' r)"

definition layout_normal :: "DatabaseLayout \<Rightarrow> DatabaseLayout" where
  "layout_normal l = (case trailing_partial_region l of
       Some t \<Rightarrow> if t = full_region_layout l
         then l\<lparr>num_full_regions := num_full_regions l + 1, trailing_partial_region := None\<rparr> else l
     | None \<Rightarrow> l)"

lemma round_up_div:
  assumes "0 < m"
  shows "round_up_to_multiple_of v m div m = div_ceil v m"
    and "m dvd round_up_to_multiple_of v m" "v \<le> round_up_to_multiple_of v m" "round_up_to_multiple_of v m < v + m"
proof -
  have e: "v mod m \<noteq> 0 \<Longrightarrow> v + m - v mod m = (v div m + 1) * m"
    using mod_less_divisor[OF assms, of v] by (simp add: add.commute minus_mod_eq_mult_div[symmetric] algebra_simps)
  show d: "m dvd round_up_to_multiple_of v m"
    using e by (auto simp: round_up_to_multiple_of_def mod_eq_0_iff_dvd)
  have "v mod m < m" using assms by simp
  then have "v \<le> v + m - v mod m" "v mod m \<noteq> 0 \<Longrightarrow> v + m - v mod m < v + m" by linarith+
  then show "v \<le> round_up_to_multiple_of v m" "round_up_to_multiple_of v m < v + m"
    using assms by (simp_all add: round_up_to_multiple_of_def)
  show "round_up_to_multiple_of v m div m = div_ceil v m"
    using e assms by (auto simp: round_up_to_multiple_of_def div_ceil_def)
qed

text \<open>Closed forms for a well-formed layout.\<close>

lemma layout_full:
  assumes "layout_ok h cap ps l"
  shows "rl_num_pages (full_region_layout l) = cap" "rl_header_pages (full_region_layout l) = h"
    "rl_page_size (full_region_layout l) = ps" "rl_len (full_region_layout l) = (h + cap) * ps"
    "rl_usable_bytes (full_region_layout l) = cap * ps"
  using assms by (simp_all add: layout_ok_def rl_len_def rl_usable_bytes_def algebra_simps)

lemma layout_base:
  assumes "layout_ok h cap ps l" "r < num_regions l"
  shows "region_base_address l r = Some (ps + r * ((h + cap) * ps))"
  using assms by (simp add: region_base_address_def layout_full assert_that_def)

lemma layout_region:
  assumes "layout_ok h cap ps l" "r < num_regions l"
  shows "region_layout l r = Some \<lparr>rl_num_pages = region_pages l r, rl_header_pages = h, rl_page_size = ps\<rparr>"
  using assms by (auto simp: region_layout_def region_pages_def layout_ok_def num_regions_def assert_that_def
      split: option.splits if_splits)

lemma region_pages_bound: "layout_ok h cap ps l \<Longrightarrow> region_pages l r \<le> cap"
  by (auto simp: region_pages_def layout_ok_def split: option.splits)

lemma region_pages_pos: "layout_ok h cap ps l \<Longrightarrow> 0 < region_pages l r \<longleftrightarrow> r < num_regions l"
  by (auto simp: region_pages_def layout_ok_def num_regions_def split: option.splits if_splits)

lemma layout_len:
  assumes "layout_ok h cap ps l"
  shows "dl_len l = Some (ps + (num_regions l - 1) * ((h + cap) * ps) + (h + region_pages l (num_regions l - 1)) * ps)"
proof -
  have "0 < num_regions l" using assms by (simp add: layout_ok_def)
  then show ?thesis
    using layout_base[OF assms, of "num_regions l - 1"] layout_region[OF assms, of "num_regions l - 1"]
    by (simp add: dl_len_def assert_that_def rl_len_def rl_usable_bytes_def Let_def algebra_simps)
qed

lemma layout_normal_ok: "layout_ok h cap ps l \<Longrightarrow> layout_ok h cap ps (layout_normal l)"
  by (auto simp: layout_ok_def layout_normal_def num_regions_def split: option.splits)

lemma layout_normal_same:
  assumes "layout_ok h cap ps l"
  shows "same_regions l (layout_normal l)" "dl_usable_bytes (layout_normal l) = dl_usable_bytes l"
proof -
  have n: "num_regions (layout_normal l) = num_regions l"
    by (auto simp: layout_normal_def num_regions_def split: option.splits)
  have p: "region_pages (layout_normal l) r = region_pages l r" for r
    by (auto simp: layout_normal_def region_pages_def split: option.splits)
  show "same_regions l (layout_normal l)"
    using layout_base[OF assms] layout_region[OF assms] layout_base[OF layout_normal_ok[OF assms]]
      layout_region[OF layout_normal_ok[OF assms]] by (simp add: same_regions_def n p)
  show "dl_usable_bytes (layout_normal l) = dl_usable_bytes l"
    by (auto simp: layout_normal_def dl_usable_bytes_def split: option.splits)
qed

text \<open>
  \<open>recalculate\<close> inverts \<open>len\<close>, up to the form of a last region that is full: it counts it among the
  full regions. Bytes behind the last whole page are ignored.
\<close>

lemma recalculate_None:
  assumes "0 < cap" "0 < ps" "n < 2 ^ 32" "x < (h + 1) * ps"
  shows "recalculate (ps + n * ((h + cap) * ps) + x) h cap ps =
    Some \<lparr>full_region_layout = \<lparr>rl_num_pages = cap, rl_header_pages = h, rl_page_size = ps\<rparr>,
          num_full_regions = n, trailing_partial_region = None\<rparr>"
proof -
  have "(h + 1) * ps \<le> (h + cap) * ps" using assms(1) by (intro mult_right_mono) auto
  then have x: "x < (h + cap) * ps" using assms(4) by linarith
  then have "(n * ((h + cap) * ps) + x) div ((h + cap) * ps) = n"
    using assms(1,2) by (intro div_nat_eqI) (auto simp: algebra_simps)
  then show ?thesis
    using assms unfolding recalculate_def by (simp add: assert_that_def rl_new_def Let_def)
qed

lemma recalculate_Some:
  assumes "0 < t" "t < cap" "0 < ps" "n < 2 ^ 32" "cap * ps \<le> 2 ^ 32" "x < ps"
  shows "recalculate (ps + n * ((h + cap) * ps) + (h + t) * ps + x) h cap ps =
    Some \<lparr>full_region_layout = \<lparr>rl_num_pages = cap, rl_header_pages = h, rl_page_size = ps\<rparr>,
          num_full_regions = n,
          trailing_partial_region = Some \<lparr>rl_num_pages = t, rl_header_pages = h, rl_page_size = ps\<rparr>\<rparr>"
proof -
  have "(t + 1) * ps \<le> cap * ps" using assms(2) by (intro mult_right_mono) auto
  then have tx: "t * ps + x < cap * ps" using assms(6) by simp
  then have "(n * ((h + cap) * ps) + (h + t) * ps + x) div ((h + cap) * ps) = n"
    by (intro div_nat_eqI) (auto simp: algebra_simps)
  moreover have "(t * ps + x) div ps = t" using assms(6) by (intro div_nat_eqI) (auto simp: algebra_simps)
  moreover have "(h + 1) * ps \<le> (h + t) * ps" using assms(1) by (intro mult_right_mono) auto
  then have "(h + 1) * ps \<le> (h + t) * ps + x" by linarith
  moreover have "(h + t) * ps + x - h * ps = t * ps + x" by (simp add: algebra_simps)
  moreover have "t * ps + x < 2 ^ 32" using tx assms(5) by linarith
  ultimately show ?thesis
    using assms(1-4) unfolding recalculate_def by (simp add: assert_that_def rl_new_def Let_def add.assoc)
qed

lemma recalculate_len:
  assumes ok: "layout_ok h cap ps l" and fits: "cap * ps \<le> 2 ^ 32" "num_regions l < 2 ^ 32"
    and len: "dl_len l = Some n" and x: "x < ps"
  shows "recalculate (n + x) h cap ps = Some (layout_normal l)"
proof -
  have pos: "0 < cap" "0 < ps" and full: "full_region_layout l = \<lparr>rl_num_pages = cap, rl_header_pages = h, rl_page_size = ps\<rparr>"
    using ok by (simp_all add: layout_ok_def)
  have xh: "x < (h + 1) * ps" using x by simp
  show ?thesis
  proof (cases "trailing_partial_region l")
    case None
    then have nr: "num_regions l = num_full_regions l" "0 < num_full_regions l"
      using ok by (auto simp: layout_ok_def num_regions_def)
    have "n = ps + num_full_regions l * ((h + cap) * ps)"
      using len layout_len[OF ok] nr full
      by (cases "num_full_regions l") (auto simp: region_pages_def algebra_simps)
    then show ?thesis
      using recalculate_None[OF pos _ xh, of "num_full_regions l"] fits(2) nr None full
      by (simp add: layout_normal_def)
  next
    case (Some t)
    then have nr: "num_regions l = num_full_regions l + 1"
      and t: "rl_header_pages t = h" "rl_page_size t = ps" "0 < rl_num_pages t" "rl_num_pages t \<le> cap"
      using ok by (auto simp: layout_ok_def num_regions_def)
    have n: "n = ps + num_full_regions l * ((h + cap) * ps) + (h + rl_num_pages t) * ps"
      using len layout_len[OF ok] nr Some by (simp add: region_pages_def)
    have teq: "\<lparr>rl_num_pages = rl_num_pages t, rl_header_pages = h, rl_page_size = ps\<rparr> = t" using t by simp
    show ?thesis
    proof (cases "rl_num_pages t = cap")
      case True
      with n have "n = ps + (num_full_regions l + 1) * ((h + cap) * ps)" by (simp add: algebra_simps)
      then show ?thesis
        using recalculate_None[OF pos _ xh, of "num_full_regions l + 1"] fits(2) nr Some full True teq
        by (simp add: layout_normal_def)
    next
      case False
      then have "t \<noteq> full_region_layout l" using full by auto
      then show ?thesis
        using recalculate_Some[of "rl_num_pages t" cap ps "num_full_regions l" x h] fits nr Some full teq t n x pos False
        by (auto simp: layout_normal_def)
    qed
  qed
qed

subsection \<open>Calculating a layout\<close>

lemma rl_calculate_correct:
  assumes "0 < ps" "cap < 2 ^ 32" "0 < d" "d \<le> cap * ps"
  shows "\<exists>r. rl_calculate d cap h ps = Some r \<and> rl_header_pages r = h \<and> rl_page_size r = ps \<and>
    0 < rl_num_pages r \<and> rl_num_pages r \<le> cap \<and> d \<le> rl_usable_bytes r \<and> rl_usable_bytes r < d + ps"
proof -
  have n: "div_ceil d ps \<le> cap" "0 < div_ceil d ps"
    using assms by (simp_all add: div_ceil_le_iff div_ceil_pos_iff)
  have "ps * div_ceil d ps = round_up_to_multiple_of d ps"
    using round_up_div(1,2)[OF assms(1), of d] by (metis dvd_mult_div_cancel)
  then show ?thesis
    using n round_up_div[OF assms(1), of d] assms
    by (simp add: rl_calculate_def assert_that_def rl_usable_bytes_def Let_def)
qed

lemma layout_usable:
  assumes "layout_ok h cap ps l" "dl_len l = Some n"
  shows "n = ps + num_regions l * (h * ps) + dl_usable_bytes l"
proof (cases "trailing_partial_region l")
  case None
  then have "num_regions l = num_full_regions l" "0 < num_full_regions l"
    using assms(1) by (auto simp: layout_ok_def num_regions_def)
  then show ?thesis
    using assms(2) layout_len[OF assms(1)] layout_full[OF assms(1)] None
    by (cases "num_full_regions l") (auto simp: region_pages_def dl_usable_bytes_def algebra_simps)
next
  case (Some t)
  then have "num_regions l = num_full_regions l + 1" "rl_page_size t = ps"
    using assms(1) by (auto simp: layout_ok_def num_regions_def)
  then show ?thesis
    using assms(2) layout_len[OF assms(1)] layout_full[OF assms(1)] Some
    by (auto simp: region_pages_def dl_usable_bytes_def rl_usable_bytes_def algebra_simps)
qed

lemma dl_calculate_multi:
  assumes "0 < cap" "0 < ps" "\<not> d \<le> cap * ps" "d div (cap * ps) = q" "0 < q" "q < 2 ^ 32" "d - q * (cap * ps) = e"
    and "trailing = (if 0 < e then rl_calculate e cap h ps else None)" "0 < e \<longrightarrow> trailing \<noteq> None"
    and "\<forall>t. trailing = Some t \<longrightarrow> rl_header_pages t = h"
  shows "dl_calculate d cap h ps = Some
    \<lparr>full_region_layout = \<lparr>rl_num_pages = cap, rl_header_pages = h, rl_page_size = ps\<rparr>, num_full_regions = q,
     trailing_partial_region = trailing\<rparr>"
proof -
  have u: "ps * cap = cap * ps" by simp
  show ?thesis using assms unfolding dl_calculate_def
    by (cases "0 < e") (auto simp: rl_new_def assert_that_def rl_usable_bytes_def u Let_def)
qed

lemma dl_calculate_correct:
  assumes pos: "0 < cap" "0 < ps" "0 < d" and fits: "cap < 2 ^ 32" "d div (cap * ps) < 2 ^ 32"
  shows "\<exists>l. dl_calculate d cap h ps = Some l \<and> layout_ok h cap ps l \<and>
    d \<le> dl_usable_bytes l \<and> dl_usable_bytes l < d + ps"
proof (cases "d \<le> cap * ps")
  case True
  then show ?thesis
    using rl_calculate_correct[OF pos(2) fits(1) pos(3) True, of h] pos
    by (auto simp: dl_calculate_def rl_new_def assert_that_def rl_usable_bytes_def layout_ok_def num_regions_def
        dl_usable_bytes_def mult.commute)
next
  case False
  obtain q where q: "d div (cap * ps) = q" by blast
  obtain e where e: "d - q * (cap * ps) = e" by blast
  have "e = d mod (cap * ps)" using q e by (simp add: minus_div_mult_eq_mod flip: q)
  then have ele: "e \<le> cap * ps" using pos by (metis mod_less_divisor less_imp_le nat_0_less_mult_iff)
  have d: "d = q * (cap * ps) + e" using \<open>e = d mod (cap * ps)\<close> q by (metis div_mult_mod_eq)
  have qpos: "0 < q" using False pos by (simp add: div_greater_zero_iff flip: q)
  show ?thesis
  proof (cases "0 < e")
    case epos: True
    then obtain r where r: "rl_calculate e cap h ps = Some r" "rl_header_pages r = h" "rl_page_size r = ps"
      "0 < rl_num_pages r" "rl_num_pages r \<le> cap" "e \<le> rl_usable_bytes r" "rl_usable_bytes r < e + ps"
      using rl_calculate_correct[OF pos(2) fits(1) _ ele, of h] by auto
    have calc: "dl_calculate d cap h ps = Some
      \<lparr>full_region_layout = \<lparr>rl_num_pages = cap, rl_header_pages = h, rl_page_size = ps\<rparr>, num_full_regions = q,
       trailing_partial_region = Some r\<rparr>"
      by (rule dl_calculate_multi[OF pos(1,2) False q qpos _ e]) (use fits q epos r in auto)
    show ?thesis unfolding calc using r pos
      by (simp add: d layout_ok_def num_regions_def dl_usable_bytes_def rl_usable_bytes_def mult.commute)
  next
    case ez: False
    have calc: "dl_calculate d cap h ps = Some
      \<lparr>full_region_layout = \<lparr>rl_num_pages = cap, rl_header_pages = h, rl_page_size = ps\<rparr>, num_full_regions = q,
       trailing_partial_region = None\<rparr>"
      by (rule dl_calculate_multi[OF pos(1,2) False q qpos _ e]) (use fits q ez in auto)
    show ?thesis unfolding calc using pos qpos ez
      by (simp add: d layout_ok_def num_regions_def dl_usable_bytes_def rl_usable_bytes_def mult.commute)
  qed
qed

lemma reduce_last_region_correct:
  assumes ok: "layout_ok h cap ps l" and pages: "pages \<le> region_pages l (num_regions l - 1)"
  shows "\<exists>l'. reduce_last_region l pages = Some l' \<and> dl_usable_bytes l' + pages * ps = dl_usable_bytes l \<and>
    (0 < num_regions l' \<longrightarrow> layout_ok h cap ps l') \<and>
    num_regions l' = (if pages = region_pages l (num_regions l - 1) then num_regions l - 1 else num_regions l) \<and>
    (\<forall>r. region_pages l' r = (if r = num_regions l - 1 then region_pages l r - pages else region_pages l r))"
proof (cases "trailing_partial_region l")
  case (Some t)
  then have nr: "num_regions l - 1 = num_full_regions l" and ps: "rl_page_size t = ps"
    using ok by (auto simp: num_regions_def layout_ok_def)
  have "pages \<le> rl_num_pages t" using pages Some unfolding nr by (simp add: region_pages_def)
  then have "ps * (rl_num_pages t - pages) + pages * ps = ps * rl_num_pages t"
    by (simp add: algebra_simps flip: add_mult_distrib2)
  then show ?thesis using Some ok pages ps
    by (auto simp: reduce_last_region_def region_pages_def assert_that_def Let_def dl_usable_bytes_def
        rl_usable_bytes_def num_regions_def layout_ok_def)
next
  case None
  then obtain n where n: "num_full_regions l = Suc n" using ok
    by (cases "num_full_regions l") (auto simp: layout_ok_def num_regions_def)
  have pc: "pages \<le> cap" using pages None n layout_full[OF ok] by (simp add: num_regions_def region_pages_def)
  then have e: "ps * (cap - pages) + pages * ps = ps * cap" by (simp add: algebra_simps flip: add_mult_distrib2)
  show ?thesis
  proof (cases "pages < cap")
    case True
    then show ?thesis using None ok n e layout_full[OF ok]
      by (auto simp: reduce_last_region_def region_pages_def assert_that_def Let_def dl_usable_bytes_def
          rl_usable_bytes_def num_regions_def layout_ok_def rl_new_def)
  next
    case False
    then show ?thesis using None ok n e pc layout_full[OF ok]
      by (auto simp: reduce_last_region_def region_pages_def assert_that_def Let_def dl_usable_bytes_def
          rl_usable_bytes_def num_regions_def layout_ok_def rl_new_def)
  qed
qed

subsection \<open>Addresses of pages\<close>

text \<open>\<open>TransactionalMemory::get_page\<close> and its relatives pass these arguments to \<open>address_range\<close>.\<close>

definition page_address :: "DatabaseLayout \<Rightarrow> PageNumber \<Rightarrow> (nat \<times> nat) option" where
  "page_address l p = (let full = full_region_layout l in
     address_range p (rl_page_size full) (rl_len full) (rl_header_pages full * rl_page_size full) (rl_page_size full))"

definition page_in_layout :: "DatabaseLayout \<Rightarrow> PageNumber \<Rightarrow> bool" where
  "page_in_layout l p \<longleftrightarrow> region p < num_regions l \<and>
     (page_index p + 1) * 2 ^ page_order p \<le> region_pages l (region p)"

lemma page_address_eq:
  assumes ok: "layout_ok h cap ps l" and p: "page_in_layout l p"
  shows "page_address l p =
    Some (ps + region p * ((h + cap) * ps) + (h + page_index p * 2 ^ page_order p) * ps,
          ps + region p * ((h + cap) * ps) + (h + (page_index p + 1) * 2 ^ page_order p) * ps)"
proof -
  have "page_index p * 2 ^ page_order p < (page_index p + 1) * 2 ^ page_order p" by simp
  moreover have "(page_index p + 1) * 2 ^ page_order p \<le> region_pages l (region p)"
    using p by (simp add: page_in_layout_def)
  ultimately have "page_index p * 2 ^ page_order p < cap"
    using region_pages_bound[OF ok, of "region p"] by linarith
  then have "(h + page_index p * 2 ^ page_order p) * ps < (h + cap) * ps"
    using ok by (simp add: layout_ok_def)
  then have a: "h * ps + page_index p * 2 ^ page_order p * ps < (h + cap) * ps"
    by (simp only: add_mult_distrib)
  show ?thesis
    unfolding page_address_def Let_def layout_full[OF ok] address_range_eq by (simp only: a) (simp add: algebra_simps)
qed

lemma page_address_in_region:
  assumes ok: "layout_ok h cap ps l" and p: "page_in_layout l p" and a: "page_address l p = Some (a0, a1)"
  shows "ps + region p * ((h + cap) * ps) \<le> a0" "a0 < a1" "a1 \<le> ps + (region p + 1) * ((h + cap) * ps)"
    "\<And>n. dl_len l = Some n \<Longrightarrow> a1 \<le> n"
proof -
  have "page_index p * 2 ^ page_order p < (page_index p + 1) * 2 ^ page_order p" by simp
  then have lt: "(h + page_index p * 2 ^ page_order p) * ps < (h + (page_index p + 1) * 2 ^ page_order p) * ps"
    using ok by (simp add: layout_ok_def)
  have le: "(h + (page_index p + 1) * 2 ^ page_order p) * ps \<le> (h + region_pages l (region p)) * ps"
    using p by (intro mult_right_mono) (auto simp: page_in_layout_def)
  have cap: "(h + region_pages l (region p)) * ps \<le> (h + cap) * ps"
    using region_pages_bound[OF ok] by (intro mult_right_mono) auto
  show "ps + region p * ((h + cap) * ps) \<le> a0" "a0 < a1"
    using a lt unfolding page_address_eq[OF ok p] by auto
  show end_le: "a1 \<le> ps + (region p + 1) * ((h + cap) * ps)"
  proof -
    have "(region p + 1) * ((h + cap) * ps) = region p * ((h + cap) * ps) + (h + cap) * ps" by simp
    moreover have "a1 = ps + region p * ((h + cap) * ps) + (h + (page_index p + 1) * 2 ^ page_order p) * ps"
      using a unfolding page_address_eq[OF ok p] by simp
    ultimately show ?thesis using le cap by linarith
  qed
  fix n assume n: "dl_len l = Some n"
  show "a1 \<le> n"
  proof (cases "region p = num_regions l - 1")
    case True
    then show ?thesis using a le n layout_len[OF ok] unfolding page_address_eq[OF ok p] by auto
  next
    case False
    then have "region p + 1 \<le> num_regions l - 1" using p by (auto simp: page_in_layout_def)
    then have "(region p + 1) * ((h + cap) * ps) \<le> (num_regions l - 1) * ((h + cap) * ps)"
      by (intro mult_right_mono) auto
    then show ?thesis using end_le n layout_len[OF ok] by auto
  qed
qed

lemma disjoint_blocks_order:
  assumes "blk i m \<inter> blk j n = {}" shows "(i + 1) * 2 ^ m \<le> j * 2 ^ n \<or> (j + 1) * 2 ^ n \<le> i * 2 ^ m"
proof (rule ccontr)
  assume neg: "\<not> ?thesis"
  let ?x = "max (i * 2 ^ m) (j * 2 ^ n)"
  have "?x \<in> blk i m \<inter> blk j n" using neg unfolding blk_interval by auto
  with assms show False by simp
qed

lemma layout_addresses_fit:
  assumes ok: "layout_ok h cap ps l" and "num_regions l \<le> MAX_REGIONS" "(h + cap) * ps \<le> 2 ^ 33"
    and n: "dl_len l = Some n"
  shows "n \<le> ps + num_regions l * ((h + cap) * ps)" "n \<le> ps + 2 ^ 53"
proof -
  have pos: "0 < num_regions l" using ok by (simp add: layout_ok_def)
  have "(h + region_pages l (num_regions l - 1)) * ps \<le> (h + cap) * ps"
    using region_pages_bound[OF ok] by (intro mult_right_mono) auto
  moreover have "n = ps + (num_regions l - 1) * ((h + cap) * ps) + (h + region_pages l (num_regions l - 1)) * ps"
    using n unfolding layout_len[OF ok] by (simp only: option.inject)
  ultimately have "n \<le> ps + ((num_regions l - 1) * ((h + cap) * ps) + (h + cap) * ps)" by linarith
  also have "\<dots> = ps + num_regions l * ((h + cap) * ps)" using pos by (cases "num_regions l") auto
  finally show "n \<le> ps + num_regions l * ((h + cap) * ps)" .
  also have "num_regions l * ((h + cap) * ps) \<le> 2 ^ 20 * 2 ^ 33"
    using assms(2,3) by (intro mult_mono) (auto simp: MAX_REGIONS_def)
  finally show "n \<le> ps + 2 ^ 53" by simp
qed

lemma page_addresses_disjoint:
  assumes ok: "layout_ok h cap ps l" and len: "dl_len l = Some n"
    and p: "page_in_layout l p" and q: "page_in_layout l q"
    and disj: "region p = region q \<longrightarrow> blk (page_index p) (page_order p) \<inter> blk (page_index q) (page_order q) = {}"
  shows "\<exists>a0 a1 b0 b1. page_address l p = Some (a0, a1) \<and> page_address l q = Some (b0, b1) \<and>
    ps \<le> a0 \<and> a0 < a1 \<and> a1 \<le> n \<and> (a1 \<le> b0 \<or> b1 \<le> a0)"
proof -
  obtain a0 a1 b0 b1 where a: "page_address l p = Some (a0, a1)" and b: "page_address l q = Some (b0, b1)"
    using page_address_eq[OF ok p] page_address_eq[OF ok q] by blast
  note ra = page_address_in_region[OF ok p a] and rb = page_address_in_region[OF ok q b]
  have "a1 \<le> b0 \<or> b1 \<le> a0"
  proof (cases "region p" "region q" rule: linorder_cases)
    case equal
    then have "(page_index p + 1) * 2 ^ page_order p \<le> page_index q * 2 ^ page_order q \<or>
        (page_index q + 1) * 2 ^ page_order q \<le> page_index p * 2 ^ page_order p"
      using disj disjoint_blocks_order by blast
    then have "(h + (page_index p + 1) * 2 ^ page_order p) * ps \<le> (h + page_index q * 2 ^ page_order q) * ps \<or>
        (h + (page_index q + 1) * 2 ^ page_order q) * ps \<le> (h + page_index p * 2 ^ page_order p) * ps"
      by (auto intro: mult_right_mono)
    then show ?thesis using a b equal unfolding page_address_eq[OF ok p] page_address_eq[OF ok q] by auto
  next
    case less
    then have "(region p + 1) * ((h + cap) * ps) \<le> region q * ((h + cap) * ps)" by (intro mult_right_mono) auto
    then show ?thesis using ra(3) rb(1) by linarith
  next
    case greater
    then have "(region q + 1) * ((h + cap) * ps) \<le> region p * ((h + cap) * ps)" by (intro mult_right_mono) auto
    then show ?thesis using rb(3) ra(1) by linarith
  qed
  then show ?thesis using a b ra(1,2) ra(4)[OF len] by (metis add_leE)
qed

subsection \<open>Properties\<close>



text \<open>
  C19. Recomputing the layout from the length of the file, plus up to a page of slack, gives a layout
  with the same regions at the same addresses.
\<close>

theorem layout_recalculate_round_trip:
  assumes "layout_ok h cap ps l" "cap * ps \<le> 2 ^ 32" "num_regions l < 2 ^ 32" "dl_len l = Some n" "x < ps"
  shows "\<exists>l'. recalculate (n + x) h cap ps = Some l' \<and> same_regions l l' \<and> dl_usable_bytes l' = dl_usable_bytes l"
  using recalculate_len[OF assms] layout_normal_same[OF assms(1)] by blast

theorem layout_recalculate_round_trip_witness:
  "\<exists>l'. recalculate 176228 1 20 4096 = Some l' \<and> dl_usable_bytes l' = 163840"
  using layout_recalculate_round_trip[of 1 20 4096
      "\<lparr>full_region_layout = \<lparr>rl_num_pages = 20, rl_header_pages = 1, rl_page_size = 4096\<rparr>, num_full_regions = 1,
        trailing_partial_region = Some \<lparr>rl_num_pages = 20, rl_header_pages = 1, rl_page_size = 4096\<rparr>\<rparr>" 176128 100]
  by (auto simp: layout_ok_def num_regions_def dl_len_def region_base_address_def region_layout_def assert_that_def
      rl_len_def rl_usable_bytes_def dl_usable_bytes_def)

text \<open>
  C20. Dropping pages from the end of the last region removes exactly these pages: the other regions
  keep their size, the usable bytes shrink by the bytes of the pages, and the region goes away
  when no page of it is left.
\<close>

theorem layout_reduce_last_region:
  assumes "layout_ok h cap ps l" "pages \<le> region_pages l (num_regions l - 1)"
  shows "\<exists>l'. reduce_last_region l pages = Some l' \<and> dl_usable_bytes l' + pages * ps = dl_usable_bytes l \<and>
    num_regions l' = (if pages = region_pages l (num_regions l - 1) then num_regions l - 1 else num_regions l) \<and>
    (\<forall>r. region_pages l' r = (if r = num_regions l - 1 then region_pages l r - pages else region_pages l r))"
  using reduce_last_region_correct[OF assms] by blast

theorem layout_reduce_last_region_witness:
  "\<exists>l'. reduce_last_region \<lparr>full_region_layout = \<lparr>rl_num_pages = 20, rl_header_pages = 1, rl_page_size = 4096\<rparr>,
       num_full_regions = 2, trailing_partial_region = None\<rparr> 5 = Some l' \<and> dl_usable_bytes l' = 143360"
  using layout_reduce_last_region[of 1 20 4096
      "\<lparr>full_region_layout = \<lparr>rl_num_pages = 20, rl_header_pages = 1, rl_page_size = 4096\<rparr>, num_full_regions = 2,
        trailing_partial_region = None\<rparr>" 5]
  by (auto simp: layout_ok_def num_regions_def region_pages_def dl_usable_bytes_def rl_usable_bytes_def)

text \<open>
  C11. Pages of different regions, or of disjoint blocks of one region, occupy disjoint byte ranges of
  the file, behind the header page and before the end of the file; the offset computation never panics.
\<close>

theorem pages_disjoint_on_disk:
  assumes ok: "layout_ok h cap ps l" and len: "dl_len l = Some n"
    and p: "page_in_layout l p" and q: "page_in_layout l q"
    and disj: "region p = region q \<longrightarrow> blk (page_index p) (page_order p) \<inter> blk (page_index q) (page_order q) = {}"
  shows "\<exists>a0 a1 b0 b1. page_address l p = Some (a0, a1) \<and> page_address l q = Some (b0, b1) \<and>
    ps \<le> a0 \<and> a0 < a1 \<and> a1 \<le> n \<and> (a1 \<le> b0 \<or> b1 \<le> a0)"
  by (rule page_addresses_disjoint[OF assms])

theorem pages_disjoint_on_disk_witness:
  "\<exists>a0 a1 b0 b1. page_address \<lparr>full_region_layout = \<lparr>rl_num_pages = 20, rl_header_pages = 1, rl_page_size = 4096\<rparr>,
        num_full_regions = 2, trailing_partial_region = None\<rparr> \<lparr>region = 1, page_index = 2, page_order = 1\<rparr> = Some (a0, a1)
     \<and> page_address \<lparr>full_region_layout = \<lparr>rl_num_pages = 20, rl_header_pages = 1, rl_page_size = 4096\<rparr>,
        num_full_regions = 2, trailing_partial_region = None\<rparr> \<lparr>region = 1, page_index = 3, page_order = 0\<rparr> = Some (b0, b1)
     \<and> b1 \<le> a0 \<and> a1 \<le> 176128"
proof -
  let ?l = "\<lparr>full_region_layout = \<lparr>rl_num_pages = 20, rl_header_pages = 1, rl_page_size = 4096\<rparr>,
        num_full_regions = 2, trailing_partial_region = None\<rparr>"
  have "layout_ok 1 20 4096 ?l" "dl_len ?l = Some 176128" "blk 2 1 \<inter> blk 3 0 = {}"
    by (auto simp: layout_ok_def num_regions_def dl_len_def region_base_address_def region_layout_def assert_that_def
      rl_len_def rl_usable_bytes_def)
  moreover have "page_in_layout ?l \<lparr>region = 1, page_index = 2, page_order = 1\<rparr>"
    "page_in_layout ?l \<lparr>region = 1, page_index = 3, page_order = 0\<rparr>"
    by (simp_all add: page_in_layout_def num_regions_def region_pages_def)
  ultimately show ?thesis
    using pages_disjoint_on_disk[of 1 20 4096 ?l 176128 "\<lparr>region = 1, page_index = 2, page_order = 1\<rparr>"
        "\<lparr>region = 1, page_index = 3, page_order = 0\<rparr>"]
    by (auto simp: page_address_def address_range_eq rl_len_def rl_usable_bytes_def Let_def)
qed

end
