(* ===== verification/Header.thy ===== *)
theory Header
  imports Layout Errors
begin

text \<open>
  The database header of \<^verbatim>\<open>tree_store/page_store/header.rs\<close> with its two commit slots, and the root
  descriptor \<open>BtreeHeader\<close> of \<^verbatim>\<open>tree_store/btree_base.rs\<close>. The checksum function \<open>xxh3_checksum\<close> is a
  parameter of the operations that use it. \<open>u32\<close> fields are \<open>nat\<close>, bounded by \<open>header_ok\<close>.
\<close>

subsection \<open>Root descriptors\<close>

type_synonym checksum_fn = "bytes \<Rightarrow> u128"

record BtreeHeader =
  root :: PageNumber
  checksum :: u128
  bh_length :: nat

definition bh_new :: "PageNumber \<Rightarrow> u128 \<Rightarrow> nat \<Rightarrow> BtreeHeader" where
  "bh_new r c n = \<lparr>root = r, checksum = c, bh_length = n\<rparr>"

definition bh_serialized_size :: nat where
  "bh_serialized_size = 8 + 16 + 8"

definition bh_from_le_bytes :: "bytes \<Rightarrow> BtreeHeader option" where
  "bh_from_le_bytes bs = do {
     r \<leftarrow> subslice bs 0 8;
     r \<leftarrow> pn_from_le_bytes r;
     c \<leftarrow> subslice bs 8 (8 + 16);
     n \<leftarrow> subslice bs (8 + 16) (8 + 16 + 8);
     Some \<lparr>root = r, checksum = word_of_nat (from_le c), bh_length = from_le n\<rparr> }"

definition bh_to_le_bytes :: "BtreeHeader \<Rightarrow> bytes option" where
  "bh_to_le_bytes h = write_fields (replicate bh_serialized_size 0)
     [(0, pn_to_le_bytes (root h)), (8, le_bytes 16 (unat (checksum h))), (8 + 16, le_bytes 8 (bh_length h))]"

subsection \<open>Offsets\<close>

definition MAGICNUMBER :: bytes where
  "MAGICNUMBER = [0x72, 0x64, 0x62, 0x78, 0x1A, 0x0A, 0xA9, 0x0D, 0x0A]"

definition GOD_BYTE_OFFSET :: nat where "GOD_BYTE_OFFSET = length MAGICNUMBER"
definition PAGE_SIZE_OFFSET :: nat where "PAGE_SIZE_OFFSET = GOD_BYTE_OFFSET + 1 + 2"
definition REGION_HEADER_PAGES_OFFSET :: nat where "REGION_HEADER_PAGES_OFFSET = PAGE_SIZE_OFFSET + 4"
definition REGION_MAX_DATA_PAGES_OFFSET :: nat where "REGION_MAX_DATA_PAGES_OFFSET = REGION_HEADER_PAGES_OFFSET + 4"
definition NUM_FULL_REGIONS_OFFSET :: nat where "NUM_FULL_REGIONS_OFFSET = REGION_MAX_DATA_PAGES_OFFSET + 4"
definition TRAILING_REGION_DATA_PAGES_OFFSET :: nat where "TRAILING_REGION_DATA_PAGES_OFFSET = NUM_FULL_REGIONS_OFFSET + 4"
definition SALT_OFFSET :: nat where "SALT_OFFSET = TRAILING_REGION_DATA_PAGES_OFFSET + 4"
definition TRANSACTION_SIZE :: nat where "TRANSACTION_SIZE = 128"
definition TRANSACTION_0_OFFSET :: nat where "TRANSACTION_0_OFFSET = 80"
definition TRANSACTION_1_OFFSET :: nat where "TRANSACTION_1_OFFSET = TRANSACTION_0_OFFSET + TRANSACTION_SIZE"
definition DB_HEADER_SIZE :: nat where "DB_HEADER_SIZE = TRANSACTION_1_OFFSET + TRANSACTION_SIZE"

definition PRIMARY_BIT :: u8 where "PRIMARY_BIT = 1"
definition RECOVERY_REQUIRED :: u8 where "RECOVERY_REQUIRED = 2"
definition TWO_PHASE_COMMIT :: u8 where "TWO_PHASE_COMMIT = 4"
definition ENCRYPTED :: u8 where "ENCRYPTED = 8"

definition VERSION_OFFSET :: nat where "VERSION_OFFSET = 0"
definition USER_ROOT_NON_NULL_OFFSET :: nat where "USER_ROOT_NON_NULL_OFFSET = 1"
definition SYSTEM_ROOT_NON_NULL_OFFSET :: nat where "SYSTEM_ROOT_NON_NULL_OFFSET = USER_ROOT_NON_NULL_OFFSET + 1"
definition UNUSED_OFFSET :: nat where "UNUSED_OFFSET = SYSTEM_ROOT_NON_NULL_OFFSET + 1"
definition PADDING :: nat where "PADDING = 4"
definition USER_ROOT_OFFSET :: nat where "USER_ROOT_OFFSET = UNUSED_OFFSET + 1 + PADDING"
definition SYSTEM_ROOT_OFFSET :: nat where "SYSTEM_ROOT_OFFSET = USER_ROOT_OFFSET + bh_serialized_size"
definition UNUSED2_OFFSET :: nat where "UNUSED2_OFFSET = SYSTEM_ROOT_OFFSET + bh_serialized_size"
definition TRANSACTION_ID_OFFSET :: nat where "TRANSACTION_ID_OFFSET = UNUSED2_OFFSET + bh_serialized_size"
definition TRANSACTION_LAST_FIELD :: nat where "TRANSACTION_LAST_FIELD = TRANSACTION_ID_OFFSET + 8"
definition SLOT_CHECKSUM_OFFSET :: nat where "SLOT_CHECKSUM_OFFSET = TRANSACTION_SIZE - 16"

definition FILE_FORMAT_VERSION1 :: nat where "FILE_FORMAT_VERSION1 = 1"
definition FILE_FORMAT_VERSION2 :: nat where "FILE_FORMAT_VERSION2 = 2"

lemma bh_size [simp]: "bh_serialized_size = 32"
  by (simp add: bh_serialized_size_def)

lemma header_offsets:
  "length MAGICNUMBER = 9" "GOD_BYTE_OFFSET = 9" "PAGE_SIZE_OFFSET = 12" "REGION_HEADER_PAGES_OFFSET = 16"
  "REGION_MAX_DATA_PAGES_OFFSET = 20" "NUM_FULL_REGIONS_OFFSET = 24" "TRAILING_REGION_DATA_PAGES_OFFSET = 28"
  "SALT_OFFSET = 32" "TRANSACTION_SIZE = 128" "TRANSACTION_0_OFFSET = 80" "TRANSACTION_1_OFFSET = 208"
  "DB_HEADER_SIZE = 336"
  by (simp_all add: GOD_BYTE_OFFSET_def MAGICNUMBER_def PAGE_SIZE_OFFSET_def REGION_HEADER_PAGES_OFFSET_def
      REGION_MAX_DATA_PAGES_OFFSET_def NUM_FULL_REGIONS_OFFSET_def TRAILING_REGION_DATA_PAGES_OFFSET_def SALT_OFFSET_def
      TRANSACTION_SIZE_def TRANSACTION_0_OFFSET_def TRANSACTION_1_OFFSET_def DB_HEADER_SIZE_def)

lemma slot_offsets:
  "TRANSACTION_SIZE = 128" "VERSION_OFFSET = 0" "USER_ROOT_NON_NULL_OFFSET = 1" "SYSTEM_ROOT_NON_NULL_OFFSET = 2"
  "USER_ROOT_OFFSET = 8" "SYSTEM_ROOT_OFFSET = 40" "TRANSACTION_ID_OFFSET = 104" "TRANSACTION_LAST_FIELD = 112"
  "SLOT_CHECKSUM_OFFSET = 112"
  by (simp_all add: TRANSACTION_SIZE_def VERSION_OFFSET_def USER_ROOT_NON_NULL_OFFSET_def SYSTEM_ROOT_NON_NULL_OFFSET_def
      UNUSED_OFFSET_def PADDING_def USER_ROOT_OFFSET_def SYSTEM_ROOT_OFFSET_def UNUSED2_OFFSET_def TRANSACTION_ID_OFFSET_def
      TRANSACTION_LAST_FIELD_def SLOT_CHECKSUM_OFFSET_def)

lemmas format_versions = FILE_FORMAT_VERSION1_def FILE_FORMAT_VERSION2_def FILE_FORMAT_VERSION3_def

definition get_u32 :: "bytes \<Rightarrow> nat \<Rightarrow> nat option" where
  "get_u32 data a = map_option from_le (subslice data a (a + 4))"

definition get_u64 :: "bytes \<Rightarrow> nat \<Rightarrow> nat option" where
  "get_u64 data a = map_option from_le (subslice data a (a + 8))"

subsection \<open>Commit slots\<close>

record TransactionHeader =
  version :: nat
  user_root :: "BtreeHeader option"
  system_root :: "BtreeHeader option"
  transaction_id :: nat

definition th_new :: "nat \<Rightarrow> TransactionHeader" where
  "th_new tid = \<lparr>version = FILE_FORMAT_VERSION3, user_root = None, system_root = None, transaction_id = tid\<rparr>"

definition check_version :: "nat \<Rightarrow> DatabaseError + unit" where
  "check_version v = (if v = FILE_FORMAT_VERSION1 \<or> v = FILE_FORMAT_VERSION2 then Inl (DatabaseError.UpgradeRequired v)
     else if v = FILE_FORMAT_VERSION3 then Inr ()
     else Inl (database_from_storage (StorageError.Corrupted (''Expected file format version <= '' @
       show_nat FILE_FORMAT_VERSION3 @ '', found '' @ show_nat v))))"

definition read_root :: "bytes \<Rightarrow> nat \<Rightarrow> nat \<Rightarrow> BtreeHeader option option" where
  "read_root data flag offset = do {
     b \<leftarrow> idx data flag;
     if b \<noteq> 0 then do {
       bs \<leftarrow> subslice data offset (offset + bh_serialized_size);
       h \<leftarrow> bh_from_le_bytes bs;
       Some (Some h) }
     else Some None }"

definition th_from_bytes :: "checksum_fn \<Rightarrow> bytes \<Rightarrow> (DatabaseError + TransactionHeader \<times> bool) option" where
  "th_from_bytes xxh3 data = do {
     v \<leftarrow> idx data VERSION_OFFSET;
     and_then (Some (check_version (unat v))) (\<lambda>_. do {
       c \<leftarrow> subslice data SLOT_CHECKSUM_OFFSET (SLOT_CHECKSUM_OFFSET + 16);
       body \<leftarrow> subslice data 0 SLOT_CHECKSUM_OFFSET;
       let corrupted = (word_of_nat (from_le c) \<noteq> xxh3 body);
       u \<leftarrow> read_root data USER_ROOT_NON_NULL_OFFSET USER_ROOT_OFFSET;
       s \<leftarrow> read_root data SYSTEM_ROOT_NON_NULL_OFFSET SYSTEM_ROOT_OFFSET;
       tid \<leftarrow> get_u64 data TRANSACTION_ID_OFFSET;
       Some (Inr (\<lparr>version = unat v, user_root = u, system_root = s, transaction_id = tid\<rparr>, corrupted)) }) }"

definition root_fields :: "nat \<Rightarrow> nat \<Rightarrow> BtreeHeader option \<Rightarrow> (nat \<times> bytes) list option" where
  "root_fields flag offset r = (case r of
       None \<Rightarrow> Some []
     | Some h \<Rightarrow> do { bs \<leftarrow> bh_to_le_bytes h; Some [(flag, [1]), (offset, bs)] })"

definition th_to_bytes :: "checksum_fn \<Rightarrow> TransactionHeader \<Rightarrow> bytes option" where
  "th_to_bytes xxh3 t = do {
     assert_that (version t = FILE_FORMAT_VERSION3);
     u \<leftarrow> root_fields USER_ROOT_NON_NULL_OFFSET USER_ROOT_OFFSET (user_root t);
     s \<leftarrow> root_fields SYSTEM_ROOT_NON_NULL_OFFSET SYSTEM_ROOT_OFFSET (system_root t);
     result \<leftarrow> write_fields (replicate TRANSACTION_SIZE 0)
       ([(VERSION_OFFSET, [word_of_nat (version t)])] @ u @ s @ [(TRANSACTION_ID_OFFSET, le_bytes 8 (transaction_id t))]);
     body \<leftarrow> subslice result 0 SLOT_CHECKSUM_OFFSET;
     put_slice result SLOT_CHECKSUM_OFFSET (le_bytes 16 (unat (xxh3 body))) }"

subsection \<open>The header\<close>

record HeaderRepairInfo =
  invalid_magic_number :: bool
  primary_corrupted :: bool
  secondary_corrupted :: bool

record DatabaseHeader =
  primary_slot_index :: nat
  recovery_required :: bool
  two_phase_commit :: bool
  page_size :: nat
  region_header_pages :: nat
  region_max_data_pages :: nat
  full_regions :: nat
  trailing_partial_region_pages :: nat
  salt :: bytes
  transaction_slots :: "TransactionHeader list"

definition dh_new :: "DatabaseLayout \<Rightarrow> nat \<Rightarrow> bytes option \<Rightarrow> DatabaseHeader option" where
  "dh_new l tid s = do {
     assert_that (TRANSACTION_LAST_FIELD \<le> SLOT_CHECKSUM_OFFSET);
     let slot = th_new tid;
     Some \<lparr>primary_slot_index = 0, recovery_required = True, two_phase_commit = False,
       page_size = rl_page_size (full_region_layout l),
       region_header_pages = rl_header_pages (full_region_layout l),
       region_max_data_pages = rl_num_pages (full_region_layout l),
       full_regions = num_full_regions l,
       trailing_partial_region_pages = (case trailing_partial_region l of Some t \<Rightarrow> rl_num_pages t | None \<Rightarrow> 0),
       salt = (case s of Some x \<Rightarrow> x | None \<Rightarrow> replicate 16 0),
       transaction_slots = [slot, slot]\<rparr> }"

definition dh_layout :: "DatabaseHeader \<Rightarrow> DatabaseLayout option" where
  "dh_layout h = do {
     full \<leftarrow> rl_new (region_max_data_pages h) (region_header_pages h) (page_size h);
     trailing \<leftarrow> (if 0 < trailing_partial_region_pages h
       then map_option Some (rl_new (trailing_partial_region_pages h) (region_header_pages h) (page_size h))
       else Some None);
     Some (dl_new (full_regions h) full trailing) }"

definition set_layout :: "DatabaseHeader \<Rightarrow> DatabaseLayout \<Rightarrow> DatabaseHeader option" where
  "set_layout h l = do {
     own \<leftarrow> dh_layout h;
     assert_that (full_region_layout own = full_region_layout l);
     h \<leftarrow> (case trailing_partial_region l of
         Some t \<Rightarrow> do {
           assert_that (rl_header_pages t = region_header_pages h);
           assert_that (rl_page_size t = page_size h);
           Some (h\<lparr>trailing_partial_region_pages := rl_num_pages t\<rparr>) }
       | None \<Rightarrow> Some (h\<lparr>trailing_partial_region_pages := 0\<rparr>));
     Some (h\<lparr>full_regions := num_full_regions l\<rparr>) }"

definition primary_slot :: "DatabaseHeader \<Rightarrow> TransactionHeader option" where
  "primary_slot h = idx (transaction_slots h) (primary_slot_index h)"

definition secondary_slot :: "DatabaseHeader \<Rightarrow> TransactionHeader option" where
  "secondary_slot h = idx (transaction_slots h) (primary_slot_index h XOR 1)"

text \<open>\<open>secondary_slot_mut\<close>, with the update the caller makes through the reference.\<close>

definition update_secondary_slot :: "DatabaseHeader \<Rightarrow> (TransactionHeader \<Rightarrow> TransactionHeader) \<Rightarrow> DatabaseHeader option" where
  "update_secondary_slot h f = do {
     t \<leftarrow> idx (transaction_slots h) (primary_slot_index h XOR 1);
     Some (h\<lparr>transaction_slots := (transaction_slots h)[primary_slot_index h XOR 1 := f t]\<rparr>) }"

definition swap_primary_slot :: "DatabaseHeader \<Rightarrow> DatabaseHeader" where
  "swap_primary_slot h = h\<lparr>primary_slot_index := primary_slot_index h XOR 1\<rparr>"

definition pick_primary_for_repair :: "DatabaseHeader \<Rightarrow> HeaderRepairInfo \<Rightarrow> (StorageError + DatabaseHeader \<times> bool) option" where
  "pick_primary_for_repair h info =
    (if two_phase_commit h then
       (if primary_corrupted info then Some (Inl (StorageError.Corrupted ''Primary is corrupted despite 2-phase commit''))
        else Some (Inr (h, True)))
     else if primary_corrupted info then
       (if secondary_corrupted info then Some (Inl (StorageError.Corrupted ''Both commit slots are corrupted''))
        else Some (Inr (swap_primary_slot h, False)))
     else do {
       s \<leftarrow> secondary_slot h;
       p \<leftarrow> primary_slot h;
       if transaction_id p < transaction_id s \<and> \<not> secondary_corrupted info then Some (Inr (swap_primary_slot h, False))
       else Some (Inr (h, True)) })"

definition dh_from_bytes :: "checksum_fn \<Rightarrow> bytes \<Rightarrow> (DatabaseError + DatabaseHeader \<times> HeaderRepairInfo) option" where
  "dh_from_bytes xxh3 data = do {
     magic \<leftarrow> subslice data 0 (length MAGICNUMBER);
     god \<leftarrow> idx data GOD_BYTE_OFFSET;
     let p = (if god AND PRIMARY_BIT \<noteq> 0 then 1 else 0);
     ps \<leftarrow> get_u32 data PAGE_SIZE_OFFSET;
     rh \<leftarrow> get_u32 data REGION_HEADER_PAGES_OFFSET;
     rm \<leftarrow> get_u32 data REGION_MAX_DATA_PAGES_OFFSET;
     fr \<leftarrow> get_u32 data NUM_FULL_REGIONS_OFFSET;
     tr \<leftarrow> get_u32 data TRAILING_REGION_DATA_PAGES_OFFSET;
     s \<leftarrow> subslice data SALT_OFFSET (SALT_OFFSET + 16);
     bs0 \<leftarrow> subslice data TRANSACTION_0_OFFSET (TRANSACTION_0_OFFSET + TRANSACTION_SIZE);
     and_then (th_from_bytes xxh3 bs0) (\<lambda>(slot0, corrupted0). do {
       bs1 \<leftarrow> subslice data TRANSACTION_1_OFFSET (TRANSACTION_1_OFFSET + TRANSACTION_SIZE);
       and_then (th_from_bytes xxh3 bs1) (\<lambda>(slot1, corrupted1).
         let (pc, sc) = (if p = (0 :: nat) then (corrupted0, corrupted1) else (corrupted1, corrupted0))
         in Some (Inr
           (\<lparr>primary_slot_index = p, recovery_required = (god AND RECOVERY_REQUIRED \<noteq> 0),
             two_phase_commit = (god AND TWO_PHASE_COMMIT \<noteq> 0), page_size = ps, region_header_pages = rh,
             region_max_data_pages = rm, full_regions = fr, trailing_partial_region_pages = tr, salt = s,
             transaction_slots = [slot0, slot1]\<rparr>,
            \<lparr>invalid_magic_number = (magic \<noteq> MAGICNUMBER), primary_corrupted = pc, secondary_corrupted = sc\<rparr>))) }) }"

definition god_byte :: "DatabaseHeader \<Rightarrow> u8 option" where
  "god_byte h = do {
     assert_that (primary_slot_index h < 256);
     let g = word_of_nat (primary_slot_index h);
     let g = (if recovery_required h then g OR RECOVERY_REQUIRED else g);
     let g = (if two_phase_commit h then g OR TWO_PHASE_COMMIT else g);
     Some (g OR ENCRYPTED) }"

definition dh_to_bytes :: "checksum_fn \<Rightarrow> DatabaseHeader \<Rightarrow> bool \<Rightarrow> bytes option" where
  "dh_to_bytes xxh3 h include_magic_number = do {
     g \<leftarrow> god_byte h;
     t0 \<leftarrow> idx (transaction_slots h) 0;
     slot0 \<leftarrow> th_to_bytes xxh3 t0;
     t1 \<leftarrow> idx (transaction_slots h) 1;
     slot1 \<leftarrow> th_to_bytes xxh3 t1;
     write_fields (replicate DB_HEADER_SIZE 0)
       ((if include_magic_number then [(0, MAGICNUMBER)] else []) @
        [(GOD_BYTE_OFFSET, [g]),
         (PAGE_SIZE_OFFSET, le_bytes 4 (page_size h)),
         (REGION_HEADER_PAGES_OFFSET, le_bytes 4 (region_header_pages h)),
         (REGION_MAX_DATA_PAGES_OFFSET, le_bytes 4 (region_max_data_pages h)),
         (NUM_FULL_REGIONS_OFFSET, le_bytes 4 (full_regions h)),
         (TRAILING_REGION_DATA_PAGES_OFFSET, le_bytes 4 (trailing_partial_region_pages h)),
         (SALT_OFFSET, salt h),
         (TRANSACTION_0_OFFSET, slot0),
         (TRANSACTION_1_OFFSET, slot1)]) }"

subsection \<open>Well-formed headers\<close>

definition bh_ok :: "BtreeHeader \<Rightarrow> bool" where
  "bh_ok h \<longleftrightarrow> pn_valid (root h) \<and> bh_length h < 2 ^ 64"

definition th_ok :: "TransactionHeader \<Rightarrow> bool" where
  "th_ok t \<longleftrightarrow> version t = FILE_FORMAT_VERSION3 \<and> pred_option bh_ok (user_root t) \<and>
     pred_option bh_ok (system_root t) \<and> transaction_id t < 2 ^ 64"

definition header_ok :: "DatabaseHeader \<Rightarrow> bool" where
  "header_ok h \<longleftrightarrow> primary_slot_index h < 2 \<and> length (transaction_slots h) = 2 \<and>
     (\<forall>t \<in> set (transaction_slots h). th_ok t) \<and> length (salt h) = 16 \<and>
     page_size h < 2 ^ 32 \<and> region_header_pages h < 2 ^ 32 \<and> region_max_data_pages h < 2 ^ 32 \<and>
     full_regions h < 2 ^ 32 \<and> trailing_partial_region_pages h < 2 ^ 32"

lemma bh_to_le_bytes_eq:
  "bh_to_le_bytes h = Some (pn_to_le_bytes (root h) @ le_bytes 16 (unat (checksum h)) @ le_bytes 8 (bh_length h))"
  by (simp add: bh_to_le_bytes_def write_fields_simps put_slice_def bh_serialized_size_def)

lemma bh_round_trip:
  assumes "bh_ok h" "bh_to_le_bytes h = Some bs"
  shows "bh_from_le_bytes bs = Some h" "length bs = 32"
proof -
  have bs: "bs = pn_to_le_bytes (root h) @ le_bytes 16 (unat (checksum h)) @ le_bytes 8 (bh_length h)"
    using assms(2) by (simp add: bh_to_le_bytes_eq)
  have "bh_length h < 256 ^ 8" using assms(1) by (simp add: bh_ok_def)
  then show "bh_from_le_bytes bs = Some h" "length bs = 32"
    using assms(1) bs pn_bytes_round_trip[of "root h"]
    by (simp_all add: bh_from_le_bytes_def bh_ok_def subslice_def del: from_le_le_bytes_id add: from_le_le_bytes_id[of _ 8])
qed

lemma idx_subslice: "subslice d a (Suc a) = Some [b] \<Longrightarrow> idx d a = Some b"
  by (auto simp: subslice_def idx_def split: if_splits) (metis Cons_nth_drop_Suc Suc_le_lessD list.inject take0 take_Suc_Cons)

text \<open>Reading a root back: it was written with its flag, or the flag was left zero.\<close>

lemma read_root_written:
  assumes rf: "root_fields flag offset r = Some rf" "pred_option bh_ok r"
    and sub: "\<And>a ys. (a, ys) \<in> set rf \<Longrightarrow> subslice d a (a + length ys) = Some ys"
    and zero: "r = None \<Longrightarrow> subslice d flag (Suc flag) = Some [0]"
  shows "read_root d flag offset = Some r"
proof (cases r)
  case None
  then show ?thesis using idx_subslice[OF zero[OF None]] by (simp add: read_root_def)
next
  case (Some h)
  then obtain bs where bs: "bh_to_le_bytes h = Some bs" "rf = [(flag, [1]), (offset, bs)]"
    using rf by (auto simp: root_fields_def bind_Some_iff)
  have h: "bh_from_le_bytes bs = Some h" "length bs = 32" using bh_round_trip[OF _ bs(1)] rf(2) Some by auto
  have "subslice d flag (Suc flag) = Some [1]" using sub[of flag "[1]"] bs(2) by simp
  then show ?thesis using sub[of offset bs] bs(2) h Some idx_subslice[of d flag 1]
    by (simp add: read_root_def bh_serialized_size_def)
qed

lemma root_fields_total:
  assumes "pred_option bh_ok r"
  obtains rf where "root_fields flag offset r = Some rf"
    "rf = (case r of None \<Rightarrow> [] | Some h \<Rightarrow> [(flag, [1]), (offset, the (bh_to_le_bytes h))])"
    "\<forall>h. r = Some h \<longrightarrow> length (the (bh_to_le_bytes h)) = 32"
  using that by (cases r) (simp_all add: root_fields_def bh_to_le_bytes_eq)

lemma th_round_trip:
  assumes ok: "th_ok t"
  shows "\<exists>bs. th_to_bytes xxh3 t = Some bs \<and> length bs = 128 \<and> bs ! 0 = 3 \<and>
    th_from_bytes xxh3 bs = Some (Inr (t, False))"
proof -
  from ok have v: "version t = 3" and roots: "pred_option bh_ok (user_root t)" "pred_option bh_ok (system_root t)"
    and tid: "transaction_id t < 256 ^ 8" by (simp_all add: th_ok_def format_versions)
  obtain u where u: "root_fields 1 8 (user_root t) = Some u"
    "u = (case user_root t of None \<Rightarrow> [] | Some h \<Rightarrow> [(1, [1]), (8, the (bh_to_le_bytes h))])"
    "\<forall>h. user_root t = Some h \<longrightarrow> length (the (bh_to_le_bytes h)) = 32" by (rule root_fields_total[OF roots(1)])
  obtain s where s: "root_fields 2 40 (system_root t) = Some s"
    "s = (case system_root t of None \<Rightarrow> [] | Some h \<Rightarrow> [(2, [1]), (40, the (bh_to_le_bytes h))])"
    "\<forall>h. system_root t = Some h \<longrightarrow> length (the (bh_to_le_bytes h)) = 32" by (rule root_fields_total[OF roots(2)])
  define fs where "fs = [(0, [3])] @ u @ s @ [(104, le_bytes 8 (transaction_id t))]"
  have fit: "fields_fit 128 fs" using u(3) s(3) by (auto simp: fs_def u(2) s(2) split: option.splits)
  then obtain d where d: "write_fields (replicate 128 0) fs = Some d" "length d = 128"
    "\<forall>(a, ys) \<in> set fs. subslice d a (a + length ys) = Some ys"
    using write_fields_correct[of "replicate 128 0" fs] by auto
  define body where "body = take 112 d"
  have body: "subslice d 0 112 = Some body" using d(2) by (simp add: subslice_def body_def)
  obtain bs where bs: "put_slice d 112 (le_bytes 16 (unat (xxh3 body))) = Some bs"
    using d(2) by (auto simp: put_slice_def)
  have len: "length bs = 128" using put_slice_length[OF bs] d(2) by simp
  have same: "y \<le> 112 \<Longrightarrow> subslice bs x y = subslice d x y" for x y by (rule subslice_put_other[OF bs]) simp
  have ends: "(a, ys) \<in> set fs \<Longrightarrow> a + length ys \<le> 112" for a ys
    using u(3) s(3) by (auto simp: fs_def u(2) s(2) split: option.splits)
  have field: "(a, ys) \<in> set fs \<Longrightarrow> subslice bs a (a + length ys) = Some ys" for a ys
    using d(3) same[OF ends] by auto
  have enc: "th_to_bytes xxh3 t = Some bs"
    using v u(1) s(1) d(1) body bs by (simp add: th_to_bytes_def slot_offsets format_versions fs_def)
  have zero: "subslice bs x (Suc x) = Some [0]" if "x < 112" "\<forall>(b, zs) \<in> set fs. Suc x \<le> b \<or> b + length zs \<le> x" for x
    using same[of "Suc x" x] write_fields_keeps[OF d(1) that(2)] that(1)
    by (simp add: subslice_def split: if_splits)
  have "read_root bs 1 8 = Some (user_root t)"
  proof (rule read_root_written[OF u(1) roots(1)], rule field)
    show "user_root t = None \<Longrightarrow> subslice bs 1 (Suc 1) = Some [0]"
      by (rule zero) (auto simp: fs_def u(2) s(2) split: option.splits)
  qed (simp add: fs_def)
  moreover have "read_root bs 2 40 = Some (system_root t)"
  proof (rule read_root_written[OF s(1) roots(2)], rule field)
    show "system_root t = None \<Longrightarrow> subslice bs 2 (Suc 2) = Some [0]"
      by (rule zero) (auto simp: fs_def u(2) s(2) split: option.splits)
  qed (simp add: fs_def)
  moreover have "get_u64 bs 104 = Some (transaction_id t)"
    using field[of 104 "le_bytes 8 (transaction_id t)"] tid by (simp add: fs_def get_u64_def)
  moreover have v0: "idx bs 0 = Some 3" using field[of 0 "[3]"] by (simp add: fs_def idx_subslice)
  moreover have "subslice bs 0 112 = Some body" using same body by simp
  moreover have "subslice bs 112 128 = Some (le_bytes 16 (unat (xxh3 body)))" using subslice_put_same[OF bs] by simp
  ultimately have "th_from_bytes xxh3 bs = Some (Inr (t, False))"
    using v by (simp add: th_from_bytes_def slot_offsets check_version_def format_versions Let_def)
  then show ?thesis using enc len v0 by (auto simp: idx_def split: if_splits)
qed

subsection \<open>Reading and writing the header\<close>

definition field_u32 :: "bytes \<Rightarrow> nat \<Rightarrow> nat" where
  "field_u32 d a = from_le (take 4 (drop a d))"

definition slot_bytes :: "bytes \<Rightarrow> nat \<Rightarrow> bytes" where
  "slot_bytes d i = take 128 (drop (80 + 128 * i) d)"

lemma dh_from_bytes_eval:
  assumes "length d = 336"
    and "th_from_bytes xxh3 (slot_bytes d 0) = Some (Inr (t0, c0))"
    and "th_from_bytes xxh3 (slot_bytes d 1) = Some (Inr (t1, c1))"
    and "p = (if d ! 9 AND PRIMARY_BIT \<noteq> 0 then 1 else 0)"
  shows "dh_from_bytes xxh3 d = Some (Inr
    (\<lparr>primary_slot_index = p, recovery_required = (d ! 9 AND RECOVERY_REQUIRED \<noteq> 0),
      two_phase_commit = (d ! 9 AND TWO_PHASE_COMMIT \<noteq> 0), page_size = field_u32 d 12,
      region_header_pages = field_u32 d 16, region_max_data_pages = field_u32 d 20, full_regions = field_u32 d 24,
      trailing_partial_region_pages = field_u32 d 28, salt = take 16 (drop 32 d), transaction_slots = [t0, t1]\<rparr>,
     \<lparr>invalid_magic_number = (take 9 d \<noteq> MAGICNUMBER), primary_corrupted = (if p = 0 then c0 else c1),
      secondary_corrupted = (if p = 0 then c1 else c0)\<rparr>))"
  using assms by (simp add: dh_from_bytes_def header_offsets subslice_def get_u32_def field_u32_def slot_bytes_def Let_def)

lemma god_byte_correct:
  assumes "primary_slot_index h < 2"
  shows "\<exists>g. god_byte h = Some g \<and> (g AND PRIMARY_BIT \<noteq> 0) = (primary_slot_index h = 1) \<and>
    (g AND RECOVERY_REQUIRED \<noteq> 0) = recovery_required h \<and> (g AND TWO_PHASE_COMMIT \<noteq> 0) = two_phase_commit h"
proof -
  have "primary_slot_index h = 0 \<or> primary_slot_index h = 1" using assms by auto
  then show ?thesis
    by (cases "recovery_required h"; cases "two_phase_commit h")
      (auto simp: god_byte_def PRIMARY_BIT_def RECOVERY_REQUIRED_def TWO_PHASE_COMMIT_def ENCRYPTED_def Let_def)
qed

text \<open>The fields of a written header, as positions of its bytes.\<close>

lemma dh_to_bytes_fields:
  assumes ok: "header_ok h"
  shows "\<exists>d. dh_to_bytes xxh3 h m = Some d \<and> length d = 336 \<and> Some (d ! 9) = god_byte h \<and>
    (m \<longrightarrow> take 9 d = MAGICNUMBER) \<and> take 16 (drop 32 d) = salt h \<and>
    field_u32 d 12 = page_size h \<and> field_u32 d 16 = region_header_pages h \<and> field_u32 d 20 = region_max_data_pages h \<and>
    field_u32 d 24 = full_regions h \<and> field_u32 d 28 = trailing_partial_region_pages h \<and>
    th_to_bytes xxh3 (transaction_slots h ! 0) = Some (slot_bytes d 0) \<and>
    th_to_bytes xxh3 (transaction_slots h ! 1) = Some (slot_bytes d 1)"
proof -
  obtain g where g: "god_byte h = Some g" using god_byte_correct[of h] ok by (auto simp: header_ok_def)
  have slots: "length (transaction_slots h) = 2" "th_ok (transaction_slots h ! 0)" "th_ok (transaction_slots h ! 1)"
    using ok by (simp_all add: header_ok_def)
  obtain b0 where b0: "th_to_bytes xxh3 (transaction_slots h ! 0) = Some b0" "length b0 = 128"
    using th_round_trip[OF slots(2), of xxh3] by blast
  obtain b1 where b1: "th_to_bytes xxh3 (transaction_slots h ! 1) = Some b1" "length b1 = 128"
    using th_round_trip[OF slots(3), of xxh3] by blast
  define fs where "fs = (if m then [(0 :: nat, MAGICNUMBER)] else []) @
    [(9, [g]), (12, le_bytes 4 (page_size h)), (16, le_bytes 4 (region_header_pages h)),
     (20, le_bytes 4 (region_max_data_pages h)), (24, le_bytes 4 (full_regions h)),
     (28, le_bytes 4 (trailing_partial_region_pages h)), (32, salt h), (80, b0), (208, b1)]"
  have salt: "length (salt h) = 16" using ok by (simp add: header_ok_def)
  have fit: "fields_fit (length (replicate 336 0)) fs" using b0(2) b1(2) salt by (simp add: fs_def header_offsets)
  from write_fields_correct[OF fit] obtain d where d: "write_fields (replicate 336 0) fs = Some d" "length d = 336"
    "\<forall>(a, ys) \<in> set fs. subslice d a (a + length ys) = Some ys" by auto
  have field: "take (length ys) (drop a d) = ys" if "(a, ys) \<in> set fs" for a ys
    using d(3) that by (auto simp: subslice_eq_Some_iff)
  have u32: "field_u32 d a = n" if "(a, le_bytes 4 n) \<in> set fs" "n < 2 ^ 32" for a n
    using field[OF that(1)] that(2) from_le_le_bytes_id[of n 4] by (simp add: field_u32_def)
  have "dh_to_bytes xxh3 h m = Some d"
    using g b0(1) b1(1) slots(1) d(1) by (simp add: dh_to_bytes_def header_offsets fs_def)
  moreover have "d ! 9 = g" using d(3) idx_subslice[of d 9 g] d(2) by (simp add: fs_def)
  moreover have "m \<longrightarrow> take 9 d = MAGICNUMBER" using field[of 0 MAGICNUMBER] by (simp add: fs_def header_offsets)
  moreover have "take 16 (drop 32 d) = salt h" using field[of 32 "salt h"] salt by (simp add: fs_def)
  moreover have "slot_bytes d 0 = b0" using field[of 80 b0] b0(2) by (simp add: fs_def slot_bytes_def)
  moreover have "slot_bytes d 1 = b1" using field[of 208 b1] b1(2) by (simp add: fs_def slot_bytes_def)
  ultimately show ?thesis
    using d(2) g b0(1) b1(1) ok by (auto simp: header_ok_def fs_def intro!: u32)
qed

lemma dh_round_trip:
  assumes ok: "header_ok h"
  shows "\<exists>d. dh_to_bytes xxh3 h True = Some d \<and> length d = 336 \<and> dh_from_bytes xxh3 d = Some (Inr (h,
    \<lparr>invalid_magic_number = False, primary_corrupted = False, secondary_corrupted = False\<rparr>))"
proof -
  from dh_to_bytes_fields[OF ok, of xxh3 True] obtain d where
    d: "dh_to_bytes xxh3 h True = Some d" "length d = 336" "Some (d ! 9) = god_byte h" "take 9 d = MAGICNUMBER"
      "take 16 (drop 32 d) = salt h" "field_u32 d 12 = page_size h" "field_u32 d 16 = region_header_pages h"
      "field_u32 d 20 = region_max_data_pages h" "field_u32 d 24 = full_regions h"
      "field_u32 d 28 = trailing_partial_region_pages h"
    and b: "th_to_bytes xxh3 (transaction_slots h ! 0) = Some (slot_bytes d 0)"
      "th_to_bytes xxh3 (transaction_slots h ! 1) = Some (slot_bytes d 1)"
    by (elim exE conjE) (rule that, simp_all)
  have slots: "transaction_slots h = [transaction_slots h ! 0, transaction_slots h ! 1]"
    "th_ok (transaction_slots h ! 0)" "th_ok (transaction_slots h ! 1)"
    using ok by (auto simp: header_ok_def length_Suc_conv numeral_2_eq_2)
  have t: "th_from_bytes xxh3 (slot_bytes d 0) = Some (Inr (transaction_slots h ! 0, False))"
    "th_from_bytes xxh3 (slot_bytes d 1) = Some (Inr (transaction_slots h ! 1, False))"
    using th_round_trip[OF slots(2), of xxh3] th_round_trip[OF slots(3), of xxh3] b by auto
  have p: "primary_slot_index h < 2" using ok by (simp add: header_ok_def)
  from god_byte_correct[OF p] d(3) have g: "(d ! 9 AND PRIMARY_BIT \<noteq> 0) = (primary_slot_index h = 1)"
    "(d ! 9 AND RECOVERY_REQUIRED \<noteq> 0) = recovery_required h" "(d ! 9 AND TWO_PHASE_COMMIT \<noteq> 0) = two_phase_commit h"
    by auto
  have "primary_slot_index h = (if d ! 9 AND PRIMARY_BIT \<noteq> 0 then 1 else 0)" using g(1) p by auto
  note e = dh_from_bytes_eval[OF d(2) t this]
  show ?thesis by (intro exI[of _ d] conjI d(1,2)) (use slots(1) in \<open>simp add: e g d\<close>)
qed

definition checksum_valid :: "checksum_fn \<Rightarrow> bytes \<Rightarrow> bool" where
  "checksum_valid xxh3 bs \<longleftrightarrow> word_of_nat (from_le (take 16 (drop 112 bs))) = xxh3 (take 112 bs)"

lemma th_from_bytes_total:
  assumes "length bs = 128" "bs ! 0 = 3"
  shows "\<exists>t. th_from_bytes xxh3 bs = Some (Inr (t, \<not> checksum_valid xxh3 bs))"
proof -
  have root: "\<exists>r. read_root bs flag offset = Some r" if "flag < 128" "offset + 32 \<le> 128" for flag offset
    using assms(1) that by (auto simp: read_root_def subslice_def bh_from_le_bytes_def pn_from_le_bytes_def)
  obtain u s where "read_root bs 1 8 = Some u" "read_root bs 2 40 = Some s" using root[of 1 8] root[of 2 40] by auto
  then show ?thesis using assms
    by (simp add: th_from_bytes_def slot_offsets check_version_def format_versions subslice_def get_u64_def
        checksum_valid_def Let_def)
qed

text \<open>Reading a slot: only its version byte can make it fail.\<close>

lemma th_from_bytes_cases:
  assumes "length bs = 128"
  shows "\<exists>t. th_from_bytes xxh3 bs = Some (case check_version (unat (bs ! 0)) of Inl e \<Rightarrow> Inl e
    | Inr _ \<Rightarrow> Inr (t, \<not> checksum_valid xxh3 bs))"
proof (cases "check_version (unat (bs ! 0))")
  case (Inl e)
  then show ?thesis using assms by (simp add: th_from_bytes_def slot_offsets)
next
  case (Inr u)
  then have "unat (bs ! 0) = 3" by (auto simp: check_version_def format_versions split: if_splits)
  then have "word_of_nat (unat (bs ! 0)) = (3 :: u8)" by (simp only: of_nat_numeral)
  then have "bs ! 0 = 3" by simp
  from th_from_bytes_total[OF assms this] Inr show ?thesis by simp
qed

lemma show_nat_3: "show_nat 3 = ''3''"
  by code_simp

subsection \<open>Properties\<close>

text \<open>
  C12. A header written with its magic number reads back unchanged, and reading it reports a valid magic
  number and no corrupted slot.
\<close>

theorem header_round_trip:
  assumes "header_ok h"
  shows "\<exists>d. dh_to_bytes xxh3 h True = Some d \<and> length d = DB_HEADER_SIZE \<and> dh_from_bytes xxh3 d = Some (Inr (h,
    \<lparr>invalid_magic_number = False, primary_corrupted = False, secondary_corrupted = False\<rparr>))"
  using dh_round_trip[OF assms] by (simp add: header_offsets)

theorem header_round_trip_witness:
  "\<exists>h d. dh_new (dl_new 2 \<lparr>rl_num_pages = 64, rl_header_pages = 0, rl_page_size = 4096\<rparr> None) 5 None = Some h \<and>
    dh_to_bytes (\<lambda>_. 77) h True = Some d \<and> map_option (map_sum id fst) (dh_from_bytes (\<lambda>_. 77) d) = Some (Inr h)"
proof -
  define h where "h = the (dh_new (dl_new 2 \<lparr>rl_num_pages = 64, rl_header_pages = 0, rl_page_size = 4096\<rparr> None) 5 None)"
  have h: "dh_new (dl_new 2 \<lparr>rl_num_pages = 64, rl_header_pages = 0, rl_page_size = 4096\<rparr> None) 5 None = Some h"
    by (simp add: h_def dh_new_def Let_def slot_offsets)
  have "header_ok h" by (simp add: h_def dh_new_def Let_def slot_offsets header_ok_def th_ok_def th_new_def dl_new_def)
  from header_round_trip[OF this, of "\<lambda>_. 77"] h show ?thesis by auto
qed

text \<open>
  C23. Reading a header never panics on a buffer of the header's size, and it fails exactly when a commit
  slot has another file format version: versions 1 and 2 ask for an upgrade, other versions are reported as
  corruption, and slot 0 is looked at first.
\<close>

theorem header_read_errors:
  assumes "length d = DB_HEADER_SIZE"
  shows "\<exists>r. dh_from_bytes xxh3 d = Some r \<and>
    (\<forall>e. r = Inl e \<longleftrightarrow> check_version (unat (d ! 80)) = Inl e \<or>
       check_version (unat (d ! 80)) = Inr () \<and> check_version (unat (d ! 208)) = Inl e) \<and>
    (\<forall>v. check_version v = (if v = 1 \<or> v = 2 then Inl (DatabaseError.UpgradeRequired v) else if v = 3 then Inr ()
       else Inl (DatabaseError.Storage (StorageError.Corrupted (''Expected file format version <= 3, found '' @ show_nat v)))))"
proof -
  have len: "length d = 336" using assms by (simp add: header_offsets)
  have v: "slot_bytes d 0 ! 0 = d ! 80" "slot_bytes d 1 ! 0 = d ! 208" "length (slot_bytes d 0) = 128" "length (slot_bytes d 1) = 128"
    using len by (simp_all add: slot_bytes_def)
  obtain t0 where t0: "th_from_bytes xxh3 (slot_bytes d 0) = Some (case check_version (unat (d ! 80)) of Inl e \<Rightarrow> Inl e
    | Inr _ \<Rightarrow> Inr (t0, \<not> checksum_valid xxh3 (slot_bytes d 0)))" using th_from_bytes_cases[OF v(3), of xxh3] v(1) by auto
  obtain t1 where t1: "th_from_bytes xxh3 (slot_bytes d 1) = Some (case check_version (unat (d ! 208)) of Inl e \<Rightarrow> Inl e
    | Inr _ \<Rightarrow> Inr (t1, \<not> checksum_valid xxh3 (slot_bytes d 1)))" using th_from_bytes_cases[OF v(4), of xxh3] v(2) by auto
  have "\<exists>r. dh_from_bytes xxh3 d = Some r \<and> (\<forall>e. r = Inl e \<longleftrightarrow> check_version (unat (d ! 80)) = Inl e \<or>
       check_version (unat (d ! 80)) = Inr () \<and> check_version (unat (d ! 208)) = Inl e)"
    using len t0 t1 by (cases "check_version (unat (d ! 80))"; cases "check_version (unat (d ! 208))")
      (simp_all add: dh_from_bytes_def header_offsets subslice_def get_u32_def slot_bytes_def Let_def)
  moreover have "check_version v = (if v = 1 \<or> v = 2 then Inl (DatabaseError.UpgradeRequired v) else if v = 3 then Inr ()
       else Inl (DatabaseError.Storage (StorageError.Corrupted (''Expected file format version <= 3, found '' @ show_nat v))))" for v
    by (simp add: check_version_def format_versions database_from_storage_def show_nat_3)
  ultimately show ?thesis by blast
qed

theorem header_read_errors_witness:
  "\<exists>r. dh_from_bytes (\<lambda>_. 0) ((replicate 336 0)[80 := 3, 208 := 2]) = Some r \<and> r = Inl (DatabaseError.UpgradeRequired 2)"
proof -
  have "length ((replicate 336 0)[80 := 3, 208 := 2] :: bytes) = DB_HEADER_SIZE" by (simp add: header_offsets)
  from header_read_errors[OF this, of "\<lambda>_. 0"] show ?thesis by (elim exE conjE) (simp add: check_version_def format_versions)
qed

text \<open>
  C24. A new header describes the layout it was made for, and \<open>set_layout\<close> moves it to any layout with the same
  regions without touching the commit slots.
\<close>

theorem header_layout_round_trip:
  assumes "layout_ok hp cap ps l" "layout_ok hp cap ps l'"
  shows "\<exists>h h'. dh_new l tid s = Some h \<and> dh_layout h = Some l \<and> set_layout h l' = Some h' \<and> dh_layout h' = Some l' \<and>
    transaction_slots h' = transaction_slots h \<and> primary_slot_index h' = primary_slot_index h"
proof -
  obtain h where h: "dh_new l tid s = Some h" "dh_layout h = Some l" "region_max_data_pages h = cap"
    "region_header_pages h = hp" "page_size h = ps"
    using assms(1) by (cases l; cases "trailing_partial_region l")
      (auto simp: dh_new_def Let_def slot_offsets dh_layout_def rl_new_def dl_new_def layout_ok_def assert_that_def)
  show ?thesis
    using h assms by (cases l'; cases "trailing_partial_region l'")
      (auto simp: set_layout_def dh_layout_def rl_new_def dl_new_def layout_ok_def assert_that_def)
qed

theorem header_layout_round_trip_witness:
  "\<exists>h h'. dh_new (dl_new 2 \<lparr>rl_num_pages = 64, rl_header_pages = 0, rl_page_size = 4096\<rparr> None) 5 None = Some h \<and>
    set_layout h (dl_new 1 \<lparr>rl_num_pages = 64, rl_header_pages = 0, rl_page_size = 4096\<rparr>
      (Some \<lparr>rl_num_pages = 7, rl_header_pages = 0, rl_page_size = 4096\<rparr>)) = Some h' \<and> trailing_partial_region_pages h' = 7"
  using header_layout_round_trip[of 0 64 4096 "dl_new 2 \<lparr>rl_num_pages = 64, rl_header_pages = 0, rl_page_size = 4096\<rparr> None"
      "dl_new 1 \<lparr>rl_num_pages = 64, rl_header_pages = 0, rl_page_size = 4096\<rparr>
      (Some \<lparr>rl_num_pages = 7, rl_header_pages = 0, rl_page_size = 4096\<rparr>)" 5 None]
  by (auto simp: layout_ok_def dl_new_def num_regions_def dh_layout_def rl_new_def assert_that_def split: if_splits)

end
