(* ===== verification/Tracker.thy ===== *)
theory Tracker
  imports Ordered_Map Header "HOL-Library.AList"
begin

text \<open>
  The transaction tracker of \<^verbatim>\<open>transaction_tracker.rs\<close>, the transaction guards of \<^verbatim>\<open>db.rs\<close> and the savepoints
  of \<^verbatim>\<open>page_store/savepoint.rs\<close>. Transaction and savepoint ids are \<open>u64\<close> counters (as \<open>nat\<close>, the increment
  checked). The tracker decides how long a freed page must be kept; its reference counts must cover
  every read transaction, savepoint and non-durable commit that still needs an old state.
\<close>

subsection \<open>Tracker state\<close>

definition txid_next :: "nat \<Rightarrow> nat option" where
  "txid_next n = do { assert_that (n + 1 < 2 ^ 64); Some (n + 1) }"

definition spid_next :: "nat \<Rightarrow> nat option" where
  "spid_next n = do { assert_that (n + 1 < 2 ^ 64); Some (n + 1) }"

record TrackerState =
  next_savepoint_id :: nat
  live_read_transactions :: "(nat, nat) btree_map"
  next_transaction_id :: nat
  live_write_transaction :: "nat option"
  valid_savepoints :: "(nat, nat) btree_map"
  pending_non_durable_commits :: "(nat \<times> nat) list"
  unprocessed_freed_non_durable_commits :: "(nat, unit) btree_map"

definition tt_new :: "nat \<Rightarrow> TrackerState" where
  "tt_new n = \<lparr>next_savepoint_id = 0, live_read_transactions = [], next_transaction_id = n, live_write_transaction = None,
     valid_savepoints = [], pending_non_durable_commits = [], unprocessed_freed_non_durable_commits = []\<rparr>"

text \<open>A writer waits on the condition variable while another one is live.\<close>

datatype write_start = Waiting | Started nat TrackerState

definition start_write_transaction :: "TrackerState \<Rightarrow> write_start option" where
  "start_write_transaction s =
    (if live_write_transaction s \<noteq> None then Some Waiting
     else do {
       tid \<leftarrow> txid_next (next_transaction_id s);
       Some (Started tid (s\<lparr>next_transaction_id := tid, live_write_transaction := Some tid\<rparr>)) })"

definition end_write_transaction :: "nat \<Rightarrow> TrackerState \<Rightarrow> TrackerState option" where
  "end_write_transaction tid s = do {
     live \<leftarrow> live_write_transaction s;
     assert_that (live = tid);
     Some (s\<lparr>live_write_transaction := None\<rparr>) }"

definition deallocate_read_transaction :: "nat \<Rightarrow> TrackerState \<Rightarrow> TrackerState option" where
  "deallocate_read_transaction tid s = do {
     m \<leftarrow> rc_release tid (live_read_transactions s);
     Some (s\<lparr>live_read_transactions := m\<rparr>) }"

definition clear_pending_non_durable_commits :: "TrackerState \<Rightarrow> TrackerState option" where
  "clear_pending_non_durable_commits s = do {
     m \<leftarrow> fold_opt rc_release (map snd (pending_non_durable_commits s)) (live_read_transactions s);
     Some (s\<lparr>pending_non_durable_commits := [], live_read_transactions := m\<rparr>) }"

definition is_unprocessed_non_durable_commit :: "TrackerState \<Rightarrow> nat \<Rightarrow> bool" where
  "is_unprocessed_non_durable_commit s tid \<longleftrightarrow> map_of (unprocessed_freed_non_durable_commits s) tid \<noteq> None"

definition mark_unprocessed_non_durable_commit :: "nat \<Rightarrow> TrackerState \<Rightarrow> TrackerState" where
  "mark_unprocessed_non_durable_commit tid s =
     s\<lparr>unprocessed_freed_non_durable_commits := om_remove tid (unprocessed_freed_non_durable_commits s)\<rparr>"

definition oldest_unprocessed_non_durable_commit :: "TrackerState \<Rightarrow> nat option" where
  "oldest_unprocessed_non_durable_commit s = map_option fst (om_first (unprocessed_freed_non_durable_commits s))"

definition register_non_durable_commit :: "nat \<Rightarrow> nat \<Rightarrow> TrackerState \<Rightarrow> TrackerState" where
  "register_non_durable_commit tid durable_ancestor s =
     s\<lparr>live_read_transactions := rc_acquire durable_ancestor (live_read_transactions s),
       pending_non_durable_commits := AList.update tid durable_ancestor (pending_non_durable_commits s),
       unprocessed_freed_non_durable_commits := om_insert tid () (unprocessed_freed_non_durable_commits s)\<rparr>"

definition restore_savepoint_counter_state :: "nat \<Rightarrow> TrackerState \<Rightarrow> TrackerState option" where
  "restore_savepoint_counter_state next_savepoint s = do {
     assert_that (valid_savepoints s = []);
     Some (s\<lparr>next_savepoint_id := next_savepoint\<rparr>) }"

definition register_read_transaction :: "nat \<Rightarrow> TrackerState \<Rightarrow> nat \<times> TrackerState" where
  "register_read_transaction last_committed s =
     (last_committed, s\<lparr>live_read_transactions := rc_acquire last_committed (live_read_transactions s)\<rparr>)"

definition any_savepoint_exists :: "TrackerState \<Rightarrow> bool" where
  "any_savepoint_exists s \<longleftrightarrow> valid_savepoints s \<noteq> []"

definition allocate_savepoint :: "nat \<Rightarrow> TrackerState \<Rightarrow> (nat \<times> TrackerState) option" where
  "allocate_savepoint tid s = do {
     sid \<leftarrow> spid_next (next_savepoint_id s);
     Some (sid, s\<lparr>next_savepoint_id := sid, valid_savepoints := om_insert sid tid (valid_savepoints s)\<rparr>) }"

definition deallocate_savepoint :: "nat \<Rightarrow> nat \<Rightarrow> TrackerState \<Rightarrow> TrackerState option" where
  "deallocate_savepoint sid tid s =
     deallocate_read_transaction tid (s\<lparr>valid_savepoints := om_remove sid (valid_savepoints s)\<rparr>)"

definition is_valid_savepoint :: "TrackerState \<Rightarrow> nat \<Rightarrow> bool" where
  "is_valid_savepoint s sid \<longleftrightarrow> map_of (valid_savepoints s) sid \<noteq> None"

definition invalidate_savepoints_after :: "nat \<Rightarrow> TrackerState \<Rightarrow> TrackerState" where
  "invalidate_savepoints_after sid s = s\<lparr>valid_savepoints := filter (\<lambda>e. fst e \<le> sid) (valid_savepoints s)\<rparr>"

definition oldest_savepoint :: "TrackerState \<Rightarrow> (nat \<times> nat) option" where
  "oldest_savepoint s = om_first (valid_savepoints s)"

definition oldest_live_read_transaction :: "TrackerState \<Rightarrow> nat option" where
  "oldest_live_read_transaction s = map_option fst (om_first (live_read_transactions s))"

definition oldest_live_read_nondurable_transaction :: "TrackerState \<Rightarrow> nat option" where
  "oldest_live_read_nondurable_transaction s =
     List.find (\<lambda>tid. map_of (pending_non_durable_commits s) tid \<noteq> None) (map fst (live_read_transactions s))"

subsection \<open>Transaction guards\<close>

record TransactionGuard =
  guard_tracker :: bool
  guard_id :: "nat option"
  write_transaction :: bool

definition guard_new_read :: "nat \<Rightarrow> TransactionGuard" where
  "guard_new_read tid = \<lparr>guard_tracker = True, guard_id = Some tid, write_transaction = False\<rparr>"

definition guard_new_write :: "nat \<Rightarrow> TransactionGuard" where
  "guard_new_write tid = \<lparr>guard_tracker = True, guard_id = Some tid, write_transaction = True\<rparr>"

definition guard_fake :: TransactionGuard where
  "guard_fake = \<lparr>guard_tracker = False, guard_id = None, write_transaction = False\<rparr>"

definition guard_drop :: "TransactionGuard \<Rightarrow> TrackerState \<Rightarrow> TrackerState option" where
  "guard_drop g s = (if \<not> guard_tracker g then Some s
     else case guard_id g of
       Some tid \<Rightarrow> if write_transaction g then end_write_transaction tid s else deallocate_read_transaction tid s
     | None \<Rightarrow> Some s)"

text \<open>\<open>leak\<close> takes the id out of the guard, which is then dropped without releasing it.\<close>

definition guard_leak :: "TransactionGuard \<Rightarrow> TrackerState \<Rightarrow> (nat \<times> TrackerState) option" where
  "guard_leak g s = do {
     tid \<leftarrow> guard_id g;
     s' \<leftarrow> guard_drop (g\<lparr>guard_id := None\<rparr>) s;
     Some (tid, s') }"

text \<open>\<open>WriteTransaction::allocate_savepoint\<close>: the savepoint keeps the read transaction it was made from.\<close>

definition txn_allocate_savepoint :: "nat \<Rightarrow> TrackerState \<Rightarrow> ((nat \<times> nat) \<times> TrackerState) option" where
  "txn_allocate_savepoint last_committed s = do {
     let (tid, s1) = register_read_transaction last_committed s;
     (tid', s2) \<leftarrow> guard_leak (guard_new_read tid) s1;
     (sid, s3) \<leftarrow> allocate_savepoint tid' s2;
     Some ((sid, tid'), s3) }"

subsection \<open>Savepoints\<close>

record Savepoint =
  sp_version :: nat
  sp_id :: nat
  sp_transaction_id :: nat
  sp_user_root :: "BtreeHeader option"
  ephemeral :: bool

definition sp_new_ephemeral :: "nat \<Rightarrow> nat \<Rightarrow> nat \<Rightarrow> BtreeHeader option \<Rightarrow> Savepoint" where
  "sp_new_ephemeral mem_version sid tid r =
     \<lparr>sp_version = mem_version, sp_id = sid, sp_transaction_id = tid, sp_user_root = r, ephemeral = True\<rparr>"

definition sp_set_persistent :: "Savepoint \<Rightarrow> Savepoint" where
  "sp_set_persistent p = p\<lparr>ephemeral := False\<rparr>"

definition sp_drop :: "Savepoint \<Rightarrow> TrackerState \<Rightarrow> TrackerState option" where
  "sp_drop p s = (if ephemeral p then deallocate_savepoint (sp_id p) (sp_transaction_id p) s else Some s)"

definition register_persistent_savepoint :: "Savepoint \<Rightarrow> TrackerState \<Rightarrow> TrackerState" where
  "register_persistent_savepoint p s =
     s\<lparr>live_read_transactions := rc_acquire (sp_transaction_id p) (live_read_transactions s),
       valid_savepoints := om_insert (sp_id p) (sp_transaction_id p) (valid_savepoints s)\<rparr>"

definition from_savepoint :: "Savepoint \<Rightarrow> bytes option" where
  "from_savepoint p = do {
     assert_that (sp_version p = FILE_FORMAT_VERSION3);
     let result = [word_of_nat (sp_version p)] @ le_bytes 8 (sp_id p) @ le_bytes 8 (sp_transaction_id p);
     case sp_user_root p of
       Some h \<Rightarrow> do { bs \<leftarrow> bh_to_le_bytes h; Some (result @ [1] @ bs) }
     | None \<Rightarrow> Some (result @ [0] @ replicate bh_serialized_size 0) }"

definition to_savepoint :: "bytes \<Rightarrow> Savepoint option" where
  "to_savepoint data = do {
     v \<leftarrow> idx data 0;
     assert_that (unat v = FILE_FORMAT_VERSION3);
     i \<leftarrow> subslice data 1 (1 + 8);
     t \<leftarrow> subslice data 9 (9 + 8);
     not_null \<leftarrow> idx data 17;
     assert_that (not_null = 0 \<or> not_null = 1);
     r \<leftarrow> (if not_null = 1 then do {
         bs \<leftarrow> subslice data 18 (18 + bh_serialized_size);
         h \<leftarrow> bh_from_le_bytes bs;
         Some (Some h) } else Some None);
     assert_that (18 + bh_serialized_size = length data);
     Some \<lparr>sp_version = unat v, sp_id = from_le i, sp_transaction_id = from_le t, sp_user_root = r, ephemeral = False\<rparr> }"

subsection \<open>The tracker and its users\<close>

text \<open>
  The users of a tracker: the read transactions that are open, the savepoints that exist (ephemeral handles
  and persistent ones), and the ids of the last commit and of the last durable commit.
\<close>

record Users =
  reads :: "nat multiset"
  handles :: "(nat \<times> nat) multiset"
  last_committed :: nat
  last_durable :: nat

text \<open>Opening a database restores the savepoint counter and registers the persistent savepoints in id order.\<close>

definition savepoints_sorted :: "Savepoint list \<Rightarrow> bool" where
  "savepoints_sorted ps \<longleftrightarrow> sorted_wrt (<) (map sp_id ps) \<and> sorted (map sp_transaction_id ps)"

inductive tracker_reach :: "TrackerState \<Rightarrow> Users \<Rightarrow> bool" where
  open_db: "restore_savepoint_counter_state n (tt_new (tid + 1)) = Some s0 \<Longrightarrow> savepoints_sorted ps \<Longrightarrow>
    \<forall>p \<in> set ps. sp_id p \<le> n \<and> sp_transaction_id p \<le> tid \<Longrightarrow> s = fold register_persistent_savepoint ps s0 \<Longrightarrow>
    tracker_reach s \<lparr>reads = {#}, handles = mset (map (\<lambda>p. (sp_id p, sp_transaction_id p)) ps),
      last_committed = tid, last_durable = tid\<rparr>"
| begin_write: "tracker_reach s u \<Longrightarrow> start_write_transaction s = Some (Started tid s') \<Longrightarrow> tracker_reach s' u"
| end_write: "tracker_reach s u \<Longrightarrow> live_write_transaction s = Some tid \<Longrightarrow>
    guard_drop (guard_new_write tid) s = Some s' \<Longrightarrow> tracker_reach s' u"
| durable_commit: "tracker_reach s u \<Longrightarrow> live_write_transaction s = Some tid \<Longrightarrow> last_committed u < tid \<Longrightarrow>
    tracker_reach s (u\<lparr>last_committed := tid, last_durable := tid\<rparr>)"
| clear_pending: "tracker_reach s u \<Longrightarrow> clear_pending_non_durable_commits s = Some s' \<Longrightarrow> tracker_reach s' u"
| non_durable_commit: "tracker_reach s u \<Longrightarrow> live_write_transaction s = Some tid \<Longrightarrow> last_committed u < tid \<Longrightarrow>
    tracker_reach (register_non_durable_commit tid (last_durable u) s) (u\<lparr>last_committed := tid\<rparr>)"
| begin_read: "tracker_reach s u \<Longrightarrow> register_read_transaction (last_committed u) s = (tid, s') \<Longrightarrow>
    tracker_reach s' (u\<lparr>reads := add_mset tid (reads u)\<rparr>)"
| end_read: "tracker_reach s u \<Longrightarrow> tid \<in># reads u \<Longrightarrow> guard_drop (guard_new_read tid) s = Some s' \<Longrightarrow>
    tracker_reach s' (u\<lparr>reads := reads u - {#tid#}\<rparr>)"
| new_savepoint: "tracker_reach s u \<Longrightarrow> txn_allocate_savepoint (last_committed u) s = Some ((sid, tid), s') \<Longrightarrow>
    tracker_reach s' (u\<lparr>handles := add_mset (sid, tid) (handles u)\<rparr>)"
| drop_savepoint: "tracker_reach s u \<Longrightarrow> (sid, tid) \<in># handles u \<Longrightarrow> deallocate_savepoint sid tid s = Some s' \<Longrightarrow>
    tracker_reach s' (u\<lparr>handles := handles u - {#(sid, tid)#}\<rparr>)"
| invalidate: "tracker_reach s u \<Longrightarrow> tracker_reach (invalidate_savepoints_after sid s) u"
| processed: "tracker_reach s u \<Longrightarrow> tracker_reach (mark_unprocessed_non_durable_commit tid s) u"

text \<open>Everything that needs the state of a transaction to stay in the file.\<close>

definition holders :: "TrackerState \<Rightarrow> Users \<Rightarrow> nat multiset" where
  "holders s u = reads u + image_mset snd (handles u) + mset (map snd (pending_non_durable_commits s))"

definition savepoints_inv :: "TrackerState \<Rightarrow> Users \<Rightarrow> bool" where
  "savepoints_inv s u \<longleftrightarrow> om_ok (valid_savepoints s) \<and> sorted (map snd (valid_savepoints s)) \<and>
     (\<forall>(sid, tid) \<in> set (valid_savepoints s). (sid, tid) \<in># handles u \<and> sid \<le> next_savepoint_id s \<and> tid \<le> last_committed u)"

definition ids_inv :: "TrackerState \<Rightarrow> Users \<Rightarrow> bool" where
  "ids_inv s u \<longleftrightarrow> last_committed u \<le> next_transaction_id s \<and>
     (\<forall>tid. live_write_transaction s = Some tid \<longrightarrow> tid = next_transaction_id s) \<and>
     (\<forall>e \<in> set (pending_non_durable_commits s). fst e \<le> last_committed u) \<and>
     om_ok (unprocessed_freed_non_durable_commits s) \<and> last_durable u \<le> last_committed u \<and>
     (\<forall>t \<in># holders s u. t \<le> last_committed u)"

definition tracker_ok :: "TrackerState \<Rightarrow> Users \<Rightarrow> bool" where
  "tracker_ok s u \<longleftrightarrow> rc_ok (live_read_transactions s) \<and> rc_count (live_read_transactions s) = count (holders s u) \<and>
     savepoints_inv s u \<and> ids_inv s u"

lemma om_insert_last: "om_ok m \<Longrightarrow> \<forall>e \<in> set m. fst e < k \<Longrightarrow> om_insert k v m = m @ [(k, v)]"
  by (induction m) auto

lemma sorted_snd_remove: "sorted (map snd m) \<Longrightarrow> sorted (map snd (filter P m))"
  by (induction m) auto

lemma tracker_ok_open:
  assumes "restore_savepoint_counter_state n (tt_new (tid + 1)) = Some s0" "savepoints_sorted ps"
    and "\<forall>p \<in> set ps. sp_id p \<le> n \<and> sp_transaction_id p \<le> tid"
  shows "tracker_ok (fold register_persistent_savepoint ps s0)
    \<lparr>reads = {#}, handles = mset (map (\<lambda>p. (sp_id p, sp_transaction_id p)) ps), last_committed = tid, last_durable = tid\<rparr> \<and>
    valid_savepoints (fold register_persistent_savepoint ps s0) = map (\<lambda>p. (sp_id p, sp_transaction_id p)) ps"
  using assms(2,3)
proof (induction ps rule: rev_induct)
  case Nil
  then show ?case using assms(1)
    by (auto simp: restore_savepoint_counter_state_def tt_new_def tracker_ok_def rc_ok_def rc_count_def holders_def
        savepoints_inv_def ids_inv_def)
next
  case (snoc p ps)
  let ?s = "fold register_persistent_savepoint ps s0"
  let ?u = "\<lparr>reads = {#}, handles = mset (map (\<lambda>p. (sp_id p, sp_transaction_id p)) ps), last_committed = tid, last_durable = tid\<rparr>"
  have srt: "savepoints_sorted ps" "\<forall>q \<in> set ps. sp_id q < sp_id p" "\<forall>q \<in> set ps. sp_transaction_id q \<le> sp_transaction_id p"
    using snoc.prems(1) by (auto simp: savepoints_sorted_def sorted_wrt_append sorted_append)
  have IH: "tracker_ok ?s ?u" "valid_savepoints ?s = map (\<lambda>p. (sp_id p, sp_transaction_id p)) ps"
    using snoc.IH[OF srt(1)] snoc.prems(2) by auto
  have v: "valid_savepoints (register_persistent_savepoint p ?s) = map (\<lambda>p. (sp_id p, sp_transaction_id p)) (ps @ [p])"
    using IH(1) srt(2) by (simp add: register_persistent_savepoint_def IH(2) tracker_ok_def savepoints_inv_def om_insert_last)
  have nxt: "next_savepoint_id (fold register_persistent_savepoint xs s0) = n" for xs
    using assms(1) by (induction xs rule: rev_induct)
      (auto simp: register_persistent_savepoint_def restore_savepoint_counter_state_def bind_Some_iff)
  have h: "holders (register_persistent_savepoint p ?s) (?u\<lparr>handles := add_mset (sp_id p, sp_transaction_id p) (handles ?u)\<rparr>) =
      add_mset (sp_transaction_id p) (holders ?s ?u)"
    by (simp add: holders_def register_persistent_savepoint_def)
  have rc: "rc_ok (live_read_transactions (register_persistent_savepoint p ?s))"
    "rc_count (live_read_transactions (register_persistent_savepoint p ?s)) = count (add_mset (sp_transaction_id p) (holders ?s ?u))"
    using rc.acquire_holders[of "live_read_transactions ?s" "holders ?s ?u" "sp_transaction_id p"] IH(1)
    by (simp_all add: tracker_ok_def register_persistent_savepoint_def)
  have "savepoints_inv (register_persistent_savepoint p ?s) (?u\<lparr>handles := add_mset (sp_id p, sp_transaction_id p) (handles ?u)\<rparr>)"
    unfolding savepoints_inv_def v using snoc.prems nxt[of "ps @ [p]"]
    by (auto simp: om_ok_def comp_def savepoints_sorted_def)
  moreover have "ids_inv (register_persistent_savepoint p ?s) (?u\<lparr>handles := add_mset (sp_id p, sp_transaction_id p) (handles ?u)\<rparr>)"
    using IH(1) snoc.prems(2) unfolding tracker_ok_def ids_inv_def h by (auto simp: register_persistent_savepoint_def)
  ultimately show ?case using rc h v by (simp add: tracker_ok_def)
qed

lemma end_read_ok:
  assumes ok: "tracker_ok s u" and t: "tid \<in># reads u"
  shows "\<exists>s'. deallocate_read_transaction tid s = Some s' \<and> tracker_ok s' (u\<lparr>reads := reads u - {#tid#}\<rparr>)"
proof -
  have "tid \<in># holders s u" using t by (simp add: holders_def)
  from rc.release_holders[of "live_read_transactions s", OF _ _ this] ok obtain m where
    m: "rc_release tid (live_read_transactions s) = Some m" "rc_ok m" "rc_count m = count (holders s u - {#tid#})"
    by (auto simp: tracker_ok_def)
  let ?s = "s\<lparr>live_read_transactions := m\<rparr>" and ?u = "u\<lparr>reads := reads u - {#tid#}\<rparr>"
  have h: "holders ?s ?u = holders s u - {#tid#}" using t by (simp add: holders_def)
  have "tracker_ok ?s ?u" using ok m(2,3) unfolding tracker_ok_def savepoints_inv_def ids_inv_def h
    by (auto dest: in_diffD)
  then show ?thesis using m(1) by (simp add: deallocate_read_transaction_def)
qed

lemma drop_savepoint_ok:
  assumes ok: "tracker_ok s u" and t: "(sid, tid) \<in># handles u"
  shows "\<exists>s'. deallocate_savepoint sid tid s = Some s' \<and> tracker_ok s' (u\<lparr>handles := handles u - {#(sid, tid)#}\<rparr>)"
proof -
  have "tid \<in># holders s u" using t by (force simp: holders_def)
  from rc.release_holders[of "live_read_transactions s", OF _ _ this] ok obtain m where
    m: "rc_release tid (live_read_transactions s) = Some m" "rc_ok m" "rc_count m = count (holders s u - {#tid#})"
    by (auto simp: tracker_ok_def)
  let ?s = "s\<lparr>valid_savepoints := om_remove sid (valid_savepoints s), live_read_transactions := m\<rparr>"
    and ?u = "u\<lparr>handles := handles u - {#(sid, tid)#}\<rparr>"
  have h: "holders ?s ?u = holders s u - {#tid#}" using multi_member_split[OF t] by (auto simp: holders_def)
  have keep: "e \<in># handles u - {#(sid, tid)#}" if "e \<in># handles u" "fst e \<noteq> sid" for e
    using that multi_member_split[OF t] by auto
  have "savepoints_inv ?s ?u" using ok keep
    unfolding tracker_ok_def savepoints_inv_def by (auto simp: om_remove_def sorted_snd_remove)
  moreover have "ids_inv ?s ?u" using ok unfolding tracker_ok_def ids_inv_def h by (auto dest: in_diffD)
  ultimately have "tracker_ok ?s ?u" using m(2,3) h by (simp add: tracker_ok_def)
  then show ?thesis using m(1) by (simp add: deallocate_savepoint_def deallocate_read_transaction_def)
qed

lemma clear_pending_ok:
  assumes ok: "tracker_ok s u"
  shows "\<exists>s'. clear_pending_non_durable_commits s = Some s' \<and> tracker_ok s' u"
proof -
  let ?ks = "map snd (pending_non_durable_commits s)"
  have "mset ?ks \<subseteq># holders s u" by (simp add: holders_def)
  from rc.release_list_holders[of "live_read_transactions s", OF _ _ this] ok obtain m where
    m: "fold_opt rc_release ?ks (live_read_transactions s) = Some m" "rc_ok m" "rc_count m = count (holders s u - mset ?ks)"
    by (auto simp: tracker_ok_def)
  let ?s = "s\<lparr>pending_non_durable_commits := [], live_read_transactions := m\<rparr>"
  have h: "holders ?s u = holders s u - mset ?ks" by (simp add: holders_def)
  have "tracker_ok ?s u" using ok m(2,3) unfolding tracker_ok_def savepoints_inv_def ids_inv_def h
    by (auto dest: in_diffD)
  then show ?thesis using m(1) by (simp add: clear_pending_non_durable_commits_def)
qed

lemma begin_read_ok:
  assumes ok: "tracker_ok s u" and r: "register_read_transaction (last_committed u) s = (tid, s')"
  shows "tracker_ok s' (u\<lparr>reads := add_mset tid (reads u)\<rparr>)"
proof -
  have r: "tid = last_committed u" "s' = s\<lparr>live_read_transactions := rc_acquire tid (live_read_transactions s)\<rparr>"
    using r by (auto simp: register_read_transaction_def)
  have h: "holders s' (u\<lparr>reads := add_mset tid (reads u)\<rparr>) = add_mset tid (holders s u)"
    by (simp add: holders_def r)
  show ?thesis using ok rc.acquire_holders[of "live_read_transactions s" "holders s u" tid]
    unfolding tracker_ok_def savepoints_inv_def ids_inv_def h by (auto simp: r)
qed

lemma new_savepoint_ok:
  assumes ok: "tracker_ok s u" and r: "txn_allocate_savepoint (last_committed u) s = Some ((sid, tid), s')"
  shows "tracker_ok s' (u\<lparr>handles := add_mset (sid, tid) (handles u)\<rparr>)" "sid = next_savepoint_id s + 1" "tid = last_committed u"
proof -
  from r have r: "tid = last_committed u" "sid = next_savepoint_id s + 1"
    "s' = s\<lparr>live_read_transactions := rc_acquire tid (live_read_transactions s), next_savepoint_id := sid,
      valid_savepoints := om_insert sid tid (valid_savepoints s)\<rparr>"
    by (auto simp: txn_allocate_savepoint_def register_read_transaction_def guard_leak_def guard_new_read_def guard_drop_def
        allocate_savepoint_def spid_next_def bind_Some_iff)
  show "sid = next_savepoint_id s + 1" "tid = last_committed u" by (fact r)+
  have h: "holders s' (u\<lparr>handles := add_mset (sid, tid) (handles u)\<rparr>) = add_mset tid (holders s u)"
    by (simp add: holders_def r)
  have v: "valid_savepoints s' = valid_savepoints s @ [(sid, tid)]"
    using ok r by (auto simp: tracker_ok_def savepoints_inv_def intro!: om_insert_last)
  have "savepoints_inv s' (u\<lparr>handles := add_mset (sid, tid) (handles u)\<rparr>)"
    using ok r(1,2) unfolding savepoints_inv_def tracker_ok_def v
    by (auto simp: r(3) om_ok_def sorted_wrt_append sorted_append split: prod.splits)
  moreover have "ids_inv s' (u\<lparr>handles := add_mset (sid, tid) (handles u)\<rparr>)"
    using ok r(1) unfolding ids_inv_def tracker_ok_def h by (auto simp: r(3))
  ultimately show "tracker_ok s' (u\<lparr>handles := add_mset (sid, tid) (handles u)\<rparr>)"
    using ok rc.acquire_holders[of "live_read_transactions s" "holders s u" tid] h
    by (simp add: tracker_ok_def r(3))
qed

lemma non_durable_ok:
  assumes ok: "tracker_ok s u" and l: "live_write_transaction s = Some tid" "last_committed u < tid"
  shows "tracker_ok (register_non_durable_commit tid (last_durable u) s) (u\<lparr>last_committed := tid\<rparr>)"
proof -
  let ?s = "register_non_durable_commit tid (last_durable u) s" and ?u = "u\<lparr>last_committed := tid\<rparr>"
  have upd: "AList.update tid d m = m @ [(tid, d)]" if "\<forall>e \<in> set m. fst e < tid" for d m
    using that by (induction m) auto
  have pend: "AList.update tid d (pending_non_durable_commits s) = pending_non_durable_commits s @ [(tid, d)]" for d
    using ok l(2) by (intro upd) (auto simp: tracker_ok_def ids_inv_def)
  have h: "holders ?s ?u = add_mset (last_durable u) (holders s u)"
    by (simp add: holders_def register_non_durable_commit_def pend)
  have pending: "pending_non_durable_commits ?s = pending_non_durable_commits s @ [(tid, last_durable u)]"
    by (simp add: register_non_durable_commit_def pend)
  have "ids_inv ?s ?u" using ok l unfolding ids_inv_def tracker_ok_def h pending
    by (auto simp: register_non_durable_commit_def)
  moreover have "savepoints_inv ?s ?u" using ok l(2)
    by (force simp: tracker_ok_def savepoints_inv_def register_non_durable_commit_def)
  ultimately show ?thesis
    using ok rc.acquire_holders[of "live_read_transactions s" "holders s u" "last_durable u"] h
    by (simp add: tracker_ok_def register_non_durable_commit_def)
qed

lemma tracker_ok_frame:
  assumes "tracker_ok s u" "live_read_transactions s' = live_read_transactions s" "savepoints_inv s' u"
    and "pending_non_durable_commits s' = pending_non_durable_commits s"
    and "om_ok (unprocessed_freed_non_durable_commits s')" "next_transaction_id s \<le> next_transaction_id s'"
    and "\<forall>tid. live_write_transaction s' = Some tid \<longrightarrow> tid = next_transaction_id s'"
  shows "tracker_ok s' u"
proof -
  have "holders s' u = holders s u" using assms by (simp add: holders_def)
  then show ?thesis using assms by (auto simp: tracker_ok_def ids_inv_def)
qed

lemma tracker_reach_ok: "tracker_reach s u \<Longrightarrow> tracker_ok s u"
proof (induction rule: tracker_reach.induct)
  case (open_db n tid s0 ps s)
  show ?case unfolding open_db(4) by (rule conjunct1[OF tracker_ok_open[OF open_db(1-3)]])
next
  case (begin_write s u tid s')
  have s': "s' = s\<lparr>next_transaction_id := tid, live_write_transaction := Some tid\<rparr>" "tid = next_transaction_id s + 1"
    using begin_write(2) by (auto simp: start_write_transaction_def txid_next_def bind_Some_iff split: if_splits)
  show ?case by (rule tracker_ok_frame[OF begin_write.IH])
    (use begin_write.IH in \<open>simp_all add: s' tracker_ok_def savepoints_inv_def ids_inv_def\<close>)
next
  case (end_write s u tid s')
  have s': "s' = s\<lparr>live_write_transaction := None\<rparr>"
    using end_write(3) by (auto simp: guard_drop_def guard_new_write_def end_write_transaction_def bind_Some_iff)
  show ?case by (rule tracker_ok_frame[OF end_write.IH])
    (use end_write.IH in \<open>simp_all add: s' tracker_ok_def savepoints_inv_def ids_inv_def\<close>)
next
  case (durable_commit s u tid)
  then have "holders s (u\<lparr>last_committed := tid, last_durable := tid\<rparr>) = holders s u" by (simp add: holders_def)
  with durable_commit show ?case by (fastforce simp: tracker_ok_def savepoints_inv_def ids_inv_def)
next
  case (clear_pending s u s')
  then show ?case using clear_pending_ok by fastforce
next
  case (non_durable_commit s u tid)
  then show ?case using non_durable_ok by blast
next
  case (begin_read s u tid s')
  then show ?case using begin_read_ok by blast
next
  case (end_read s u tid s')
  then show ?case using end_read_ok[of s u tid] by (auto simp: guard_drop_def guard_new_read_def)
next
  case (new_savepoint s u sid tid s')
  then show ?case using new_savepoint_ok(1) by blast
next
  case (drop_savepoint s u sid tid s')
  then show ?case using drop_savepoint_ok[of s u sid tid] by auto
next
  case (invalidate s u sid)
  show ?case by (rule tracker_ok_frame[OF invalidate.IH])
    (use invalidate.IH in \<open>simp_all add: invalidate_savepoints_after_def tracker_ok_def savepoints_inv_def ids_inv_def
        sorted_snd_remove\<close>)
next
  case (processed s u tid)
  show ?case by (rule tracker_ok_frame[OF processed.IH])
    (use processed.IH in \<open>simp_all add: mark_unprocessed_non_durable_commit_def tracker_ok_def savepoints_inv_def ids_inv_def\<close>)
qed

subsection \<open>Properties\<close>

lemma om_first_exists: "om_ok m \<Longrightarrow> k \<in> dom (map_of m) \<Longrightarrow> \<exists>k' v'. om_first m = Some (k', v') \<and> k' \<le> k"
proof (cases "om_first m")
  case (Some e)
  moreover assume "om_ok m" "k \<in> dom (map_of m)"
  ultimately show ?thesis using om_first_least(1)[of m "fst e" "snd e"] by (cases e) auto
qed (auto simp: om_first_least(2))

lemma example_reach:
  "tracker_reach \<lparr>next_savepoint_id = 1, live_read_transactions = [(3, 1), (5, 1)], next_transaction_id = 7,
     live_write_transaction = Some 7, valid_savepoints = [(1, 3)], pending_non_durable_commits = [],
     unprocessed_freed_non_durable_commits = []\<rparr>
   \<lparr>reads = {#5#}, handles = {#(1, 3)#}, last_committed = 5, last_durable = 5\<rparr>"
proof -
  let ?p = "\<lparr>sp_version = 3, sp_id = 1, sp_transaction_id = 3, sp_user_root = None, ephemeral = False\<rparr>"
  let ?s = "\<lambda>live n w. \<lparr>next_savepoint_id = 1, live_read_transactions = live, next_transaction_id = n,
     live_write_transaction = w, valid_savepoints = [(1, 3)], pending_non_durable_commits = [],
     unprocessed_freed_non_durable_commits = []\<rparr>"
  have "tracker_reach (?s [(3, 1)] 6 None) \<lparr>reads = {#}, handles = {#(1, 3)#}, last_committed = 5, last_durable = 5\<rparr>"
    using tracker_reach.open_db[of 1 5 "tt_new 6\<lparr>next_savepoint_id := 1\<rparr>" "[?p]", OF _ _ _ refl]
    by (simp add: restore_savepoint_counter_state_def tt_new_def savepoints_sorted_def register_persistent_savepoint_def
        rc_acquire_def)
  from tracker_reach.begin_read[OF this, of 5 "?s [(3, 1), (5, 1)] 6 None"]
  have "tracker_reach (?s [(3, 1), (5, 1)] 6 None) \<lparr>reads = {#5#}, handles = {#(1, 3)#}, last_committed = 5, last_durable = 5\<rparr>"
    by (simp add: register_read_transaction_def rc_acquire_def)
  from tracker_reach.begin_write[OF this, of 7] show ?thesis by (simp add: start_write_transaction_def txid_next_def)
qed

text \<open>
  C25. In every reachable state the tracker protects what is in use: the oldest live read transaction is at
  most as new as every open read transaction, every existing savepoint and every durable ancestor of a pending
  non-durable commit, and it is one of them. The oldest valid savepoint has both the least id and the least
  transaction id of all valid savepoints.
\<close>

theorem tracker_protects_holders:
  assumes "tracker_reach s u"
  shows "(\<forall>t \<in># holders s u. \<exists>x. oldest_live_read_transaction s = Some x \<and> x \<le> t) \<and>
    (\<forall>x. oldest_live_read_transaction s = Some x \<longrightarrow> x \<in># holders s u) \<and>
    (\<forall>sid t. map_of (valid_savepoints s) sid = Some t \<longrightarrow> t \<in># holders s u \<and>
      (\<exists>i x. oldest_savepoint s = Some (i, x) \<and> i \<le> sid \<and> x \<le> t))"
proof -
  have ok: "rc_ok (live_read_transactions s)" "rc_count (live_read_transactions s) = count (holders s u)" "savepoints_inv s u"
    using tracker_reach_ok[OF assms] by (auto simp: tracker_ok_def)
  note dom = rc_dom[OF ok(1,2)]
  have m: "om_ok (live_read_transactions s)" using ok(1) by (simp add: rc_ok_def)
  have "\<exists>x. oldest_live_read_transaction s = Some x \<and> x \<le> t" if "t \<in># holders s u" for t
    using om_first_exists[OF m] that dom by (fastforce simp: oldest_live_read_transaction_def)
  moreover have "x \<in># holders s u" if "oldest_live_read_transaction s = Some x" for x
    using that om_first_least(1)[OF m] dom by (fastforce simp: oldest_live_read_transaction_def)
  moreover have "t \<in># holders s u \<and> (\<exists>i x. oldest_savepoint s = Some (i, x) \<and> i \<le> sid \<and> x \<le> t)"
    if "map_of (valid_savepoints s) sid = Some t" for sid t
  proof -
    have e: "(sid, t) \<in> set (valid_savepoints s)" using that by (rule map_of_SomeD)
    then have "(sid, t) \<in># handles u" using ok(3) by (auto simp: savepoints_inv_def)
    then have "t \<in># holders s u" by (force simp: holders_def)
    moreover have "om_ok (valid_savepoints s)" "sorted (map snd (valid_savepoints s))"
      using ok(3) by (simp_all add: savepoints_inv_def)
    then have "\<exists>i x. oldest_savepoint s = Some (i, x) \<and> i \<le> sid \<and> x \<le> t"
      using e by (cases "valid_savepoints s") (force simp: oldest_savepoint_def om_first_def less_imp_le)+
    ultimately show ?thesis by blast
  qed
  ultimately show ?thesis by blast
qed

theorem tracker_protects_holders_witness:
  "\<exists>s. oldest_live_read_transaction s = Some 3 \<and> oldest_savepoint s = Some (1, 3) \<and> (\<exists>x \<le> 5. oldest_live_read_transaction s = Some x)"
  using tracker_protects_holders[OF example_reach]
  by (intro exI[of _ "\<lparr>next_savepoint_id = 1, live_read_transactions = [(3, 1), (5, 1)], next_transaction_id = 7,
     live_write_transaction = Some 7, valid_savepoints = [(1, 3)], pending_non_durable_commits = [],
     unprocessed_freed_non_durable_commits = []\<rparr>"]) (simp add: holders_def oldest_live_read_transaction_def oldest_savepoint_def om_first_def)



text \<open>
  C27. A persistent savepoint reads back from its serialised form, which has a fixed length.
\<close>

theorem savepoint_round_trip:
  assumes "sp_version p = FILE_FORMAT_VERSION3" "sp_id p < 2 ^ 64" "sp_transaction_id p < 2 ^ 64" "pred_option bh_ok (sp_user_root p)"
  shows "\<exists>bs. from_savepoint p = Some bs \<and> length bs = 50 \<and> to_savepoint bs = Some (sp_set_persistent p)"
proof (cases "sp_user_root p")
  case None
  then show ?thesis using assms
    by (simp add: from_savepoint_def to_savepoint_def format_versions subslice_def idx_def nth_append sp_set_persistent_def
        from_le_le_bytes_id[where k = 8])
next
  case (Some h)
  obtain bs where bs: "bh_to_le_bytes h = Some bs" by (simp add: bh_to_le_bytes_eq)
  have h: "bh_ok h" using assms(4) Some by simp
  show ?thesis using assms Some bs bh_round_trip[OF h bs]
    by (simp add: from_savepoint_def to_savepoint_def format_versions subslice_def idx_def nth_append sp_set_persistent_def
        from_le_le_bytes_id[where k = 8])
qed

theorem savepoint_round_trip_witness:
  "\<exists>bs. from_savepoint (sp_new_ephemeral 3 4 9 None) = Some bs \<and>
     to_savepoint bs = Some (sp_set_persistent (sp_new_ephemeral 3 4 9 None))"
  using savepoint_round_trip[of "sp_new_ephemeral 3 4 9 None"] by (auto simp: sp_new_ephemeral_def format_versions)

end
