(* ===== verification/Buddy_Sizing.thy ===== *)
theory Buddy_Sizing
  imports Buddy
begin

text \<open>
  Creation, resizing, accounting and serialisation of the buddy allocator, and the properties
  of the allocator as a whole. The definitions are those of theory \<open>Buddy\<close>; what is shown is
  that \<open>new\<close> starts with every page free, that \<open>resize\<close> adds or removes exactly the pages at the end, that
  the counters agree with the set of free pages, and that the serialised form reads back.
\<close>

subsection \<open>Creation\<close>

lemma maxfree_empty [simp]: "maxfree M {} n = {}"
  by (auto simp: maxfree_def)

lemma pow_blk: "2 ^ n dvd p \<Longrightarrow> blk (p div 2 ^ n) n = {p..<p + 2 ^ n}"
  by (auto simp: blk_interval algebra_simps dvd_mult_div_cancel)

lemma new_orders_correct:
  assumes "pages \<le> capacity" and "capacity < 2 ^ 32"
  shows "length (new_orders c pages capacity) = c"
    "i < c \<Longrightarrow> new_orders c pages capacity ! i = bt_new (pages div 2 ^ i) (capacity div 2 ^ i)"
proof -
  show "length (new_orders c pages capacity) = c"
    by (induction c arbitrary: pages capacity) auto
  show "i < c \<Longrightarrow> new_orders c pages capacity ! i = bt_new (pages div 2 ^ i) (capacity div 2 ^ i)"
  proof (induction c arbitrary: i pages capacity)
    case (Suc c)
    then show ?case
      by (cases i) (auto simp: next_higher_order_def div_mult2_eq[symmetric] mult.commute)
  qed simp
qed

lemma usable_order:
  assumes "0 < capacity" and "capacity < 2 ^ 32"
  obtains M where "calculate_usable_order capacity = Some M" "M \<le> MAX_MAX_PAGE_ORDER" "2 ^ M \<le> capacity"
proof -
  let ?M = "min MAX_MAX_PAGE_ORDER (bit_length capacity - 1)"
  note bits = bit_length_bounds[OF assms(1)] bit_length_le[OF assms(2)]
  then have "32 - bit_length capacity \<le> 31" by linarith
  with bits have "calculate_usable_order capacity = Some ?M"
    by (simp add: calculate_usable_order_def leading_zeros32_def)
  moreover have "(2::nat) ^ ?M \<le> 2 ^ (bit_length capacity - 1)" by (intro power_increasing) auto
  then have "2 ^ ?M \<le> capacity" using bits by linarith
  ultimately show ?thesis by (intro that[of ?M]) auto
qed

text \<open>
  The invariant of the marking loop of \<open>new\<close>: the pages below \<open>p\<close> are free, in maximal
  blocks, and \<open>p\<close> is aligned for every order that still fits.
\<close>

definition new_inv :: "nat \<Rightarrow> nat \<Rightarrow> BtreeBitmap list \<Rightarrow> nat \<Rightarrow> BtreeBitmap list \<Rightarrow> bool" where
  "new_inv n M fs p free \<longleftrightarrow> ba_rep \<lparr>ba_free = free, ba_len = n, ba_max_order = M\<rparr> {..<p} \<and>
     map bt_capacity free = map bt_capacity fs \<and> (\<exists>u. 2 ^ u dvd p \<and> (M \<le> u \<or> n < p + 2 ^ u))"

lemma aligned_even:
  assumes "2 ^ u dvd p" and "M \<le> u \<or> n < p + 2 ^ u" and "p + 2 ^ k \<le> n" and "k < M" and "2 ^ k dvd (p::nat)"
  shows "even (p div 2 ^ k)"
proof -
  have "Suc k \<le> u"
  proof (rule ccontr)
    assume "\<not> Suc k \<le> u"
    then have "(2::nat) ^ u \<le> 2 ^ k" "\<not> M \<le> u" using assms(4) by (simp_all add: power_increasing)
    then show False using assms(2,3) by linarith
  qed
  then have "2 ^ Suc k dvd p" using assms(1) power_le_dvd by blast
  then show ?thesis by (metis dvd_div_iff_mult assms(5) power_Suc zero_neq_numeral power_not_zero)
qed

lemma new_inv_step:
  assumes k: "k \<le> M" "2 ^ k dvd p" "p + 2 ^ k \<le> n" "k < M \<Longrightarrow> n < p + 2 ^ Suc k" and inv: "new_inv n M fs p free"
  shows "\<exists>free'. at_order (\<lambda>m. bt_clear m (p div 2 ^ k)) free k = Some free' \<and> new_inv n M fs (p + 2 ^ k) free'"
proof -
  let ?b = "\<lparr>ba_free = free, ba_len = n, ba_max_order = M\<rparr>"
  note b = pow_blk[OF k(2)]
  have "\<exists>ms. at_order (\<lambda>m. bt_clear m (p div 2 ^ k)) (ba_free ?b) k = Some ms \<and>
      ba_rep (set_free ?b ms) ({..<p} \<union> blk (p div 2 ^ k) k) \<and> same_shape ?b (set_free ?b ms)"
  proof (rule rep_add)
    from inv obtain u where u: "2 ^ u dvd p" "M \<le> u \<or> n < p + 2 ^ u" by (auto simp: new_inv_def)
    show "\<not> blk (buddy_page (p div 2 ^ k)) k \<subseteq> {..<p}" if "k < ba_max_order ?b"
      using aligned_even[OF u k(3) _ k(2)] that k(2) by (simp add: buddy_page_eq blk_below)
  qed (use k inv in \<open>auto simp: new_inv_def b\<close>)
  then obtain ms where ms: "at_order (\<lambda>m. bt_clear m (p div 2 ^ k)) free k = Some ms"
    "ba_rep (set_free ?b ms) ({..<p} \<union> blk (p div 2 ^ k) k)" "map bt_capacity ms = map bt_capacity free"
    by (auto simp: same_shape_def)
  have "{..<p} \<union> blk (p div 2 ^ k) k = {..<p + 2 ^ k}" by (auto simp: b)
  moreover have "\<exists>u. 2 ^ u dvd p + 2 ^ k \<and> (M \<le> u \<or> n < p + 2 ^ k + 2 ^ u)"
    by (rule exI[of _ k], cases "k < M") (use k(1,2,4) in auto)
  ultimately have "new_inv n M fs (p + 2 ^ k) ms" using ms(2,3) inv by (simp add: new_inv_def set_free_def)
  with ms(1) show ?thesis by blast
qed

theorem ba_new_correct:
  assumes n: "n \<le> capacity" and cap: "0 < capacity" "capacity < 2 ^ 32"
  shows "\<exists>b. ba_new n capacity = Some b \<and> ba_rep b {..<n} \<and> ba_len b = n \<and>
    calculate_usable_order capacity = Some (ba_max_order b) \<and>
    (\<forall>i\<le>ba_max_order b. capacity div 2 ^ i \<le> bt_capacity (ba_free b ! i))"
proof -
  obtain M where M: "calculate_usable_order capacity = Some M" "M \<le> MAX_MAX_PAGE_ORDER"
    by (rule usable_order[OF cap])
  let ?fs = "new_orders (Suc M) n capacity"
  let ?f = "\<lambda>page order free. at_order (\<lambda>m. bt_clear m page) free order"
  note len = new_orders_correct(1)[OF n cap(2), of "Suc M"]
  have fs: "?fs ! i = bt_new (n div 2 ^ i) (capacity div 2 ^ i)" if "i \<le> M" for i
    using new_orders_correct(2)[OF n cap(2), of i "Suc M"] that by (simp del: new_orders.simps)
  have pow: "n div 2 ^ i \<le> capacity div 2 ^ i" "capacity div 2 ^ i < 2 ^ 32" for i
    using n cap(2) by (simp_all add: div_le_mono le_less_trans[OF div_le_dividend])
  have "ba_rep \<lparr>ba_free = ?fs, ba_len = n, ba_max_order = M\<rparr> {..<0}"
    using len M(2) fs bt_new_correct[OF pow]
    by (auto simp: ba_rep_def in_set_conv_nth less_Suc_eq_le simp del: new_orders.simps)
  then have init: "new_inv n M ?fs 0 ?fs" by (auto simp: new_inv_def)
  have "\<exists>free'. fill_orders ?f n M ?fs 0 = Some (free', n) \<and> new_inv n M ?fs n free'"
    by (rule fill_orders_correct[where P = "new_inv n M ?fs"]) (use init new_inv_step in auto)
  then obtain free' where f': "fill_orders ?f n M ?fs 0 = Some (free', n)" "new_inv n M ?fs n free'" by blast
  have "capacity div 2 ^ i \<le> bt_capacity (free' ! i)" if "i \<le> M" for i
  proof -
    have "map bt_capacity free' = map bt_capacity ?fs" using f'(2) by (simp add: new_inv_def)
    then have "bt_capacity (free' ! i) = bt_capacity (?fs ! i)"
      using that len by (metis le_imp_less_Suc length_map nth_map)
    then show ?thesis using fs[OF that] bt_new_capacity by simp
  qed
  then show ?thesis using M(1) f' by (simp add: ba_new_def new_inv_def)
qed

subsection \<open>Resizing\<close>

text \<open>
  The allocator updates its length last, so while it grows the bitmaps are already larger than
  the recorded length. \<open>free_inner\<close> does not read the length.
\<close>

lemma ba_len_update_simps [simp]:
  "set_free (b\<lparr>ba_len := l\<rparr>) fs = (set_free b fs)\<lparr>ba_len := l\<rparr>"
  "get_order_free (b\<lparr>ba_len := l\<rparr>) n = get_order_free b n"
  by (simp_all add: set_free_def get_order_free_def)

lemma free_inner_len: "free_inner (b\<lparr>ba_len := l\<rparr>) k n = map_option (\<lambda>b'. b'\<lparr>ba_len := l\<rparr>) (free_inner b k n)"
proof (induction "length (ba_free b) - n" arbitrary: b k n rule: less_induct)
  case less
  note unfold = free_inner.simps[of "b\<lparr>ba_len := l\<rparr>" k n] free_inner.simps[of b k n]
  let ?clear = "at_order (\<lambda>m. bt_clear m k) (ba_free b) n"
  show ?case
  proof (cases "n = ba_max_order b \<or> get_order_free b n = None")
    case True
    then show ?thesis unfolding unfold by (cases ?clear) auto
  next
    case False
    then obtain m where m: "get_order_free b n = Some m" by auto
    then have n: "n < length (ba_free b)" by (simp add: get_order_free_def idx_eq_Some_iff)
    show ?thesis
    proof (cases "do { l \<leftarrow> bt_len m; if buddy_page k \<ge> l then Some True else bt_get m (buddy_page k) }")
      case None
      then show ?thesis unfolding unfold using False m by (cases "bt_len m") (auto simp: Let_def)
    next
      case (Some g)
      have "free_inner (set_free b fs\<lparr>ba_len := l\<rparr>) (next_higher_order k) (n + 1) =
          map_option (\<lambda>b'. b'\<lparr>ba_len := l\<rparr>) (free_inner (set_free b fs) (next_higher_order k) (n + 1))"
        if "at_order (\<lambda>m. bt_set m (buddy_page k)) (ba_free b) n = Some fs" for fs
        using less[of "set_free b fs" "n + 1"] n at_order_length[OF that] by simp
      then show ?thesis unfolding unfold using False m Some
        by (cases "bt_len m"; cases ?clear; cases "at_order (\<lambda>m. bt_set m (buddy_page k)) (ba_free b) n"; cases g)
          (auto simp: Let_def)
    qed
  qed
qed

lemma free_inner_any_len:
  assumes "ba_rep (b\<lparr>ba_len := l\<rparr>) F" and "n \<le> ba_max_order b" and "blk k n \<subseteq> {..<l}" and "blk k n \<inter> F = {}"
  shows "\<exists>b'. free_inner b k n = Some b' \<and> ba_rep (b'\<lparr>ba_len := l\<rparr>) (F \<union> blk k n) \<and>
    ba_max_order b' = ba_max_order b \<and> map bt_capacity (ba_free b') = map bt_capacity (ba_free b)"
  using free_inner_correct[OF assms(1), of n k] assms(2-4) by (auto simp: free_inner_len same_shape_def)

lemma resize_orders_correct:
  assumes "\<forall>m\<in>set ms. bt_inv m"
    and "\<And>i. i < length ms \<Longrightarrow> bt_unset (ms ! i) \<subseteq> {..<l div 2 ^ i} \<and> l div 2 ^ i \<le> bt_capacity (ms ! i)"
  shows "\<exists>ms'. resize_orders ms l = Some ms' \<and> length ms' = length ms \<and> (\<forall>m\<in>set ms'. bt_inv m) \<and>
    map bt_capacity ms' = map bt_capacity ms \<and>
    (\<forall>i<length ms. bt_size (ms' ! i) = l div 2 ^ i \<and> bt_unset (ms' ! i) = bt_unset (ms ! i))"
  using assms
proof (induction ms arbitrary: l)
  case (Cons m ms)
  from bt.resize_law[of m l] Cons.prems(1) Cons.prems(2)[of 0] obtain m' where
    m': "bt_resize m l True = Some m'" "bt_inv m'" "bt_size m' = l" "bt_capacity m' = bt_capacity m"
      "bt_unset m' = bt_unset m" by auto
  have "bt_unset (ms ! i) \<subseteq> {..<l div 2 div 2 ^ i} \<and> l div 2 div 2 ^ i \<le> bt_capacity (ms ! i)"
    if "i < length ms" for i
    using Cons.prems(2)[of "Suc i"] that by (simp add: div_mult2_eq)
  from Cons.IH[OF _ this] Cons.prems(1) obtain ms' where
    ms': "resize_orders ms (l div 2) = Some ms'" "length ms' = length ms" "\<forall>m\<in>set ms'. bt_inv m"
      "map bt_capacity ms' = map bt_capacity ms"
      "\<forall>i<length ms. bt_size (ms' ! i) = l div 2 div 2 ^ i \<and> bt_unset (ms' ! i) = bt_unset (ms ! i)" by auto
  have "bt_size ((m' # ms') ! i) = l div 2 ^ i \<and> bt_unset ((m' # ms') ! i) = bt_unset ((m # ms) ! i)"
    if "i < length (m # ms)" for i
    using that m' ms'(5) by (cases i) (simp_all add: div_mult2_eq)
  then show ?case using m' ms' by (simp add: next_higher_order_def)
qed simp

lemma rep_resize:
  assumes rep: "ba_rep b F" and F: "F \<subseteq> {..<l}"
    and cap: "\<And>i. i \<le> ba_max_order b \<Longrightarrow> l div 2 ^ i \<le> bt_capacity (ba_free b ! i)"
  shows "\<exists>ms. resize_orders (ba_free b) l = Some ms \<and> ba_rep ((set_free b ms)\<lparr>ba_len := l\<rparr>) F \<and>
    map bt_capacity ms = map bt_capacity (ba_free b)"
proof -
  have len: "length (ba_free b) = Suc (ba_max_order b)" using rep by (simp add: ba_rep_def)
  have "bt_unset (ba_free b ! i) \<subseteq> {..<l div 2 ^ i} \<and> l div 2 ^ i \<le> bt_capacity (ba_free b ! i)"
    if "i < length (ba_free b)" for i
  proof -
    have i: "i \<le> ba_max_order b" using that len by simp
    have "k < l div 2 ^ i" if "k \<in> maxfree (ba_max_order b) F i" for k
      using that F unfolding blk_below[symmetric] maxfree_def by blast
    then show ?thesis using ba_repD(5)[OF rep i] cap[OF i] by auto
  qed
  from resize_orders_correct[OF _ this] rep obtain ms where
    ms: "resize_orders (ba_free b) l = Some ms" "length ms = length (ba_free b)" "\<forall>m\<in>set ms. bt_inv m"
      "map bt_capacity ms = map bt_capacity (ba_free b)"
      "\<forall>i<length (ba_free b). bt_size (ms ! i) = l div 2 ^ i \<and> bt_unset (ms ! i) = bt_unset (ba_free b ! i)"
    by (auto simp: ba_rep_def)
  have "ba_rep ((set_free b ms)\<lparr>ba_len := l\<rparr>) F"
    using rep F ms(2,3,5) len unfolding ba_rep_def by (simp add: less_Suc_eq_le)
  then show ?thesis using ms(1,4) by blast
qed

text \<open>The debug check holds in every represented state.\<close>

lemma block_of_page_unique:
  assumes "p div 2 ^ n \<in> maxfree M F n" and "p div 2 ^ m \<in> maxfree M F m" and "n \<le> M" and "m \<le> M"
  shows "m = n"
  using maxfree_disjoint[OF assms(1,2,3,4)] by (auto simp: blk_def)

lemma check_page_ok:
  assumes rep: "ba_rep b F"
  shows "found = (\<exists>n<i. p div 2 ^ n \<in> maxfree (ba_max_order b) F n) \<Longrightarrow>
    check_page b [i..<Suc (ba_max_order b)] (p div 2 ^ i) found = Some ()"
proof (induction "Suc (ba_max_order b) - i" arbitrary: i found)
  case 0
  then show ?case by (simp add: upt_conv_Nil del: upt_Suc)
next
  case (Suc d)
  let ?M = "ba_max_order b"
  have i: "i \<le> ?M" using Suc.hyps(2) by simp
  note D = ba_repD[OF rep i]
  have cons: "[i..<Suc ?M] = i # [Suc i..<Suc ?M]" using i by (simp add: upt_conv_Cons del: upt_Suc)
  show ?case
  proof (cases "p div 2 ^ i < ba_len b div 2 ^ i")
    case False
    then show ?thesis unfolding cons using D bt_len_correct[OF D(2)] by simp
  next
    case True
    note get = ba_rep_get[OF rep i True]
    have "\<not> found" if "p div 2 ^ i \<in> maxfree ?M F i"
      using block_of_page_unique[OF that _ i] Suc.prems i by fastforce
    then have "check_page b (i # [Suc i..<Suc ?M]) (p div 2 ^ i) found =
        check_page b [Suc i..<Suc ?M] (next_higher_order (p div 2 ^ i)) (found \<or> p div 2 ^ i \<in> maxfree ?M F i)"
      using D(1) bt_len_correct[OF D(2)] D(4) True get by (simp del: upt_Suc)
    moreover have "check_page b [Suc i..<Suc ?M] (p div 2 ^ Suc i) (found \<or> p div 2 ^ i \<in> maxfree ?M F i) = Some ()"
    proof (rule Suc.hyps(1))
      show "(found \<or> p div 2 ^ i \<in> maxfree ?M F i) = (\<exists>n<Suc i. p div 2 ^ n \<in> maxfree ?M F n)"
        unfolding Suc.prems less_Suc_eq by blast
    qed (use Suc.hyps(2) in simp)
    moreover have "next_higher_order (p div 2 ^ i) = p div 2 ^ Suc i"
      by (metis div_mult2_eq next_higher_order_def power_Suc2)
    ultimately show ?thesis unfolding cons by (simp only:)
  qed
qed

lemma check_merged_ok:
  assumes rep: "ba_rep b F" and n: "n < ba_max_order b" and k: "k < ba_len b div 2 ^ n"
  shows "check_merged b n k = Some ()"
proof -
  note D = ba_repD[OF rep less_imp_le[OF n]]
  note get = ba_rep_get[OF rep less_imp_le[OF n]]
  have "buddy_page k \<notin> maxfree (ba_max_order b) F n" if "k \<in> maxfree (ba_max_order b) F n"
    using that n blk_split[of k n] by (auto simp: maxfree_def simp del: power_Suc)
  then show ?thesis using D(1,4) bt_len_correct[OF D(2)] get[OF k] get[of "buddy_page k"]
    by (auto simp: check_merged_def Let_def)
qed

lemma fold_opt_unit: "(\<And>x. x \<in> set xs \<Longrightarrow> f x () = Some ()) \<Longrightarrow> fold_opt f xs () = Some ()"
  by (induction xs) auto

lemma debug_check_ok:
  assumes "ba_rep b F"
  shows "debug_check_consistency b = Some ()"
proof -
  have pages: "fold_opt (\<lambda>p _. check_page b [0..<Suc (ba_max_order b)] p False) [0..<ba_len b] () = Some ()"
    using check_page_ok[OF assms, of False 0] by (intro fold_opt_unit) (simp del: upt_Suc)
  have merged: "fold_opt (\<lambda>n _. fold_opt (\<lambda>k _. check_merged b n k) [0..<ba_len b div 2 ^ n] ())
      (rev [0..<ba_max_order b]) () = Some ()"
    by (intro fold_opt_unit) (auto intro: check_merged_ok[OF assms])
  show ?thesis by (simp only: debug_check_consistency_def pages merged Option.bind.bind_lunit)
qed

definition grow_inv :: "BuddyAllocator \<Rightarrow> nat set \<Rightarrow> nat \<Rightarrow> nat \<Rightarrow> BuddyAllocator \<Rightarrow> bool" where
  "grow_inv b0 F l p b \<longleftrightarrow> ba_rep (b\<lparr>ba_len := l\<rparr>) (F \<union> {ba_len b0..<p}) \<and> ba_len b0 \<le> p \<and>
     ba_max_order b = ba_max_order b0 \<and> map bt_capacity (ba_free b) = map bt_capacity (ba_free b0)"

lemma grow_inv_step:
  assumes "F \<subseteq> {..<ba_len b0}" and "n \<le> ba_max_order b0" and "2 ^ n dvd p" and "p + 2 ^ n \<le> l" and "grow_inv b0 F l p b"
  shows "\<exists>b'. free_inner b (p div 2 ^ n) n = Some b' \<and> grow_inv b0 F l (p + 2 ^ n) b'"
proof -
  note blk = pow_blk[OF assms(3)]
  have "\<exists>b'. free_inner b (p div 2 ^ n) n = Some b' \<and>
      ba_rep (b'\<lparr>ba_len := l\<rparr>) (F \<union> {ba_len b0..<p} \<union> blk (p div 2 ^ n) n) \<and>
      ba_max_order b' = ba_max_order b \<and> map bt_capacity (ba_free b') = map bt_capacity (ba_free b)"
    by (rule free_inner_any_len) (use assms blk in \<open>auto simp: grow_inv_def\<close>)
  moreover have "F \<union> {ba_len b0..<p} \<union> blk (p div 2 ^ n) n = F \<union> {ba_len b0..<p + 2 ^ n}"
    using assms(5) unfolding blk by (auto simp: grow_inv_def)
  ultimately show ?thesis using assms(5) by (auto simp: grow_inv_def)
qed

lemma grow_align_correct:
  assumes "F \<subseteq> {..<ba_len b0}" and "grow_inv b0 F l p b" and "p \<le> l" and "0 < p" and "l < 2 ^ 32"
  shows "\<exists>b' p'. grow_align l b p = Some (b', p') \<and> grow_inv b0 F l p' b' \<and> p' \<le> l \<and>
    (\<exists>t. 2 ^ t dvd p' \<and> (ba_max_order b0 \<le> t \<or> l < p' + 2 ^ t))"
  using assms(2-4)
proof (induction "l - p" arbitrary: p b rule: less_induct)
  case less
  let ?n = "trailing_zeros32 p"
  have n: "2 ^ ?n dvd p" "?n < 32" using trailing_zeros32_dvd trailing_zeros32_less less.prems assms(5) by auto
  have M: "ba_max_order b = ba_max_order b0" using less.prems(1) by (simp add: grow_inv_def)
  consider "p = l" | "p < l" "ba_max_order b0 \<le> ?n \<or> l < p + 2 ^ ?n"
    | "p < l" "?n < ba_max_order b0" "p + 2 ^ ?n \<le> l" using less.prems(2) by linarith
  then show ?case
  proof cases
    case 1
    then show ?thesis using less.prems by (subst grow_align.simps) (auto intro: exI[of _ 0])
  next
    case 2
    then show ?thesis using less.prems n M by (subst grow_align.simps) auto
  next
    case 3
    from grow_inv_step[OF assms(1) less_imp_le[OF 3(2)] n(1) 3(3) less.prems(1)] obtain b1 where
      b1: "free_inner b (p div 2 ^ ?n) ?n = Some b1" "grow_inv b0 F l (p + 2 ^ ?n) b1" by blast
    have "grow_align l b p = grow_align l b1 (p + 2 ^ ?n)"
      using 3 n M b1(1) by (subst grow_align.simps) (simp add: Let_def)
    then show ?thesis using less.hyps[OF step_measure[OF 3(3)] b1(2) 3(3)] by simp
  qed
qed

theorem ba_resize_grow:
  assumes rep: "ba_rep b F" and l: "0 < ba_len b" "ba_len b < l" "l < 2 ^ 32"
    and cap: "\<And>i. i \<le> ba_max_order b \<Longrightarrow> l div 2 ^ i \<le> bt_capacity (ba_free b ! i)"
  shows "\<exists>b'. ba_resize b l = Some b' \<and> ba_rep b' (F \<union> {ba_len b..<l}) \<and> ba_len b' = l \<and>
    ba_max_order b' = ba_max_order b \<and> map bt_capacity (ba_free b') = map bt_capacity (ba_free b)"
proof -
  let ?M = "ba_max_order b"
  have F: "F \<subseteq> {..<ba_len b}" using rep by (simp add: ba_rep_def)
  then have Fl: "F \<subseteq> {..<l}" using l by auto
  from rep_resize[OF rep Fl cap] obtain ms where ms: "resize_orders (ba_free b) l = Some ms"
    "ba_rep ((set_free b ms)\<lparr>ba_len := l\<rparr>) F" "map bt_capacity ms = map bt_capacity (ba_free b)" by blast
  then have "grow_inv b F l (ba_len b) (set_free b ms)" by (simp add: grow_inv_def)
  from grow_align_correct[OF F this] l obtain b1 p where
    b1: "grow_align l (set_free b ms) (ba_len b) = Some (b1, p)" "grow_inv b F l p b1" "p \<le> l"
      "\<exists>t. 2 ^ t dvd p \<and> (?M \<le> t \<or> l < p + 2 ^ t)" by auto
  have "\<exists>b2. fill_orders (\<lambda>page order b. free_inner b page order) l ?M b1 p = Some (b2, l) \<and> grow_inv b F l l b2"
    by (rule fill_orders_correct[where P = "grow_inv b F l"]) (use b1 grow_inv_step[OF F] in auto)
  then obtain b2 where b2: "fill_orders (\<lambda>page order b. free_inner b page order) l ?M b1 p = Some (b2, l)"
    "grow_inv b F l l b2" by blast
  from b2(2) have rep2: "ba_rep (b2\<lparr>ba_len := l\<rparr>) (F \<union> {ba_len b..<l})" by (simp add: grow_inv_def)
  have "ba_resize b l = Some (b2\<lparr>ba_len := l\<rparr>)"
    using ms(1) b1(1) b2(1) l(2) debug_check_ok[OF rep] debug_check_ok[OF rep2] by (simp add: ba_resize_def Let_def)
  then show ?thesis using rep2 b2(2) by (simp add: grow_inv_def)
qed

text \<open>An allocator of length 0 cannot be grown: \<open>trailing_zeros\<close> of 0 is 32, and \<open>2u32.pow(32)\<close> overflows.\<close>

lemma ba_resize_from_empty:
  assumes rep: "ba_rep b F" and "ba_len b = 0" and "0 < l"
  shows "ba_resize b l = None"
proof -
  have "grow_align l b' 0 = None" for b'
    using assms(3) by (subst grow_align.simps) (simp add: trailing_zeros32.simps)
  then show ?thesis using assms by (cases "resize_orders (ba_free b) l") (simp_all add: ba_resize_def debug_check_ok)
qed

definition shrink_inv :: "BuddyAllocator \<Rightarrow> nat set \<Rightarrow> nat \<Rightarrow> nat \<Rightarrow> BuddyAllocator \<Rightarrow> bool" where
  "shrink_inv b0 F l p b \<longleftrightarrow> ba_rep b (F - {l..<p}) \<and> l \<le> p \<and> same_shape b0 b"

lemma shrink_inv_step:
  assumes "{l..<ba_len b0} \<subseteq> F" and "n \<le> ba_max_order b0" and "2 ^ n dvd p" and "p + 2 ^ n \<le> ba_len b0"
    and "shrink_inv b0 F l p b"
  shows "\<exists>b'. record_alloc_inner b (p div 2 ^ n) n = Some b' \<and> shrink_inv b0 F l (p + 2 ^ n) b'"
proof -
  note blk = pow_blk[OF assms(3)]
  have "\<exists>b'. record_alloc_inner b (p div 2 ^ n) n = Some b' \<and>
      ba_rep b' (F - {l..<p} - blk (p div 2 ^ n) n) \<and> same_shape b b'"
  proof (rule record_alloc_inner_correct)
    show "blk (p div 2 ^ n) n \<subseteq> F - {l..<p}"
      using assms(1,4,5) unfolding blk shrink_inv_def by auto
  qed (use assms in \<open>simp_all add: shrink_inv_def same_shape_def\<close>)
  moreover have "F - {l..<p} - blk (p div 2 ^ n) n = F - {l..<p + 2 ^ n}"
    using assms(5) unfolding blk shrink_inv_def by auto
  ultimately show ?thesis using assms(5) same_shape_trans by (auto simp: shrink_inv_def)
qed

lemma shrink_align_correct:
  assumes "{l..<ba_len b0} \<subseteq> F" and "shrink_inv b0 F l p b" and "p \<le> ba_len b0"
  shows "\<exists>b' p'. shrink_align (ba_len b0) b p = Some (b', p') \<and> shrink_inv b0 F l p' b' \<and> p' \<le> ba_len b0 \<and>
    (\<exists>t. 2 ^ t dvd p' \<and> (ba_max_order b0 \<le> t \<or> ba_len b0 < p' + 2 ^ t))"
  using assms(2,3)
proof (induction "ba_len b0 - p" arbitrary: p b rule: less_induct)
  case less
  let ?n = "trailing_zeros32 p"
  note n = trailing_zeros32_dvd[of p]
  have M: "ba_max_order b = ba_max_order b0" using less.prems(1) by (simp add: shrink_inv_def same_shape_def)
  consider "p = ba_len b0" | "p < ba_len b0" "ba_max_order b0 \<le> ?n \<or> ba_len b0 < p + 2 ^ ?n"
    | "p < ba_len b0" "?n < ba_max_order b0" "p + 2 ^ ?n \<le> ba_len b0" using less.prems(2) by linarith
  then show ?case
  proof cases
    case 1
    then show ?thesis using less.prems by (subst shrink_align.simps) (auto intro: exI[of _ 0])
  next
    case 2
    then show ?thesis using less.prems n M by (subst shrink_align.simps) (auto simp: Let_def)
  next
    case 3
    from shrink_inv_step[OF assms(1) less_imp_le[OF 3(2)] n 3(3) less.prems(1)] obtain b1 where
      b1: "record_alloc_inner b (p div 2 ^ ?n) ?n = Some b1" "shrink_inv b0 F l (p + 2 ^ ?n) b1" by blast
    have "shrink_align (ba_len b0) b p = shrink_align (ba_len b0) b1 (p + 2 ^ ?n)"
      using 3 n M b1(1) by (subst shrink_align.simps) (simp add: Let_def)
    then show ?thesis using less.hyps[OF step_measure[OF 3(3)] b1(2) 3(3)] by simp
  qed
qed

theorem ba_resize_shrink:
  assumes rep: "ba_rep b F" and l: "l \<le> ba_len b" and free: "{l..<ba_len b} \<subseteq> F"
  shows "\<exists>b'. ba_resize b l = Some b' \<and> ba_rep b' (F - {l..<ba_len b}) \<and> ba_len b' = l \<and>
    ba_max_order b' = ba_max_order b \<and> map bt_capacity (ba_free b') = map bt_capacity (ba_free b)"
proof -
  let ?M = "ba_max_order b"
  have "shrink_inv b F l l b" using rep by (simp add: shrink_inv_def)
  from shrink_align_correct[OF free this l] obtain b1 p where
    b1: "shrink_align (ba_len b) b l = Some (b1, p)" "shrink_inv b F l p b1" "p \<le> ba_len b"
      "\<exists>t. 2 ^ t dvd p \<and> (?M \<le> t \<or> ba_len b < p + 2 ^ t)" by blast
  have "\<exists>b2. fill_orders (\<lambda>page order b. record_alloc_inner b page order) (ba_len b) ?M b1 p = Some (b2, ba_len b) \<and>
      shrink_inv b F l (ba_len b) b2"
    by (rule fill_orders_correct[where P = "shrink_inv b F l"]) (use b1 shrink_inv_step[OF free] in auto)
  then obtain b2 where b2: "fill_orders (\<lambda>page order b. record_alloc_inner b page order) (ba_len b) ?M b1 p = Some (b2, ba_len b)"
    "ba_rep b2 (F - {l..<ba_len b})" "same_shape b b2" by (auto simp: shrink_inv_def)
  have "F - {l..<ba_len b} \<subseteq> {..<l}" using rep by (auto simp: ba_rep_def not_less)
  moreover have "l div 2 ^ i \<le> bt_capacity (ba_free b2 ! i)" if i: "i \<le> ba_max_order b2" for i
  proof -
    note D = ba_repD[OF b2(2) i]
    have "l div 2 ^ i \<le> ba_len b2 div 2 ^ i" using l b2(3) by (simp add: same_shape_def div_le_mono)
    then show ?thesis using bt_size_capacity[OF D(2)] D(4) by linarith
  qed
  ultimately obtain ms where ms: "resize_orders (ba_free b2) l = Some ms"
    "ba_rep ((set_free b2 ms)\<lparr>ba_len := l\<rparr>) (F - {l..<ba_len b})" "map bt_capacity ms = map bt_capacity (ba_free b2)"
    using rep_resize[OF b2(2)] by blast
  have "ba_resize b l = Some ((set_free b2 ms)\<lparr>ba_len := l\<rparr>)"
    using l ms(1) b1(1) b2(1) debug_check_ok[OF rep] debug_check_ok[OF ms(2)] by (simp add: ba_resize_def Let_def)
  then show ?thesis using ms(2,3) b2(3) by (simp add: same_shape_def)
qed

subsection \<open>Accounting\<close>

lemma card_maxfree: "finite F \<Longrightarrow> card F = (\<Sum>n\<le>M. card (maxfree M F n) * 2 ^ n)"
proof -
  assume F: "finite F"
  have layer: "card (\<Union>k\<in>maxfree M F n. blk k n) = card (maxfree M F n) * 2 ^ n" for n
  proof -
    have "card (\<Union>k\<in>maxfree M F n. blk k n) = (\<Sum>k\<in>maxfree M F n. card (blk k n))"
      by (rule card_UN_disjoint) (use finite_maxfree[OF F] in auto)
    then show ?thesis by simp
  qed
  have "card (\<Union>n\<in>{..M}. \<Union>k\<in>maxfree M F n. blk k n) = (\<Sum>n\<le>M. card (\<Union>k\<in>maxfree M F n. blk k n))"
  proof (rule card_UN_disjoint)
    show "\<forall>n\<in>{..M}. \<forall>m\<in>{..M}. n \<noteq> m \<longrightarrow>
        (\<Union>k\<in>maxfree M F n. blk k n) \<inter> (\<Union>k\<in>maxfree M F m. blk k m) = {}"
      using maxfree_disjoint by fastforce
  qed (use finite_maxfree[OF F] in auto)
  then show ?thesis by (simp only: maxfree_union layer)
qed

lemma fold_opt_sum:
  "(\<And>x. x \<in> set xs \<Longrightarrow> g x = Some (h x)) \<Longrightarrow>
    fold_opt (\<lambda>x s. do { c \<leftarrow> g x; Some (s + c * w x) }) xs s = Some (s + sum_list (map (\<lambda>x. h x * w x) xs))"
  for h :: "'a \<Rightarrow> nat"
  by (induction xs arbitrary: s) auto

lemma count_free_pages_correct:
  assumes rep: "ba_rep b F"
  shows "count_free_pages b = Some (card F)"
proof -
  let ?M = "ba_max_order b"
  have "do { m \<leftarrow> get_order_free b n; bt_count_unset m } = Some (card (maxfree ?M F n))" if "n \<in> set [0..<Suc ?M]" for n
    using ba_repD[OF rep, of n] that by (simp add: bt_count_unset_correct del: upt_Suc)
  from fold_opt_sum[of "[0..<Suc ?M]", OF this, where w = "\<lambda>n. 2 ^ n" and s = 0]
  have "count_free_pages b = Some (sum_list (map (\<lambda>n. card (maxfree ?M F n) * 2 ^ n) [0..<Suc ?M]))"
    by (simp add: count_free_pages_def del: upt_Suc)
  also have "sum_list (map (\<lambda>n. card (maxfree ?M F n) * 2 ^ n) [0..<Suc ?M]) = card F"
    unfolding card_maxfree[OF ba_rep_finite[OF rep], of ?M]
    by (simp add: interv_sum_list_conv_sum_set_nat lessThan_Suc_atMost atLeast0LessThan del: upt_Suc sum.lessThan_Suc)
  finally show ?thesis .
qed

lemma count_allocated_pages_correct:
  assumes rep: "ba_rep b F"
  shows "count_allocated_pages b = Some (card ({..<ba_len b} - F))"
proof -
  have F: "F \<subseteq> {..<ba_len b}" using rep by (simp add: ba_rep_def)
  then have "card F \<le> ba_len b" using card_mono[OF finite_lessThan F] by simp
  then show ?thesis using card_Diff_subset[OF ba_rep_finite[OF rep] F] count_free_pages_correct[OF rep]
    by (simp add: count_allocated_pages_def)
qed

lemma find_rev_upt:
  "(case List.find Q (rev [0..<n]) of None \<Rightarrow> \<forall>i<n. \<not> Q i | Some k \<Rightarrow> k < n \<and> Q k \<and> (\<forall>i<n. Q i \<longrightarrow> i \<le> k))"
proof (induction n)
  case (Suc n)
  then show ?case by (cases "Q n") (auto simp: less_Suc_eq split: option.splits)
qed simp

lemma highest_free_order_correct:
  assumes rep: "ba_rep b F"
  shows "\<exists>r. highest_free_order b = Some r \<and> (case r of
      None \<Rightarrow> F = {}
    | Some n \<Rightarrow> n \<le> ba_max_order b \<and> (\<exists>k. blk k n \<subseteq> F) \<and> (\<forall>m k. m \<le> ba_max_order b \<longrightarrow> blk k m \<subseteq> F \<longrightarrow> m \<le> n))"
proof -
  let ?M = "ba_max_order b" and ?Q = "\<lambda>n. maxfree (ba_max_order b) F n \<noteq> {}"
  have r: "highest_free_order b = Some (List.find ?Q (rev [0..<Suc ?M]))"
    unfolding highest_free_order_def
    by (rule find_opt_total) (use ba_repD[OF rep] in \<open>simp add: bt_has_unset_correct del: upt_Suc\<close>)
  note spec = find_rev_upt[where Q = ?Q and n = "Suc ?M"]
  show ?thesis
  proof (cases "List.find ?Q (rev [0..<Suc ?M])")
    case None
    then have "F = {}" using spec maxfree_union[of ?M F] by (simp add: less_Suc_eq_le del: upt_Suc)
    then show ?thesis using r None by (simp del: upt_Suc)
  next
    case (Some n)
    then have n: "n \<le> ?M" "maxfree ?M F n \<noteq> {}" "\<forall>i\<le>?M. maxfree ?M F i \<noteq> {} \<longrightarrow> i \<le> n"
      using spec by (simp_all add: less_Suc_eq_le del: upt_Suc)
    have "m \<le> n" if m: "m \<le> ?M" "blk k m \<subseteq> F" for m k
      using maxfree_cover[OF m(2,1)] n(3) by (blast intro: order_trans)
    moreover have "\<exists>k. blk k n \<subseteq> F" using n(2) by (auto simp: maxfree_def)
    ultimately show ?thesis using r Some n(1) by (auto simp del: upt_Suc)
  qed
qed

lemma find_free_from_correct:
  assumes rep: "ba_rep b F"
  shows "find_free_from b [i..<Suc (ba_max_order b)] (p div 2 ^ i) =
    Some (List.find (\<lambda>n. p div 2 ^ n \<in> maxfree (ba_max_order b) F n) [i..<Suc (ba_max_order b)])"
proof (induction "Suc (ba_max_order b) - i" arbitrary: i)
  case 0
  then show ?case by (simp add: upt_conv_Nil del: upt_Suc)
next
  case (Suc d)
  let ?M = "ba_max_order b"
  have i: "i \<le> ?M" using Suc.hyps(2) by simp
  note D = ba_repD[OF rep i]
  have cons: "[i..<Suc ?M] = i # [Suc i..<Suc ?M]" using i by (simp add: upt_conv_Cons del: upt_Suc)
  have half: "next_higher_order (p div 2 ^ i) = p div 2 ^ Suc i"
    by (metis div_mult2_eq next_higher_order_def power_Suc2)
  have IH: "find_free_from b [Suc i..<Suc ?M] (p div 2 ^ Suc i) =
      Some (List.find (\<lambda>n. p div 2 ^ n \<in> maxfree ?M F n) [Suc i..<Suc ?M])"
    by (rule Suc.hyps(1)) (use Suc.hyps(2) in simp)
  show ?case
  proof (cases "p div 2 ^ i < ba_len b div 2 ^ i")
    case True
    then show ?thesis unfolding cons using D(1,4) bt_len_correct[OF D(2)] ba_rep_get[OF rep i True] IH half
      by (simp del: power_Suc upt_Suc)
  next
    case False
    then have "p div 2 ^ i \<notin> maxfree ?M F i" using maxfree_below[OF rep] by blast
    then show ?thesis unfolding cons using False D(1,4) bt_len_correct[OF D(2)] IH half
      by (simp del: power_Suc upt_Suc)
  qed
qed

lemma find_free_order_correct:
  assumes rep: "ba_rep b F"
  shows "p \<notin> F \<Longrightarrow> find_free_order b p = Some None"
    "p \<in> F \<Longrightarrow> \<exists>n\<le>ba_max_order b. find_free_order b p = Some (Some n) \<and> p div 2 ^ n \<in> maxfree (ba_max_order b) F n"
proof -
  let ?M = "ba_max_order b"
  let ?Q = "\<lambda>n. p div 2 ^ n \<in> maxfree ?M F n"
  have r: "find_free_order b p = Some (List.find ?Q [0..<Suc ?M])"
    using find_free_from_correct[OF rep, of 0 p] by (simp add: find_free_order_def del: upt_Suc)
  have "p \<in> (\<Union>n\<in>{..?M}. \<Union>k\<in>maxfree ?M F n. blk k n) \<longleftrightarrow> (\<exists>n\<le>?M. ?Q n)" by auto
  then have iff: "p \<in> F \<longleftrightarrow> (\<exists>n\<le>?M. ?Q n)" by (simp only: maxfree_union)
  show "find_free_order b p = Some None" if "p \<notin> F"
    using that iff r by (simp add: find_None_iff less_Suc_eq_le del: upt_Suc)
  show "\<exists>n\<le>?M. find_free_order b p = Some (Some n) \<and> ?Q n" if "p \<in> F"
  proof (cases "List.find ?Q [0..<Suc ?M]")
    case None
    then show ?thesis using that iff by (auto simp: find_None_iff less_Suc_eq_le simp del: upt_Suc)
  next
    case (Some n)
    then have "n \<le> ?M" "?Q n" by (auto simp: find_Some_iff less_Suc_eq_le simp del: upt_Suc)
    then show ?thesis using r Some by (simp del: upt_Suc)
  qed
qed

text \<open>
  \<open>trailing_free_pages\<close> walks block by block from the last page down. Between two blocks it
  stands on the last page of a maximal block, or on a page that is not free.
\<close>

definition block_end :: "nat \<Rightarrow> nat set \<Rightarrow> nat \<Rightarrow> bool" where
  "block_end M F p \<longleftrightarrow> (\<forall>n\<le>M. p div 2 ^ n \<in> maxfree M F n \<longrightarrow> Suc p div 2 ^ n \<noteq> p div 2 ^ n)"

lemma block_end_start:
  assumes "block_end M F p" and "n \<le> M" and "p div 2 ^ n \<in> maxfree M F n"
  shows "Suc p = (p div 2 ^ n) * 2 ^ n + 2 ^ n"
proof -
  let ?k = "p div 2 ^ n"
  have "p \<in> {?k * 2 ^ n..<(?k + 1) * 2 ^ n}" "Suc p \<notin> {?k * 2 ^ n..<(?k + 1) * 2 ^ n}"
    unfolding blk_interval[symmetric] using assms by (simp_all add: block_end_def)
  then show ?thesis unfolding atLeastLessThan_iff add_mult_distrib mult_1 by linarith
qed

lemma trailing_loop_correct:
  assumes rep: "ba_rep b F" and "Suc p + acc = ba_len b" and "{Suc p..<ba_len b} \<subseteq> F"
    and "block_end (ba_max_order b) F p"
  shows "\<exists>t. trailing_loop b p acc = Some t \<and> t \<le> ba_len b \<and> {ba_len b - t..<ba_len b} \<subseteq> F \<and>
    (t < ba_len b \<longrightarrow> ba_len b - t - 1 \<notin> F)"
  using assms(2-4)
proof (induction p arbitrary: acc rule: less_induct)
  case (less p)
  let ?M = "ba_max_order b"
  show ?case
  proof (cases "p \<in> F")
    case False
    have "ba_len b - acc = Suc p" "ba_len b - Suc acc = p" using less.prems(1) by simp_all
    then show ?thesis using find_free_order_correct(1)[OF rep False] less.prems False
      by (subst trailing_loop.simps) auto
  next
    case True
    from find_free_order_correct(2)[OF rep True] obtain n where
      n: "n \<le> ?M" "find_free_order b p = Some (Some n)" "p div 2 ^ n \<in> maxfree ?M F n" by blast
    let ?s = "p div 2 ^ n * 2 ^ n"
    have s: "Suc p = ?s + 2 ^ n" by (rule block_end_start[OF less.prems(3) n(1,3)])
    have "blk (p div 2 ^ n) n \<subseteq> F" using n(3) by (simp add: maxfree_def)
    then have "{?s..<Suc p} \<subseteq> F" unfolding s blk_interval add_mult_distrib mult_1 .
    moreover have "{?s..<ba_len b} \<subseteq> {?s..<Suc p} \<union> {Suc p..<ba_len b}" by auto
    ultimately have free: "{?s..<ba_len b} \<subseteq> F" using less.prems(2) by blast
    show ?thesis
    proof (cases "p < 2 ^ n")
      case big: True
      then have "?s = 0" by simp
      then have "acc + 2 ^ n = ba_len b" using s less.prems(1) by simp
      then show ?thesis using n(2) big free \<open>?s = 0\<close> by (subst trailing_loop.simps) (auto simp: subset_iff)
    next
      case small: False
      then have q: "Suc (p - 2 ^ n) = ?s" using s by simp
      have "block_end ?M F (p - 2 ^ n)"
        unfolding block_end_def
      proof (intro allI impI notI)
        fix m assume m: "m \<le> ?M" "(p - 2 ^ n) div 2 ^ m \<in> maxfree ?M F m"
          "Suc (p - 2 ^ n) div 2 ^ m = (p - 2 ^ n) div 2 ^ m"
        have "?s div 2 ^ n = p div 2 ^ n" by simp
        then have "m = n" using block_of_page_unique[of ?s n ?M F m] n m q by simp
        then show False using m(3) q by (metis Suc_n_not_le_n blk_interval atLeastLessThan_iff in_blk \<open>?s div 2 ^ n = p div 2 ^ n\<close>)
      qed
      moreover have "p - 2 ^ n < p" using small by (intro diff_less) (auto simp: not_less intro: less_le_trans[of 0 "2 ^ n"])
      moreover have "Suc (p - 2 ^ n) + (acc + 2 ^ n) = ba_len b" using less.prems(1) small by simp
      ultimately obtain t where "trailing_loop b (p - 2 ^ n) (acc + 2 ^ n) = Some t \<and> t \<le> ba_len b \<and>
          {ba_len b - t..<ba_len b} \<subseteq> F \<and> (t < ba_len b \<longrightarrow> ba_len b - t - 1 \<notin> F)"
        using less.IH[of "p - 2 ^ n" "acc + 2 ^ n"] free q by auto
      then show ?thesis using n(2) small by (subst trailing_loop.simps) auto
    qed
  qed
qed

lemma trailing_free_pages_correct:
  assumes rep: "ba_rep b F" and "0 < ba_len b"
  shows "\<exists>t. trailing_free_pages b = Some t \<and> t \<le> ba_len b \<and> {ba_len b - t..<ba_len b} \<subseteq> F \<and>
    (t < ba_len b \<longrightarrow> ba_len b - t - 1 \<notin> F)"
proof -
  let ?p = "ba_len b - 1"
  have "block_end (ba_max_order b) F ?p"
    unfolding block_end_def
  proof (intro allI impI notI)
    fix n assume "n \<le> ba_max_order b" "?p div 2 ^ n \<in> maxfree (ba_max_order b) F n"
      "Suc ?p div 2 ^ n = ?p div 2 ^ n"
    then have "Suc ?p \<in> blk (?p div 2 ^ n) n" "blk (?p div 2 ^ n) n \<subseteq> F" by (simp_all add: maxfree_def)
    then have "Suc ?p \<in> {..<ba_len b}" using rep by (auto simp: ba_rep_def)
    then show False using assms(2) by simp
  qed
  from trailing_loop_correct[OF rep _ _ this, of 0] assms(2) show ?thesis
    by (simp add: trailing_free_pages_def)
qed

subsection \<open>Serialisation\<close>

lemma bt_to_vec_length:
  assumes inv: "bt_inv m" and v: "bt_to_vec m = Some v"
  shows "length v \<le> 4 + length (bt_heights m) * (16 + bt_size m)"
proof -
  let ?n = "length (bt_heights m)"
  obtain vecs offs where vecs: "map_opt gb_to_vec (bt_heights m) = Some vecs"
    and offs: "end_offsets (4 + ?n * 4) (map length vecs) = Some offs"
    and v': "v = le_bytes 4 ?n @ concat (map (le_bytes 4) offs) @ concat vecs"
    by (rule bt_to_vec_sections[OF v])
  have "length (concat (map (le_bytes 4) offs)) = 4 * ?n"
    using end_offsets_length[OF offs] map_opt_length[OF vecs] length_concat_const[of offs "le_bytes 4" 4] by simp
  moreover have "length (concat vecs) \<le> ?n * (12 + bt_size m)"
    using bt_sections_length[OF inv vecs] by (simp add: length_concat)
  ultimately show ?thesis by (simp add: v' algebra_simps)
qed

definition ba_trim :: "BuddyAllocator \<Rightarrow> BuddyAllocator" where
  "ba_trim b = b\<lparr>ba_free := map bt_trim (ba_free b)\<rparr>"

lemma ba_trim_rep: "ba_rep b F \<Longrightarrow> ba_rep (ba_trim b) F"
  by (auto simp: ba_rep_def ba_trim_def bt_trim_correct)

lemma bt_to_vec_bounded:
  assumes inv: "bt_inv m" and "length (bt_heights m) \<le> 8" "bt_size m \<le> 2 ^ 20"
  shows "\<exists>v. bt_to_vec m = Some v \<and> length v \<le> 4 + 8 * (16 + 2 ^ 20)"
proof -
  have b: "4 + length (bt_heights m) * (16 + bt_size m) \<le> 4 + 8 * (16 + 2 ^ 20)"
    using assms(2,3) by (intro add_left_mono mult_le_mono) auto
  then have "4 + length (bt_heights m) * (16 + bt_size m) < 2 ^ 32" by (rule le_less_trans) simp
  from bt_to_vec_defined[OF inv this] bt_to_vec_length[OF inv] b show ?thesis by (meson order_trans)
qed

lemma ba_to_vec_defined:
  assumes rep: "ba_rep b F" and len: "ba_len b \<le> 2 ^ 20" and h: "\<forall>m\<in>set (ba_free b). length (bt_heights m) \<le> 8"
  shows "\<exists>v. ba_to_vec b = Some v"
proof -
  have each: "\<exists>v. bt_to_vec m = Some v \<and> length v \<le> 4 + 8 * (16 + 2 ^ 20)" if m: "m \<in> set (ba_free b)" for m
  proof -
    from m obtain i where i: "i \<le> ba_max_order b" "m = ba_free b ! i"
      using rep by (auto simp: in_set_conv_nth ba_rep_def less_Suc_eq_le)
    have "bt_size m \<le> 2 ^ 20"
      using ba_repD(4)[OF rep i(1)] len div_le_dividend[of "ba_len b" "2 ^ i"] unfolding i(2) by linarith
    then show ?thesis using bt_to_vec_bounded[of m] rep h m by (simp add: ba_rep_def)
  qed
  then have "map_opt bt_to_vec (ba_free b) = Some (map (\<lambda>m. the (bt_to_vec m)) (ba_free b))"
    by (intro map_opt_all_Some) fastforce
  moreover have "sum_list (map (\<lambda>m. length (the (bt_to_vec m))) (ba_free b)) \<le> 21 * (4 + 8 * (16 + 2 ^ 20))"
  proof -
    have "sum_list (map (\<lambda>m. length (the (bt_to_vec m))) (ba_free b)) \<le> sum_list (map (\<lambda>m. 4 + 8 * (16 + 2 ^ 20)) (ba_free b))"
      using each by (intro sum_list_mono) fastforce
    also have "\<dots> = length (ba_free b) * (4 + 8 * (16 + 2 ^ 20))" by (simp add: sum_list_triv)
    also have "\<dots> \<le> 21 * (4 + 8 * (16 + 2 ^ 20))"
      using rep by (intro mult_le_mono1) (simp add: ba_rep_def MAX_MAX_PAGE_ORDER_def)
    finally show ?thesis .
  qed
  ultimately obtain vecs where vecs: "map_opt bt_to_vec (ba_free b) = Some vecs"
    "sum_list (map length vecs) \<le> 21 * (4 + 8 * (16 + 2 ^ 20))" by (auto simp: comp_def)
  have M: "ba_max_order b \<le> 20" "length vecs = Suc (ba_max_order b)"
    using rep map_opt_length[OF vecs(1)] by (simp_all add: ba_rep_def MAX_MAX_PAGE_ORDER_def)
  then have "8 + (ba_max_order b + 1) * 4 + sum_list (map length vecs) < 2 ^ 32" using vecs(2) by simp
  from end_offsets_defined[OF this] obtain offs where
    "end_offsets (8 + (ba_max_order b + 1) * 4) (map length vecs) = Some offs" by blast
  then show ?thesis using vecs(1) M end_offsets_length by (force simp: ba_to_vec_def)
qed

lemma ba_round_trip:
  assumes rep: "ba_rep b F" and len: "ba_len b < 2 ^ 32" and v: "ba_to_vec b = Some v"
  shows "ba_from_bytes v = Some (ba_trim b)"
proof -
  let ?M = "ba_max_order b"
  from v obtain vecs offs where vecs: "map_opt bt_to_vec (ba_free b) = Some vecs"
    and offs: "end_offsets (8 + (?M + 1) * 4) (map length vecs) = Some offs"
    and v': "v = word_of_nat ?M # [0, 0, 0] @ le_bytes 4 (ba_len b) @ concat (map (le_bytes 4) offs) @ concat vecs"
    by (auto simp: ba_to_vec_def bind_Some_iff)
  have M: "?M \<le> 20" "length (ba_free b) = Suc ?M" "\<forall>m\<in>set (ba_free b). bt_inv m"
    using rep by (simp_all add: ba_rep_def MAX_MAX_PAGE_ORDER_def)
  have n: "length vecs = Suc ?M" "length offs = Suc ?M"
    using map_opt_length[OF vecs] end_offsets_length[OF offs] M(2) by simp_all
  have sec: "bt_from_bytes (vecs ! i) = Some (map bt_trim (ba_free b) ! i)" if "i < length vecs" for i
  proof -
    have i: "i < length (ba_free b)" "i \<le> ?M" using that n M(2) by simp_all
    have "ba_len b div 2 ^ i < 2 ^ 32" using len by (rule le_less_trans[OF div_le_dividend])
    then have "bt_size (ba_free b ! i) < 2 ^ 32" using ba_repD(4)[OF rep i(2)] by simp
    then show ?thesis using bt_round_trip[OF _ _ map_opt_nth[OF vecs i(1)]] M(3) i(1) by simp
  qed
  have "read_sections v bt_from_bytes (length vecs) 8 (8 + (?M + 1) * 4) = Some (map bt_trim (ba_free b))"
    by (rule read_sections_written[OF offs sec,
          where pre = "word_of_nat ?M # [0, 0, 0] @ le_bytes 4 (ba_len b)" and mid = "[]" and post = "[]"])
      (use n M(2) v' in simp_all)
  moreover have "unat (word_of_nat ?M :: u8) = ?M" using M(1) by (simp add: unat_of_nat)
  moreover have "subslice v 4 8 = Some (le_bytes 4 (ba_len b))"
    using v' by (simp add: subslice_def)
  moreover have "idx v 0 = Some (word_of_nat ?M)" by (simp add: v')
  ultimately show ?thesis using n(1) len
    by (simp add: ba_from_bytes_def ba_trim_def Let_def del: read_sections.simps)
qed

lemma ba_hash_trim:
  assumes "\<forall>m\<in>set (ba_free b). bt_inv m"
  shows "ba_xxh3_hash xxh3 (ba_trim b) = ba_xxh3_hash xxh3 b"
proof -
  have "fold_opt (\<lambda>x r. map_option (\<lambda>h. r XOR h) (bt_xxh3_hash xxh3 x)) (map bt_trim ms) s =
        fold_opt (\<lambda>x r. map_option (\<lambda>h. r XOR h) (bt_xxh3_hash xxh3 x)) ms s" if "\<forall>m\<in>set ms. bt_inv m" for ms s
    using that
  proof (induction ms arbitrary: s)
    case (Cons m ms)
    then show ?case by (cases "bt_xxh3_hash xxh3 m") (auto simp: bt_xxh3_hash_trim)
  qed simp
  then show ?thesis using assms by (simp add: ba_xxh3_hash_def ba_trim_def)
qed

lemma ba_hash_canonical:
  assumes rep: "ba_rep b F" "ba_rep b' F" and sh: "same_shape b b'"
  shows "ba_xxh3_hash xxh3 b' = ba_xxh3_hash xxh3 b"
proof -
  have "map (bt_xxh3_hash xxh3) (ba_free b') = map (bt_xxh3_hash xxh3) (ba_free b)"
  proof (rule nth_equalityI)
    show len: "length (map (bt_xxh3_hash xxh3) (ba_free b')) = length (map (bt_xxh3_hash xxh3) (ba_free b))"
      using rep sh by (simp add: ba_rep_def same_shape_def)
    fix i assume "i < length (map (bt_xxh3_hash xxh3) (ba_free b'))"
    then have i: "i \<le> ba_max_order b'" "i \<le> ba_max_order b" using rep(2) sh by (simp_all add: ba_rep_def same_shape_def)
    note D = ba_repD[OF rep(1) i(2)] ba_repD[OF rep(2) i(1)]
    have "bt_capacity (ba_free b' ! i) = bt_capacity (ba_free b ! i)"
      using sh D by (metis length_map nth_map same_shape_def)
    then have "bt_xxh3_hash xxh3 (ba_free b' ! i) = bt_xxh3_hash xxh3 (ba_free b ! i)"
      using D sh by (intro bt_xxh3_hash_canonical) (simp_all add: same_shape_def)
    then show "map (bt_xxh3_hash xxh3) (ba_free b') ! i = map (bt_xxh3_hash xxh3) (ba_free b) ! i"
      using D by simp
  qed
  moreover have "fold_opt (\<lambda>x r. map_option (\<lambda>h. r XOR h) (f x)) ms s =
      fold_opt (\<lambda>h r. map_option (\<lambda>h. r XOR h) h) (map f ms) s" for f :: "BtreeBitmap \<Rightarrow> u128 option" and ms s
    by (induction ms arbitrary: s) (auto intro!: bind_option_cong)
  ultimately show ?thesis by (simp only: ba_xxh3_hash_def)
qed

subsection \<open>Allocator histories\<close>

text \<open>Recording an allocation succeeds only when the block was free: otherwise it runs past the highest order.\<close>

lemma record_alloc_inner_only_free:
  assumes rep: "ba_rep b F"
  shows "record_alloc_inner b k n = Some b' \<Longrightarrow> blk k n \<subseteq> F"
proof (induction "length (ba_free b) - n" arbitrary: k n b' rule: less_induct)
  case less
  note call = less.prems[unfolded record_alloc_inner.simps[of b k n]]
  then have n: "n < length (ba_free b)" by (auto simp: bind_Some_iff get_order_free_def idx_eq_Some_iff)
  then have nM: "n \<le> ba_max_order b" using rep by (simp add: ba_rep_def)
  note D = ba_repD[OF rep nM]
  from call D(1) obtain g where g: "bt_get (ba_free b ! n) k = Some g" by (auto simp: bind_Some_iff)
  then have kl: "k < ba_len b div 2 ^ n"
    using D(4) bt_invD(3)[OF D(2)] by (auto simp: bt_get_def gb_get_def bind_Some_iff bt_size_def)
  show ?case
  proof (cases g)
    case True
    with call D(1) g obtain b1 where "record_alloc_inner b (k div 2) (Suc n) = Some b1"
      by (auto simp: bind_Some_iff next_higher_order_def Let_def)
    then have "blk (k div 2) (Suc n) \<subseteq> F" by (rule less.hyps[rotated]) (use n in simp)
    then show ?thesis using blk_parent[of k n] by blast
  next
    case False
    then show ?thesis using ba_rep_get[OF rep nM kl] g by (simp add: maxfree_def)
  qed
qed

text \<open>
  A history of an allocator: the state after a sequence of successful calls, together with the
  set of blocks \<open>(page, order)\<close> that are handed out. A block is only freed by its owner, and the
  allocator is only shrunk when no block that is handed out reaches beyond the new length.
\<close>

inductive buddy_history :: "nat \<Rightarrow> BuddyAllocator \<Rightarrow> (nat \<times> nat) set \<Rightarrow> bool" for capacity where
  created: "ba_new n capacity = Some b \<Longrightarrow> 0 < n \<Longrightarrow> n \<le> capacity \<Longrightarrow> buddy_history capacity b {}"
| allocated: "buddy_history capacity b A \<Longrightarrow> ba_alloc b order = Some (Some page, b') \<Longrightarrow>
    buddy_history capacity b' (insert (page, order) A)"
| allocated_lowest: "buddy_history capacity b A \<Longrightarrow> alloc_lowest b order = Some (Some page, b') \<Longrightarrow>
    buddy_history capacity b' (insert (page, order) A)"
| recorded: "buddy_history capacity b A \<Longrightarrow> record_alloc b page order = Some b' \<Longrightarrow>
    buddy_history capacity b' (insert (page, order) A)"
| freed: "buddy_history capacity b A \<Longrightarrow> (page, order) \<in> A \<Longrightarrow> ba_free_page b page order = Some b' \<Longrightarrow>
    buddy_history capacity b' (A - {(page, order)})"
| resized: "buddy_history capacity b A \<Longrightarrow> 0 < n \<Longrightarrow> n \<le> capacity \<Longrightarrow>
    (\<forall>(page, order)\<in>A. blk page order \<subseteq> {..<n}) \<Longrightarrow> ba_resize b n = Some b' \<Longrightarrow>
    buddy_history capacity b' A"

definition covered :: "(nat \<times> nat) set \<Rightarrow> nat set" where
  "covered A = (\<Union>(page, order)\<in>A. blk page order)"

definition disjoint_blocks :: "(nat \<times> nat) set \<Rightarrow> bool" where
  "disjoint_blocks A \<longleftrightarrow> (\<forall>x\<in>A. \<forall>y\<in>A. x \<noteq> y \<longrightarrow> blk (fst x) (snd x) \<inter> blk (fst y) (snd y) = {})"

lemma covered_insert [simp]: "covered (insert (k, n) A) = blk k n \<union> covered A"
  by (auto simp: covered_def)

lemma covered_empty [simp]: "covered {} = {}"
  by (simp add: covered_def)

lemma disjoint_blocks_insert:
  assumes "disjoint_blocks A" and "blk k n \<inter> covered A = {}"
  shows "disjoint_blocks (insert (k, n) A)"
  using assms unfolding disjoint_blocks_def covered_def by fastforce

lemma covered_remove:
  assumes "disjoint_blocks A" and "(k, n) \<in> A"
  shows "covered (A - {(k, n)}) = covered A - blk k n"
  using assms unfolding disjoint_blocks_def covered_def by fastforce

definition history_inv :: "nat \<Rightarrow> BuddyAllocator \<Rightarrow> (nat \<times> nat) set \<Rightarrow> bool" where
  "history_inv capacity b A \<longleftrightarrow> ba_rep b ({..<ba_len b} - covered A) \<and> covered A \<subseteq> {..<ba_len b} \<and>
     disjoint_blocks A \<and> finite A \<and> 0 < ba_len b \<and> ba_len b \<le> capacity \<and>
     (\<forall>(page, order)\<in>A. order \<le> ba_max_order b) \<and>
     calculate_usable_order capacity = Some (ba_max_order b) \<and>
     (\<forall>i\<le>ba_max_order b. capacity div 2 ^ i \<le> bt_capacity (ba_free b ! i))"

lemma same_capacity:
  assumes "map bt_capacity (ba_free b') = map bt_capacity (ba_free b)" and "i < length (ba_free b')"
  shows "bt_capacity (ba_free b' ! i) = bt_capacity (ba_free b ! i)"
  using assms by (metis length_map nth_map)

lemma history_take:
  assumes inv: "history_inv capacity b A" and n: "n \<le> ba_max_order b"
    and free: "blk k n \<subseteq> {..<ba_len b} - covered A"
    and rep: "ba_rep b' ({..<ba_len b} - covered A - blk k n)" and sh: "same_shape b b'"
  shows "history_inv capacity b' (insert (k, n) A)"
proof -
  have "{..<ba_len b} - covered A - blk k n = {..<ba_len b'} - covered (insert (k, n) A)"
    using sh by (auto simp: same_shape_def)
  moreover have "disjoint_blocks (insert (k, n) A)"
    using inv free by (intro disjoint_blocks_insert) (auto simp: history_inv_def)
  moreover have "bt_capacity (ba_free b' ! i) = bt_capacity (ba_free b ! i)" if "i \<le> ba_max_order b" for i
    using same_capacity[of b' b i] sh rep that by (simp add: same_shape_def ba_rep_def)
  ultimately show ?thesis
    using inv n free rep sh unfolding history_inv_def same_shape_def by auto
qed

lemma history_alloc:
  assumes inv: "history_inv capacity b A" and call: "ba_alloc b n = Some (Some k, b')"
  shows "history_inv capacity b' (insert (k, n) A)"
proof -
  let ?F = "{..<ba_len b} - covered A"
  from inv have rep: "ba_rep b ?F" by (simp add: history_inv_def)
  from alloc_inner_correct[OF rep, of n] call have
    *: "chosen (ba_max_order b) ?F n k" "ba_rep b' (?F - blk k n)" "same_shape b b'" "n \<le> ba_max_order b"
    by (auto simp: ba_alloc_def some_block_iff split: if_splits)
  show ?thesis by (rule history_take[OF inv *(4) chosen_free[OF *(1)] *(2,3)]) simp
qed

lemma history_alloc_lowest:
  assumes inv: "history_inv capacity b A" and call: "alloc_lowest b n = Some (Some k, b')"
  shows "history_inv capacity b' (insert (k, n) A)"
proof -
  let ?F = "{..<ba_len b} - covered A"
  from inv have rep: "ba_rep b ?F" by (simp add: history_inv_def)
  from alloc_lowest_correct[OF rep, of n] call have
    "n \<le> ba_max_order b \<and> blk k n \<subseteq> ?F \<and> ba_rep b' (?F - blk k n) \<and> same_shape b b'"
    by (cases "n \<le> ba_max_order b \<and> (\<exists>k. blk k n \<subseteq> ?F)") auto
  then show ?thesis using history_take[OF inv] by blast
qed

lemma history_record:
  assumes inv: "history_inv capacity b A" and call: "record_alloc b k n = Some b'"
  shows "history_inv capacity b' (insert (k, n) A)"
proof -
  let ?F = "{..<ba_len b} - covered A"
  from inv have rep: "ba_rep b ?F" by (simp add: history_inv_def)
  from call have n: "n \<le> ba_max_order b" and inner: "record_alloc_inner b k n = Some b'"
    by (auto simp: record_alloc_def bind_Some_iff)
  note free = record_alloc_inner_only_free[OF rep inner]
  from record_alloc_inner_correct[OF rep n free] inner have "ba_rep b' (?F - blk k n)" "same_shape b b'" by auto
  then show ?thesis by (rule history_take[OF inv n free])
qed

lemma history_free:
  assumes inv: "history_inv capacity b A" and owner: "(k, n) \<in> A"
  shows "\<exists>b'. ba_free_page b k n = Some b' \<and> history_inv capacity b' (A - {(k, n)}) \<and> same_shape b b'"
proof -
  let ?F = "{..<ba_len b} - covered A"
  from inv have rep: "ba_rep b ?F" by (simp add: history_inv_def)
  have n: "n \<le> ba_max_order b" using inv owner by (auto simp: history_inv_def)
  have sub: "blk k n \<subseteq> covered A" using owner by (auto simp: covered_def)
  then have below: "blk k n \<subseteq> {..<ba_len b}" using inv by (auto simp: history_inv_def)
  have disj: "blk k n \<inter> ?F = {}" using sub by blast
  from free_inner_correct[OF rep n below disj] obtain b' where
    b': "free_inner b k n = Some b'" "ba_rep b' (?F \<union> blk k n)" "same_shape b b'" by blast
  have "\<not> blk k n \<subseteq> ?F" using disj blk_nonempty[of k n] by blast
  then have "k \<notin> maxfree (ba_max_order b) ?F n" by (simp add: maxfree_def)
  then have "ba_free_page b k n = Some b'"
    using b'(1) ba_repD(1)[OF rep n] ba_rep_get[OF rep n] below[unfolded blk_below] by (simp add: ba_free_page_def)
  moreover have "covered (A - {(k, n)}) = covered A - blk k n"
    using inv by (intro covered_remove[OF _ owner]) (simp add: history_inv_def)
  moreover have "?F \<union> blk k n = {..<ba_len b} - (covered A - blk k n)" using below by blast
  moreover have "disjoint_blocks (A - {(k, n)})" using inv by (auto simp: history_inv_def disjoint_blocks_def)
  moreover have "bt_capacity (ba_free b' ! i) = bt_capacity (ba_free b ! i)" if "i \<le> ba_max_order b" for i
    using same_capacity[of b' b i] b'(2,3) that by (simp add: same_shape_def ba_rep_def)
  ultimately show ?thesis using inv b'(2,3) unfolding history_inv_def same_shape_def by auto
qed

lemma history_resize:
  assumes inv: "history_inv capacity b A" and n: "0 < n" "n \<le> capacity" "capacity < 2 ^ 32"
    and fit: "\<forall>(k, m)\<in>A. blk k m \<subseteq> {..<n}"
  shows "\<exists>b'. ba_resize b n = Some b' \<and> history_inv capacity b' A \<and> ba_len b' = n"
proof -
  let ?F = "{..<ba_len b} - covered A"
  from inv have rep: "ba_rep b ?F" by (simp add: history_inv_def)
  have cov: "covered A \<subseteq> {..<n}" using fit by (auto simp: covered_def)
  have goal: ?thesis if b': "ba_resize b n = Some b'" "ba_rep b' F'" "ba_len b' = n" "ba_max_order b' = ba_max_order b"
    "map bt_capacity (ba_free b') = map bt_capacity (ba_free b)" "F' = {..<n} - covered A" for b' F'
  proof -
    have "bt_capacity (ba_free b' ! i) = bt_capacity (ba_free b ! i)" if "i \<le> ba_max_order b" for i
      using same_capacity[OF b'(5)] b'(2,4) that by (simp add: ba_rep_def)
    then show ?thesis using b' inv n cov unfolding history_inv_def by auto
  qed
  show ?thesis
  proof (cases "ba_len b < n")
    case True
    have cap: "n div 2 ^ i \<le> bt_capacity (ba_free b ! i)" if "i \<le> ba_max_order b" for i
    proof -
      have "n div 2 ^ i \<le> capacity div 2 ^ i" using n(2) by (rule div_le_mono)
      also have "\<dots> \<le> bt_capacity (ba_free b ! i)" using inv that by (simp add: history_inv_def)
      finally show ?thesis .
    qed
    have "0 < ba_len b" "covered A \<subseteq> {..<ba_len b}" using inv by (simp_all add: history_inv_def)
    moreover from this have "?F \<union> {ba_len b..<n} = {..<n} - covered A" using True by auto
    ultimately show ?thesis using ba_resize_grow[OF rep _ True _ cap] n goal by fastforce
  next
    case False
    then have l: "n \<le> ba_len b" by simp
    have "{n..<ba_len b} \<subseteq> ?F" "?F - {n..<ba_len b} = {..<n} - covered A" using cov l by auto
    then show ?thesis using ba_resize_shrink[OF rep l] goal by fastforce
  qed
qed

lemma history_created:
  assumes "0 < n" and "n \<le> capacity" and "capacity < 2 ^ 32"
  shows "\<exists>b. ba_new n capacity = Some b \<and> history_inv capacity b {} \<and> ba_len b = n"
  using ba_new_correct[OF assms(2) _ assms(3)] assms
  by (auto simp: history_inv_def covered_def disjoint_blocks_def)

lemma buddy_history_inv:
  assumes "buddy_history capacity b A" and "capacity < 2 ^ 32"
  shows "history_inv capacity b A"
  using assms(1)
proof induction
  case (created n b)
  then show ?case using history_created[of n capacity] assms(2) by auto
next
  case (freed b A page order b')
  then show ?case using history_free[of capacity b A page order] by auto
next
  case (resized b A n b')
  then show ?case using history_resize[of capacity b A n] assms(2) by auto
qed (simp_all add: history_alloc history_alloc_lowest history_record)

lemma covered_card:
  assumes "disjoint_blocks A" and "finite A"
  shows "card (covered A) = (\<Sum>(page, order)\<in>A. 2 ^ order)"
proof -
  have "card (\<Union>x\<in>A. blk (fst x) (snd x)) = (\<Sum>x\<in>A. card (blk (fst x) (snd x)))"
    by (rule card_UN_disjoint) (use assms in \<open>auto simp: disjoint_blocks_def\<close>)
  then show ?thesis by (simp add: covered_def case_prod_beta')
qed

subsection \<open>Properties\<close>

text \<open>
  C5. Whatever the history of an allocator, the blocks it has handed out never overlap and lie
  inside the region, a page is reported free exactly when no such block covers it, and the number
  of allocated pages is the sum of the sizes of those blocks.
\<close>

theorem buddy_blocks_never_overlap:
  assumes "buddy_history capacity b A" and "capacity < 2 ^ 32"
  shows "disjoint_blocks A \<and> covered A \<subseteq> {..<ba_len b} \<and>
    (\<forall>p<ba_len b. find_free_order b p = Some None \<longleftrightarrow> p \<in> covered A) \<and>
    count_allocated_pages b = Some (\<Sum>(page, order)\<in>A. 2 ^ order) \<and>
    debug_check_consistency b = Some ()"
proof -
  from buddy_history_inv[OF assms] have inv: "ba_rep b ({..<ba_len b} - covered A)"
    "covered A \<subseteq> {..<ba_len b}" "disjoint_blocks A" "finite A" by (simp_all add: history_inv_def)
  have "find_free_order b p = Some None \<longleftrightarrow> p \<in> covered A" if "p < ba_len b" for p
    using find_free_order_correct[OF inv(1), of p] that by (cases "p \<in> covered A") auto
  moreover have "{..<ba_len b} - ({..<ba_len b} - covered A) = covered A" using inv(2) by blast
  ultimately show ?thesis
    using inv count_allocated_pages_correct[OF inv(1)] covered_card[OF inv(3,4)] debug_check_ok[OF inv(1)] by simp
qed

lemma small_history:
  "\<exists>b b'. buddy_history 16 b {} \<and> ba_len b = 10 \<and> ba_alloc b 2 = Some (Some 0, b') \<and> buddy_history 16 b' {(0, 2)}"
proof -
  from history_created[of 10 16] obtain b where b: "ba_new 10 16 = Some b" "history_inv 16 b {}" "ba_len b = 10"
    by auto
  have h: "buddy_history 16 b {}" by (rule created[OF b(1)]) simp_all
  have rep: "ba_rep b {..<10}" using b(2,3) by (simp add: history_inv_def covered_def)
  from ba_new_correct[of 10 16] b(1) have M: "ba_max_order b = 4"
    by (auto simp: calculate_usable_order_def leading_zeros32_def MAX_MAX_PAGE_ORDER_def bit_length.simps Let_def)
  have "maxfree 4 {..<10} 2 = {}" "maxfree 4 {..<10} 3 = {0}"
    by (auto simp: maxfree_def blk_below)
  moreover from this have zero: "chosen 4 {..<10} 2 k \<Longrightarrow> k = 0" for k
    by (auto simp: chosen_def numeral_eq_Suc le_Suc_eq)
  moreover have "\<exists>m. 2 \<le> m \<and> m \<le> ba_max_order b \<and> maxfree (ba_max_order b) {..<10} m \<noteq> {}"
    using calculation(2) M by (intro exI[of _ 3]) simp
  ultimately obtain b' where a: "ba_alloc b 2 = Some (Some 0, b')"
    using alloc_inner_correct[OF rep, of 2] M by (auto simp: ba_alloc_def)
  show ?thesis using h b(3) a allocated[OF h a] by blast
qed

theorem buddy_blocks_never_overlap_witness:
  "\<exists>b b'. buddy_history 16 b {} \<and> ba_alloc b 2 = Some (Some 0, b') \<and> buddy_history 16 b' {(0, 2)} \<and>
     find_free_order b' 3 = Some None \<and> count_allocated_pages b' = Some 4"
proof -
  obtain b b' where h: "buddy_history 16 b {}" "ba_len b = 10" "ba_alloc b 2 = Some (Some 0, b')"
    "buddy_history 16 b' {(0, 2)}" using small_history by blast
  have cap: "(16 :: nat) < 2 ^ 32" by simp
  note safe = buddy_blocks_never_overlap[OF h(4) cap]
  have "3 \<in> covered {(0, 2)}" by simp
  moreover from safe have "covered {(0, 2)} \<subseteq> {..<ba_len b'}" by blast
  ultimately have "3 < ba_len b'" by (metis lessThan_iff subsetD)
  then have "find_free_order b' 3 = Some None" "count_allocated_pages b' = Some 4" using safe by auto
  then show ?thesis using h by blast
qed

text \<open>
  C9. Allocation never fails while it could succeed: \<open>alloc\<close> returns a block exactly when some
  aligned block of the requested order has no page handed out, and \<open>alloc_lowest\<close> then returns the
  lowest such block, although it may have to split a block of any higher order for it.
\<close>

theorem buddy_alloc_complete:
  assumes "buddy_history capacity b A" and "capacity < 2 ^ 32"
  shows "(case ba_alloc b n of
      None \<Rightarrow> False
    | Some (None, b') \<Rightarrow> b' = b \<and> (n \<le> ba_max_order b \<longrightarrow> (\<forall>k. \<not> blk k n \<subseteq> {..<ba_len b} - covered A))
    | Some (Some k, b') \<Rightarrow> n \<le> ba_max_order b \<and> blk k n \<subseteq> {..<ba_len b} - covered A) \<and>
    (case alloc_lowest b n of
      None \<Rightarrow> False
    | Some (None, b') \<Rightarrow> b' = b \<and> (n \<le> ba_max_order b \<longrightarrow> (\<forall>k. \<not> blk k n \<subseteq> {..<ba_len b} - covered A))
    | Some (Some k, b') \<Rightarrow> n \<le> ba_max_order b \<and> blk k n \<subseteq> {..<ba_len b} - covered A \<and>
        (\<forall>j. blk j n \<subseteq> {..<ba_len b} - covered A \<longrightarrow> k \<le> j))"
proof -
  let ?F = "{..<ba_len b} - covered A"
  from buddy_history_inv[OF assms] have rep: "ba_rep b ?F" by (simp add: history_inv_def)
  show ?thesis
  proof (cases "n \<le> ba_max_order b \<and> (\<exists>k. blk k n \<subseteq> ?F)")
    case True
    from alloc_inner_correct[OF rep, of n] True obtain k b' where
      "alloc_inner b n = Some (Some k, b')" "chosen (ba_max_order b) ?F n k" by (auto simp: some_block_iff)
    with chosen_free[of "ba_max_order b" ?F n k] alloc_lowest_correct[OF rep, of n] True show ?thesis
      by (auto simp: ba_alloc_def)
  next
    case False
    then have "alloc_inner b n = Some (None, b)" "alloc_lowest b n = Some (None, b)"
      using alloc_inner_correct[OF rep, of n] alloc_lowest_correct[OF rep, of n]
      unfolding some_block_iff by simp_all
    then show ?thesis using False by (auto simp: ba_alloc_def)
  qed
qed

theorem buddy_alloc_complete_witness:
  "\<exists>b k b'. buddy_history 16 b {(0, 2)} \<and> alloc_lowest b 1 = Some (Some k, b') \<and> k = 2"
proof -
  obtain b0 b where h: "ba_len b0 = 10" "ba_alloc b0 2 = Some (Some 0, b)" "buddy_history 16 b0 {}"
    "buddy_history 16 b {(0, 2)}" using small_history by blast
  from history_alloc[OF buddy_history_inv[OF h(3)] h(2)] have inv: "history_inv 16 b {(0, 2)}" by simp
  from h(2) alloc_inner_correct[of b0 "{..<10}" 2] buddy_history_inv[OF h(3)] h(1)
  have len: "ba_len b = 10" "ba_max_order b = ba_max_order b0" "2 \<le> ba_max_order b0"
    by (auto simp: history_inv_def covered_def ba_alloc_def same_shape_def some_block_iff split: if_splits)
  have cov: "covered {(0, 2)} = {0..<4}" by (simp add: covered_def blk_interval)
  have two: "blk 2 1 \<subseteq> {..<10} - covered {(0, 2)}" unfolding cov by (auto simp: blk_interval)
  have low: "2 \<le> k" if "blk k 1 \<subseteq> {..<10} - covered {(0, 2)}" for k
    using that unfolding cov blk_interval by (auto simp: subset_iff)
  from buddy_alloc_complete[OF h(4), of 1] two len obtain k b' where
    k: "alloc_lowest b 1 = Some (Some k, b')" "blk k 1 \<subseteq> {..<10} - covered {(0, 2)}"
      "\<forall>j. blk j 1 \<subseteq> {..<10} - covered {(0, 2)} \<longrightarrow> k \<le> j"
    by (auto split: option.splits prod.splits)
  have "k = 2" using low[OF k(2)] k(3) two by (simp add: antisym)
  then show ?thesis using h(4) k(1) by blast
qed

text \<open>
  C10. Freeing a block undoes its allocation completely: it succeeds for every block that is
  handed out, and freeing a block right after it was allocated merges it back so that the free
  index of every order and the checksum of the allocator are what they were before.
\<close>

theorem buddy_free_undoes_alloc:
  assumes "buddy_history capacity b A" and "capacity < 2 ^ 32" and "ba_alloc b n = Some (Some k, b1)"
  shows "(\<forall>(page, order)\<in>insert (k, n) A. ba_free_page b1 page order \<noteq> None) \<and>
    (\<exists>b2. ba_free_page b1 k n = Some b2 \<and> ba_xxh3_hash xxh3 b2 = ba_xxh3_hash xxh3 b \<and>
      (\<forall>i\<le>ba_max_order b. bt_unset (ba_free b2 ! i) = bt_unset (ba_free b ! i)))"
proof -
  let ?F = "{..<ba_len b} - covered A"
  note inv = buddy_history_inv[OF assms(1,2)]
  then have rep: "ba_rep b ?F" by (simp add: history_inv_def)
  from alloc_inner_correct[OF rep, of n] assms(3) have
    al: "chosen (ba_max_order b) ?F n k" "same_shape b b1"
    by (auto simp: ba_alloc_def some_block_iff split: if_splits)
  note inv1 = history_alloc[OF inv assms(3)]
  have "ba_free_page b1 page order \<noteq> None" if "(page, order) \<in> insert (k, n) A" for page order
    using history_free[OF inv1 that] by auto
  moreover from history_free[OF inv1, of k n] obtain b2 where
    b2: "ba_free_page b1 k n = Some b2" "history_inv capacity b2 (insert (k, n) A - {(k, n)})" "same_shape b1 b2"
    by auto
  have sh: "same_shape b b2" by (rule same_shape_trans[OF al(2) b2(3)])
  have "(k, n) \<notin> A"
    using chosen_free[OF al(1)] blk_nonempty[of k n] by (auto simp: covered_def blk_def)
  then have "ba_rep b2 ?F" using b2(2) sh by (simp add: history_inv_def same_shape_def)
  moreover from this have "bt_unset (ba_free b2 ! i) = bt_unset (ba_free b ! i)" if "i \<le> ba_max_order b" for i
    using ba_repD(5)[OF rep that] ba_repD(5)[of b2 ?F i] sh that by (simp add: same_shape_def)
  ultimately show ?thesis using b2(1) ba_hash_canonical[OF rep _ sh] by auto
qed

theorem buddy_free_undoes_alloc_witness:
  "\<exists>b b1 b2. ba_alloc b 2 = Some (Some 0, b1) \<and> ba_free_page b1 0 2 = Some b2 \<and>
     bt_unset (ba_free b2 ! 0) = bt_unset (ba_free b ! 0)"
proof -
  obtain b b1 where h: "buddy_history 16 b {}" "ba_alloc b 2 = Some (Some 0, b1)" using small_history by blast
  have cap: "(16 :: nat) < 2 ^ 32" by simp
  show ?thesis using buddy_free_undoes_alloc[OF h(1) cap h(2)] h(2) by blast
qed

text \<open>
  C14. Resizing: growing to any length up to the capacity succeeds and makes exactly the new pages
  free; \<open>trailing_free_pages\<close> returns the largest number of pages at the end of the region that are
  all free, and shrinking by any number up to it succeeds and leaves all other pages as they were.
\<close>

theorem buddy_resize_correct:
  assumes "buddy_history capacity b A" and "capacity < 2 ^ 32"
  shows "(\<forall>n. ba_len b < n \<and> n \<le> capacity \<longrightarrow> (\<exists>b'. ba_resize b n = Some b' \<and> buddy_history capacity b' A \<and>
      ba_len b' = n \<and> count_free_pages b' = map_option (\<lambda>c. c + (n - ba_len b)) (count_free_pages b))) \<and>
    (\<exists>t\<le>ba_len b. trailing_free_pages b = Some t \<and> covered A \<subseteq> {..<ba_len b - t} \<and>
      (t < ba_len b \<longrightarrow> ba_len b - t - 1 \<in> covered A) \<and>
      (\<forall>n. 0 < n \<and> ba_len b - t \<le> n \<and> n \<le> ba_len b \<longrightarrow>
        (\<exists>b'. ba_resize b n = Some b' \<and> buddy_history capacity b' A \<and> ba_len b' = n)))"
proof -
  let ?F = "{..<ba_len b} - covered A"
  note inv = buddy_history_inv[OF assms(1,2)]
  then have rep: "ba_rep b ?F" and cov: "covered A \<subseteq> {..<ba_len b}" and len: "0 < ba_len b" "ba_len b \<le> capacity"
    by (simp_all add: history_inv_def)
  have fits: "\<forall>(page, order)\<in>A. blk page order \<subseteq> {..<n}" if "covered A \<subseteq> {..<n}" for n
    using that by (simp add: covered_def UN_subset_iff case_prod_beta')
  have resize: "\<exists>b'. ba_resize b n = Some b' \<and> buddy_history capacity b' A \<and> ba_len b' = n"
    if "0 < n" "n \<le> capacity" "covered A \<subseteq> {..<n}" for n
    using history_resize[OF inv that(1,2) assms(2) fits[OF that(3)]] resized[OF assms(1) that(1,2) fits[OF that(3)]] by auto
  have grow: "count_free_pages b' = map_option (\<lambda>c. c + (n - ba_len b)) (count_free_pages b)"
    if b': "buddy_history capacity b' A" "ba_len b' = n" "ba_len b < n" for b' n
  proof -
    have "ba_rep b' ({..<n} - covered A)" using buddy_history_inv[OF b'(1) assms(2)] b'(2) by (simp add: history_inv_def)
    moreover have "{..<n} - covered A = ?F \<union> {ba_len b..<n}" using cov b'(3) by auto
    moreover have "card (?F \<union> {ba_len b..<n}) = card ?F + card {ba_len b..<n}"
      by (rule card_Un_disjoint) auto
    ultimately show ?thesis using count_free_pages_correct[OF rep] count_free_pages_correct[of b'] by simp
  qed
  from trailing_free_pages_correct[OF rep len(1)] obtain t where
    t: "trailing_free_pages b = Some t" "t \<le> ba_len b" "{ba_len b - t..<ba_len b} \<subseteq> ?F"
      "t < ba_len b \<longrightarrow> ba_len b - t - 1 \<notin> ?F" by blast
  have low: "covered A \<subseteq> {..<ba_len b - t}"
  proof
    fix p assume p: "p \<in> covered A"
    then have "p < ba_len b" using cov by blast
    then show "p \<in> {..<ba_len b - t}" using p t(3) by (auto simp: subset_iff not_less)
  qed
  have mid: "t < ba_len b \<longrightarrow> ba_len b - t - 1 \<in> covered A" using t(4) by auto
  have shrink: "\<exists>b'. ba_resize b n = Some b' \<and> buddy_history capacity b' A \<and> ba_len b' = n"
    if "0 < n" "ba_len b - t \<le> n" "n \<le> ba_len b" for n
    using resize[of n] that len(2) low by fastforce
  have big: "\<exists>b'. ba_resize b n = Some b' \<and> buddy_history capacity b' A \<and> ba_len b' = n \<and>
      count_free_pages b' = map_option (\<lambda>c. c + (n - ba_len b)) (count_free_pages b)"
    if "ba_len b < n" "n \<le> capacity" for n
  proof -
    have "covered A \<subseteq> {..<n}" using cov that(1) by auto
    from resize[OF _ that(2) this] that(1) grow show ?thesis by fastforce
  qed
  show ?thesis using t(1,2) low mid shrink big by blast
qed

theorem buddy_resize_correct_witness:
  "\<exists>b b'. buddy_history 16 b {} \<and> ba_len b = 10 \<and> ba_resize b 15 = Some b' \<and> ba_len b' = 15 \<and>
     trailing_free_pages b = Some 10"
proof -
  obtain b where h: "buddy_history 16 b {}" "ba_len b = 10" using small_history by blast
  have cap: "(16 :: nat) < 2 ^ 32" by simp
  note r = buddy_resize_correct[OF h(1) cap]
  have "\<exists>b'. ba_resize b 15 = Some b' \<and> ba_len b' = 15"
    using conjunct1[OF r, THEN spec, of 15] h(2) by auto
  moreover have "trailing_free_pages b = Some 10"
    using conjunct2[OF r] h(2) by (auto simp: order.order_iff_strict)
  ultimately show ?thesis using h by blast
qed

text \<open>
  C15. The serialised allocator reads back to an allocator with the same free pages at every order,
  the same length and the same checksum; serialising succeeds for every region of at most a million pages.
\<close>

theorem buddy_serialisation_round_trip:
  assumes "buddy_history capacity b A" and "capacity < 2 ^ 32" and "ba_len b \<le> 2 ^ 20"
    and "\<forall>m\<in>set (ba_free b). length (bt_heights m) \<le> 8"
  shows "\<exists>v b'. ba_to_vec b = Some v \<and> ba_from_bytes v = Some b' \<and> ba_len b' = ba_len b \<and>
    ba_max_order b' = ba_max_order b \<and> ba_xxh3_hash xxh3 b' = ba_xxh3_hash xxh3 b \<and>
    (\<forall>p. find_free_order b' p = find_free_order b p)"
proof -
  let ?F = "{..<ba_len b} - covered A"
  from buddy_history_inv[OF assms(1,2)] have rep: "ba_rep b ?F" by (simp add: history_inv_def)
  from ba_to_vec_defined[OF rep assms(3,4)] obtain v where v: "ba_to_vec b = Some v" by blast
  have len: "ba_len b < 2 ^ 32" using assms(3) by (rule le_less_trans) simp
  have same: "ba_len (ba_trim b) = ba_len b" "ba_max_order (ba_trim b) = ba_max_order b"
    by (simp_all add: ba_trim_def)
  have "find_free_order (ba_trim b) p = find_free_order b p" for p
    using find_free_from_correct[OF rep, of 0 p] find_free_from_correct[OF ba_trim_rep[OF rep], of 0 p]
    unfolding find_free_order_def same by simp
  moreover have "ba_xxh3_hash xxh3 (ba_trim b) = ba_xxh3_hash xxh3 b"
    using rep by (intro ba_hash_trim) (simp add: ba_rep_def)
  ultimately show ?thesis using v ba_round_trip[OF rep len v] same by blast
qed

theorem buddy_serialisation_round_trip_witness:
  "\<exists>b v b'. buddy_history 16 b {} \<and> ba_to_vec b = Some v \<and> ba_from_bytes v = Some b' \<and> ba_len b' = 10"
proof -
  from history_created[of 10 16] obtain b where b: "ba_new 10 16 = Some b" "ba_len b = 10" by auto
  have h: "buddy_history 16 b {}" by (rule created[OF b(1)]) simp_all
  have "b = the (ba_new 10 16)" using b(1) by simp
  moreover have "list_all (\<lambda>m. length (bt_heights m) \<le> 8) (ba_free (the (ba_new 10 16)))" by code_simp
  ultimately have "\<forall>m\<in>set (ba_free b). length (bt_heights m) \<le> 8" by (simp add: list_all_iff)
  then show ?thesis
    using buddy_serialisation_round_trip[OF h, of "\<lambda>_. 0"] h b(2) by auto
qed

end
