(* ===== verification/Region.thy ===== *)
theory Region
  imports Buddy_Sizing Layout
begin

text \<open>
  The region tracker and the set of regional allocators, from
  \<^verbatim>\<open>src/src/tree_store/page_store/region.rs\<close>. The tracker holds one free index per page order, over
  the regions; it is a client of the \<open>free_index\<close> interface of the bitmap, like the buddy allocator.
\<close>

subsection \<open>The region tracker\<close>

definition INITIAL_REGIONS :: nat where
  "INITIAL_REGIONS = 1000"

record RegionTracker =
  order_trackers :: "BtreeBitmap list"

definition rt_new :: "nat \<Rightarrow> nat \<Rightarrow> RegionTracker" where
  "rt_new regions orders = \<lparr>order_trackers = replicate orders (bt_new regions MAX_REGIONS)\<rparr>"

definition rt_to_vec :: "RegionTracker \<Rightarrow> bytes option" where
  "rt_to_vec t = do {
     assert_that (length (order_trackers t) < 2 ^ 32);
     vecs \<leftarrow> map_opt bt_to_vec (order_trackers t);
     assert_that (\<forall>v\<in>set vecs. length v < 2 ^ 32);
     Some (le_bytes 4 (length (order_trackers t)) @ concat (map (\<lambda>v. le_bytes 4 (length v)) vecs) @ concat vecs) }"

fun read_lens :: "bytes \<Rightarrow> nat \<Rightarrow> nat \<Rightarrow> nat list option" where
  "read_lens page 0 start = Some []"
| "read_lens page (Suc n) start = do {
     e \<leftarrow> subslice page start (start + 4);
     rest \<leftarrow> read_lens page n (start + 4);
     Some (from_le e # rest) }"

fun read_sized :: "bytes \<Rightarrow> (bytes \<Rightarrow> 'a option) \<Rightarrow> nat list \<Rightarrow> nat \<Rightarrow> 'a list option" where
  "read_sized page f [] start = Some []"
| "read_sized page f (n # ns) start = do {
     sec \<leftarrow> subslice page start (start + n);
     x \<leftarrow> f sec;
     xs \<leftarrow> read_sized page f ns (start + n);
     Some (x # xs) }"

definition rt_from_bytes :: "bytes \<Rightarrow> RegionTracker option" where
  "rt_from_bytes page = do {
     o4 \<leftarrow> subslice page 0 4;
     let orders = from_le o4;
     allocator_lens \<leftarrow> read_lens page orders 4;
     data \<leftarrow> read_sized page bt_from_bytes allocator_lens (4 + 4 * orders);
     Some \<lparr>order_trackers = data\<rparr> }"

definition find_free :: "RegionTracker \<Rightarrow> nat \<Rightarrow> nat option option" where
  "find_free t order = do { m \<leftarrow> idx (order_trackers t) order; bt_find_first_unset m }"

definition mark_free :: "RegionTracker \<Rightarrow> nat \<Rightarrow> nat \<Rightarrow> RegionTracker option" where
  "mark_free t order r = do {
     ms \<leftarrow> fold_opt (\<lambda>i ms. at_order (\<lambda>m. bt_clear m r) ms i) [0..<Suc order] (order_trackers t);
     Some (t\<lparr>order_trackers := ms\<rparr>) }"

definition mark_full :: "RegionTracker \<Rightarrow> nat \<Rightarrow> nat \<Rightarrow> RegionTracker option" where
  "mark_full t order r = do {
     assert_that (order < length (order_trackers t));
     ms \<leftarrow> fold_opt (\<lambda>i ms. at_order (\<lambda>m. bt_set m r) ms i) [order..<length (order_trackers t)] (order_trackers t);
     Some (t\<lparr>order_trackers := ms\<rparr>) }"

definition rt_resize :: "RegionTracker \<Rightarrow> nat \<Rightarrow> RegionTracker option" where
  "rt_resize t new_capacity = do {
     ms \<leftarrow> map_opt (\<lambda>m. bt_resize m new_capacity True) (order_trackers t);
     Some (t\<lparr>order_trackers := ms\<rparr>) }"

definition rt_len :: "RegionTracker \<Rightarrow> nat option" where
  "rt_len t = do { m \<leftarrow> idx (order_trackers t) 0; bt_len m }"

subsection \<open>The allocators of all regions\<close>

record Allocators =
  region_tracker :: RegionTracker
  region_allocators :: "BuddyAllocator list"

definition al_new :: "DatabaseLayout \<Rightarrow> Allocators option" where
  "al_new l = do {
     let initial_regions = max INITIAL_REGIONS (num_regions l);
     fold_opt (\<lambda>i al. do {
         r \<leftarrow> region_layout l i;
         allocator \<leftarrow> ba_new (rl_num_pages r) (rl_num_pages (full_region_layout l));
         t \<leftarrow> mark_free (region_tracker al) (ba_max_order allocator) i;
         Some \<lparr>region_tracker = t, region_allocators = region_allocators al @ [allocator]\<rparr> })
       [0..<num_regions l]
       \<lparr>region_tracker = rt_new initial_regions (MAX_MAX_PAGE_ORDER + 1), region_allocators = []\<rparr> }"

definition al_xxh3_hash :: "(bytes \<Rightarrow> u128) \<Rightarrow> Allocators \<Rightarrow> u128 option" where
  "al_xxh3_hash xxh3 al =
     fold_opt (\<lambda>a r. map_option (\<lambda>h. r XOR h) (ba_xxh3_hash xxh3 a)) (region_allocators al) 0"

definition last_region :: "DatabaseLayout \<Rightarrow> RegionLayout" where
  "last_region l = (case trailing_partial_region l of Some t \<Rightarrow> t | None \<Rightarrow> full_region_layout l)"

text \<open>The \<open>match\<close> that decides between shrinking, growing and nothing to do.\<close>

datatype resize_kind = Shrink | Grow | No_op

definition resize_decision :: "Allocators \<Rightarrow> DatabaseLayout \<Rightarrow> resize_kind option" where
  "resize_decision al l = (case cmp (num_regions l) (length (region_allocators al)) of
       Less \<Rightarrow> Some Shrink
     | Equal \<Rightarrow> do {
         assert_that (region_allocators al \<noteq> []);
         Some (case cmp (rl_num_pages (last_region l)) (ba_len (last (region_allocators al))) of
             Less \<Rightarrow> Shrink | Equal \<Rightarrow> No_op | Greater \<Rightarrow> Grow) }
     | Greater \<Rightarrow> Some Grow)"

definition resize_shrink :: "Allocators \<Rightarrow> DatabaseLayout \<Rightarrow> Allocators option" where
  "resize_shrink al l = do {
     t \<leftarrow> fold_opt (\<lambda>i t. mark_full t 0 i) [num_regions l..<length (region_allocators al)] (region_tracker al);
     assert_that (num_regions l \<le> length (region_allocators al));
     let bs = take (num_regions l) (region_allocators al);
     assert_that (bs \<noteq> []);
     let n = rl_num_pages (last_region l);
     bs' \<leftarrow> (if n < ba_len (last bs) then do {
         b \<leftarrow> ba_resize (last bs) n;
         Some (butlast bs @ [b]) }
       else Some bs);
     Some \<lparr>region_tracker = t, region_allocators = bs'\<rparr> }"

definition resize_grow_region :: "nat \<Rightarrow> DatabaseLayout \<Rightarrow> nat \<Rightarrow> Allocators \<Rightarrow> Allocators option" where
  "resize_grow_region old_num_regions l i al = do {
     new_region \<leftarrow> region_layout l i;
     if i < old_num_regions then do {
       a \<leftarrow> idx (region_allocators al) i;
       assert_that (ba_len a \<le> rl_num_pages new_region);
       if rl_num_pages new_region \<noteq> ba_len a then do {
         a' \<leftarrow> ba_resize a (rl_num_pages new_region);
         h \<leftarrow> highest_free_order a';
         highest_free \<leftarrow> h;
         t \<leftarrow> mark_free (region_tracker al) highest_free i;
         Some \<lparr>region_tracker = t, region_allocators = (region_allocators al)[i := a']\<rparr> }
       else Some al }
     else do {
       a \<leftarrow> ba_new (rl_num_pages new_region) (rl_num_pages (full_region_layout l));
       h \<leftarrow> highest_free_order a;
       highest_free \<leftarrow> h;
       n \<leftarrow> rt_len (region_tracker al);
       t1 \<leftarrow> (if n \<le> i then rt_resize (region_tracker al) (i + 1) else Some (region_tracker al));
       t \<leftarrow> mark_free t1 highest_free i;
       Some \<lparr>region_tracker = t, region_allocators = region_allocators al @ [a]\<rparr> } }"

definition resize_to :: "Allocators \<Rightarrow> DatabaseLayout \<Rightarrow> Allocators option" where
  "resize_to al l = do {
     d \<leftarrow> resize_decision al l;
     case d of
       No_op \<Rightarrow> Some al
     | Shrink \<Rightarrow> resize_shrink al l
     | Grow \<Rightarrow> fold_opt (resize_grow_region (length (region_allocators al)) l) [0..<num_regions l] al }"

subsection \<open>What the tracker records\<close>

text \<open>\<open>N\<close> regions are tracked, at every order up to the maximum.\<close>

definition rt_ok :: "nat \<Rightarrow> RegionTracker \<Rightarrow> bool" where
  "rt_ok N t \<longleftrightarrow> length (order_trackers t) = Suc MAX_MAX_PAGE_ORDER \<and>
     (\<forall>m\<in>set (order_trackers t). bt_inv m \<and> bt_size m = N \<and> MAX_REGIONS \<le> bt_capacity m)"

text \<open>The regions that may have a free page of the order.\<close>

definition rt_free :: "RegionTracker \<Rightarrow> nat \<Rightarrow> nat set" where
  "rt_free t n = (if n < length (order_trackers t) then bt_unset (order_trackers t ! n) else {})"

lemma rt_okD:
  assumes "rt_ok N t" and "n \<le> MAX_MAX_PAGE_ORDER"
  shows "n < length (order_trackers t)" "bt_inv (order_trackers t ! n)" "bt_size (order_trackers t ! n) = N"
    "bt_unset (order_trackers t ! n) = rt_free t n"
  using assms by (auto simp: rt_ok_def rt_free_def less_Suc_eq_le)

lemma rt_free_bound: "rt_ok N t \<Longrightarrow> rt_free t n \<subseteq> {..<N}"
  by (auto simp: rt_ok_def rt_free_def dest!: nth_mem bt_unset_bound)

lemma rt_free_beyond: "rt_ok N t \<Longrightarrow> MAX_MAX_PAGE_ORDER < n \<Longrightarrow> rt_free t n = {}"
  by (simp add: rt_ok_def rt_free_def)

lemma rt_new_correct:
  assumes "N \<le> MAX_REGIONS"
  shows "rt_ok N (rt_new N (MAX_MAX_PAGE_ORDER + 1))" "rt_free (rt_new N orders) n = {}"
  using bt_new_correct[OF assms] bt_new_capacity[of MAX_REGIONS N]
  by (simp_all add: rt_ok_def rt_new_def rt_free_def MAX_REGIONS_def)

lemma find_free_correct:
  assumes "rt_ok N t" and "n \<le> MAX_MAX_PAGE_ORDER"
  shows "find_free t n = Some (if rt_free t n = {} then None else Some (Min (rt_free t n)))"
  using rt_okD[OF assms] by (simp add: find_free_def bt_find_first_unset_correct)

text \<open>Both marking loops change one bit in a range of orders.\<close>

lemma mark_range:
  assumes ok: "rt_ok N t" and to: "j \<le> Suc MAX_MAX_PAGE_ORDER"
    and step: "\<And>m. bt_inv m \<Longrightarrow> bt_size m = N \<Longrightarrow> \<exists>m'. f m = Some m' \<and> bt_inv m' \<and> bt_dims m' = bt_dims m \<and> bt_unset m' = g (bt_unset m)"
  shows "\<exists>ms. fold_opt (\<lambda>i ms. at_order f ms i) [i..<j] (order_trackers t) = Some ms \<and> rt_ok N (t\<lparr>order_trackers := ms\<rparr>) \<and>
    (\<forall>n\<le>MAX_MAX_PAGE_ORDER. rt_free (t\<lparr>order_trackers := ms\<rparr>) n = (if i \<le> n \<and> n < j then g (rt_free t n) else rt_free t n))"
proof -
  let ?P = "\<lambda>k ms. rt_ok N (t\<lparr>order_trackers := ms\<rparr>) \<and> (\<forall>n\<le>MAX_MAX_PAGE_ORDER.
      rt_free (t\<lparr>order_trackers := ms\<rparr>) n = (if i \<le> n \<and> n < i + k then g (rt_free t n) else rt_free t n))"
  have "\<exists>ms. fold_opt (\<lambda>i ms. at_order f ms i) [i..<j] (order_trackers t) = Some ms \<and> ?P (length [i..<j]) ms"
  proof (rule fold_opt_inv)
    show "?P 0 (order_trackers t)" using ok by auto
  next
    fix k ms assume k: "k < length [i..<j]" and P: "?P k ms"
    let ?t = "t\<lparr>order_trackers := ms\<rparr>"
    have n: "i + k \<le> MAX_MAX_PAGE_ORDER" using k to by simp
    note D = rt_okD[OF conjunct1[OF P] n]
    from step[OF D(2,3)] D(4) obtain m' where m': "f (ms ! (i + k)) = Some m'" "bt_inv m'" "bt_dims m' = bt_dims (ms ! (i + k))"
      "bt_unset m' = g (rt_free ?t (i + k))" by auto
    have len: "i + k < length ms" using D(1) by simp
    have "rt_ok N (t\<lparr>order_trackers := ms[i + k := m']\<rparr>)"
      using P m' len unfolding rt_ok_def by (auto dest!: set_update_subset_insert[THEN subsetD])
    moreover have "rt_free (t\<lparr>order_trackers := ms[i + k := m']\<rparr>) n = (if n = i + k then g (rt_free ?t n) else rt_free ?t n)" for n
      using m'(4) len by (auto simp: rt_free_def)
    ultimately have "?P (Suc k) (ms[i + k := m'])" using P by auto
    then show "\<exists>s'. at_order f ms ([i..<j] ! k) = Some s' \<and> ?P (Suc k) s'"
      using m'(1) len k by (simp add: at_order_def)
  qed
  moreover have "i \<le> n \<and> n < i + length [i..<j] \<longleftrightarrow> i \<le> n \<and> n < j" for n by auto
  ultimately show ?thesis by simp
qed

lemma mark_free_correct:
  assumes "rt_ok N t" "n \<le> MAX_MAX_PAGE_ORDER" "r < N"
  shows "\<exists>t'. mark_free t n r = Some t' \<and> rt_ok N t' \<and> (\<forall>m\<le>MAX_MAX_PAGE_ORDER.
    rt_free t' m = (if m \<le> n then insert r (rt_free t m) else rt_free t m))"
proof -
  have "\<exists>m'. bt_clear m r = Some m' \<and> bt_inv m' \<and> bt_dims m' = bt_dims m \<and> bt_unset m' = insert r (bt_unset m)"
    if "bt_inv m" "bt_size m = N" for m using bt.clear_law[of m r] that assms(3) by simp
  from mark_range[OF assms(1), of "Suc n" _ "insert r" 0, OF _ this] assms(2)
  show ?thesis unfolding mark_free_def by (fastforce simp: less_Suc_eq_le simp del: upt_Suc)
qed

lemma mark_full_correct:
  assumes "rt_ok N t" "n \<le> MAX_MAX_PAGE_ORDER" "r < N"
  shows "\<exists>t'. mark_full t n r = Some t' \<and> rt_ok N t' \<and> (\<forall>m\<le>MAX_MAX_PAGE_ORDER.
    rt_free t' m = (if n \<le> m then rt_free t m - {r} else rt_free t m))"
proof -
  have step: "\<exists>m'. bt_set m r = Some m' \<and> bt_inv m' \<and> bt_dims m' = bt_dims m \<and> bt_unset m' = bt_unset m - {r}"
    if "bt_inv m" "bt_size m = N" for m using bt.set_law[of m r] that assms(3) by simp
  have len: "length (order_trackers t) = Suc MAX_MAX_PAGE_ORDER" using assms(1) by (simp add: rt_ok_def)
  from mark_range[OF assms(1), of "Suc MAX_MAX_PAGE_ORDER" _ "\<lambda>S. S - {r}" n, OF _ step]
  show ?thesis unfolding mark_full_def len using assms(2) by (fastforce simp: less_Suc_eq_le simp del: upt_Suc)
qed

lemma rt_resize_correct:
  assumes ok: "rt_ok N t" and n: "N \<le> n" "n \<le> MAX_REGIONS"
  shows "\<exists>t'. rt_resize t n = Some t' \<and> rt_ok n t' \<and> (\<forall>m. rt_free t' m = rt_free t m)"
proof -
  have each: "\<exists>m'. bt_resize m n True = Some m' \<and> bt_inv m' \<and> bt_size m' = n \<and> bt_capacity m' = bt_capacity m \<and>
      bt_unset m' = bt_unset m" if "m \<in> set (order_trackers t)" for m
  proof -
    have m: "bt_inv m" "bt_size m = N" "MAX_REGIONS \<le> bt_capacity m" using ok that by (auto simp: rt_ok_def)
    then have "bt_unset m \<subseteq> {..<n}" using bt_unset_bound[of _ m] n(1) by fastforce
    with bt.resize_law[OF m(1) this] m n(2) show ?thesis by simp
  qed
  from each have "\<forall>m\<in>set (order_trackers t). \<exists>m'. bt_resize m n True = Some m' \<and> bt_inv m' \<and> bt_size m' = n \<and>
      bt_capacity m' = bt_capacity m \<and> bt_unset m' = bt_unset m" by blast
  from bchoice[OF this] obtain f where f: "\<And>m. m \<in> set (order_trackers t) \<Longrightarrow> bt_resize m n True = Some (f m)"
    "\<And>m. m \<in> set (order_trackers t) \<Longrightarrow> bt_inv (f m) \<and> bt_size (f m) = n \<and> bt_capacity (f m) = bt_capacity m"
    "\<And>m. m \<in> set (order_trackers t) \<Longrightarrow> bt_unset (f m) = bt_unset m" by blast
  have "map_opt (\<lambda>m. bt_resize m n True) (order_trackers t) = Some (map f (order_trackers t))"
    by (rule map_opt_all_Some) (rule f(1))
  then have "rt_resize t n = Some (t\<lparr>order_trackers := map f (order_trackers t)\<rparr>)" by (simp add: rt_resize_def)
  moreover have "rt_ok n (t\<lparr>order_trackers := map f (order_trackers t)\<rparr>)"
    using ok f(2) by (simp add: rt_ok_def)
  moreover have "rt_free (t\<lparr>order_trackers := map f (order_trackers t)\<rparr>) m = rt_free t m" for m
    using f(3)[OF nth_mem, of m] by (simp add: rt_free_def)
  ultimately show ?thesis by blast
qed

lemma rt_len_correct: "rt_ok N t \<Longrightarrow> rt_len t = Some N"
  using rt_okD[of N t 0] by (simp add: rt_len_def bt_len_correct)

subsection \<open>Serialisation of the tracker\<close>

lemma read_lens_written:
  assumes "\<forall>v\<in>set vecs. length v < 2 ^ 32" "data = pre @ concat (map (\<lambda>v. le_bytes 4 (length v)) vecs) @ post" "length pre = start"
  shows "read_lens data (length vecs) start = Some (map length vecs)"
  using assms
proof (induction vecs arbitrary: pre start)
  case (Cons v vecs)
  have "read_lens data (length vecs) (start + 4) = Some (map length vecs)"
    by (rule Cons.IH[where pre = "pre @ le_bytes 4 (length v)"]) (use Cons.prems in auto)
  moreover have "subslice data start (start + 4) = Some (le_bytes 4 (length v))"
    using Cons.prems by (simp add: subslice_def)
  ultimately show ?case using Cons.prems(1) by simp
qed simp

lemma read_sized_written:
  assumes "\<And>i. i < length vecs \<Longrightarrow> f (vecs ! i) = Some (xs ! i)" "length xs = length vecs"
    "data = pre @ concat vecs @ post" "length pre = start"
  shows "read_sized data f (map length vecs) start = Some xs"
  using assms
proof (induction vecs arbitrary: pre start xs)
  case (Cons v vecs)
  from Cons.prems(2) obtain y ys where xs: "xs = y # ys" by (cases xs) auto
  have "read_sized data f (map length vecs) (start + length v) = Some ys"
  proof (rule Cons.IH[where pre = "pre @ v"])
    show "f (vecs ! i) = Some (ys ! i)" if "i < length vecs" for i using Cons.prems(1)[of "Suc i"] that xs by simp
  qed (use Cons.prems xs in auto)
  moreover have "subslice data start (start + length v) = Some v" using Cons.prems by (simp add: subslice_def)
  moreover have "f v = Some y" using Cons.prems(1)[of 0] xs by simp
  ultimately show ?case using xs by simp
qed simp

lemma rt_round_trip:
  assumes ok: "rt_ok N t" and N: "N < 2 ^ 32" and v: "rt_to_vec t = Some v"
  shows "\<exists>t'. rt_from_bytes v = Some t' \<and> length (order_trackers t') = Suc MAX_MAX_PAGE_ORDER \<and>
    (\<forall>m\<in>set (order_trackers t'). bt_inv m \<and> bt_size m = N) \<and> (\<forall>n. rt_free t' n = rt_free t n)"
proof -
  let ?ms = "order_trackers t"
  from v obtain vecs where vecs: "map_opt bt_to_vec ?ms = Some vecs" "\<forall>v\<in>set vecs. length v < 2 ^ 32"
    and v': "v = le_bytes 4 (length ?ms) @ concat (map (\<lambda>v. le_bytes 4 (length v)) vecs) @ concat vecs"
    by (auto simp: rt_to_vec_def bind_Some_iff)
  have len: "length vecs = length ?ms" "length ?ms < 2 ^ 32"
    using map_opt_length[OF vecs(1)] ok by (simp_all add: rt_ok_def MAX_MAX_PAGE_ORDER_def)
  have sec: "bt_from_bytes (vecs ! i) = Some (map bt_trim ?ms ! i)" if "i < length vecs" for i
  proof -
    have i: "i < length ?ms" using that len by simp
    then have "bt_inv (?ms ! i)" "bt_size (?ms ! i) = N" using ok by (auto simp: rt_ok_def)
    then show ?thesis using bt_round_trip[OF _ _ map_opt_nth[OF vecs(1) i]] N i by simp
  qed
  have lens: "read_lens v (length vecs) 4 = Some (map length vecs)"
    by (rule read_lens_written[OF vecs(2), where pre = "le_bytes 4 (length ?ms)" and post = "concat vecs"]) (simp_all add: v')
  have clen: "length (concat (map (\<lambda>v. le_bytes 4 (length v)) vecs)) = 4 * length vecs"
    by (rule length_concat_const) simp
  have secs: "read_sized v bt_from_bytes (map length vecs) (4 + 4 * length vecs) = Some (map bt_trim ?ms)"
    by (rule read_sized_written[OF sec, where pre = "le_bytes 4 (length ?ms) @ concat (map (\<lambda>v. le_bytes 4 (length v)) vecs)"
          and post = "[]"]) (use len clen in \<open>simp_all add: v'\<close>)
  have "subslice v 0 4 = Some (le_bytes 4 (length ?ms))" by (simp add: v' subslice_prefix)
  then have "rt_from_bytes v = Some \<lparr>order_trackers = map bt_trim ?ms\<rparr>"
    using lens secs len by (simp add: rt_from_bytes_def)
  moreover have "bt_inv (bt_trim m) \<and> bt_size (bt_trim m) = N \<and> bt_unset (bt_trim m) = bt_unset m" if "m \<in> set ?ms" for m
    using bt_trim_correct[of m] ok that by (auto simp: rt_ok_def)
  ultimately show ?thesis using ok by (auto simp: rt_ok_def rt_free_def)
qed

subsection \<open>The invariant of the allocators\<close>

text \<open>
  \<open>A i\<close> is the set of blocks handed out by region \<open>i\<close>. Every region has a correct allocator, only existing
  regions are marked as having space, a region with a free page is marked at order 0, and a region marked at
  an order is marked at all lower ones. Completeness at higher orders does not hold: see
  \<open>tracker_forgets_merged_block\<close> of the page manager.
\<close>

definition region_free :: "Allocators \<Rightarrow> (nat \<Rightarrow> (nat \<times> nat) set) \<Rightarrow> nat \<Rightarrow> nat set" where
  "region_free al A i = {..<ba_len (region_allocators al ! i)} - covered (A i)"

definition tracker_inv :: "nat \<Rightarrow> Allocators \<Rightarrow> (nat \<Rightarrow> (nat \<times> nat) set) \<Rightarrow> bool" where
  "tracker_inv N al A \<longleftrightarrow> rt_ok N (region_tracker al) \<and> length (region_allocators al) \<le> N \<and> N \<le> MAX_REGIONS \<and>
     (\<forall>n. rt_free (region_tracker al) n \<subseteq> {..<length (region_allocators al)}) \<and>
     (\<forall>m n. m \<le> n \<longrightarrow> rt_free (region_tracker al) n \<subseteq> rt_free (region_tracker al) m) \<and>
     (\<forall>i<length (region_allocators al). region_free al A i \<noteq> {} \<longrightarrow> i \<in> rt_free (region_tracker al) 0)"

definition al_inv :: "nat \<Rightarrow> Allocators \<Rightarrow> (nat \<Rightarrow> (nat \<times> nat) set) \<Rightarrow> bool" where
  "al_inv cap al A \<longleftrightarrow> (\<exists>N. tracker_inv N al A) \<and>
     (\<forall>i<length (region_allocators al). history_inv cap (region_allocators al ! i) (A i)) \<and>
     (\<forall>i\<ge>length (region_allocators al). A i = {})"

definition fits_layout :: "Allocators \<Rightarrow> DatabaseLayout \<Rightarrow> bool" where
  "fits_layout al l \<longleftrightarrow> length (region_allocators al) = num_regions l \<and>
     (\<forall>i<num_regions l. ba_len (region_allocators al ! i) = region_pages l i)"

lemma rt_free_high: "rt_ok N t \<Longrightarrow> \<not> n \<le> MAX_MAX_PAGE_ORDER \<Longrightarrow> rt_free t n = {}"
  by (simp add: rt_free_beyond)

lemma mark_free_all:
  assumes "rt_ok N t" "n \<le> MAX_MAX_PAGE_ORDER" "r < N"
  obtains t' where "mark_free t n r = Some t'" "rt_ok N t'"
    "\<And>m. rt_free t' m = (if m \<le> n then insert r (rt_free t m) else rt_free t m)"
proof -
  from mark_free_correct[OF assms] obtain t' where t': "mark_free t n r = Some t'" "rt_ok N t'"
    "\<forall>m\<le>MAX_MAX_PAGE_ORDER. rt_free t' m = (if m \<le> n then insert r (rt_free t m) else rt_free t m)" by blast
  have "rt_free t' m = (if m \<le> n then insert r (rt_free t m) else rt_free t m)" for m
    using t' assms rt_free_high[OF t'(2), of m] rt_free_high[OF assms(1), of m] by (cases "m \<le> MAX_MAX_PAGE_ORDER") auto
  with t' show ?thesis by (intro that) auto
qed

lemma mark_full_all:
  assumes "rt_ok N t" "n \<le> MAX_MAX_PAGE_ORDER" "r < N"
  obtains t' where "mark_full t n r = Some t'" "rt_ok N t'"
    "\<And>m. rt_free t' m = (if n \<le> m then rt_free t m - {r} else rt_free t m)"
proof -
  from mark_full_correct[OF assms] obtain t' where t': "mark_full t n r = Some t'" "rt_ok N t'"
    "\<forall>m\<le>MAX_MAX_PAGE_ORDER. rt_free t' m = (if n \<le> m then rt_free t m - {r} else rt_free t m)" by blast
  have "rt_free t' m = (if n \<le> m then rt_free t m - {r} else rt_free t m)" for m
    using t' assms rt_free_high[OF t'(2), of m] rt_free_high[OF assms(1), of m] by (cases "m \<le> MAX_MAX_PAGE_ORDER") auto
  with t' show ?thesis by (intro that) auto
qed

text \<open>Marking an existing region as free keeps the invariant, with the region's own free pages arbitrary.\<close>

lemma tracker_inv_mark_free:
  assumes inv: "tracker_inv N al A" and n: "n \<le> MAX_MAX_PAGE_ORDER" and r: "r < N"
    and al': "length (region_allocators al) \<le> length bs" "r < length bs" "length bs \<le> N"
    and same: "\<And>i. i < length bs \<Longrightarrow> i \<noteq> r \<Longrightarrow> i < length (region_allocators al) \<and> ba_len (bs ! i) = ba_len (region_allocators al ! i) \<and> A' i = A i"
  obtains t' where "mark_free (region_tracker al) n r = Some t'" "tracker_inv N \<lparr>region_tracker = t', region_allocators = bs\<rparr> A'"
    "\<And>m. rt_free t' m = (if m \<le> n then insert r (rt_free (region_tracker al) m) else rt_free (region_tracker al) m)"
proof -
  have ok: "rt_ok N (region_tracker al)" using inv by (simp add: tracker_inv_def)
  obtain t' where t': "mark_free (region_tracker al) n r = Some t'" "rt_ok N t'"
    and f: "\<And>m. rt_free t' m = (if m \<le> n then insert r (rt_free (region_tracker al) m) else rt_free (region_tracker al) m)"
    by (rule mark_free_all[OF ok n r]) blast
  let ?al = "\<lparr>region_tracker = t', region_allocators = bs\<rparr>"
  have 1: "rt_free t' m \<subseteq> {..<length bs}" for m
  proof -
    have "rt_free (region_tracker al) m \<subseteq> {..<length bs}"
      using inv al'(1) unfolding tracker_inv_def by (meson lessThan_subset_iff subset_trans)
    then show ?thesis using al'(2) unfolding f by auto
  qed
  have 2: "rt_free t' n' \<subseteq> rt_free t' m" if "m \<le> n'" for m n'
  proof -
    have "rt_free (region_tracker al) n' \<subseteq> rt_free (region_tracker al) m" using inv that by (simp add: tracker_inv_def)
    then show ?thesis using that unfolding f by auto
  qed
  have 3: "i \<in> rt_free t' 0" if "i < length bs" "region_free ?al A' i \<noteq> {}" for i
  proof (cases "i = r")
    case False
    then have "region_free al A i \<noteq> {}" using same[OF that(1)] that(2) by (simp add: region_free_def)
    then show ?thesis using inv same[OF that(1) False] unfolding f by (simp add: tracker_inv_def)
  qed (simp add: f)
  have "tracker_inv N ?al A'" using inv al' t'(2) 1 2 3 by (simp add: tracker_inv_def)
  with t'(1) f show ?thesis by (intro that) auto
qed

lemma usable_order_bound: "calculate_usable_order cap = Some M \<Longrightarrow> M \<le> MAX_MAX_PAGE_ORDER"
  by (auto simp: calculate_usable_order_def bind_Some_iff Let_def)

lemma history_order_bound: "history_inv cap b A \<Longrightarrow> ba_max_order b \<le> MAX_MAX_PAGE_ORDER"
  by (auto simp: history_inv_def dest: usable_order_bound)

text \<open>The region of \<open>Allocators::new\<close> with index \<open>n\<close>.\<close>

lemma al_new_correct:
  assumes ok: "layout_ok h cap ps l" and cap: "cap < 2 ^ 32" and regions: "num_regions l \<le> MAX_REGIONS"
  shows "\<exists>al. al_new l = Some al \<and> al_inv cap al (\<lambda>_. {}) \<and> fits_layout al l \<and>
    (\<forall>i<num_regions l. \<forall>n\<le>ba_max_order (region_allocators al ! i). i \<in> rt_free (region_tracker al) n)"
proof -
  let ?N = "max INITIAL_REGIONS (num_regions l)"
  let ?P = "\<lambda>k al. tracker_inv ?N al (\<lambda>_. {}) \<and> length (region_allocators al) = k \<and>
    (\<forall>i<k. history_inv cap (region_allocators al ! i) {} \<and> ba_len (region_allocators al ! i) = region_pages l i \<and>
       (\<forall>n\<le>ba_max_order (region_allocators al ! i). i \<in> rt_free (region_tracker al) n))"
  have N: "?N \<le> MAX_REGIONS" using regions by (simp add: INITIAL_REGIONS_def MAX_REGIONS_def)
  have "\<exists>al. al_new l = Some al \<and> ?P (length [0..<num_regions l]) al"
    unfolding al_new_def Let_def
  proof (rule fold_opt_inv)
    show "?P 0 \<lparr>region_tracker = rt_new ?N (MAX_MAX_PAGE_ORDER + 1), region_allocators = []\<rparr>"
      using rt_new_correct[OF N] N by (simp add: tracker_inv_def)
  next
    fix k al assume k: "k < length [0..<num_regions l]" and P: "?P k al"
    then have kl: "k < num_regions l" by simp
    have rp: "0 < region_pages l k" "region_pages l k \<le> cap"
      using region_pages_pos[OF ok] region_pages_bound[OF ok] kl by auto
    from history_created[OF rp cap] obtain b where b: "ba_new (region_pages l k) cap = Some b" "history_inv cap b {}"
      "ba_len b = region_pages l k" by blast
    let ?bs = "region_allocators al @ [b]"
    obtain t' where t': "mark_free (region_tracker al) (ba_max_order b) k = Some t'"
      "tracker_inv ?N \<lparr>region_tracker = t', region_allocators = ?bs\<rparr> (\<lambda>_. {})"
      "\<And>m. rt_free t' m = (if m \<le> ba_max_order b then insert k (rt_free (region_tracker al) m) else rt_free (region_tracker al) m)"
      by (rule tracker_inv_mark_free[of ?N al "\<lambda>_. {}" "ba_max_order b" k ?bs "\<lambda>_. {}"])
        (use P kl b history_order_bound in \<open>auto simp: nth_append\<close>)
    have "?P (Suc k) \<lparr>region_tracker = t', region_allocators = ?bs\<rparr>"
      using t'(2,3) P b by (auto simp: nth_append less_Suc_eq)
    then show "\<exists>s'. (do { r \<leftarrow> region_layout l ([0..<num_regions l] ! k);
         allocator \<leftarrow> ba_new (rl_num_pages r) (rl_num_pages (full_region_layout l));
         t \<leftarrow> mark_free (region_tracker al) (ba_max_order allocator) ([0..<num_regions l] ! k);
         Some \<lparr>region_tracker = t, region_allocators = region_allocators al @ [allocator]\<rparr> }) = Some s' \<and> ?P (Suc k) s'"
      using kl layout_region[OF ok kl] layout_full[OF ok] b(1) t'(1) by simp
  qed
  then show ?thesis unfolding al_inv_def fits_layout_def by auto
qed

subsection \<open>Resizing\<close>

lemma region_pages_inner: "layout_ok h cap ps l \<Longrightarrow> i + 1 < num_regions l \<Longrightarrow> region_pages l i = cap"
  by (auto simp: region_pages_def layout_ok_def num_regions_def split: option.splits if_splits)

lemma last_region_pages: "layout_ok h cap ps l \<Longrightarrow> rl_num_pages (last_region l) = region_pages l (num_regions l - 1)"
  by (cases "num_full_regions l"; cases "trailing_partial_region l")
    (auto simp: region_pages_def last_region_def num_regions_def layout_ok_def)

lemma mark_full_loop:
  assumes "rt_ok N t" "j \<le> N"
  shows "\<exists>t'. fold_opt (\<lambda>i t. mark_full t 0 i) [i..<j] t = Some t' \<and> rt_ok N t' \<and> (\<forall>m. rt_free t' m = rt_free t m - {i..<j})"
proof -
  let ?P = "\<lambda>k t'. rt_ok N t' \<and> (\<forall>m. rt_free t' m = rt_free t m - {i..<i + k})"
  have "\<exists>t'. fold_opt (\<lambda>i t. mark_full t 0 i) [i..<j] t = Some t' \<and> ?P (length [i..<j]) t'"
  proof (rule fold_opt_inv)
    show "?P 0 t" using assms(1) by simp
  next
    fix k t1 assume k: "k < length [i..<j]" and P: "?P k t1"
    obtain t' where t': "mark_full t1 0 (i + k) = Some t'" "rt_ok N t'" "\<And>m. rt_free t' m = rt_free t1 m - {i + k}"
      by (rule mark_full_all[of N t1 0 "i + k"]) (use P k assms(2) in auto)
    have "{i..<i + Suc k} = insert (i + k) {i..<i + k}" by auto
    then have "?P (Suc k) t'" using P t'(2,3) by auto
    then show "\<exists>s'. mark_full t1 0 ([i..<j] ! k) = Some s' \<and> ?P (Suc k) s'" using t'(1) k by auto
  qed
  moreover have "{i..<i + length [i..<j]} = {i..<j}" by auto
  ultimately show ?thesis by simp
qed

text \<open>Dropping regions, or pages of the last one, only removes free pages.\<close>

lemma tracker_inv_shrink:
  assumes inv: "tracker_inv N al A" and ok: "rt_ok N t"
    and f: "\<And>m. rt_free t m = rt_free (region_tracker al) m - {length bs..<length (region_allocators al)}"
    and bs: "length bs \<le> length (region_allocators al)"
    and sub: "\<And>i. i < length bs \<Longrightarrow> ba_len (bs ! i) \<le> ba_len (region_allocators al ! i)"
  shows "tracker_inv N \<lparr>region_tracker = t, region_allocators = bs\<rparr> A"
proof -
  have "i \<in> rt_free t 0" if "i < length bs" "region_free \<lparr>region_tracker = t, region_allocators = bs\<rparr> A i \<noteq> {}" for i
  proof -
    have "region_free \<lparr>region_tracker = t, region_allocators = bs\<rparr> A i \<subseteq> region_free al A i"
      using sub[OF that(1)] by (auto simp: region_free_def)
    then have "region_free al A i \<noteq> {}" using that(2) by blast
    then show ?thesis using inv that(1) bs unfolding f tracker_inv_def by auto
  qed
  moreover have "rt_free t m \<subseteq> {..<length bs}" for m
  proof -
    have "rt_free (region_tracker al) m \<subseteq> {..<length (region_allocators al)}" using inv by (simp add: tracker_inv_def)
    then show ?thesis unfolding f by auto
  qed
  moreover have "rt_free t n \<subseteq> rt_free t m" if "m \<le> n" for m n
    using inv that unfolding f tracker_inv_def by (meson Diff_mono subset_refl)
  ultimately show ?thesis using inv ok bs by (simp add: tracker_inv_def)
qed

lemma covered_fit: "covered A \<subseteq> {..<n} \<longleftrightarrow> (\<forall>(k, m)\<in>A. blk k m \<subseteq> {..<n})"
  by (simp add: covered_def UN_subset_iff case_prod_beta')

lemma resize_shrink_correct:
  assumes inv: "al_inv cap al A" and fits: "fits_layout al l" and ok: "layout_ok h cap ps l" and ok': "layout_ok h cap ps l'"
    and cap: "cap < 2 ^ 32" and less: "num_regions l' \<le> num_regions l"
      "region_pages l' (num_regions l' - 1) \<le> region_pages l (num_regions l' - 1)"
    and room: "\<And>i. covered (A i) \<subseteq> {..<region_pages l' i}"
  shows "\<exists>al'. resize_shrink al l' = Some al' \<and> al_inv cap al' A \<and> fits_layout al' l' \<and>
    (\<forall>m. rt_free (region_tracker al') m \<subseteq> rt_free (region_tracker al) m)"
proof -
  let ?n = "num_regions l'" and ?bs = "region_allocators al"
  have n: "0 < ?n" "?n \<le> length ?bs" using ok' less(1) fits by (auto simp: layout_ok_def fits_layout_def)
  from inv obtain N where N: "tracker_inv N al A" by (auto simp: al_inv_def)
  then have "rt_ok N (region_tracker al)" "length ?bs \<le> N" by (auto simp: tracker_inv_def)
  from mark_full_loop[OF this, of ?n] obtain t where
    t: "fold_opt (\<lambda>i t. mark_full t 0 i) [?n..<length ?bs] (region_tracker al) = Some t" "rt_ok N t"
      "\<And>m. rt_free t m = rt_free (region_tracker al) m - {?n..<length ?bs}" by blast
  let ?b = "?bs ! (?n - 1)" and ?p = "region_pages l' (?n - 1)"
  have hb: "history_inv cap ?b (A (?n - 1))" and lb: "ba_len ?b = region_pages l (?n - 1)"
    using inv fits n less(1) by (auto simp: al_inv_def fits_layout_def)
  have p: "0 < ?p" "?p \<le> cap" using region_pages_pos[OF ok'] region_pages_bound[OF ok'] n by auto
  from history_resize[OF hb p cap] room[of "?n - 1"] obtain b where
    b: "ba_resize ?b ?p = Some b" "history_inv cap b (A (?n - 1))" "ba_len b = ?p" by (auto simp: covered_fit)
  define b' where "b' = (if ?p < ba_len ?b then b else ?b)"
  have b': "history_inv cap b' (A (?n - 1))" "ba_len b' = ?p"
    using b hb lb less(2) by (auto simp: b'_def)
  have split: "take ?n ?bs = take (?n - 1) ?bs @ [?b]" using n by (metis Suc_diff_1 Suc_le_lessD take_Suc_conv_app_nth)
  define bs' where "bs' = take (?n - 1) ?bs @ [b']"
  have nth: "bs' ! i = (if i = ?n - 1 then b' else ?bs ! i)" if "i < ?n" for i
    using that n by (auto simp: nth_append bs'_def)
  have len: "length bs' = ?n" using n by (simp add: bs'_def)
  have run: "resize_shrink al l' = Some \<lparr>region_tracker = t, region_allocators = bs'\<rparr>"
    unfolding resize_shrink_def split Let_def last_region_pages[OF ok'] using t(1) n b(1) by (simp add: b'_def bs'_def)
  have inner: "region_pages l' i = ba_len (?bs ! i)" if "i < ?n" "i \<noteq> ?n - 1" for i
    using region_pages_inner[OF ok', of i] region_pages_inner[OF ok, of i] that less(1) fits by (simp add: fits_layout_def)
  have "tracker_inv N \<lparr>region_tracker = t, region_allocators = bs'\<rparr> A"
    by (rule tracker_inv_shrink[OF N t(2)]) (use n t(3) nth len b'(2) lb less(2) in auto)
  moreover have "history_inv cap (bs' ! i) (A i)" if "i < ?n" for i
    using b'(1) inv that n nth[OF that] by (auto simp: al_inv_def)
  moreover have "A i = {}" if "?n \<le> i" for i
  proof -
    have "region_pages l' i = 0" using region_pages_pos[OF ok', of i] that by simp
    then have "covered (A i) = {}" using room[of i] by simp
    then show ?thesis using blk_nonempty by (force simp: covered_def)
  qed
  moreover have "ba_len (bs' ! i) = region_pages l' i" if "i < ?n" for i
    using nth[OF that] b'(2) inner[OF that] by simp
  ultimately have "al_inv cap \<lparr>region_tracker = t, region_allocators = bs'\<rparr> A"
    "fits_layout \<lparr>region_tracker = t, region_allocators = bs'\<rparr> l'"
    unfolding al_inv_def fits_layout_def by (auto simp: len)
  then show ?thesis using run t(3) by auto
qed

text \<open>The tracker knows of every free block of the region, at every order.\<close>

definition region_marked :: "Allocators \<Rightarrow> (nat \<Rightarrow> (nat \<times> nat) set) \<Rightarrow> nat \<Rightarrow> bool" where
  "region_marked al A i \<longleftrightarrow> (\<forall>n\<le>ba_max_order (region_allocators al ! i).
     (\<exists>k. blk k n \<subseteq> region_free al A i) \<longrightarrow> i \<in> rt_free (region_tracker al) n)"

lemma highest_free_marks:
  assumes hb: "history_inv cap b (A i)" and free: "{..<ba_len b} - covered (A i) \<noteq> {}"
    and inv: "tracker_inv N al A" and i: "i < N" "i < length bs" "length bs \<le> N" "length (region_allocators al) \<le> length bs"
    and bs: "bs ! i = b" "\<And>j. j < length bs \<Longrightarrow> j \<noteq> i \<Longrightarrow> j < length (region_allocators al) \<and> bs ! j = region_allocators al ! j"
  obtains r t where "highest_free_order b = Some (Some r)" "mark_free (region_tracker al) r i = Some t"
    "tracker_inv N \<lparr>region_tracker = t, region_allocators = bs\<rparr> A" "region_marked \<lparr>region_tracker = t, region_allocators = bs\<rparr> A i"
    "\<And>m. rt_free (region_tracker al) m \<subseteq> rt_free t m"
    "\<And>j. j < length bs \<Longrightarrow> j \<noteq> i \<Longrightarrow> region_marked al A j \<Longrightarrow> region_marked \<lparr>region_tracker = t, region_allocators = bs\<rparr> A j"
proof -
  let ?F = "{..<ba_len b} - covered (A i)"
  have rep: "ba_rep b ?F" using hb by (simp add: history_inv_def)
  obtain r where r: "highest_free_order b = Some (Some r)" "r \<le> ba_max_order b"
    "\<And>m k. m \<le> ba_max_order b \<Longrightarrow> blk k m \<subseteq> ?F \<Longrightarrow> m \<le> r"
  proof -
    from highest_free_order_correct[OF rep] obtain x where x: "highest_free_order b = Some x"
      "case x of None \<Rightarrow> ?F = {} | Some n \<Rightarrow> n \<le> ba_max_order b \<and> (\<exists>k. blk k n \<subseteq> ?F) \<and>
         (\<forall>m k. m \<le> ba_max_order b \<longrightarrow> blk k m \<subseteq> ?F \<longrightarrow> m \<le> n)" by blast
    show ?thesis
    proof (cases x)
      case (Some n)
      show ?thesis by (rule that[of n]) (use x Some in auto)
    qed (use x free in simp)
  qed
  have ro: "r \<le> MAX_MAX_PAGE_ORDER" using r(2) history_order_bound[OF hb] by simp
  obtain t where t: "mark_free (region_tracker al) r i = Some t" "tracker_inv N \<lparr>region_tracker = t, region_allocators = bs\<rparr> A"
    "\<And>m. rt_free t m = (if m \<le> r then insert i (rt_free (region_tracker al) m) else rt_free (region_tracker al) m)"
    by (rule tracker_inv_mark_free[OF inv ro i(1,4,2,3), where A' = A]) (use bs(2) in auto)
  have "region_marked \<lparr>region_tracker = t, region_allocators = bs\<rparr> A i"
    unfolding region_marked_def region_free_def using r(3) by (auto simp: t(3) bs(1))
  moreover have "rt_free (region_tracker al) m \<subseteq> rt_free t m" for m by (auto simp: t(3))
  moreover have "region_marked \<lparr>region_tracker = t, region_allocators = bs\<rparr> A j"
    if "j < length bs" "j \<noteq> i" "region_marked al A j" for j
    using that(3) bs(2)[OF that(1,2)] unfolding region_marked_def region_free_def by (auto simp: t(3))
  ultimately show ?thesis by (rule that[OF r(1) t(1,2)])
qed

text \<open>The invariant of the growing loop before region \<open>k\<close>.\<close>

definition grow_loop_inv :: "nat \<Rightarrow> (nat \<Rightarrow> (nat \<times> nat) set) \<Rightarrow> DatabaseLayout \<Rightarrow> DatabaseLayout \<Rightarrow> Allocators \<Rightarrow> nat \<Rightarrow> Allocators \<Rightarrow> bool" where
  "grow_loop_inv cap A l l' al0 k al \<longleftrightarrow> (\<exists>N. tracker_inv N al A) \<and>
     length (region_allocators al) = max (num_regions l) k \<and>
     (\<forall>i<length (region_allocators al). history_inv cap (region_allocators al ! i) (A i) \<and>
        ba_len (region_allocators al ! i) = (if i < k then region_pages l' i else region_pages l i)) \<and>
     (\<forall>i<k. region_pages l i < region_pages l' i \<longrightarrow> region_marked al A i) \<and>
     (\<forall>m. rt_free (region_tracker al0) m \<subseteq> rt_free (region_tracker al) m)"

lemma grow_existing:
  assumes P: "grow_loop_inv cap A l l' al0 k al" and ok': "layout_ok h cap ps l'" and cap: "cap < 2 ^ 32"
    and k: "k < num_regions l" "k < num_regions l'" and mono: "region_pages l k \<le> region_pages l' k"
  shows "\<exists>al'. resize_grow_region (num_regions l) l' k al = Some al' \<and> grow_loop_inv cap A l l' al0 (Suc k) al'"
proof -
  let ?bs = "region_allocators al"
  from P obtain N where N: "tracker_inv N al A" by (auto simp: grow_loop_inv_def)
  have len: "length ?bs = num_regions l" using P k by (simp add: grow_loop_inv_def)
  have hb: "history_inv cap (?bs ! k) (A k)" "ba_len (?bs ! k) = region_pages l k"
    using P len k by (auto simp: grow_loop_inv_def)
  note lay = layout_region[OF ok' k(2)]
  show ?thesis
  proof (cases "region_pages l' k = region_pages l k")
    case True
    then show ?thesis using P lay hb(2) len k
      by (auto simp: resize_grow_region_def grow_loop_inv_def less_Suc_eq)
  next
    case False
    then have lt: "region_pages l k < region_pages l' k" using mono by simp
    have rp: "0 < region_pages l' k" "region_pages l' k \<le> cap"
      using region_pages_pos[OF ok'] region_pages_bound[OF ok'] k by auto
    have cov: "covered (A k) \<subseteq> {..<region_pages l k}" using hb by (auto simp: history_inv_def)
    then have "\<forall>(j, m)\<in>A k. blk j m \<subseteq> {..<region_pages l' k}" using lt by (auto simp flip: covered_fit)
    from history_resize[OF hb(1) rp cap this] obtain b where
      b: "ba_resize (?bs ! k) (region_pages l' k) = Some b" "history_inv cap b (A k)" "ba_len b = region_pages l' k" by blast
    have free: "{..<ba_len b} - covered (A k) \<noteq> {}" using cov lt b(3) by fastforce
    let ?bs' = "?bs[k := b]"
    have kN: "k < N" "length ?bs \<le> N" using N len k by (auto simp: tracker_inv_def)
    obtain r t where t: "highest_free_order b = Some (Some r)" "mark_free (region_tracker al) r k = Some t"
      "tracker_inv N \<lparr>region_tracker = t, region_allocators = ?bs'\<rparr> A" "region_marked \<lparr>region_tracker = t, region_allocators = ?bs'\<rparr> A k"
      "\<And>m. rt_free (region_tracker al) m \<subseteq> rt_free t m"
      "\<And>j. j < length ?bs' \<Longrightarrow> j \<noteq> k \<Longrightarrow> region_marked al A j \<Longrightarrow> region_marked \<lparr>region_tracker = t, region_allocators = ?bs'\<rparr> A j"
      by (rule highest_free_marks[where bs = ?bs', OF b(2) free N kN(1)]) (use kN len k in auto)
    have "rt_free (region_tracker al0) m \<subseteq> rt_free t m" for m
      using P t(5) unfolding grow_loop_inv_def by (meson subset_trans)
    then have "grow_loop_inv cap A l l' al0 (Suc k) \<lparr>region_tracker = t, region_allocators = ?bs'\<rparr>"
      using P t(3,4,6) len b k unfolding grow_loop_inv_def by (auto simp: less_Suc_eq nth_list_update)
    moreover have "resize_grow_region (num_regions l) l' k al = Some \<lparr>region_tracker = t, region_allocators = ?bs'\<rparr>"
      using lay hb(2) len k b(1) t(1,2) False mono by (simp add: resize_grow_region_def)
    ultimately show ?thesis by blast
  qed
qed

lemma grow_new:
  assumes P: "grow_loop_inv cap A l l' al0 k al" and ok': "layout_ok h cap ps l'" and cap: "cap < 2 ^ 32"
    and k: "num_regions l \<le> k" "k < num_regions l'" "num_regions l' \<le> MAX_REGIONS" and Ak: "A k = {}"
  shows "\<exists>al'. resize_grow_region (num_regions l) l' k al = Some al' \<and> grow_loop_inv cap A l l' al0 (Suc k) al'"
proof -
  let ?bs = "region_allocators al"
  from P obtain N where N: "tracker_inv N al A" by (auto simp: grow_loop_inv_def)
  have len: "length ?bs = k" using P k by (simp add: grow_loop_inv_def)
  note lay = layout_region[OF ok' k(2)]
  have rp: "0 < region_pages l' k" "region_pages l' k \<le> cap"
    using region_pages_pos[OF ok'] region_pages_bound[OF ok'] k by auto
  from history_created[OF rp cap] Ak obtain b where
    b: "ba_new (region_pages l' k) cap = Some b" "history_inv cap b (A k)" "ba_len b = region_pages l' k" by auto
  have free: "{..<ba_len b} - covered (A k) \<noteq> {}" using rp(1) b(3) Ak by (auto simp: covered_def)
  have rt: "rt_ok N (region_tracker al)" "N \<le> MAX_REGIONS" using N by (auto simp: tracker_inv_def)
  obtain N' t1 where t1: "(if N \<le> k then rt_resize (region_tracker al) (k + 1) else Some (region_tracker al)) = Some t1"
    "rt_ok N' t1" "\<And>m. rt_free t1 m = rt_free (region_tracker al) m" "k < N'" "N' \<le> MAX_REGIONS"
  proof (cases "N \<le> k")
    case True
    from rt_resize_correct[OF rt(1), of "k + 1"] True k obtain t1 where
      "rt_resize (region_tracker al) (k + 1) = Some t1" "rt_ok (k + 1) t1" "\<forall>m. rt_free t1 m = rt_free (region_tracker al) m" by auto
    then show ?thesis using that[of t1 "k + 1"] True k by auto
  next
    case False
    then show ?thesis using that[of "region_tracker al" N] rt by auto
  qed
  let ?al1 = "al\<lparr>region_tracker := t1\<rparr>" and ?bs' = "?bs @ [b]"
  have N': "tracker_inv N' ?al1 A" using N t1(2-5) len by (simp add: tracker_inv_def region_free_def)
  have marked1: "region_marked ?al1 A j" if "region_marked al A j" for j
    using that t1(3) by (simp add: region_marked_def region_free_def)
  obtain r t where t: "highest_free_order b = Some (Some r)" "mark_free (region_tracker ?al1) r k = Some t"
    "tracker_inv N' \<lparr>region_tracker = t, region_allocators = ?bs'\<rparr> A" "region_marked \<lparr>region_tracker = t, region_allocators = ?bs'\<rparr> A k"
    "\<And>m. rt_free (region_tracker ?al1) m \<subseteq> rt_free t m"
    "\<And>j. j < length ?bs' \<Longrightarrow> j \<noteq> k \<Longrightarrow> region_marked ?al1 A j \<Longrightarrow> region_marked \<lparr>region_tracker = t, region_allocators = ?bs'\<rparr> A j"
    by (rule highest_free_marks[where bs = ?bs', OF b(2) free N' t1(4)]) (use len t1 in \<open>auto simp: nth_append\<close>)
  have "rt_free (region_tracker al) m \<subseteq> rt_free t m" for m using t(5)[of m] t1(3)[of m] by simp
  then have fr: "rt_free (region_tracker al0) m \<subseteq> rt_free t m" for m
    using P unfolding grow_loop_inv_def by (meson subset_trans)
  have "grow_loop_inv cap A l l' al0 (Suc k) \<lparr>region_tracker = t, region_allocators = ?bs'\<rparr>"
    using P t(3,4,6) marked1 fr len b k unfolding grow_loop_inv_def
    by (auto simp: less_Suc_eq nth_append)
  moreover have "resize_grow_region (num_regions l) l' k al = Some \<lparr>region_tracker = t, region_allocators = ?bs'\<rparr>"
    using lay len k b(1) t(1,2) rt_len_correct[OF rt(1)] t1(1) layout_full[OF ok'] by (simp add: resize_grow_region_def)
  ultimately show ?thesis by blast
qed

lemma resize_grow_correct:
  assumes inv: "al_inv cap al A" and fits: "fits_layout al l" and ok': "layout_ok h cap ps l'"
    and cap: "cap < 2 ^ 32" and more: "num_regions l \<le> num_regions l'" "num_regions l' \<le> MAX_REGIONS"
    and mono: "\<And>i. i < num_regions l \<Longrightarrow> region_pages l i \<le> region_pages l' i"
  shows "\<exists>al'. fold_opt (resize_grow_region (length (region_allocators al)) l') [0..<num_regions l'] al = Some al' \<and>
    al_inv cap al' A \<and> fits_layout al' l' \<and> (\<forall>m. rt_free (region_tracker al) m \<subseteq> rt_free (region_tracker al') m) \<and>
    (\<forall>i<num_regions l'. region_pages l i < region_pages l' i \<longrightarrow> region_marked al' A i)"
proof -
  have len: "length (region_allocators al) = num_regions l" using fits by (simp add: fits_layout_def)
  have out: "A i = {}" if "num_regions l \<le> i" for i using inv that len by (simp add: al_inv_def)
  have "\<exists>al'. fold_opt (resize_grow_region (num_regions l) l') [0..<num_regions l'] al = Some al' \<and>
    grow_loop_inv cap A l l' al (length [0..<num_regions l']) al'"
  proof (rule fold_opt_inv)
    show "grow_loop_inv cap A l l' al 0 al" using inv fits by (simp add: grow_loop_inv_def al_inv_def fits_layout_def)
  next
    fix k al1 assume "k < length [0..<num_regions l']" and P: "grow_loop_inv cap A l l' al k al1"
    then have k: "k < num_regions l'" by simp
    show "\<exists>s'. resize_grow_region (num_regions l) l' ([0..<num_regions l'] ! k) al1 = Some s' \<and> grow_loop_inv cap A l l' al (Suc k) s'"
      using grow_existing[OF P ok' cap _ k] grow_new[OF P ok' cap _ k more(2)] mono out k
      by (cases "k < num_regions l") auto
  qed
  then show ?thesis using len more(1) out unfolding grow_loop_inv_def al_inv_def fits_layout_def by (auto simp: max_def)
qed

lemma resize_to_correct:
  assumes inv: "al_inv cap al A" and fits: "fits_layout al l" and ok: "layout_ok h cap ps l" and ok': "layout_ok h cap ps l'"
    and cap: "cap < 2 ^ 32" and max: "num_regions l' \<le> MAX_REGIONS" and room: "\<And>i. covered (A i) \<subseteq> {..<region_pages l' i}"
  shows "\<exists>al'. resize_to al l' = Some al' \<and> al_inv cap al' A \<and> fits_layout al' l' \<and>
    (\<forall>i<num_regions l'. region_pages l i < region_pages l' i \<longrightarrow> region_marked al' A i)"
proof -
  let ?n = "num_regions l" and ?n' = "num_regions l'"
  let ?p = "region_pages l (?n - 1)" and ?p' = "region_pages l' (?n' - 1)"
  have len: "length (region_allocators al) = ?n" and pos: "0 < ?n" "0 < ?n'"
    using fits ok ok' by (auto simp: fits_layout_def layout_ok_def)
  have ne: "region_allocators al \<noteq> []" using len pos by auto
  have last: "ba_len (last (region_allocators al)) = ?p"
    using len pos fits ne by (simp add: last_conv_nth fits_layout_def)
  have dec: "resize_decision al l' = Some (if ?n' < ?n \<or> ?n' = ?n \<and> ?p' < ?p then Shrink
      else if ?n' = ?n \<and> ?p' = ?p then No_op else Grow)"
    using len pos last ne last_region_pages[OF ok'] by (auto simp: resize_decision_def cmp_def)
  have mono: "region_pages l i \<le> region_pages l' i" if "i + 1 < ?n'" for i
    using region_pages_inner[OF ok' that] region_pages_bound[OF ok, of i] by simp
  have mono': "region_pages l' i \<le> region_pages l i" if "i + 1 < ?n" for i
    using region_pages_inner[OF ok that] region_pages_bound[OF ok', of i] by simp
  consider (shrink) "?n' < ?n \<or> ?n' = ?n \<and> ?p' < ?p" | (same) "?n' = ?n" "?p' = ?p"
    | (grow) "?n < ?n' \<or> ?n' = ?n \<and> ?p < ?p'" by linarith
  then show ?thesis
  proof cases
    case shrink
    then have le: "region_pages l' i \<le> region_pages l i" if "i < ?n'" for i
    proof (cases "i + 1 < ?n")
      case False
      then have "?n' = ?n" "i = ?n - 1" using that shrink by auto
      then show ?thesis using shrink by auto
    qed (rule mono')
    from resize_shrink_correct[OF inv fits ok ok' cap] shrink le[of "?n' - 1"] pos room show ?thesis
      using le dec shrink by (fastforce simp: resize_to_def)
  next
    case same
    have "region_pages l' i = region_pages l i" if "i < ?n'" for i
    proof (cases "i + 1 < ?n")
      case False
      then have "i = ?n - 1" "i = ?n' - 1" using that same(1) by auto
      then show ?thesis using same(2) by simp
    qed (use mono[of i] mono'[of i] same(1) in simp)
    then show ?thesis using dec same inv fits by (auto simp: resize_to_def fits_layout_def)
  next
    case grow
    then have "region_pages l i \<le> region_pages l' i" if "i < ?n" for i
    proof (cases "i + 1 < ?n'")
      case False
      then have "?n' = ?n" "i = ?n - 1" using that grow by auto
      then show ?thesis using grow by auto
    qed (rule mono)
    with resize_grow_correct[OF inv fits ok' cap _ max] grow dec show ?thesis by (fastforce simp: resize_to_def)
  qed
qed

subsection \<open>Properties\<close>

text \<open>
  C21. The region tracker: the region found for an order is the least one marked free at it, marking a
  region free at an order makes it a candidate at this and every lower order and changes nothing at
  higher ones, and marking it full at an order removes it at this and every higher order.
\<close>

theorem region_tracker_marks:
  assumes "rt_ok N t" "order \<le> MAX_MAX_PAGE_ORDER" "r < N" "m \<le> MAX_MAX_PAGE_ORDER"
  shows "find_free t m = Some (if rt_free t m = {} then None else Some (Min (rt_free t m))) \<and>
    (\<exists>t'. mark_free t order r = Some t' \<and> rt_ok N t' \<and>
      rt_free t' m = (if m \<le> order then insert r (rt_free t m) else rt_free t m)) \<and>
    (\<exists>t'. mark_full t order r = Some t' \<and> rt_ok N t' \<and>
      rt_free t' m = (if order \<le> m then rt_free t m - {r} else rt_free t m))"
  using find_free_correct[OF assms(1,4)] mark_free_correct[OF assms(1-3)] mark_full_correct[OF assms(1-3)] assms(4) by auto

theorem region_tracker_marks_witness:
  "\<exists>t'. mark_free (rt_new 1000 21) 3 7 = Some t' \<and> rt_free t' 2 = {7} \<and> rt_free t' 4 = {}"
proof -
  have ok: "rt_ok 1000 (rt_new 1000 21)" and f: "rt_free (rt_new 1000 21) n = {}" for n
    using rt_new_correct(1)[of 1000] rt_new_correct(2)[of 1000 21] by (simp_all add: MAX_REGIONS_def MAX_MAX_PAGE_ORDER_def)
  show ?thesis
    using region_tracker_marks[OF ok, of 3 7 2] region_tracker_marks[OF ok, of 3 7 4] f
    by (auto simp: MAX_MAX_PAGE_ORDER_def)
qed

lemma rt_to_vec_defined:
  assumes ok: "rt_ok N t" and N: "N \<le> MAX_REGIONS" and h: "\<forall>m\<in>set (order_trackers t). length (bt_heights m) \<le> 8"
  shows "\<exists>v. rt_to_vec t = Some v"
proof -
  have each: "\<exists>v. bt_to_vec m = Some v \<and> length v < 2 ^ 32" if "m \<in> set (order_trackers t)" for m
    using bt_to_vec_bounded[of m] that ok N h by (fastforce simp: rt_ok_def MAX_REGIONS_def)
  then have "map_opt bt_to_vec (order_trackers t) = Some (map (\<lambda>m. the (bt_to_vec m)) (order_trackers t))"
    by (intro map_opt_all_Some) fastforce
  moreover have "length (the (bt_to_vec m)) < 2 ^ 32" if "m \<in> set (order_trackers t)" for m using each[OF that] by auto
  ultimately show ?thesis using ok by (simp add: rt_to_vec_def rt_ok_def MAX_MAX_PAGE_ORDER_def)
qed

text \<open>
  C22. The region tracker can be serialised, and reads back to a tracker over the same number of
  regions that finds the same region for every order.
\<close>

theorem region_tracker_round_trip:
  assumes "rt_ok N t" "N \<le> MAX_REGIONS" "\<forall>m\<in>set (order_trackers t). length (bt_heights m) \<le> 8"
  shows "\<exists>v t'. rt_to_vec t = Some v \<and> rt_from_bytes v = Some t' \<and> rt_len t' = rt_len t \<and>
    (\<forall>order \<le> MAX_MAX_PAGE_ORDER. find_free t' order = find_free t order)"
proof -
  from rt_to_vec_defined[OF assms] obtain v where v: "rt_to_vec t = Some v" by blast
  have "N < 2 ^ 32" using assms(2) by (simp add: MAX_REGIONS_def)
  from rt_round_trip[OF assms(1) this v] obtain t' where t': "rt_from_bytes v = Some t'"
    "length (order_trackers t') = Suc MAX_MAX_PAGE_ORDER" "\<forall>m\<in>set (order_trackers t'). bt_inv m \<and> bt_size m = N"
    "\<forall>n. rt_free t' n = rt_free t n" by blast
  have nth: "order < length (order_trackers t')" "bt_inv (order_trackers t' ! order)" "bt_size (order_trackers t' ! order) = N"
    "rt_free t order = bt_unset (order_trackers t' ! order)" if "order \<le> MAX_MAX_PAGE_ORDER" for order
    using t'(2,3) that t'(4)[rule_format, symmetric, of order] by (simp_all add: less_Suc_eq_le rt_free_def[of t'])
  have "find_free t' order = find_free t order" if "order \<le> MAX_MAX_PAGE_ORDER" for order
    using nth[OF that] find_free_correct[OF assms(1) that] by (simp add: find_free_def bt_find_first_unset_correct)
  moreover have "rt_len t' = rt_len t"
    using nth[of 0] rt_len_correct[OF assms(1)] by (simp add: rt_len_def bt_len_correct)
  ultimately show ?thesis using v t'(1) by blast
qed

theorem region_tracker_round_trip_witness:
  "\<exists>v t'. rt_to_vec (rt_new 1000 21) = Some v \<and> rt_from_bytes v = Some t' \<and> rt_len t' = Some 1000"
proof -
  have ok: "rt_ok 1000 (rt_new 1000 21)"
    using rt_new_correct(1)[of 1000] by (simp add: MAX_REGIONS_def MAX_MAX_PAGE_ORDER_def)
  have "length (bt_heights (bt_new 1000 MAX_REGIONS)) \<le> 4"
    using bt_new_levels_height[of MAX_REGIONS 3 1000] by (simp add: bt_new_def MAX_REGIONS_def)
  then have "\<forall>m\<in>set (order_trackers (rt_new 1000 21)). length (bt_heights m) \<le> 8" by (simp add: rt_new_def)
  from region_tracker_round_trip[OF ok _ this] show ?thesis using rt_len_correct[OF ok] by (auto simp: MAX_REGIONS_def)
qed

text \<open>
  C8. Resizing the allocators to a layout, in either direction, keeps every allocated block and the
  invariant of the allocators: the regions get the sizes of the layout, the blocks stay allocated, and
  a region that grew is registered in the tracker at every order at which it now has a free block.
\<close>

theorem allocators_resize_correct:
  assumes "al_inv cap al A" "fits_layout al l" "layout_ok h cap ps l" "layout_ok h cap ps l'"
    and "cap < 2 ^ 32" "num_regions l' \<le> MAX_REGIONS" "\<forall>i. covered (A i) \<subseteq> {..<region_pages l' i}"
  shows "\<exists>al'. resize_to al l' = Some al' \<and> al_inv cap al' A \<and> fits_layout al' l' \<and>
    (\<forall>i<num_regions l'. region_pages l i < region_pages l' i \<longrightarrow> region_marked al' A i)"
  using resize_to_correct[OF assms(1-6)] assms(7) by blast

theorem allocators_resize_correct_witness:
  "\<exists>al al'. al_new \<lparr>full_region_layout = \<lparr>rl_num_pages = 20, rl_header_pages = 0, rl_page_size = 4096\<rparr>,
        num_full_regions = 0, trailing_partial_region = Some \<lparr>rl_num_pages = 3, rl_header_pages = 0, rl_page_size = 4096\<rparr>\<rparr> = Some al \<and>
     resize_to al \<lparr>full_region_layout = \<lparr>rl_num_pages = 20, rl_header_pages = 0, rl_page_size = 4096\<rparr>,
        num_full_regions = 2, trailing_partial_region = None\<rparr> = Some al' \<and> length (region_allocators al') = 2"
proof -
  let ?l = "\<lparr>full_region_layout = \<lparr>rl_num_pages = 20, rl_header_pages = 0, rl_page_size = 4096\<rparr>,
        num_full_regions = 0, trailing_partial_region = Some \<lparr>rl_num_pages = 3, rl_header_pages = 0, rl_page_size = 4096\<rparr>\<rparr>"
  let ?l' = "\<lparr>full_region_layout = \<lparr>rl_num_pages = 20, rl_header_pages = 0, rl_page_size = 4096\<rparr>,
        num_full_regions = 2, trailing_partial_region = None\<rparr>"
  have ok: "layout_ok 0 20 4096 ?l" "layout_ok 0 20 4096 ?l'" and n: "num_regions ?l = 1" "num_regions ?l' = 2"
    by (auto simp: layout_ok_def num_regions_def)
  from al_new_correct[OF ok(1)] n obtain al where al: "al_new ?l = Some al" "al_inv 20 al (\<lambda>_. {})" "fits_layout al ?l"
    by (auto simp: MAX_REGIONS_def)
  from allocators_resize_correct[OF al(2,3) ok] n obtain al' where "resize_to al ?l' = Some al'" "fits_layout al' ?l'"
    by (auto simp: MAX_REGIONS_def covered_def)
  then show ?thesis using al(1) n by (auto simp: fits_layout_def)
qed

end
