(* ===== verification/Commit.thy ===== *)
theory Commit
  imports Header
begin

text \<open>
  The header updates of a durable commit (\<open>TransactionalMemory::commit_inner\<close>), the choice of the commit
  slot when a database is opened after a crash (\<open>TransactionalMemory::new\<close>), and what a crash between the
  writes of a commit can leave behind.
\<close>

subsection \<open>Committing and recovering\<close>

definition commit_prepare :: "DatabaseHeader \<Rightarrow> BtreeHeader option \<Rightarrow> BtreeHeader option \<Rightarrow> nat \<Rightarrow> DatabaseHeader option" where
  "commit_prepare h data_root sys_root tid =
     update_secondary_slot h (\<lambda>s. s\<lparr>transaction_id := tid, user_root := data_root, system_root := sys_root\<rparr>)"

definition commit_publish :: "DatabaseHeader \<Rightarrow> bool \<Rightarrow> DatabaseHeader" where
  "commit_publish h two_phase = (swap_primary_slot h)\<lparr>two_phase_commit := two_phase\<rparr>"

definition recover :: "checksum_fn \<Rightarrow> bytes \<Rightarrow> (DatabaseError + DatabaseHeader) option" where
  "recover xxh3 header_bytes =
     and_then (dh_from_bytes xxh3 header_bytes) (\<lambda>(h, info).
       if recovery_required h then
         and_then (map_option (map_sum database_from_storage id) (pick_primary_for_repair h info)) (\<lambda>(h', _). do {
           assert_that (\<not> invalid_magic_number info);
           Some (Inr h') })
       else Some (Inr h))"

subsection \<open>Crash images\<close>

text \<open>
  Between two syncs every byte of the header may hold any of the values written to it. A two-phase commit
  syncs between its two writes, a one-phase commit does not.
\<close>

definition mixed :: "bytes list \<Rightarrow> bytes \<Rightarrow> bool" where
  "mixed imgs d \<longleftrightarrow> (\<forall>b \<in> set imgs. length b = length d) \<and> (\<forall>i < length d. \<exists>b \<in> set imgs. d ! i = b ! i)"

definition crash_image :: "bool \<Rightarrow> bytes \<Rightarrow> bytes \<Rightarrow> bytes \<Rightarrow> bytes \<Rightarrow> bool" where
  "crash_image two_phase b0 b1 b2 d \<longleftrightarrow>
     (if two_phase then mixed [b0, b1] d \<or> mixed [b1, b2] d else mixed [b0, b1, b2] d)"

text \<open>The checksum detects a slot that was only partly written.\<close>

definition tears_detected :: "checksum_fn \<Rightarrow> bytes \<Rightarrow> bytes \<Rightarrow> bool" where
  "tears_detected xxh3 a b \<longleftrightarrow> (\<forall>bs. mixed [a, b] bs \<and> checksum_valid xxh3 bs \<longrightarrow> bs = a \<or> bs = b)"

lemma mixed_nth: "mixed imgs d \<Longrightarrow> i < length d \<Longrightarrow> d ! i \<in> (\<lambda>b. b ! i) ` set imgs"
  by (auto simp: mixed_def)

lemma mixed_slot:
  assumes "mixed imgs d" "length d = 336" "i < 2"
  shows "mixed (map (\<lambda>b. slot_bytes b i) imgs) (slot_bytes d i)"
proof -
  have "80 + 128 * i + 128 \<le> 336" using assms(3) by simp
  then show ?thesis using assms by (auto simp: mixed_def slot_bytes_def)
qed

lemma mixed_const:
  assumes "mixed imgs d" "\<forall>b \<in> set imgs. b = c" "imgs \<noteq> []"
  shows "d = c"
proof (rule nth_equalityI)
  show "length d = length c" using assms by (cases imgs) (auto simp: mixed_def)
  show "i < length d \<Longrightarrow> d ! i = c ! i" for i using assms(1,2) by (auto simp: mixed_def)
qed

lemma mixed_mono: "mixed imgs d \<Longrightarrow> set imgs \<subseteq> set imgs' \<Longrightarrow> \<forall>b \<in> set imgs'. length b = length d \<Longrightarrow> mixed imgs' d"
  by (fastforce simp: mixed_def)

lemma xor_one: "p < 2 \<Longrightarrow> p XOR 1 = 1 - (p :: nat)"
proof -
  assume "p < 2"
  then have "p = 0 \<or> p = 1" by auto
  then show ?thesis by auto
qed

text \<open>
  The slot that recovery makes the primary: the one the header names or the other, by whether the header says
  the last commit was two-phase, which slots are corrupted and whether the other slot is newer.
\<close>

definition repair_choice :: "bool \<Rightarrow> bool \<Rightarrow> bool \<Rightarrow> bool \<Rightarrow> 'a \<Rightarrow> 'a \<Rightarrow> DatabaseError + 'a" where
  "repair_choice two_phase named_bad other_bad other_newer named other =
    (if two_phase then
       (if named_bad then Inl (database_from_storage (StorageError.Corrupted ''Primary is corrupted despite 2-phase commit''))
        else Inr named)
     else if named_bad then
       (if other_bad then Inl (database_from_storage (StorageError.Corrupted ''Both commit slots are corrupted''))
        else Inr other)
     else if other_newer \<and> \<not> other_bad then Inr other else Inr named)"

lemma recover_eval:
  assumes len: "length d = 336" and q: "q < 2" "(d ! 9 AND PRIMARY_BIT \<noteq> 0) = (q = 1)"
    and rec: "d ! 9 AND RECOVERY_REQUIRED \<noteq> 0" and magic: "take 9 d = MAGICNUMBER"
    and a: "th_from_bytes xxh3 (slot_bytes d q) = Some (Inr (a, ca))"
    and b: "th_from_bytes xxh3 (slot_bytes d (1 - q)) = Some (Inr (b, cb))"
  shows "\<exists>H H'. primary_slot H = Some a \<and> primary_slot H' = Some b \<and> salt H = take 16 (drop 32 d) \<and> salt H' = salt H \<and>
    recover xxh3 d =
      Some (repair_choice (d ! 9 AND TWO_PHASE_COMMIT \<noteq> 0) ca cb (transaction_id a < transaction_id b) H H')"
proof -
  have "\<exists>hd info. dh_from_bytes xxh3 d = Some (Inr (hd, info)) \<and> primary_slot hd = Some a \<and> secondary_slot hd = Some b \<and>
    primary_slot (swap_primary_slot hd) = Some b \<and> primary_corrupted info = ca \<and> secondary_corrupted info = cb \<and>
    recovery_required hd \<and> two_phase_commit hd = (d ! 9 AND TWO_PHASE_COMMIT \<noteq> 0) \<and> \<not> invalid_magic_number info \<and>
    salt hd = take 16 (drop 32 d)"
  proof (cases "q = 0")
    case True
    then have "0 = (if d ! 9 AND PRIMARY_BIT \<noteq> 0 then 1 else (0 :: nat))" using q(2) by simp
    note e = dh_from_bytes_eval[OF len _ _ this, of xxh3 a ca b cb]
    show ?thesis
      by (subst e) (use a b True rec magic in
        \<open>simp_all add: primary_slot_def secondary_slot_def swap_primary_slot_def idx_def\<close>)
  next
    case False
    then have 1: "q = 1" using q(1) by simp
    then have "1 = (if d ! 9 AND PRIMARY_BIT \<noteq> 0 then 1 else (0 :: nat))" using q(2) by simp
    note e = dh_from_bytes_eval[OF len _ _ this, of xxh3 b cb a ca]
    show ?thesis
      by (subst e) (use a b 1 rec magic in
        \<open>simp_all add: primary_slot_def secondary_slot_def swap_primary_slot_def idx_def\<close>)
  qed
  then obtain hd info where e: "dh_from_bytes xxh3 d = Some (Inr (hd, info))" "primary_slot hd = Some a"
    "secondary_slot hd = Some b" "primary_slot (swap_primary_slot hd) = Some b" "primary_corrupted info = ca"
    "secondary_corrupted info = cb" "recovery_required hd" "two_phase_commit hd = (d ! 9 AND TWO_PHASE_COMMIT \<noteq> 0)"
    "\<not> invalid_magic_number info" "salt hd = take 16 (drop 32 d)"
    by (elim exE conjE) (rule that)
  have "salt (swap_primary_slot hd) = salt hd" by (simp add: swap_primary_slot_def)
  with e show ?thesis
    by (intro exI[of _ hd] exI[of _ "swap_primary_slot hd"]) (simp add: recover_def pick_primary_for_repair_def repair_choice_def)
qed

lemma header_image:
  assumes "header_ok h" "dh_to_bytes xxh3 h True = Some b"
  shows "length b = 336 \<and> take 9 b = MAGICNUMBER \<and> god_byte h = Some (b ! 9) \<and> take 16 (drop 32 b) = salt h \<and>
    (\<forall>i < 2. th_to_bytes xxh3 (transaction_slots h ! i) = Some (slot_bytes b i))"
  using dh_to_bytes_fields[OF assms(1), of xxh3 True] assms(2) by (auto simp: less_2_cases_iff)

text \<open>\<open>h0\<close> is the header on disk and \<open>h\<close> the one in memory: non-durable commits and file growth since
  the last durable commit have only changed the secondary slot and the layout.\<close>

definition disk_header :: "DatabaseHeader \<Rightarrow> DatabaseHeader \<Rightarrow> bool" where
  "disk_header h0 h \<longleftrightarrow> primary_slot_index h = primary_slot_index h0 \<and> primary_slot h = primary_slot h0 \<and>
     recovery_required h = recovery_required h0 \<and> two_phase_commit h = two_phase_commit h0 \<and> salt h = salt h0"

lemma commit_prepare_fields:
  assumes "header_ok h" "commit_prepare h ur sr tid = Some h1"
  shows "primary_slot_index h1 = primary_slot_index h" "recovery_required h1 = recovery_required h"
    "two_phase_commit h1 = two_phase_commit h" "salt h1 = salt h" "primary_slot h1 = primary_slot h"
    "secondary_slot h1 = Some new \<Longrightarrow> transaction_id new = tid \<and> user_root new = ur \<and> system_root new = sr"
proof -
  have "primary_slot_index h = 0 \<or> primary_slot_index h = 1" using assms(1) by (auto simp: header_ok_def)
  then show "primary_slot_index h1 = primary_slot_index h" "recovery_required h1 = recovery_required h"
    "two_phase_commit h1 = two_phase_commit h" "salt h1 = salt h" "primary_slot h1 = primary_slot h"
    "secondary_slot h1 = Some new \<Longrightarrow> transaction_id new = tid \<and> user_root new = ur \<and> system_root new = sr"
    using assms by (auto simp: commit_prepare_def update_secondary_slot_def primary_slot_def secondary_slot_def idx_def
        bind_Some_iff split: if_splits)
qed

lemma commit_publish_fields [simp]:
  "primary_slot_index (commit_publish h tp) = primary_slot_index h XOR 1" "recovery_required (commit_publish h tp) = recovery_required h"
  "two_phase_commit (commit_publish h tp) = tp" "salt (commit_publish h tp) = salt h"
  "transaction_slots (commit_publish h tp) = transaction_slots h"
  by (simp_all add: commit_publish_def swap_primary_slot_def)

lemma commit_publish_ok: "header_ok h \<Longrightarrow> header_ok (commit_publish h tp)"
  using xor_one[of "primary_slot_index h"] by (auto simp: header_ok_def commit_publish_def swap_primary_slot_def)

lemma slots_of:
  assumes "header_ok h" "p = primary_slot_index h" "primary_slot h = Some a" "secondary_slot h = Some b"
  shows "transaction_slots h ! p = a" "transaction_slots h ! (1 - p) = b" "p < 2"
  using assms xor_one[of p] by (auto simp: header_ok_def primary_slot_def secondary_slot_def idx_def split: if_splits)

text \<open>The state of the two slots in a crash image.\<close>

lemma torn_slot:
  assumes "mixed [s0, s1] bs" "th_to_bytes xxh3 stale = Some s0" "th_to_bytes xxh3 new = Some s1" "th_ok stale" "th_ok new"
    and "tears_detected xxh3 s0 s1"
  shows "\<exists>t c. th_from_bytes xxh3 bs = Some (Inr (t, c)) \<and> (\<not> c \<longrightarrow> t = stale \<or> t = new)"
proof -
  have s: "length s0 = 128" "s0 ! 0 = 3" "length s1 = 128" "s1 ! 0 = 3"
    "th_from_bytes xxh3 s0 = Some (Inr (stale, False))" "th_from_bytes xxh3 s1 = Some (Inr (new, False))"
    using th_round_trip[OF assms(4), of xxh3] th_round_trip[OF assms(5), of xxh3] assms(2,3) by auto
  have "length bs = 128" using assms(1) s(1) by (simp add: mixed_def)
  moreover then have "bs ! 0 = s0 ! 0 \<or> bs ! 0 = s1 ! 0" using assms(1) by (simp add: mixed_def)
  ultimately have "length bs = 128" "bs ! 0 = 3" using s(2,4) by auto
  from th_from_bytes_total[OF this] obtain t where
    t: "th_from_bytes xxh3 bs = Some (Inr (t, \<not> checksum_valid xxh3 bs))" by blast
  have "checksum_valid xxh3 bs \<Longrightarrow> bs = s0 \<or> bs = s1" using assms(1,6) by (auto simp: tears_detected_def)
  then show ?thesis using t s(5,6) by auto
qed

lemma crash_image_mixed:
  assumes "crash_image tp b0 b1 b2 d" "length b0 = n" "length b1 = n" "length b2 = n"
  shows "mixed [b0, b1, b2] d" "length d = n" "tp \<Longrightarrow> mixed [b0, b1] d \<or> mixed [b1, b2] d"
  using assms by (auto simp: crash_image_def mixed_def split: if_splits)

lemma mixed_range:
  assumes "mixed imgs d" "\<forall>b \<in> set imgs. take n (drop a b) = c" "imgs \<noteq> []" "a + n \<le> length d"
  shows "take n (drop a d) = c"
proof (rule mixed_const)
  show "mixed (map (\<lambda>b. take n (drop a b)) imgs) (take n (drop a d))"
    using assms(1,4) by (auto simp: mixed_def)
qed (use assms in auto)

text \<open>The state of both slots and of the god byte in a crash image.\<close>

lemma crash_slots:
  assumes ok: "header_ok h0" "header_ok h" "header_ok h1" and disk: "disk_header h0 h" and p: "p = primary_slot_index h0"
    and slots: "primary_slot h0 = Some old" "secondary_slot h0 = Some stale"
    and commit: "commit_prepare h ur sr tid = Some h1" "secondary_slot h1 = Some new"
    and img: "dh_to_bytes xxh3 h0 True = Some b0" "dh_to_bytes xxh3 h1 True = Some b1"
      "dh_to_bytes xxh3 (commit_publish h1 tp) True = Some b2"
    and tear: "th_to_bytes xxh3 stale = Some s0" "th_to_bytes xxh3 new = Some s1"
    and crash: "crash_image tp b0 b1 b2 d"
  shows "th_from_bytes xxh3 (slot_bytes d p) = Some (Inr (old, False)) \<and> mixed [s0, s1] (slot_bytes d (1 - p)) \<and>
    length d = 336 \<and> take 9 d = MAGICNUMBER \<and> take 16 (drop 32 d) = salt h0 \<and>
    (d ! 9 = b0 ! 9 \<or> d ! 9 = b2 ! 9) \<and> (tp \<and> d ! 9 \<noteq> b0 ! 9 \<longrightarrow> slot_bytes d (1 - p) = s1) \<and>
    slot_bytes b2 (1 - p) = s1"
proof -
  let ?h2 = "commit_publish h1 tp"
  have ok2: "header_ok ?h2" by (rule commit_publish_ok[OF ok(3)])
  note f1 = commit_prepare_fields[OF ok(2) commit(1)]
  have idx: "primary_slot_index h1 = p" and pri: "primary_slot h1 = Some old"
    using f1 disk slots(1) p by (simp_all add: disk_header_def)
  note s0 = slots_of[OF ok(1) p slots] and s1 = slots_of[OF ok(3) idx[symmetric] pri commit(2)]
  have p': "1 - p < 2" "p < 2" using s0(3) by auto
  note i0 = header_image[OF ok(1) img(1)] and i1 = header_image[OF ok(3) img(2)] and i2 = header_image[OF ok2 img(3)]
  obtain ob where ob: "th_to_bytes xxh3 old = Some ob" using i0 s0(1) p'(2) by auto
  have sl: "slot_bytes b0 p = ob" "slot_bytes b1 p = ob" "slot_bytes b2 p = ob"
    "slot_bytes b0 (1 - p) = s0" "slot_bytes b1 (1 - p) = s1" "slot_bytes b2 (1 - p) = s1"
    using i0 i1 i2 s0 s1 p' ob tear by auto
  have mix: "mixed [b0, b1, b2] d" "length d = 336" "tp \<Longrightarrow> mixed [b0, b1] d \<or> mixed [b1, b2] d"
    using crash_image_mixed[OF crash, of 336] i0 i1 i2 by auto
  have "god_byte h1 = god_byte h0" using f1 disk by (simp add: god_byte_def disk_header_def)
  then have g: "b1 ! 9 = b0 ! 9" using i0 i1 by simp
  have "slot_bytes d p = ob" using mixed_const[OF mixed_slot[OF mix(1,2) p'(2)], of ob] sl by simp
  moreover have "th_ok old" using ok(1) s0 p' by (metis header_ok_def nth_mem)
  ultimately have "th_from_bytes xxh3 (slot_bytes d p) = Some (Inr (old, False))"
    using th_round_trip[of old xxh3] ob by auto
  moreover have "mixed [s0, s1] (slot_bytes d (1 - p))"
    using mixed_slot[OF mix(1,2) p'(1)] sl by (auto simp: mixed_def)
  moreover have "take 9 d = MAGICNUMBER" using mixed_range[OF mix(1), of 9 0] i0 i1 i2 mix(2) by simp
  moreover have "take 16 (drop 32 d) = salt h0"
    using mixed_range[OF mix(1), of 16 32] i0 i1 i2 mix(2) f1(4) disk by (simp add: disk_header_def)
  moreover have "d ! 9 = b0 ! 9 \<or> d ! 9 = b2 ! 9" using mixed_nth[OF mix(1), of 9] mix(2) g by auto
  moreover have "slot_bytes d (1 - p) = s1" if "tp" "d ! 9 \<noteq> b0 ! 9"
  proof -
    have "\<not> mixed [b0, b1] d" using mixed_nth[of "[b0, b1]" d 9] that(2) g mix(2) by auto
    then have "mixed [b1, b2] d" using mix(3) that(1) by blast
    from mixed_const[OF mixed_slot[OF this mix(2) p'(1)], of s1] sl show ?thesis by simp
  qed
  ultimately show ?thesis using mix(2) sl(6) by blast
qed


text \<open>An instance: a checksum that covers the transaction id, and a crash in which only the god byte was written.\<close>

definition id_checksum :: checksum_fn where
  "id_checksum bs = word_of_nat (unat (bs ! 104))"

definition example_header :: DatabaseHeader where
  "example_header = \<lparr>primary_slot_index = 0, recovery_required = True, two_phase_commit = False, page_size = 4096,
     region_header_pages = 0, region_max_data_pages = 1024, full_regions = 0, trailing_partial_region_pages = 300,
     salt = replicate 16 7, transaction_slots = [th_new 1, th_new 0]\<rparr>"

definition example_slot :: "u8 \<Rightarrow> u8 \<Rightarrow> bytes" where
  "example_slot x y = [3] @ replicate 103 0 @ [x] @ replicate 7 0 @ [y] @ replicate 15 0"

lemma from_le_zeros: "from_le (replicate k 0) = 0"
  by (induction k) simp_all

lemma le_bytes_zero: "le_bytes k 0 = replicate k 0"
  by (induction k) simp_all

lemma le_bytes_small: "n < 256 \<Longrightarrow> 0 < k \<Longrightarrow> le_bytes k n = word_of_nat n # replicate (k - 1) 0"
  by (cases k) (simp_all add: le_bytes_zero)

lemma example_slot_bytes: "n < 256 \<Longrightarrow> th_to_bytes id_checksum (th_new n) = Some (example_slot (word_of_nat n) (word_of_nat n))"
  by (simp add: le_bytes_small nth_append unsigned_ucast_eq unat_of_nat take_bit_eq_mod th_to_bytes_def th_new_def root_fields_def write_fields_simps put_slice_def subslice_def slot_offsets
      format_versions id_checksum_def example_slot_def)

lemma example_slot_nth:
  "i < 128 \<Longrightarrow> example_slot x y ! i = (if i = 0 then 3 else if i = 104 then x else if i = 112 then y else 0)"
  by (simp add: example_slot_def nth_append nth_Cons') arith?

lemma example_tears: "tears_detected id_checksum (example_slot 0 0) (example_slot 2 2)"
  unfolding tears_detected_def
proof (intro allI impI, elim conjE)
  fix bs assume m: "mixed [example_slot 0 0, example_slot 2 2] bs" and v: "checksum_valid id_checksum bs"
  have len: "length bs = 128" using m by (simp add: mixed_def example_slot_def)
  have cases: "bs ! i = example_slot 0 0 ! i \<or> bs ! i = example_slot 2 2 ! i" if "i < 128" for i
    using mixed_nth[OF m, of i] that len by simp
  have bs: "bs = example_slot (bs ! 104) (bs ! 112)"
  proof (rule nth_equalityI)
    show "length bs = length (example_slot (bs ! 104) (bs ! 112))" by (simp add: len example_slot_def)
    show "bs ! i = example_slot (bs ! 104) (bs ! 112) ! i" if "i < length bs" for i
      using cases[of i] that len by (auto simp: example_slot_nth split: if_splits)
  qed
  have "bs ! 104 = 0 \<or> bs ! 104 = 2" "bs ! 112 = 0 \<or> bs ! 112 = 2"
    using cases[of 104] cases[of 112] by (simp_all add: example_slot_nth)
  moreover have "\<not> checksum_valid id_checksum (example_slot 0 2)" "\<not> checksum_valid id_checksum (example_slot 2 0)"
    by (simp_all add: checksum_valid_def example_slot_def id_checksum_def nth_append from_le_zeros)
  ultimately show "bs = example_slot 0 0 \<or> bs = example_slot 2 2" using v bs by metis
qed


end
