(* ===== verification/Effects.thy ===== *)
theory Effects
  imports Prelude
begin

text \<open>
  Stateful fallible code: an operation maps a state to its result and the new state, the result being an
  error or a value, and \<open>None\<close> is a panic. \<open>st_bind\<close> sequences two operations as the \<open>?\<close> operator does:
  an error ends the function and keeps the state changes made so far.
\<close>

type_synonym ('s, 'e, 'a) sem = "'s \<Rightarrow> (('e + 'a) \<times> 's) option"

definition st_return :: "'a \<Rightarrow> ('s, 'e, 'a) sem" where
  "st_return x s = Some (Inr x, s)"

definition st_error :: "'e \<Rightarrow> ('s, 'e, 'a) sem" where
  "st_error e s = Some (Inl e, s)"

definition st_bind :: "('s, 'e, 'a) sem \<Rightarrow> ('a \<Rightarrow> ('s, 'e, 'b) sem) \<Rightarrow> ('s, 'e, 'b) sem" where
  "st_bind m f s = (case m s of
       None \<Rightarrow> None
     | Some (Inl e, s') \<Rightarrow> Some (Inl e, s')
     | Some (Inr x, s') \<Rightarrow> f x s')"

definition st_get :: "('s \<Rightarrow> 'a) \<Rightarrow> ('s, 'e, 'a) sem" where
  "st_get f s = Some (Inr (f s), s)"

definition st_update :: "('s \<Rightarrow> 's) \<Rightarrow> ('s, 'e, unit) sem" where
  "st_update f s = Some (Inr (), f s)"

definition st_assert :: "('s \<Rightarrow> bool) \<Rightarrow> ('s, 'e, unit) sem" where
  "st_assert P s = (if P s then Some (Inr (), s) else None)"

text \<open>A step that may panic but does not fail, and a step on part of the state.\<close>

definition st_lift :: "('s \<Rightarrow> ('a \<times> 's) option) \<Rightarrow> ('s, 'e, 'a) sem" where
  "st_lift f s = (case f s of None \<Rightarrow> None | Some (x, s') \<Rightarrow> Some (Inr x, s'))"

definition st_panic :: "('s, 'e, 'a) sem" where
  "st_panic s = None"

text \<open>The result of a pure fallible function, a step on part of the state, and an error conversion.\<close>

definition st_result :: "('s \<Rightarrow> ('e + 'a) option) \<Rightarrow> ('s, 'e, 'a) sem" where
  "st_result f s = (case f s of None \<Rightarrow> None | Some r \<Rightarrow> Some (r, s))"

definition st_zoom :: "('s \<Rightarrow> 't) \<Rightarrow> ('t \<Rightarrow> 's \<Rightarrow> 's) \<Rightarrow> ('t, 'e, 'a) sem \<Rightarrow> ('s, 'e, 'a) sem" where
  "st_zoom get put m s = (case m (get s) of None \<Rightarrow> None | Some (r, t) \<Rightarrow> Some (r, put t s))"

definition st_map_err :: "('e \<Rightarrow> 'f) \<Rightarrow> ('s, 'e, 'a) sem \<Rightarrow> ('s, 'f, 'a) sem" where
  "st_map_err g m s = (case m s of None \<Rightarrow> None | Some (r, s') \<Rightarrow> Some (map_sum g id r, s'))"

text \<open>A step whose error is looked at instead of returned.\<close>

definition st_try :: "('s, 'e, 'a) sem \<Rightarrow> ('s, 'f, 'e + 'a) sem" where
  "st_try m s = (case m s of None \<Rightarrow> None | Some (r, s') \<Rightarrow> Some (Inr r, s'))"

fun st_for :: "('a \<Rightarrow> ('s, 'e, unit) sem) \<Rightarrow> 'a list \<Rightarrow> ('s, 'e, unit) sem" where
  "st_for f [] = st_return ()"
| "st_for f (x # xs) = st_bind (f x) (\<lambda>_. st_for f xs)"

named_theorems st_simps \<open>evaluation of stateful operations\<close>

lemma st_bind_simps [st_simps]:
  "m s = None \<Longrightarrow> st_bind m f s = None"
  "m s = Some (Inl e, s') \<Longrightarrow> st_bind m f s = Some (Inl e, s')"
  "m s = Some (Inr x, s') \<Longrightarrow> st_bind m f s = f x s'"
  by (simp_all add: st_bind_def)

lemmas [st_simps] = st_return_def st_error_def st_get_def st_update_def

lemma st_assert_simp [st_simps]: "P s \<Longrightarrow> st_assert P s = Some (Inr (), s)"
  by (simp add: st_assert_def)

lemma st_lift_simp [st_simps]: "f s = Some (x, s') \<Longrightarrow> st_lift f s = Some (Inr x, s')"
  by (simp add: st_lift_def)

text \<open>Laws of sequencing.\<close>

lemma st_bind_return [simp]: "st_bind m st_return = m"
  by (auto simp: fun_eq_iff st_bind_def st_return_def split: option.splits sum.splits)

lemma st_return_bind [simp]: "st_bind (st_return x) f = f x"
  by (simp add: fun_eq_iff st_bind_def st_return_def)

lemma st_bind_assoc: "st_bind (st_bind m f) g = st_bind m (\<lambda>x. st_bind (f x) g)"
  by (auto simp: fun_eq_iff st_bind_def split: option.splits sum.splits)

text \<open>
  Partial correctness in the style of a weakest precondition: the operation does not panic, and its
  value (or its error) and final state satisfy the postcondition.
\<close>

definition st_ok :: "('s, 'e, 'a) sem \<Rightarrow> 's \<Rightarrow> ('a \<Rightarrow> 's \<Rightarrow> bool) \<Rightarrow> ('e \<Rightarrow> 's \<Rightarrow> bool) \<Rightarrow> bool" where
  "st_ok m s Q E \<longleftrightarrow> (case m s of None \<Rightarrow> False | Some (Inr x, s') \<Rightarrow> Q x s' | Some (Inl e, s') \<Rightarrow> E e s')"

lemma st_ok_bind: "st_ok m s (\<lambda>x s'. st_ok (f x) s' Q E) E \<Longrightarrow> st_ok (st_bind m f) s Q E"
  by (auto simp: st_ok_def st_bind_def split: option.splits sum.splits)

lemma st_ok_prim [simp]:
  "st_ok (st_return x) s Q E \<longleftrightarrow> Q x s"
  "st_ok (st_error e) s Q E \<longleftrightarrow> E e s"
  "st_ok (st_get g) s Q E \<longleftrightarrow> Q (g s) s"
  by (simp_all add: st_ok_def st_return_def st_error_def st_get_def)

lemma st_ok_unit [simp]:
  "st_ok (st_update h) s Q E \<longleftrightarrow> Q () (h s)"
  "st_ok (st_assert P) s Q E \<longleftrightarrow> P s \<and> Q () s"
  by (simp_all add: st_ok_def st_update_def st_assert_def)

lemma st_ok_step: "m s = Some (Inr x, s') \<Longrightarrow> st_ok (f x) s' Q E \<Longrightarrow> st_ok (st_bind m f) s Q E"
  by (simp add: st_ok_def st_bind_def)

lemma st_ok_assert: "P s \<Longrightarrow> st_ok (f ()) s Q E \<Longrightarrow> st_ok (st_bind (st_assert P) f) s Q E"
  by (simp add: st_ok_def st_bind_def st_assert_def)

lemma st_ok_zoom: "st_ok m (get s) (\<lambda>x t. Q x (put t s)) (\<lambda>e t. E e (put t s)) \<Longrightarrow> st_ok (st_zoom get put m) s Q E"
  by (auto simp: st_ok_def st_zoom_def split: option.splits sum.splits)

lemma st_ok_map_err:
  assumes "st_ok m s Q (\<lambda>e. E (g e))"
  shows "st_ok (st_map_err g m) s Q E"
proof (cases "m s")
  case (Some p)
  then show ?thesis using assms by (cases p, cases "fst p") (auto simp: st_ok_def st_map_err_def)
qed (use assms in \<open>simp add: st_ok_def\<close>)

lemma st_ok_try:
  assumes "st_ok m s (\<lambda>x. Q (Inr x)) (\<lambda>e. Q (Inl e))"
  shows "st_ok (st_try m) s Q E"
proof (cases "m s")
  case (Some p)
  then show ?thesis using assms by (cases p, cases "fst p") (auto simp: st_ok_def st_try_def)
qed (use assms in \<open>simp add: st_ok_def\<close>)

lemma st_ok_lift: "f s = Some (x, s') \<Longrightarrow> Q x s' \<Longrightarrow> st_ok (st_lift f) s Q E"
  by (simp add: st_ok_def st_lift_def)

lemma st_ok_seq:
  "st_ok (st_bind (st_update f) g) s Q E = st_ok (g ()) (f s) Q E"
  "st_ok (st_bind (st_get h) k) s Q E = st_ok (k (h s)) s Q E"
  by (simp_all add: st_ok_def st_bind_def st_update_def st_get_def)

lemma st_ok_lift_bind: "f s = Some (x, s') \<Longrightarrow> st_ok (g x) s' Q E \<Longrightarrow> st_ok (st_bind (st_lift f) g) s Q E"
  by (simp add: st_ok_def st_bind_def st_lift_def)

lemma st_ok_mono: "st_ok m s Q E \<Longrightarrow> (\<And>x s'. Q x s' \<Longrightarrow> Q' x s') \<Longrightarrow> (\<And>e s'. E e s' \<Longrightarrow> E' e s') \<Longrightarrow> st_ok m s Q' E'"
  by (auto simp: st_ok_def split: option.splits sum.splits)

lemma st_ok_for:
  assumes "I 0 s" and "\<And>i s. i < length xs \<Longrightarrow> I i s \<Longrightarrow> st_ok (f (xs ! i)) s (\<lambda>_. I (Suc i)) E"
  shows "st_ok (st_for f xs) s (\<lambda>_. I (length xs)) E"
  using assms
proof (induction xs arbitrary: s I)
  case (Cons x xs)
  have "st_ok (f x) s (\<lambda>_. I 1) E" using Cons.prems(1) Cons.prems(2)[of 0 s] by simp
  then show ?case unfolding st_for.simps
    by (intro st_ok_bind, elim st_ok_mono) (use Cons.IH[of "\<lambda>i. I (Suc i)"] Cons.prems(2)[of "Suc _"] in auto)
qed simp

text \<open>Operations that leave a part of the state alone.\<close>

definition st_keeps :: "('s \<Rightarrow> 'b) \<Rightarrow> ('s, 'e, 'a) sem \<Rightarrow> bool" where
  "st_keeps g m \<longleftrightarrow> (\<forall>s r s'. m s = Some (r, s') \<longrightarrow> g s' = g s)"

named_theorems st_keep \<open>parts of the state that operations leave alone\<close>

lemma st_keeps_bind [st_keep]: "st_keeps g m \<Longrightarrow> (\<And>x. st_keeps g (f x)) \<Longrightarrow> st_keeps g (st_bind m f)"
  unfolding st_keeps_def st_bind_def by (fastforce split: option.splits sum.splits)

lemma st_keeps_prim [st_keep]:
  "st_keeps g (st_return x)" "st_keeps g (st_error e)" "st_keeps g (st_get h)"
  by (simp_all add: st_keeps_def st_return_def st_error_def st_get_def)

lemma st_keeps_unit [st_keep]:
  "st_keeps g (st_assert P)" "(\<And>s. g (h s) = g s) \<Longrightarrow> st_keeps g (st_update h)"
  by (auto simp: st_keeps_def st_assert_def st_update_def split: if_splits)

lemma st_keeps_lift [st_keep]: "(\<And>s x s'. f s = Some (x, s') \<Longrightarrow> g s' = g s) \<Longrightarrow> st_keeps g (st_lift f)"
  by (auto simp: st_keeps_def st_lift_def split: option.splits)

lemma st_keeps_for [st_keep]: "(\<And>x. st_keeps g (f x)) \<Longrightarrow> st_keeps g (st_for f xs)"
  by (induction xs) (auto intro!: st_keep)

lemma st_keepsD: "st_keeps g m \<Longrightarrow> st_ok m s Q E \<Longrightarrow> st_ok m s (\<lambda>x s'. Q x s' \<and> g s' = g s) E"
  by (auto simp: st_keeps_def st_ok_def split: option.splits sum.splits)

text \<open>Operations that keep a predicate, and operations whose errors establish one.\<close>

definition st_stays :: "('s \<Rightarrow> bool) \<Rightarrow> ('s, 'e, 'a) sem \<Rightarrow> bool" where
  "st_stays P m \<longleftrightarrow> (\<forall>s r s'. P s \<and> m s = Some (r, s') \<longrightarrow> P s')"

definition st_fails :: "('s \<Rightarrow> bool) \<Rightarrow> ('s, 'e, 'a) sem \<Rightarrow> bool" where
  "st_fails P m \<longleftrightarrow> (\<forall>s e s'. m s = Some (Inl e, s') \<longrightarrow> P s')"

lemma st_stays_bind [st_keep]:
  assumes "st_stays P m" "\<And>x. st_stays P (f x)"
  shows "st_stays P (st_bind m f)"
  unfolding st_stays_def
proof (intro allI impI, elim conjE)
  fix s r s' assume P: "P s" and b: "st_bind m f s = Some (r, s')"
  obtain r1 s1 where m: "m s = Some (r1, s1)" using b by (cases "m s") (auto simp: st_bind_def)
  have "P s1" using assms(1) P m unfolding st_stays_def by blast
  show "P s'"
  proof (cases r1)
    case (Inl e)
    then have "s' = s1" using b m by (simp add: st_bind_def)
    then show ?thesis using \<open>P s1\<close> by simp
  next
    case (Inr x)
    then have "f x s1 = Some (r, s')" using b m by (simp add: st_bind_def)
    then show ?thesis using assms(2)[of x] \<open>P s1\<close> unfolding st_stays_def by blast
  qed
qed

lemma st_fails_bind [st_keep]: "st_fails P m \<Longrightarrow> (\<And>x. st_fails P (f x)) \<Longrightarrow> st_fails P (st_bind m f)"
  unfolding st_fails_def st_bind_def by (auto split: option.splits sum.splits)

lemma st_stays_prim [st_keep]:
  "st_stays P (st_return x)" "st_stays P (st_error e)" "st_stays P (st_get h)"
  "st_fails P (st_return x)" "st_fails P (st_get h)"
  by (simp_all add: st_stays_def st_fails_def st_return_def st_error_def st_get_def)

lemma st_stays_unit [st_keep]:
  "st_stays P (st_assert Q)" "(\<And>s. P s \<Longrightarrow> P (h s)) \<Longrightarrow> st_stays P (st_update h)"
  "st_fails P (st_assert Q)" "st_fails P (st_update h)"
  by (auto simp: st_stays_def st_fails_def st_assert_def st_update_def split: if_splits)

lemma st_stays_lift [st_keep]:
  "(\<And>s x s'. P s \<Longrightarrow> f s = Some (x, s') \<Longrightarrow> P s') \<Longrightarrow> st_stays P (st_lift f)"
  "st_fails P (st_lift f)"
  by (auto simp: st_stays_def st_fails_def st_lift_def split: option.splits)

lemma st_stays_for [st_keep]:
  "(\<And>x. st_stays P (f x)) \<Longrightarrow> st_stays P (st_for f xs)"
  "(\<And>x. st_fails P (f x)) \<Longrightarrow> st_fails P (st_for f xs)"
  by (induction xs) (auto intro!: st_keep)

end
