(* ===== verification/Backends.thy ===== *)
theory Backends
  imports Effects Errors
begin

text \<open>
  The \<open>StorageBackend\<close> trait of \<^verbatim>\<open>db.rs\<close> as a record of its methods over the state of the storage, its documented
  contract as the locale \<open>storage_backend\<close>, the in-memory and read-only backends of \<^verbatim>\<open>page_store/backends.rs\<close>,
  and the \<open>CheckedBackend\<close> of \<^verbatim>\<open>page_store/cached_file.rs\<close> that stops all access after the first I/O error.
\<close>

record 's StorageBackend =
  be_len :: "('s, io_error, nat) sem"
  be_read :: "nat \<Rightarrow> nat \<Rightarrow> ('s, io_error, bytes) sem"
  be_set_len :: "nat \<Rightarrow> ('s, io_error, unit) sem"
  be_sync_data :: "('s, io_error, unit) sem"
  be_write :: "nat \<Rightarrow> bytes \<Rightarrow> ('s, io_error, unit) sem"
  be_close :: "('s, io_error, unit) sem"

subsection \<open>Backends\<close>

definition out_of_range :: io_error where
  "out_of_range = ''Index out-of-range.''"

definition mem_len :: "(bytes, io_error, nat) sem" where
  "mem_len = st_get length"

definition mem_read :: "nat \<Rightarrow> nat \<Rightarrow> (bytes, io_error, bytes) sem" where
  "mem_read off n d = (case subslice d off (off + n) of Some bs \<Rightarrow> Some (Inr bs, d) | None \<Rightarrow> Some (Inl out_of_range, d))"

definition mem_set_len :: "nat \<Rightarrow> (bytes, io_error, unit) sem" where
  "mem_set_len n = st_update (\<lambda>d. if length d < n then d @ replicate (n - length d) 0 else take n d)"

definition mem_write :: "nat \<Rightarrow> bytes \<Rightarrow> (bytes, io_error, unit) sem" where
  "mem_write off data d = (case put_slice d off data of Some d' \<Rightarrow> Some (Inr (), d') | None \<Rightarrow> Some (Inl out_of_range, d))"

definition mem_backend :: "bytes StorageBackend" where
  "mem_backend = \<lparr>be_len = mem_len, be_read = mem_read, be_set_len = mem_set_len, be_sync_data = st_return (),
     be_write = mem_write, be_close = st_return ()\<rparr>"

text \<open>The methods of the read-only backend that change the storage are \<open>unreachable!()\<close>.\<close>

definition read_only_backend :: "'s StorageBackend \<Rightarrow> 's StorageBackend" where
  "read_only_backend inner = \<lparr>be_len = be_len inner, be_read = be_read inner, be_set_len = (\<lambda>_ _. None),
     be_sync_data = (\<lambda>_. None), be_write = (\<lambda>_ _ _. None), be_close = be_close inner\<rparr>"

subsection \<open>The checked backend\<close>

record 's CheckedBackend =
  cb_file :: 's
  io_failed :: bool
  closed :: bool

definition cb_new :: "'s \<Rightarrow> 's CheckedBackend" where
  "cb_new s = \<lparr>cb_file = s, io_failed = False, closed = False\<rparr>"

definition check_failure :: "('s CheckedBackend, StorageError, unit) sem" where
  "check_failure c = (if io_failed c
     then Some (Inl (if closed c then StorageError.DatabaseClosed else StorageError.PreviousIo), c)
     else Some (Inr (), c))"

text \<open>The body shared by \<open>len\<close>, \<open>read\<close>, \<open>set_len\<close>, \<open>sync_data\<close> and \<open>write\<close>.\<close>

definition checked :: "('s, io_error, 'a) sem \<Rightarrow> ('s CheckedBackend, StorageError, 'a) sem" where
  "checked f = st_bind check_failure (\<lambda>_ c. case f (cb_file c) of
       None \<Rightarrow> None
     | Some (Inl e, s') \<Rightarrow> Some (Inl (storage_from_io e), c\<lparr>cb_file := s', io_failed := True\<rparr>)
     | Some (Inr x, s') \<Rightarrow> Some (Inr x, c\<lparr>cb_file := s'\<rparr>))"

definition cb_close :: "'s StorageBackend \<Rightarrow> ('s CheckedBackend, StorageError, unit) sem" where
  "cb_close be c = (case be_close be (cb_file c) of
       None \<Rightarrow> None
     | Some (Inl e, s') \<Rightarrow> Some (Inl (storage_from_io e), c\<lparr>cb_file := s', closed := True, io_failed := True\<rparr>)
     | Some (Inr _, s') \<Rightarrow> Some (Inr (), c\<lparr>cb_file := s', closed := True, io_failed := True\<rparr>))"

definition cb_len :: "'s StorageBackend \<Rightarrow> ('s CheckedBackend, StorageError, nat) sem" where
  "cb_len be = checked (be_len be)"

definition cb_read :: "'s StorageBackend \<Rightarrow> nat \<Rightarrow> nat \<Rightarrow> ('s CheckedBackend, StorageError, bytes) sem" where
  "cb_read be off n = checked (be_read be off n)"

definition cb_set_len :: "'s StorageBackend \<Rightarrow> nat \<Rightarrow> ('s CheckedBackend, StorageError, unit) sem" where
  "cb_set_len be n = checked (be_set_len be n)"

definition cb_sync_data :: "'s StorageBackend \<Rightarrow> ('s CheckedBackend, StorageError, unit) sem" where
  "cb_sync_data be = checked (be_sync_data be)"

definition cb_write :: "'s StorageBackend \<Rightarrow> nat \<Rightarrow> bytes \<Rightarrow> ('s CheckedBackend, StorageError, unit) sem" where
  "cb_write be off data = checked (be_write be off data)"

subsection \<open>The contract of a backend\<close>

text \<open>
  Every method may fail with an I/O error. A read that succeeds returns the bytes in range; a write that succeeds
  and lies within the storage changes exactly those bytes; new positions are zero.
\<close>

locale storage_backend =
  fixes be :: "'s StorageBackend" and contents :: "'s \<Rightarrow> bytes"
  assumes len_ok: "st_ok (be_len be) s (\<lambda>n s'. n = length (contents s) \<and> contents s' = contents s) (\<lambda>_ _. True)"
    and read_ok: "st_ok (be_read be off n) s
      (\<lambda>bs s'. subslice (contents s) off (off + n) = Some bs \<and> contents s' = contents s) (\<lambda>_ _. True)"
    and set_len_ok: "st_ok (be_set_len be n) s
      (\<lambda>_ s'. contents s' = take n (contents s) @ replicate (n - length (contents s)) 0) (\<lambda>_ _. True)"
    and sync_ok: "st_ok (be_sync_data be) s (\<lambda>_ s'. contents s' = contents s) (\<lambda>_ _. True)"
    and write_ok: "off + length data \<le> length (contents s) \<Longrightarrow>
      st_ok (be_write be off data) s (\<lambda>_ s'. put_slice (contents s) off data = Some (contents s')) (\<lambda>_ _. True)"
begin

text \<open>The same laws for the checked backend: whenever an operation fails, the backend has stopped.\<close>

lemma checked_ok:
  assumes "st_ok f (cb_file c) Q (\<lambda>_ _. True)"
  shows "st_ok (checked f) c (\<lambda>x c'. Q x (cb_file c') \<and> \<not> io_failed c \<and> \<not> io_failed c') (\<lambda>_ c'. io_failed c')"
  using assms by (auto simp: checked_def st_bind_def check_failure_def st_ok_def split: option.splits sum.splits)

lemma cb_len_ok: "st_ok (cb_len be) c
    (\<lambda>n c'. n = length (contents (cb_file c)) \<and> contents (cb_file c') = contents (cb_file c)) (\<lambda>_ c'. io_failed c')"
  unfolding cb_len_def by (rule st_ok_mono[OF checked_ok[OF len_ok]]) auto

lemma cb_read_ok: "st_ok (cb_read be off n) c
    (\<lambda>bs c'. subslice (contents (cb_file c)) off (off + n) = Some bs \<and> contents (cb_file c') = contents (cb_file c))
    (\<lambda>_ c'. io_failed c')"
  unfolding cb_read_def by (rule st_ok_mono[OF checked_ok[OF read_ok]]) auto

lemma cb_set_len_ok: "st_ok (cb_set_len be n) c
    (\<lambda>_ c'. contents (cb_file c') = take n (contents (cb_file c)) @ replicate (n - length (contents (cb_file c))) 0)
    (\<lambda>_ c'. io_failed c')"
  unfolding cb_set_len_def by (rule st_ok_mono[OF checked_ok[OF set_len_ok]]) auto

lemma cb_sync_ok: "st_ok (cb_sync_data be) c (\<lambda>_ c'. contents (cb_file c') = contents (cb_file c)) (\<lambda>_ c'. io_failed c')"
  unfolding cb_sync_data_def by (rule st_ok_mono[OF checked_ok[OF sync_ok]]) auto

lemma cb_write_ok: "off + length data \<le> length (contents (cb_file c)) \<Longrightarrow> st_ok (cb_write be off data) c
    (\<lambda>_ c'. put_slice (contents (cb_file c)) off data = Some (contents (cb_file c'))) (\<lambda>_ c'. io_failed c')"
  unfolding cb_write_def by (rule st_ok_mono[OF checked_ok[OF write_ok]]) auto

end

interpretation mem: storage_backend mem_backend "\<lambda>d. d"
  by unfold_locales
    (auto simp: mem_backend_def mem_len_def mem_read_def mem_set_len_def mem_write_def st_ok_def st_get_def st_update_def
      st_return_def put_slice_def split: option.splits)

text \<open>
  The checked backend is fail-stop: after a failure or a close no operation reaches the storage, and the error
  tells a closed database from one with an earlier I/O error.
\<close>

lemma checked_failed:
  "io_failed c \<Longrightarrow> checked f c = Some (Inl (if closed c then StorageError.DatabaseClosed else StorageError.PreviousIo), c)"
  by (simp add: checked_def st_bind_def check_failure_def)

lemma checked_fails: "checked f c = Some (Inl e, c') \<Longrightarrow> io_failed c'"
  by (auto simp: checked_def st_bind_def check_failure_def split: option.splits sum.splits if_splits)

lemma closed_fails: "cb_close be c = Some (r, c') \<Longrightarrow> checked f c' = Some (Inl StorageError.DatabaseClosed, c')"
  by (auto simp: cb_close_def checked_failed split: option.splits sum.splits)

end
