(* ===== verification/Lru_Cache.thy ===== *)
theory Lru_Cache
  imports Prelude "HOL-Library.AList"
begin

text \<open>
  The second-chance cache of \<^verbatim>\<open>page_store/lru_cache.rs\<close>. The hash map is an association list with distinct keys,
  whose order stands for the unspecified iteration order. Reading an entry sets its second-chance flag, so
  \<open>get\<close> returns the updated cache too.
\<close>

subsection \<open>Operations\<close>

record 'a LRUCache =
  cache :: "(nat \<times> 'a \<times> bool) list"
  lru_queue :: "nat list"

definition lru_new :: "'a LRUCache" where
  "lru_new = \<lparr>cache = [], lru_queue = []\<rparr>"

definition lru_len :: "'a LRUCache \<Rightarrow> nat" where
  "lru_len c = length (cache c)"

definition lru_insert :: "nat \<Rightarrow> 'a \<Rightarrow> 'a LRUCache \<Rightarrow> 'a option \<times> 'a LRUCache" where
  "lru_insert key v c =
     (let result = map_option fst (map_of (cache c) key);
          c1 = c\<lparr>cache := AList.update key (v, False) (cache c)\<rparr>
      in (result, if result = None then c1\<lparr>lru_queue := lru_queue c1 @ [key]\<rparr> else c1))"

text \<open>One turn of the loop in \<open>remove\<close> that keeps the queue from growing.\<close>

definition cycle_queue :: "'a LRUCache \<Rightarrow> 'a LRUCache" where
  "cycle_queue c = (case lru_queue c of
       [] \<Rightarrow> c
     | k # q \<Rightarrow> (case map_of (cache c) k of
         Some (v, _) \<Rightarrow> c\<lparr>cache := AList.update k (v, False) (cache c), lru_queue := q @ [k]\<rparr>
       | None \<Rightarrow> c\<lparr>lru_queue := q\<rparr>))"

definition lru_remove :: "nat \<Rightarrow> 'a LRUCache \<Rightarrow> 'a option \<times> 'a LRUCache" where
  "lru_remove key c = (case map_of (cache c) key of
       Some (v, _) \<Rightarrow>
         (let c1 = c\<lparr>cache := AList.delete key (cache c)\<rparr>
          in (Some v, if 2 * length (cache c1) < length (lru_queue c1) then cycle_queue (cycle_queue c1) else c1))
     | None \<Rightarrow> (None, c))"

definition lru_get :: "nat \<Rightarrow> 'a LRUCache \<Rightarrow> 'a option \<times> 'a LRUCache" where
  "lru_get key c = (case map_of (cache c) key of
       Some (v, _) \<Rightarrow> (Some v, c\<lparr>cache := AList.update key (v, True) (cache c)\<rparr>)
     | None \<Rightarrow> (None, c))"

text \<open>\<open>get_mut\<close>, with the update its caller makes through the reference.\<close>

definition lru_get_mut :: "nat \<Rightarrow> ('a \<Rightarrow> 'a) \<Rightarrow> 'a LRUCache \<Rightarrow> 'a option \<times> 'a LRUCache" where
  "lru_get_mut key f c = (case map_of (cache c) key of
       Some (v, _) \<Rightarrow> (Some v, c\<lparr>cache := AList.update key (f v, True) (cache c)\<rparr>)
     | None \<Rightarrow> (None, c))"

definition lru_iter :: "'a LRUCache \<Rightarrow> (nat \<times> 'a) list" where
  "lru_iter c = map (\<lambda>(k, v, _). (k, v)) (cache c)"

lemma flags_update:
  "map_of m k = Some (v, True) \<Longrightarrow>
     length (filter (snd \<circ> snd) (AList.update k (v', False) m)) < length (filter (snd \<circ> snd) m)"
  by (induction m) (auto split: if_splits)

function lru_pop :: "'a LRUCache \<Rightarrow> (nat \<times> 'a) option \<times> 'a LRUCache" where
  "lru_pop c = (case lru_queue c of
       [] \<Rightarrow> (None, c)
     | key # q \<Rightarrow> (case map_of (cache c) key of
         None \<Rightarrow> lru_pop (c\<lparr>lru_queue := q\<rparr>)
       | Some (v, second_chance) \<Rightarrow>
           (if second_chance
            then lru_pop (c\<lparr>cache := AList.update key (v, False) (cache c), lru_queue := q @ [key]\<rparr>)
            else (Some (key, v), c\<lparr>cache := AList.delete key (cache c), lru_queue := q\<rparr>))))"
  by pat_completeness auto
termination
  by (relation "measures [\<lambda>c. length (filter (snd \<circ> snd) (cache c)), \<lambda>c. length (lru_queue c)]")
    (auto simp: flags_update)

declare lru_pop.simps [simp del]

definition lru_clear :: "'a LRUCache \<Rightarrow> 'a LRUCache" where
  "lru_clear c = \<lparr>cache = [], lru_queue = []\<rparr>"

subsection \<open>The cache as a map\<close>

definition lru_map :: "'a LRUCache \<Rightarrow> nat \<rightharpoonup> 'a" where
  "lru_map c k = map_option fst (map_of (cache c) k)"

text \<open>Every cached key is in the queue, so that it can be evicted.\<close>

definition lru_ok :: "'a LRUCache \<Rightarrow> bool" where
  "lru_ok c \<longleftrightarrow> distinct (map fst (cache c)) \<and> fst ` set (cache c) \<subseteq> set (lru_queue c)"

named_theorems lru_simps \<open>the cache operations as map operations\<close>

lemma lru_new_map [lru_simps]: "lru_map lru_new = Map.empty" "lru_ok lru_new" "lru_map (lru_clear c) = Map.empty" "lru_ok (lru_clear c)"
  by (auto simp: lru_new_def lru_map_def lru_ok_def lru_clear_def)

lemma lru_insert_map [lru_simps]:
  "lru_map (snd (lru_insert k v c)) = (lru_map c)(k \<mapsto> v)"
  "fst (lru_insert k v c) = lru_map c k"
  by (auto simp: lru_insert_def Let_def lru_map_def update_conv)

lemma lru_insert_ok [lru_simps]:
  assumes "lru_ok c" shows "lru_ok (snd (lru_insert k v c))"
proof -
  have "fst ` set (AList.update k (v, False) (cache c)) = insert k (fst ` set (cache c))"
    using dom_update[of k "(v, False)" "cache c"] by simp
  moreover have "map_of (cache c) k \<noteq> None \<Longrightarrow> k \<in> fst ` set (cache c)" by (simp add: map_of_eq_None_iff)
  ultimately show ?thesis using assms by (auto simp: lru_ok_def lru_insert_def Let_def distinct_update)
qed

lemma lru_touch:
  assumes "map_of (cache c) k = Some (v, b)"
  shows "fst ` set (AList.update k (v', b') (cache c)) = fst ` set (cache c)"
proof -
  have "k \<in> fst ` set (cache c)" using assms by (force dest: map_of_SomeD)
  then show ?thesis using dom_update[of k "(v', b')" "cache c"] by auto
qed

lemma lru_get_map [lru_simps]:
  "lru_map (snd (lru_get k c)) = lru_map c" "fst (lru_get k c) = lru_map c k"
  by (auto simp: lru_get_def lru_map_def update_conv fun_eq_iff split: option.splits)

lemma lru_get_ok [lru_simps]: "lru_ok c \<Longrightarrow> lru_ok (snd (lru_get k c))"
  using lru_touch[of c k] by (auto simp: lru_get_def lru_ok_def distinct_update split: option.splits)

lemma lru_get_mut_map [lru_simps]:
  "lru_map (snd (lru_get_mut k f c)) = (case lru_map c k of Some v \<Rightarrow> (lru_map c)(k \<mapsto> f v) | None \<Rightarrow> lru_map c)"
  "fst (lru_get_mut k f c) = lru_map c k"
  by (auto simp: lru_get_mut_def lru_map_def update_conv fun_eq_iff split: option.splits)

lemma lru_get_mut_ok [lru_simps]: "lru_ok c \<Longrightarrow> lru_ok (snd (lru_get_mut k f c))"
  using lru_touch[of c k] by (auto simp: lru_get_mut_def lru_ok_def distinct_update split: option.splits)

lemma cycle_queue_map: "lru_map (cycle_queue c) = lru_map c"
  by (auto simp: cycle_queue_def lru_map_def update_conv fun_eq_iff split: list.splits option.splits)

lemma cycle_queue_ok: "lru_ok c \<Longrightarrow> lru_ok (cycle_queue c)"
proof (cases "lru_queue c")
  case (Cons k q)
  moreover assume ok: "lru_ok c"
  moreover have "map_of (cache c) k = None \<Longrightarrow> k \<notin> fst ` set (cache c)" by (simp add: map_of_eq_None_iff)
  ultimately show ?thesis using lru_touch[of c k]
    by (auto simp: cycle_queue_def lru_ok_def distinct_update split: option.splits)
qed (simp add: cycle_queue_def)

lemma lru_remove_map [lru_simps]:
  "lru_map (snd (lru_remove k c)) = (lru_map c)(k := None)" "fst (lru_remove k c) = lru_map c k"
proof -
  have del: "lru_map (c\<lparr>cache := AList.delete k (cache c)\<rparr>) = (lru_map c)(k := None)"
    by (simp add: lru_map_def delete_conv fun_eq_iff)
  show "lru_map (snd (lru_remove k c)) = (lru_map c)(k := None)"
  proof (cases "map_of (cache c) k")
    case None
    then have "lru_map c k = None" by (simp add: lru_map_def)
    then have "(lru_map c)(k := None) = lru_map c" by (rule fun_upd_idem)
    with None show ?thesis by (simp add: lru_remove_def)
  qed (auto simp: lru_remove_def Let_def cycle_queue_map del)
  show "fst (lru_remove k c) = lru_map c k" by (auto simp: lru_remove_def Let_def lru_map_def split: option.splits)
qed

lemma lru_delete_ok: "lru_ok c \<Longrightarrow> lru_ok (c\<lparr>cache := AList.delete k (cache c)\<rparr>)"
  by (auto simp: lru_ok_def AList.delete_eq distinct_map_filter)

lemma lru_remove_ok [lru_simps]: "lru_ok c \<Longrightarrow> lru_ok (snd (lru_remove k c))"
  using lru_delete_ok[of c k] by (auto simp: lru_remove_def Let_def intro!: cycle_queue_ok split: option.splits)

lemma lru_pop_spec:
  assumes "lru_ok c" "lru_pop c = (r, c')"
  shows "lru_ok c' \<and> (case r of
      None \<Rightarrow> lru_map c = Map.empty \<and> lru_map c' = Map.empty
    | Some (k, v) \<Rightarrow> lru_map c k = Some v \<and> lru_map c' = (lru_map c)(k := None))"
  using assms
proof (induction c arbitrary: r c' rule: lru_pop.induct)
  case (1 c)
  show ?case
  proof (cases "lru_queue c")
    case Nil
    then have "cache c = []" "r = None" "c' = c" using 1 by (auto simp: lru_ok_def lru_pop.simps)
    then show ?thesis using 1(3) by (simp add: lru_map_def fun_eq_iff)
  next
    case (Cons key q)
    show ?thesis
    proof (cases "map_of (cache c) key")
      case None
      then have "lru_ok (c\<lparr>lru_queue := q\<rparr>)" using 1(3) Cons by (auto simp: lru_ok_def map_of_eq_None_iff)
      moreover have "lru_pop (c\<lparr>lru_queue := q\<rparr>) = (r, c')" using 1(4) Cons None by (simp add: lru_pop.simps[of c])
      moreover have "lru_map (c\<lparr>lru_queue := q\<rparr>) = lru_map c" by (simp add: lru_map_def fun_eq_iff)
      ultimately show ?thesis using 1(1)[OF Cons None] by (auto split: option.splits)
    next
      case (Some p)
      obtain v b where p: "p = (v, b)" by (cases p)
      note some = Some[unfolded p]
      show ?thesis
      proof (cases b)
        case True
        let ?c = "c\<lparr>cache := AList.update key (v, False) (cache c), lru_queue := q @ [key]\<rparr>"
        have "lru_ok ?c" using 1(3) Cons lru_touch[OF some] by (auto simp: lru_ok_def distinct_update)
        moreover have "lru_pop ?c = (r, c')" using 1(4) Cons some True by (simp add: lru_pop.simps[of c])
        moreover have "lru_map ?c = lru_map c" using some by (auto simp: lru_map_def update_conv fun_eq_iff)
        ultimately show ?thesis using 1(2)[OF Cons Some p[symmetric] True] by (auto split: option.splits)
      next
        case False
        have r: "r = Some (key, v)" "c' = c\<lparr>cache := AList.delete key (cache c), lru_queue := q\<rparr>"
          using 1(4) Cons some False by (auto simp: lru_pop.simps[of c])
        have "lru_ok c'" using 1(3) Cons by (auto simp: r lru_ok_def AList.delete_eq distinct_map_filter)
        moreover have "lru_map c' = (lru_map c)(key := None)" by (simp add: r lru_map_def delete_conv fun_eq_iff)
        ultimately show ?thesis using some by (simp add: r(1) lru_map_def)
      qed
    qed
  qed
qed

lemma lru_pop_size: "lru_pop c = (Some (k, v), c') \<Longrightarrow> length (cache c') < length (cache c)"
proof (induction c arbitrary: c' rule: lru_pop.induct)
  case (1 c)
  have upd: "map_of m k = Some x \<Longrightarrow> length (AList.update k y m) = length m" for m :: "('k \<times> 'v) list" and k x y
    by (induction m) (auto split: if_splits)
  have del: "map_of m k = Some x \<Longrightarrow> length (AList.delete k m) < length m" for m :: "('k \<times> 'v) list" and k x
    by (induction m) (auto simp: AList.delete_eq less_Suc_eq_le split: if_splits)
  show ?case using 1 by (subst (asm) (3) lru_pop.simps) (auto simp: upd del split: list.splits option.splits if_splits)
qed

subsection \<open>Properties\<close>



end
