(* ===== verification/Cached_File.thy ===== *)
theory Cached_File
  imports Backends Lru_Cache
begin

text \<open>
  The page cache of \<^verbatim>\<open>page_store/cached_file.rs\<close>: a striped read cache and a write buffer in front of a storage
  backend. Each method is one atomic step; the backend is a parameter. The \<open>usize\<close> byte counters are
  atomics, whose arithmetic wraps.
\<close>

subsection \<open>The write buffer\<close>

text \<open>An entry without a value is borrowed by a \<open>WritablePage\<close>.\<close>

type_synonym LRUWriteCache = "bytes option LRUCache"

definition wc_insert :: "nat \<Rightarrow> bytes \<Rightarrow> LRUWriteCache \<Rightarrow> LRUWriteCache option" where
  "wc_insert key v w = (let (r, w') = lru_insert key (Some v) w in do { assert_that (r = None); Some w' })"

definition wc_get :: "nat \<Rightarrow> LRUWriteCache \<Rightarrow> (bytes option \<times> LRUWriteCache) option" where
  "wc_get key w = (case lru_get key w of
       (Some x, w') \<Rightarrow> do { v \<leftarrow> x; Some (Some v, w') }
     | (None, w') \<Rightarrow> Some (None, w'))"

definition wc_remove :: "nat \<Rightarrow> LRUWriteCache \<Rightarrow> (bytes option \<times> LRUWriteCache) option" where
  "wc_remove key w = (case lru_remove key w of
       (Some x, w') \<Rightarrow> do { v \<leftarrow> x; Some (Some v, w') }
     | (None, w') \<Rightarrow> Some (None, w'))"

definition wc_return_value :: "nat \<Rightarrow> bytes \<Rightarrow> LRUWriteCache \<Rightarrow> LRUWriteCache option" where
  "wc_return_value key v w = (case lru_get_mut key (\<lambda>_. Some v) w of
       (Some x, w') \<Rightarrow> do { assert_that (x = None); Some w' }
     | (None, w') \<Rightarrow> None)"

definition wc_take_value :: "nat \<Rightarrow> LRUWriteCache \<Rightarrow> (bytes option \<times> LRUWriteCache) option" where
  "wc_take_value key w = (case lru_get_mut key (\<lambda>_. None) w of
       (Some x, w') \<Rightarrow> do { v \<leftarrow> x; Some (Some v, w') }
     | (None, w') \<Rightarrow> Some (None, w'))"

fun wc_pop_loop :: "nat \<Rightarrow> LRUWriteCache \<Rightarrow> (nat \<times> bytes) option \<times> LRUWriteCache" where
  "wc_pop_loop 0 w = (None, w)"
| "wc_pop_loop (Suc n) w = (case lru_pop w of
       (Some (k, v), w') \<Rightarrow> (case v of
           Some v_inner \<Rightarrow> (Some (k, v_inner), w')
         | None \<Rightarrow> wc_pop_loop n (snd (lru_insert k None w')))
     | (None, w') \<Rightarrow> (None, w'))"

definition wc_pop :: "LRUWriteCache \<Rightarrow> (nat \<times> bytes) option \<times> LRUWriteCache" where
  "wc_pop w = wc_pop_loop (lru_len w) w"

lemma length_update_le: "length (AList.update k y m) \<le> Suc (length m)"
  by (induction m) auto

lemma lru_insert_size: "length (cache (snd (lru_insert k v c))) \<le> Suc (length (cache c))"
  using length_update_le[of k "(v, False)" "cache c"] by (simp add: lru_insert_def Let_def)

lemma wc_pop_loop_size: "wc_pop_loop n w = (Some e, w') \<Longrightarrow> length (cache w') < length (cache w)"
proof (induction n w rule: wc_pop_loop.induct)
  case (2 n w)
  obtain r w1 where p: "lru_pop w = (r, w1)" by (cases "lru_pop w")
  show ?case
  proof (cases r)
    case None
    then show ?thesis using 2 p by simp
  next
    case (Some kv)
    obtain k v where kv: "kv = (k, v)" by (cases kv)
    have l: "length (cache w1) < length (cache w)" using p Some kv lru_pop_size[of w k v w1] by simp
    show ?thesis
    proof (cases v)
      case None
      then have "wc_pop_loop n (snd (lru_insert k None w1)) = (Some e, w')" using 2(2) p Some kv by simp
      then have "length (cache w') < length (cache (snd (lru_insert k None w1)))"
        using 2(1)[OF p[symmetric] Some kv[symmetric] None] by blast
      then show ?thesis using l lru_insert_size[of k None w1] by linarith
    qed (use 2(2) p Some kv l in simp)
  qed
qed simp

lemma wc_pop_size: "wc_pop w = (Some e, w') \<Longrightarrow> length (cache w') < length (cache w)"
  by (simp add: wc_pop_def wc_pop_loop_size)

subsection \<open>The cached file\<close>

record 's PagedCachedFile =
  cf_file :: "'s CheckedBackend"
  cf_page_size :: nat
  max_read_cache_bytes :: nat
  read_cache_bytes :: nat
  max_write_buffer_bytes :: nat
  write_buffer_bytes :: nat
  read_cache :: "bytes LRUCache list"
  write_buffer :: LRUWriteCache

definition wrapping_add :: "nat \<Rightarrow> nat \<Rightarrow> nat" where
  "wrapping_add a b = (a + b) mod 2 ^ 64"

definition wrapping_sub :: "nat \<Rightarrow> nat \<Rightarrow> nat" where
  "wrapping_sub a b = (a + 2 ^ 64 - b mod 2 ^ 64) mod 2 ^ 64"

definition lock_stripes :: nat where
  "lock_stripes = 131"

definition cf_new :: "'s \<Rightarrow> nat \<Rightarrow> nat \<Rightarrow> nat \<Rightarrow> 's PagedCachedFile" where
  "cf_new s ps max_read max_write = \<lparr>cf_file = cb_new s, cf_page_size = ps, max_read_cache_bytes = max_read,
     read_cache_bytes = 0, max_write_buffer_bytes = max_write, write_buffer_bytes = 0,
     read_cache = replicate lock_stripes lru_new, write_buffer = lru_new\<rparr>"

definition on_file :: "('s CheckedBackend, 'e, 'a) sem \<Rightarrow> ('s PagedCachedFile, 'e, 'a) sem" where
  "on_file m f = (case m (cf_file f) of None \<Rightarrow> None | Some (r, c) \<Rightarrow> Some (r, f\<lparr>cf_file := c\<rparr>))"

definition cf_close :: "'s StorageBackend \<Rightarrow> ('s PagedCachedFile, StorageError, unit) sem" where
  "cf_close be = on_file (cb_close be)"

definition check_io_errors :: "('s PagedCachedFile, StorageError, unit) sem" where
  "check_io_errors = on_file check_failure"

definition raw_file_len :: "'s StorageBackend \<Rightarrow> ('s PagedCachedFile, StorageError, nat) sem" where
  "raw_file_len be = on_file (cb_len be)"

text \<open>The second loop of \<open>flush_write_buffer\<close> moves the buffers to the read cache until it is full.\<close>

fun move_buffers :: "(nat \<times> bytes option) list \<Rightarrow> 's PagedCachedFile \<Rightarrow> 's PagedCachedFile option" where
  "move_buffers [] f = Some f"
| "move_buffers ((off, b) # bufs) f = do {
     buffer \<leftarrow> b;
     let cache_size = read_cache_bytes f;
     let f1 = f\<lparr>read_cache_bytes := wrapping_add cache_size (length buffer)\<rparr>;
     if cache_size + length buffer \<le> max_read_cache_bytes f then do {
       let slot = off mod lock_stripes;
       c \<leftarrow> idx (read_cache f1) slot;
       let (replaced, c') = lru_insert off buffer c;
       let f2 = f1\<lparr>read_cache := (read_cache f1)[slot := c']\<rparr>;
       move_buffers bufs (case replaced of
           Some r \<Rightarrow> f2\<lparr>read_cache_bytes := wrapping_sub (read_cache_bytes f2) (length r)\<rparr>
         | None \<Rightarrow> f2) }
     else Some (f1\<lparr>read_cache_bytes := wrapping_sub (read_cache_bytes f1) (length buffer)\<rparr>) }"

definition flush_write_buffer :: "'s StorageBackend \<Rightarrow> ('s PagedCachedFile, StorageError, unit) sem" where
  "flush_write_buffer be =
     st_bind (st_get (\<lambda>f. lru_iter (write_buffer f))) (\<lambda>bufs.
     st_bind (st_for (\<lambda>(off, b). case b of None \<Rightarrow> (\<lambda>_. None) | Some bs \<Rightarrow> on_file (cb_write be off bs)) bufs) (\<lambda>_.
     st_bind (st_lift (\<lambda>f. map_option (Pair ()) (move_buffers bufs f))) (\<lambda>_.
     st_update (\<lambda>f. f\<lparr>write_buffer_bytes := 0, write_buffer := lru_clear (write_buffer f)\<rparr>))))"

function drain_cache :: "bytes LRUCache \<Rightarrow> nat \<Rightarrow> bytes LRUCache \<times> nat" where
  "drain_cache c n = (case lru_pop c of
       (Some (k, removed), c') \<Rightarrow> drain_cache c' (wrapping_sub n (length removed))
     | (None, c') \<Rightarrow> (c', n))"
  by pat_completeness auto
termination by (relation "measure (\<lambda>(c, n). length (cache c))") (auto dest: lru_pop_size[OF sym])

declare drain_cache.simps [simp del]

definition drain_slot :: "nat \<Rightarrow> 's PagedCachedFile \<Rightarrow> 's PagedCachedFile option" where
  "drain_slot slot f = do {
     c \<leftarrow> idx (read_cache f) slot;
     let (c', n) = drain_cache c (read_cache_bytes f);
     Some (f\<lparr>read_cache := (read_cache f)[slot := c'], read_cache_bytes := n\<rparr>) }"

definition invalidate_cache_all :: "('s PagedCachedFile, StorageError, unit) sem" where
  "invalidate_cache_all = st_lift (\<lambda>f. map_option (Pair ()) (fold_opt drain_slot [0..<length (read_cache f)] f))"

definition cf_resize :: "'s StorageBackend \<Rightarrow> nat \<Rightarrow> ('s PagedCachedFile, StorageError, unit) sem" where
  "cf_resize be n = st_bind invalidate_cache_all (\<lambda>_. on_file (cb_set_len be n))"

definition cf_flush :: "'s StorageBackend \<Rightarrow> ('s PagedCachedFile, StorageError, unit) sem" where
  "cf_flush be = st_bind (flush_write_buffer be) (\<lambda>_. on_file (cb_sync_data be))"

definition write_barrier :: "'s StorageBackend \<Rightarrow> ('s PagedCachedFile, StorageError, unit) sem" where
  "write_barrier be = flush_write_buffer be"

definition read_direct :: "'s StorageBackend \<Rightarrow> nat \<Rightarrow> nat \<Rightarrow> ('s PagedCachedFile, StorageError, bytes) sem" where
  "read_direct be off n = on_file (cb_read be off n)"

datatype PageHint = NoHint | Clean

text \<open>The eviction loop of \<open>read\<close>, on the stripe of the page.\<close>

function evict_read :: "nat \<Rightarrow> nat \<Rightarrow> bytes LRUCache \<Rightarrow> nat \<times> bytes LRUCache" where
  "evict_read len removed c =
     (if removed < len then (case lru_pop c of
        (Some (k, v), c') \<Rightarrow> evict_read len (removed + length v) c'
      | (None, c') \<Rightarrow> (removed, c'))
      else (removed, c))"
  by pat_completeness auto
termination by (relation "measure (\<lambda>(len, removed, c). length (cache c))") (auto dest: lru_pop_size[OF sym])

declare evict_read.simps [simp del]

text \<open>The part of \<open>read\<close> after a miss: the page enters its stripe, and other pages leave it when over the limit.\<close>

definition cache_page :: "nat \<Rightarrow> nat \<Rightarrow> bytes \<Rightarrow> 's PagedCachedFile \<Rightarrow> 's PagedCachedFile option" where
  "cache_page off len buffer f = do {
     let slot = off mod lock_stripes;
     let cache_size = read_cache_bytes f;
     let f1 = f\<lparr>read_cache_bytes := wrapping_add cache_size len\<rparr>;
     c \<leftarrow> idx (read_cache f1) slot;
     let (replaced, c1) = lru_insert off buffer c;
     let (cache_size, f2) = (case replaced of
         Some r \<Rightarrow> (read_cache_bytes f1, f1\<lparr>read_cache_bytes := wrapping_sub (read_cache_bytes f1) (length r)\<rparr>)
       | None \<Rightarrow> (cache_size, f1));
     let (removed, c2) = (if max_read_cache_bytes f < cache_size + len then evict_read len 0 c1 else (0, c1));
     Some (f2\<lparr>read_cache := (read_cache f2)[slot := c2],
       read_cache_bytes := (if 0 < removed then wrapping_sub (read_cache_bytes f2) removed else read_cache_bytes f2)\<rparr>) }"

definition cf_read :: "'s StorageBackend \<Rightarrow> nat \<Rightarrow> nat \<Rightarrow> PageHint \<Rightarrow> ('s PagedCachedFile, StorageError, bytes) sem" where
  "cf_read be off len hint =
     st_bind (st_assert (\<lambda>f. off mod cf_page_size f = 0)) (\<lambda>_.
     st_bind (if hint = Clean then st_return None
       else st_lift (\<lambda>f. map_option (\<lambda>(r, w). (r, f\<lparr>write_buffer := w\<rparr>)) (wc_get off (write_buffer f)))) (\<lambda>buffered.
     case buffered of
       Some cached \<Rightarrow> st_bind (st_assert (\<lambda>_. length cached = len)) (\<lambda>_. st_return cached)
     | None \<Rightarrow>
         st_bind (st_lift (\<lambda>f. do {
           c \<leftarrow> idx (read_cache f) (off mod lock_stripes);
           let (r, c') = lru_get off c;
           Some (r, f\<lparr>read_cache := (read_cache f)[off mod lock_stripes := c']\<rparr>) })) (\<lambda>hit.
         case hit of
           Some cached \<Rightarrow> st_bind (st_assert (\<lambda>_. length cached = len)) (\<lambda>_. st_return cached)
         | None \<Rightarrow>
             st_bind (read_direct be off len) (\<lambda>buffer.
             st_bind (st_lift (\<lambda>f. map_option (Pair ()) (cache_page off len buffer f))) (\<lambda>_.
             st_return buffer)))))"

definition cancel_pending_write :: "nat \<Rightarrow> 's PagedCachedFile \<Rightarrow> 's PagedCachedFile option" where
  "cancel_pending_write off f = do {
     assert_that (off mod cf_page_size f = 0);
     (r, w) \<leftarrow> wc_remove off (write_buffer f);
     case r of
       Some removed \<Rightarrow> Some (f\<lparr>write_buffer := w, write_buffer_bytes := wrapping_sub (write_buffer_bytes f) (length removed)\<rparr>)
     | None \<Rightarrow> Some (f\<lparr>write_buffer := w\<rparr>) }"

text \<open>Taking a page out of the read cache, with the length check of the callers.\<close>

definition remove_cached :: "nat \<Rightarrow> nat \<Rightarrow> 's PagedCachedFile \<Rightarrow> (bytes option \<times> 's PagedCachedFile) option" where
  "remove_cached off len f = do {
     c \<leftarrow> idx (read_cache f) (off mod lock_stripes);
     let (r, c') = lru_remove off c;
     let f1 = f\<lparr>read_cache := (read_cache f)[off mod lock_stripes := c']\<rparr>;
     case r of
       Some removed \<Rightarrow> do {
         assert_that (len = length removed);
         Some (Some removed, f1\<lparr>read_cache_bytes := wrapping_sub (read_cache_bytes f1) (length removed)\<rparr>) }
     | None \<Rightarrow> Some (None, f1) }"

definition invalidate_cache :: "nat \<Rightarrow> nat \<Rightarrow> 's PagedCachedFile \<Rightarrow> 's PagedCachedFile option" where
  "invalidate_cache off len f = map_option snd (remove_cached off len f)"

text \<open>The eviction loop of \<open>write\<close>: a page whose write fails is put back before the error is returned.\<close>

function evict_write :: "'s StorageBackend \<Rightarrow> nat \<Rightarrow> nat \<Rightarrow> ('s PagedCachedFile, StorageError, unit) sem" where
  "evict_write be len removed f =
     (if removed < len then (case wc_pop (write_buffer f) of
        (Some (off, buffer), w) \<Rightarrow> (case cb_write be off buffer (cf_file f) of
            None \<Rightarrow> None
          | Some (Inl e, c) \<Rightarrow> do {
              w' \<leftarrow> wc_insert off buffer w;
              Some (Inl e, f\<lparr>cf_file := c, write_buffer := w'\<rparr>) }
          | Some (Inr _, c) \<Rightarrow>
              evict_write be len (removed + length buffer)
                (f\<lparr>cf_file := c, write_buffer := w,
                   write_buffer_bytes := wrapping_sub (write_buffer_bytes f) (length buffer)\<rparr>))
      | (None, w) \<Rightarrow> Some (Inr (), f\<lparr>write_buffer := w\<rparr>))
      else Some (Inr (), f))"
  by pat_completeness auto
termination
  by (relation "measure (\<lambda>(be, len, removed, f). length (cache (write_buffer f)))") (auto dest: wc_pop_size[OF sym])

declare evict_write.simps [simp del]

definition cf_write :: "'s StorageBackend \<Rightarrow> nat \<Rightarrow> nat \<Rightarrow> bool \<Rightarrow> ('s PagedCachedFile, StorageError, bytes) sem" where
  "cf_write be off len overwrite =
     st_bind (st_assert (\<lambda>f. off mod cf_page_size f = 0)) (\<lambda>_.
     st_bind (st_lift (remove_cached off len)) (\<lambda>existing.
     st_bind (st_lift (\<lambda>f. map_option (\<lambda>(r, w). (r, f\<lparr>write_buffer := w\<rparr>)) (wc_take_value off (write_buffer f)))) (\<lambda>taken.
     case taken of
       Some removed \<Rightarrow> st_return removed
     | None \<Rightarrow>
         st_bind (st_get write_buffer_bytes) (\<lambda>previous.
         st_bind (st_update (\<lambda>f. f\<lparr>write_buffer_bytes := wrapping_add previous len\<rparr>)) (\<lambda>_.
         st_bind (st_get max_write_buffer_bytes) (\<lambda>limit.
         st_bind (if limit < previous + len then evict_write be len 0 else st_return ()) (\<lambda>_.
         st_bind (case existing of
             Some data \<Rightarrow> st_return data
           | None \<Rightarrow> if overwrite then st_return (replicate len 0) else read_direct be off len) (\<lambda>result.
         st_lift (\<lambda>f. do {
           w1 \<leftarrow> wc_insert off result (write_buffer f);
           (r, w2) \<leftarrow> wc_take_value off w1;
           data \<leftarrow> r;
           Some (data, f\<lparr>write_buffer := w2\<rparr>) })))))))))"

text \<open>\<open>WritablePage::drop\<close> returns the page to the write buffer.\<close>

definition writable_page_drop :: "nat \<Rightarrow> bytes \<Rightarrow> 's PagedCachedFile \<Rightarrow> 's PagedCachedFile option" where
  "writable_page_drop off data f = do {
     w \<leftarrow> wc_return_value off data (write_buffer f);
     Some (f\<lparr>write_buffer := w\<rparr>) }"

end
