(* ===== verification/Page_Manager.thy ===== *)
theory Page_Manager
  imports Region Commit Cached_File
begin

text \<open>
  \<open>TransactionalMemory\<close> of \<^verbatim>\<open>tree_store/page_store/page_manager.rs\<close>: it opens a database file, hands out and frees
  pages of all regions, grows and shrinks the file, and commits through the header. The hash sets it iterates
  over are lists without duplicates; the sets that exist only in debug builds are sets. The storage backend is the
  argument \<open>be\<close>, the checksum function the argument \<open>xxh3\<close>.
\<close>

subsection \<open>Constants\<close>

definition NO_HEADER :: nat where "NO_HEADER = 0"
definition MAX_USABLE_REGION_SPACE :: nat where "MAX_USABLE_REGION_SPACE = 4 * 1024 * 1024 * 1024"
definition MIN_USABLE_PAGES :: nat where "MIN_USABLE_PAGES = 10"
definition MIN_DESIRED_USABLE_BYTES :: nat where "MIN_DESIRED_USABLE_BYTES = 1024 * 1024"

datatype ShrinkPolicy = Default | Maximum | Never

definition is_power_of_two :: "nat \<Rightarrow> bool" where
  "is_power_of_two x \<longleftrightarrow> 0 < x \<and> x = 2 ^ (bit_length x - 1)"

definition next_power_of_two :: "nat \<Rightarrow> nat option" where
  "next_power_of_two x = (let n = (if x \<le> 1 then 1 else 2 ^ bit_length (x - 1)) in
     if n < 2 ^ 64 then Some n else None)"

text \<open>\<open>trailing_zeros\<close> of a power of two.\<close>

definition log2_exact :: "nat \<Rightarrow> nat" where
  "log2_exact x = bit_length x - 1"

definition ceil_log2 :: "nat \<Rightarrow> nat option" where
  "ceil_log2 x = (if is_power_of_two x then Some (log2_exact x) else map_option log2_exact (next_power_of_two x))"

text \<open>\<open>ErrorKind::InvalidData\<close>, by the text it displays.\<close>

definition invalid_data :: io_error where
  "invalid_data = ''invalid data''"

subsection \<open>The state\<close>

record InMemoryState =
  im_header :: DatabaseHeader
  im_allocators :: Allocators

definition im_new :: "DatabaseHeader \<Rightarrow> InMemoryState option" where
  "im_new h = do {
     l \<leftarrow> dh_layout h;
     al \<leftarrow> al_new l;
     Some \<lparr>im_header = h, im_allocators = al\<rparr> }"

definition get_region :: "InMemoryState \<Rightarrow> nat \<Rightarrow> BuddyAllocator option" where
  "get_region st r = idx (region_allocators (im_allocators st)) r"

text \<open>\<open>get_region_mut\<close> and \<open>get_region_tracker_mut\<close>, with the value the caller stores through the reference.\<close>

definition set_region :: "InMemoryState \<Rightarrow> nat \<Rightarrow> BuddyAllocator \<Rightarrow> InMemoryState" where
  "set_region st r b = st\<lparr>im_allocators := (im_allocators st)\<lparr>region_allocators := (region_allocators (im_allocators st))[r := b]\<rparr>\<rparr>"

definition set_region_tracker :: "InMemoryState \<Rightarrow> RegionTracker \<Rightarrow> InMemoryState" where
  "set_region_tracker st t = st\<lparr>im_allocators := (im_allocators st)\<lparr>region_tracker := t\<rparr>\<rparr>"

record 's TransactionalMemory =
  allocated_since_commit :: "PageNumber list"
  unpersisted :: "PageNumber list"
  needs_recovery :: bool
  storage :: "'s PagedCachedFile"
  tm_state :: InMemoryState
  open_dirty_pages :: "PageNumber set"
  read_page_ref_counts :: open_pages
  allocated_pages :: "PageNumber set"
  read_from_secondary :: bool
  tm_page_size :: nat
  region_size :: nat
  region_header_with_padding_size :: nat

definition on_storage :: "('s PagedCachedFile, 'e, 'a) sem \<Rightarrow> ('s TransactionalMemory, 'e, 'a) sem" where
  "on_storage = st_zoom storage (\<lambda>f m. m\<lparr>storage := f\<rparr>)"

text \<open>A temporary \<open>WritablePage\<close> over the header bytes is filled and dropped.\<close>

definition store_header :: "'s StorageBackend \<Rightarrow> checksum_fn \<Rightarrow> DatabaseHeader \<Rightarrow> bool \<Rightarrow> ('s PagedCachedFile, StorageError, unit) sem" where
  "store_header be xxh3 h magic =
     st_bind (cf_write be 0 DB_HEADER_SIZE True) (\<lambda>mem.
     st_lift (\<lambda>f. do {
       bs \<leftarrow> dh_to_bytes xxh3 h magic;
       assert_that (length bs = length mem);
       f' \<leftarrow> writable_page_drop 0 bs f;
       Some ((), f') }))"

subsection \<open>Opening\<close>

text \<open>The length of a new file: the minimum usable size and room for the region tracker.\<close>

definition initial_layout :: "nat \<Rightarrow> nat \<Rightarrow> DatabaseLayout option" where
  "initial_layout ps rs = do {
     v \<leftarrow> rt_to_vec (rt_new INITIAL_REGIONS (MAX_MAX_PAGE_ORDER + 1));
     let size = max MIN_DESIRED_USABLE_BYTES (ps * MIN_USABLE_PAGES);
     let tracker_space = ps * div_ceil (length v) ps;
     let page_capacity = rs div ps;
     assert_that (page_capacity < 2 ^ 32 \<and> ps < 2 ^ 32);
     dl_calculate (size + tracker_space) page_capacity NO_HEADER ps }"

definition init_file :: "'s StorageBackend \<Rightarrow> checksum_fn \<Rightarrow> nat \<Rightarrow> nat \<Rightarrow> bytes option \<Rightarrow> ('s PagedCachedFile, StorageError, unit) sem" where
  "init_file be xxh3 ps rs slt =
     st_bind (st_lift (\<lambda>f. do { l \<leftarrow> initial_layout ps rs; n \<leftarrow> dl_len l; Some ((l, n), f) })) (\<lambda>(l, n).
     st_bind (raw_file_len be) (\<lambda>file_len.
     st_bind (if file_len < n then cf_resize be n else st_return ()) (\<lambda>_.
     st_bind (st_lift (\<lambda>f. do { h \<leftarrow> dh_new l 0 slt; Some (h, f) })) (\<lambda>h0.
     let h = h0\<lparr>recovery_required := False, two_phase_commit := True\<rparr> in
     st_bind (store_header be xxh3 h False) (\<lambda>_.
     st_bind (cf_flush be) (\<lambda>_.
     st_bind (store_header be xxh3 h True) (\<lambda>_.
     cf_flush be)))))))"

definition header_len :: "DatabaseHeader \<Rightarrow> nat option" where
  "header_len h = do { l \<leftarrow> dh_layout h; dl_len l }"

text \<open>The repair of a header on opening: the layout follows the file length and a commit slot is chosen.\<close>

definition repair_header :: "'s StorageBackend \<Rightarrow> checksum_fn \<Rightarrow> nat \<Rightarrow> DatabaseHeader \<Rightarrow> HeaderRepairInfo \<Rightarrow>
    ('s PagedCachedFile, DatabaseError, DatabaseHeader) sem" where
  "repair_header be xxh3 ps h info =
     st_bind (st_map_err database_from_storage (raw_file_len be)) (\<lambda>file_len.
     st_bind (st_lift (\<lambda>f. do {
       l \<leftarrow> dh_layout h;
       assert_that (ps < 2 ^ 32);
       l' \<leftarrow> recalculate file_len (rl_header_pages (full_region_layout l)) (rl_num_pages (full_region_layout l)) ps;
       h' \<leftarrow> set_layout h l';
       Some (h', f) })) (\<lambda>h1.
     st_bind (st_map_err database_from_storage (st_result (\<lambda>_. pick_primary_for_repair h1 info))) (\<lambda>(h2, _).
     st_bind (st_assert (\<lambda>_. \<not> invalid_magic_number info)) (\<lambda>_.
     st_bind (st_map_err database_from_storage (store_header be xxh3 h2 True)) (\<lambda>_.
     st_bind (st_map_err database_from_storage (cf_flush be)) (\<lambda>_.
     st_return h2))))))"

text \<open>Reading the header of an initialised file, with the repair of one that was not closed.\<close>

definition open_header :: "'s StorageBackend \<Rightarrow> checksum_fn \<Rightarrow> nat \<Rightarrow> bool \<Rightarrow> ('s PagedCachedFile, DatabaseError, DatabaseHeader \<times> bool) sem" where
  "open_header be xxh3 ps read_only =
     st_bind (st_map_err database_from_storage (read_direct be 0 DB_HEADER_SIZE)) (\<lambda>header_bytes.
     st_bind (st_result (\<lambda>_. dh_from_bytes xxh3 header_bytes)) (\<lambda>(h, info).
     st_bind (st_assert (\<lambda>_. page_size h = ps)) (\<lambda>_.
     st_bind (st_map_err database_from_storage (raw_file_len be)) (\<lambda>file_len.
     st_bind (st_lift (\<lambda>f. do { n \<leftarrow> header_len h; assert_that (n \<le> file_len); Some (n, f) })) (\<lambda>layout_len.
     st_bind (if recovery_required h then st_return True
         else st_bind (st_map_err database_from_storage (raw_file_len be)) (\<lambda>n. st_return (layout_len \<noteq> n))) (\<lambda>unclean.
     st_bind (if unclean then
           (if read_only then st_error DatabaseError.RepairAborted else repair_header be xxh3 ps h info)
         else st_return h) (\<lambda>h'.
     st_bind (st_map_err database_from_storage (raw_file_len be)) (\<lambda>n.
     st_bind (st_assert (\<lambda>_. header_len h' = Some n)) (\<lambda>_.
     st_return (h', unclean))))))))))"

definition tm_open :: "'s StorageBackend \<Rightarrow> checksum_fn \<Rightarrow> bool \<Rightarrow> nat \<Rightarrow> nat option \<Rightarrow> bool \<Rightarrow> bytes option \<Rightarrow>
    ('s PagedCachedFile, DatabaseError, DatabaseHeader \<times> bool) sem" where
  "tm_open be xxh3 allow_initialize ps requested_region_size read_only slt =
    (let rs = min (case requested_region_size of Some r \<Rightarrow> r | None \<Rightarrow> MAX_USABLE_REGION_SPACE) ((MAX_PAGE_INDEX + 1) * ps) in
     st_bind (st_assert (\<lambda>_. is_power_of_two ps \<and> DB_HEADER_SIZE \<le> ps \<and> is_power_of_two rs)) (\<lambda>_.
     st_bind (st_map_err database_from_storage (raw_file_len be)) (\<lambda>initial_len.
     st_bind (if length MAGICNUMBER \<le> initial_len
         then st_map_err database_from_storage (read_direct be 0 (length MAGICNUMBER))
         else st_return (replicate (length MAGICNUMBER) 0)) (\<lambda>magic.
     if 0 < initial_len \<and> magic \<noteq> MAGICNUMBER \<or> initial_len = 0 \<and> \<not> allow_initialize
     then st_error (database_from_storage (StorageError.Io invalid_data))
     else
       st_bind (if magic \<noteq> MAGICNUMBER then st_map_err database_from_storage (init_file be xxh3 ps rs slt) else st_return ()) (\<lambda>_.
       open_header be xxh3 ps read_only)))))"

definition tm_new :: "'s StorageBackend \<Rightarrow> checksum_fn \<Rightarrow> 's \<Rightarrow> bool \<Rightarrow> nat \<Rightarrow> nat option \<Rightarrow> nat \<Rightarrow> nat \<Rightarrow> bool \<Rightarrow> bytes option \<Rightarrow>
    (DatabaseError + 's TransactionalMemory) option" where
  "tm_new be xxh3 s allow_initialize ps requested_region_size rc wc read_only slt =
    (case tm_open be xxh3 allow_initialize ps requested_region_size read_only slt (cf_new s ps rc wc) of
       None \<Rightarrow> None
     | Some (Inl e, _) \<Rightarrow> Some (Inl e)
     | Some (Inr (h, unclean), f) \<Rightarrow> do {
         l \<leftarrow> dh_layout h;
         st \<leftarrow> im_new h;
         assert_that (DB_HEADER_SIZE \<le> ps \<and> ps < 2 ^ 32);
         Some (Inr \<lparr>allocated_since_commit = [], unpersisted = [], needs_recovery = unclean, storage = f, tm_state = st,
           open_dirty_pages = {}, read_page_ref_counts = Map.empty, allocated_pages = {}, read_from_secondary = False,
           tm_page_size = ps, region_size = rl_len (full_region_layout l),
           region_header_with_padding_size = fst (rl_data_section (full_region_layout l))\<rparr>) })"

subsection \<open>Recovery and housekeeping\<close>

definition write_header :: "'s StorageBackend \<Rightarrow> checksum_fn \<Rightarrow> DatabaseHeader \<Rightarrow> ('s TransactionalMemory, StorageError, unit) sem" where
  "write_header be xxh3 h = on_storage (store_header be xxh3 h True)"

definition tm_header :: "'s TransactionalMemory \<Rightarrow> DatabaseHeader" where
  "tm_header m = im_header (tm_state m)"

definition update_header :: "(DatabaseHeader \<Rightarrow> DatabaseHeader) \<Rightarrow> 's TransactionalMemory \<Rightarrow> 's TransactionalMemory" where
  "update_header f m = m\<lparr>tm_state := (tm_state m)\<lparr>im_header := f (tm_header m)\<rparr>\<rparr>"

definition mark_debug_allocated_page :: "PageNumber \<Rightarrow> 's TransactionalMemory \<Rightarrow> 's TransactionalMemory option" where
  "mark_debug_allocated_page p m = do {
     assert_that (p \<notin> allocated_pages m);
     Some (m\<lparr>allocated_pages := insert p (allocated_pages m)\<rparr>) }"

definition clear_read_cache :: "('s TransactionalMemory, StorageError, unit) sem" where
  "clear_read_cache = on_storage invalidate_cache_all"

definition clear_cache_and_reload :: "'s StorageBackend \<Rightarrow> checksum_fn \<Rightarrow> ('s TransactionalMemory, DatabaseError, bool) sem" where
  "clear_cache_and_reload be xxh3 =
     st_bind (st_assert (\<lambda>m. allocated_since_commit m = [])) (\<lambda>_.
     st_bind (st_map_err database_from_storage (on_storage (cf_flush be))) (\<lambda>_.
     st_bind (st_map_err database_from_storage (on_storage invalidate_cache_all)) (\<lambda>_.
     st_bind (st_map_err database_from_storage (on_storage (read_direct be 0 DB_HEADER_SIZE))) (\<lambda>header_bytes.
     st_bind (st_result (\<lambda>_. dh_from_bytes xxh3 header_bytes)) (\<lambda>(h, info).
     st_bind (if recovery_required h then
         st_bind (st_map_err database_from_storage (st_result (\<lambda>_. pick_primary_for_repair h info))) (\<lambda>(h', was_clean).
         if invalid_magic_number info
         then st_error (database_from_storage (StorageError.Corrupted ''Invalid magic number''))
         else
           st_bind (st_map_err database_from_storage (on_storage (store_header be xxh3 h' True))) (\<lambda>_.
           st_bind (st_map_err database_from_storage (on_storage (cf_flush be))) (\<lambda>_.
           st_return (h', was_clean))))
       else st_return (h, True)) (\<lambda>(h', was_clean).
     st_bind (st_update (\<lambda>m. update_header (\<lambda>_. h') (m\<lparr>needs_recovery := recovery_required h'\<rparr>))) (\<lambda>_.
     st_return was_clean)))))))"

definition begin_writable :: "'s StorageBackend \<Rightarrow> checksum_fn \<Rightarrow> ('s TransactionalMemory, StorageError, unit) sem" where
  "begin_writable be xxh3 =
     st_bind (st_assert (\<lambda>m. \<not> recovery_required (tm_header m))) (\<lambda>_.
     st_bind (st_update (update_header (\<lambda>h. h\<lparr>recovery_required := True\<rparr>))) (\<lambda>_.
     st_bind (st_get tm_header) (\<lambda>h.
     st_bind (write_header be xxh3 h) (\<lambda>_.
     on_storage (cf_flush be)))))"

definition used_two_phase_commit :: "'s TransactionalMemory \<Rightarrow> bool" where
  "used_two_phase_commit m = two_phase_commit (tm_header m)"

definition allocator_hash :: "(bytes \<Rightarrow> u128) \<Rightarrow> 's TransactionalMemory \<Rightarrow> u128 option" where
  "allocator_hash xxh3 m = al_xxh3_hash xxh3 (im_allocators (tm_state m))"

definition storage_failure :: "'s TransactionalMemory \<Rightarrow> bool" where
  "storage_failure m = needs_recovery m"

definition repair_primary_corrupted :: "'s TransactionalMemory \<Rightarrow> 's TransactionalMemory" where
  "repair_primary_corrupted m = update_header swap_primary_slot m"

definition begin_repair :: "'s TransactionalMemory \<Rightarrow> 's TransactionalMemory option" where
  "begin_repair m = do {
     l \<leftarrow> dh_layout (tm_header m);
     al \<leftarrow> al_new l;
     Some (m\<lparr>tm_state := (tm_state m)\<lparr>im_allocators := al\<rparr>, allocated_pages := {}\<rparr>) }"

definition mark_page_allocated :: "PageNumber \<Rightarrow> 's TransactionalMemory \<Rightarrow> 's TransactionalMemory option" where
  "mark_page_allocated p m = do {
     b \<leftarrow> get_region (tm_state m) (region p);
     b' \<leftarrow> record_alloc b (page_index p) (page_order p);
     assert_that (p \<notin> allocated_pages m);
     Some (m\<lparr>tm_state := set_region (tm_state m) (region p) b', allocated_pages := insert p (allocated_pages m)\<rparr>) }"

definition end_repair :: "'s StorageBackend \<Rightarrow> checksum_fn \<Rightarrow> ('s TransactionalMemory, StorageError, unit) sem" where
  "end_repair be xxh3 =
     st_bind (st_update (update_header (\<lambda>h. h\<lparr>recovery_required := False\<rparr>))) (\<lambda>_.
     st_bind (st_get tm_header) (\<lambda>h.
     st_bind (write_header be xxh3 h) (\<lambda>_.
     st_bind (st_try (on_storage (cf_flush be))) (\<lambda>result.
     st_bind (st_update (\<lambda>m. m\<lparr>needs_recovery := False\<rparr>)) (\<lambda>_.
     st_result (\<lambda>_. Some result))))))"

definition is_allocated :: "'s TransactionalMemory \<Rightarrow> PageNumber \<Rightarrow> bool" where
  "is_allocated m p = (p \<in> allocated_pages m)"

subsection \<open>Committing\<close>

definition try_shrink :: "InMemoryState \<Rightarrow> bool \<Rightarrow> (bool \<times> InMemoryState) option" where
  "try_shrink st force = do {
     l \<leftarrow> dh_layout (im_header st);
     assert_that (0 < num_regions l);
     b \<leftarrow> get_region st (num_regions l - 1);
     trailing_free \<leftarrow> trailing_free_pages b;
     let len = ba_len b;
     if trailing_free = 0 then Some (False, st)
     else if trailing_free < len div 2 \<and> \<not> force then Some (False, st)
     else do {
       let reduce_by = (if 1 < num_regions l \<and> trailing_free = len then trailing_free
         else if force then min (len - 1) trailing_free
         else trailing_free div 2);
       l' \<leftarrow> reduce_last_region l reduce_by;
       al \<leftarrow> resize_to (im_allocators st) l';
       n \<leftarrow> dl_len l;
       n' \<leftarrow> dl_len l';
       assert_that (n' \<le> n);
       h \<leftarrow> set_layout (im_header st) l';
       Some (True, \<lparr>im_header = h, im_allocators = al\<rparr>) } }"

definition commit_inner :: "'s StorageBackend \<Rightarrow> checksum_fn \<Rightarrow> BtreeHeader option \<Rightarrow> BtreeHeader option \<Rightarrow> nat \<Rightarrow> bool \<Rightarrow> ShrinkPolicy \<Rightarrow>
    ('s TransactionalMemory, StorageError, unit) sem" where
  "commit_inner be xxh3 data_root sys_root tid two_phase shrink_policy =
     st_bind (st_assert (\<lambda>m. open_dirty_pages m = {})) (\<lambda>_.
     st_bind (st_assert (\<lambda>m. \<not> needs_recovery m)) (\<lambda>_.
     st_bind (if shrink_policy = Never then st_return False
       else st_lift (\<lambda>m. do {
         (shrunk, st) \<leftarrow> try_shrink (tm_state m) (shrink_policy = Maximum);
         Some (shrunk, m\<lparr>tm_state := st\<rparr>) })) (\<lambda>shrunk.
     st_bind (st_get tm_header) (\<lambda>h0.
     st_bind (st_lift (\<lambda>m. do { h \<leftarrow> commit_prepare h0 data_root sys_root tid; Some (h, m) })) (\<lambda>h1.
     st_bind (write_header be xxh3 h1) (\<lambda>_.
     st_bind (if two_phase then on_storage (cf_flush be) else st_return ()) (\<lambda>_.
     let h2 = commit_publish h1 two_phase in
     st_bind (write_header be xxh3 h2) (\<lambda>_.
     st_bind (on_storage (cf_flush be)) (\<lambda>_.
     st_bind (if shrunk then
         st_bind (st_lift (\<lambda>m. do { n \<leftarrow> header_len h2; Some (n, m) })) (\<lambda>n.
         st_bind (st_try (on_storage (cf_resize be n))) (\<lambda>result.
         st_bind (st_update (\<lambda>m. m\<lparr>needs_recovery := (needs_recovery m \<or> isl result)\<rparr>)) (\<lambda>_.
         st_result (\<lambda>_. Some result))))
       else st_return ()) (\<lambda>_.
     st_bind (st_assert (\<lambda>m. map_option transaction_id (secondary_slot (tm_header m)) = map_option transaction_id (secondary_slot h0))) (\<lambda>_.
     st_update (\<lambda>m. update_header (\<lambda>_. h2)
       (m\<lparr>allocated_since_commit := [], unpersisted := [], read_from_secondary := False\<rparr>)))))))))))))"

text \<open>\<open>commit\<close> and \<open>rollback_uncommitted_writes\<close> record a failure of their inner function.\<close>

definition or_recover :: "('s TransactionalMemory, StorageError, 'a) sem \<Rightarrow> ('s TransactionalMemory, StorageError, 'a) sem" where
  "or_recover op = st_bind (st_try op) (\<lambda>result.
     st_bind (st_update (\<lambda>m. m\<lparr>needs_recovery := (needs_recovery m \<or> isl result)\<rparr>)) (\<lambda>_.
     st_result (\<lambda>_. Some result)))"

definition tm_commit :: "'s StorageBackend \<Rightarrow> checksum_fn \<Rightarrow> BtreeHeader option \<Rightarrow> BtreeHeader option \<Rightarrow> nat \<Rightarrow> bool \<Rightarrow> ShrinkPolicy \<Rightarrow>
    ('s TransactionalMemory, StorageError, unit) sem" where
  "tm_commit be xxh3 data_root sys_root tid two_phase shrink_policy =
     or_recover (commit_inner be xxh3 data_root sys_root tid two_phase shrink_policy)"

definition non_durable_commit :: "'s StorageBackend \<Rightarrow> BtreeHeader option \<Rightarrow> BtreeHeader option \<Rightarrow> nat \<Rightarrow>
    ('s TransactionalMemory, StorageError, unit) sem" where
  "non_durable_commit be data_root sys_root tid =
     st_bind (st_assert (\<lambda>m. open_dirty_pages m = {})) (\<lambda>_.
     st_bind (st_assert (\<lambda>m. \<not> needs_recovery m)) (\<lambda>_.
     st_bind (st_update (\<lambda>m. m\<lparr>unpersisted := fold List.insert (allocated_since_commit m) (unpersisted m),
       allocated_since_commit := []\<rparr>)) (\<lambda>_.
     st_bind (on_storage (write_barrier be)) (\<lambda>_.
     st_bind (st_lift (\<lambda>m. do {
       h \<leftarrow> commit_prepare (tm_header m) data_root sys_root tid;
       Some ((), update_header (\<lambda>_. h) m) })) (\<lambda>_.
     st_update (\<lambda>m. m\<lparr>read_from_secondary := True\<rparr>))))))"

subsection \<open>Pages\<close>

definition tm_range :: "'s TransactionalMemory \<Rightarrow> PageNumber \<Rightarrow> (nat \<times> nat) option" where
  "tm_range m p = address_range p (tm_page_size m) (region_size m) (region_header_with_padding_size m) (tm_page_size m)"

text \<open>The caches forget a page that is freed.\<close>

definition forget_page :: "PageNumber \<Rightarrow> 's TransactionalMemory \<Rightarrow> 's TransactionalMemory option" where
  "forget_page p m = do {
     (a, b) \<leftarrow> tm_range m p;
     f1 \<leftarrow> invalidate_cache a (b - a) (storage m);
     f2 \<leftarrow> cancel_pending_write a f1;
     Some (m\<lparr>storage := f2\<rparr>) }"

definition rollback_page :: "PageNumber \<Rightarrow> 's TransactionalMemory \<Rightarrow> 's TransactionalMemory option" where
  "rollback_page p m = do {
     t \<leftarrow> mark_free (region_tracker (im_allocators (tm_state m))) (page_order p) (region p);
     let st = set_region_tracker (tm_state m) t;
     b \<leftarrow> get_region st (region p);
     b' \<leftarrow> ba_free_page b (page_index p) (page_order p);
     assert_that (p \<in> allocated_pages m);
     forget_page p (m\<lparr>tm_state := set_region st (region p) b', allocated_pages := allocated_pages m - {p}\<rparr>) }"

definition rollback_uncommitted_writes_inner :: "('s TransactionalMemory, StorageError, unit) sem" where
  "rollback_uncommitted_writes_inner =
     st_bind (st_assert (\<lambda>m. open_dirty_pages m = {} \<and> \<not> needs_recovery m)) (\<lambda>_.
     st_lift (\<lambda>m. do {
       m' \<leftarrow> fold_opt rollback_page (allocated_since_commit m) m;
       Some ((), m'\<lparr>allocated_since_commit := []\<rparr>) }))"

definition rollback_uncommitted_writes :: "('s TransactionalMemory, StorageError, unit) sem" where
  "rollback_uncommitted_writes = or_recover rollback_uncommitted_writes_inner"

definition get_page_extended :: "'s StorageBackend \<Rightarrow> PageNumber \<Rightarrow> PageHint \<Rightarrow> ('s TransactionalMemory, StorageError, bytes) sem" where
  "get_page_extended be p hint =
     st_bind (st_lift (\<lambda>m. do { r \<leftarrow> tm_range m p; Some (r, m) })) (\<lambda>(a, b).
     st_bind (on_storage (cf_read be a (b - a) hint)) (\<lambda>mem.
     st_bind (st_assert (\<lambda>m. p \<notin> open_dirty_pages m)) (\<lambda>_.
     st_bind (st_update (\<lambda>m. m\<lparr>read_page_ref_counts :=
         (read_page_ref_counts m)(p \<mapsto> (case read_page_ref_counts m p of Some n \<Rightarrow> n + 1 | None \<Rightarrow> 1))\<rparr>)) (\<lambda>_.
     st_return mem))))"

definition get_page :: "'s StorageBackend \<Rightarrow> PageNumber \<Rightarrow> ('s TransactionalMemory, StorageError, bytes) sem" where
  "get_page be p = get_page_extended be p NoHint"

definition get_page_mut :: "'s StorageBackend \<Rightarrow> PageNumber \<Rightarrow> ('s TransactionalMemory, StorageError, bytes) sem" where
  "get_page_mut be p =
     st_bind (st_assert (\<lambda>m. read_page_ref_counts m p = None \<and> p \<notin> open_dirty_pages m)) (\<lambda>_.
     st_bind (st_lift (\<lambda>m. do { r \<leftarrow> tm_range m p; Some (r, m) })) (\<lambda>(a, b).
     st_bind (on_storage (cf_write be a (b - a) False)) (\<lambda>mem.
     st_bind (st_assert (\<lambda>m. p \<notin> open_dirty_pages m)) (\<lambda>_.
     st_bind (st_update (\<lambda>m. m\<lparr>open_dirty_pages := insert p (open_dirty_pages m)\<rparr>)) (\<lambda>_.
     st_return mem)))))"

text \<open>Dropping a \<open>PageMut\<close>: first the guard of the open pages, then the page's memory.\<close>

definition drop_page_mut :: "PageNumber \<Rightarrow> bytes \<Rightarrow> 's TransactionalMemory \<Rightarrow> 's TransactionalMemory option" where
  "drop_page_mut p mem m = do {
     dirty \<leftarrow> page_mut_drop (open_dirty_pages m) p;
     (a, b) \<leftarrow> tm_range m p;
     f \<leftarrow> writable_page_drop a mem (storage m);
     Some (m\<lparr>open_dirty_pages := dirty, storage := f\<rparr>) }"

definition drop_page :: "PageNumber \<Rightarrow> 's TransactionalMemory \<Rightarrow> 's TransactionalMemory option" where
  "drop_page p m = do {
     counts \<leftarrow> page_impl_drop (read_page_ref_counts m) p;
     Some (m\<lparr>read_page_ref_counts := counts\<rparr>) }"

definition committed_slot :: "'s TransactionalMemory \<Rightarrow> TransactionHeader option" where
  "committed_slot m = (if read_from_secondary m then secondary_slot (tm_header m) else primary_slot (tm_header m))"

definition get_version :: "'s TransactionalMemory \<Rightarrow> nat option" where
  "get_version m = map_option version (committed_slot m)"

definition get_data_root :: "'s TransactionalMemory \<Rightarrow> BtreeHeader option option" where
  "get_data_root m = map_option user_root (committed_slot m)"

definition get_system_root :: "'s TransactionalMemory \<Rightarrow> BtreeHeader option option" where
  "get_system_root m = map_option system_root (committed_slot m)"

definition get_last_committed_transaction_id :: "'s TransactionalMemory \<Rightarrow> nat option" where
  "get_last_committed_transaction_id m = map_option transaction_id (committed_slot m)"

definition get_last_durable_transaction_id :: "'s TransactionalMemory \<Rightarrow> nat option" where
  "get_last_durable_transaction_id m = map_option transaction_id (primary_slot (tm_header m))"

subsection \<open>Freeing\<close>

definition free_helper :: "PageNumber \<Rightarrow> PageTrackerPolicy \<Rightarrow> 's TransactionalMemory \<Rightarrow> (PageTrackerPolicy \<times> 's TransactionalMemory) option" where
  "free_helper p allocated m = do {
     assert_that (read_page_ref_counts m p = None);
     assert_that (p \<in> allocated_pages m);
     assert_that (p \<notin> open_dirty_pages m);
     allocated' \<leftarrow> tracker_remove allocated p;
     b \<leftarrow> get_region (tm_state m) (region p);
     b' \<leftarrow> ba_free_page b (page_index p) (page_order p);
     let st = set_region (tm_state m) (region p) b';
     t \<leftarrow> mark_free (region_tracker (im_allocators st)) (page_order p) (region p);
     m' \<leftarrow> forget_page p (m\<lparr>tm_state := set_region_tracker st t, allocated_pages := allocated_pages m - {p}\<rparr>);
     Some (allocated', m') }"

definition tm_free :: "PageNumber \<Rightarrow> PageTrackerPolicy \<Rightarrow> 's TransactionalMemory \<Rightarrow> (PageTrackerPolicy \<times> 's TransactionalMemory) option" where
  "tm_free p allocated m = free_helper p allocated (m\<lparr>allocated_since_commit := removeAll p (allocated_since_commit m)\<rparr>)"

definition free_if_unpersisted :: "PageNumber \<Rightarrow> PageTrackerPolicy \<Rightarrow> 's TransactionalMemory \<Rightarrow>
    ((bool \<times> PageTrackerPolicy) \<times> 's TransactionalMemory) option" where
  "free_if_unpersisted p allocated m =
     (if p \<in> set (unpersisted m) then do {
        (allocated', m') \<leftarrow> free_helper p allocated (m\<lparr>unpersisted := removeAll p (unpersisted m)\<rparr>);
        Some ((True, allocated'), m') }
      else Some ((False, allocated), m))"

definition free_if_uncommitted :: "PageNumber \<Rightarrow> PageTrackerPolicy \<Rightarrow> 's TransactionalMemory \<Rightarrow>
    ((bool \<times> PageTrackerPolicy) \<times> 's TransactionalMemory) option" where
  "free_if_uncommitted p allocated m =
     (if p \<in> set (allocated_since_commit m) then do {
        (allocated', m') \<leftarrow> free_helper p allocated (m\<lparr>allocated_since_commit := removeAll p (allocated_since_commit m)\<rparr>);
        Some ((True, allocated'), m') }
      else Some ((False, allocated), m))"

definition tm_uncommitted :: "'s TransactionalMemory \<Rightarrow> PageNumber \<Rightarrow> bool" where
  "tm_uncommitted m p = (p \<in> set (allocated_since_commit m))"

definition tm_unpersisted :: "'s TransactionalMemory \<Rightarrow> PageNumber \<Rightarrow> bool" where
  "tm_unpersisted m p = (p \<in> set (unpersisted m))"

subsection \<open>Allocating\<close>

text \<open>One round of the search: the region the tracker proposes either has a page or is marked as full.\<close>

partial_function (option) allocate_helper_retry :: "InMemoryState \<Rightarrow> nat \<Rightarrow> bool \<Rightarrow> (PageNumber option \<times> InMemoryState) option" where
  "allocate_helper_retry st required_order lowest = do {
     candidate \<leftarrow> find_free (region_tracker (im_allocators st)) required_order;
     case candidate of
       None \<Rightarrow> Some (None, st)
     | Some r \<Rightarrow> do {
         b \<leftarrow> get_region st r;
         (found, b') \<leftarrow> (if lowest then alloc_lowest b required_order else ba_alloc b required_order);
         case found of
           Some page \<Rightarrow> do {
             p \<leftarrow> pn_new r page required_order;
             Some (Some p, set_region st r b') }
         | None \<Rightarrow> do {
             t \<leftarrow> mark_full (region_tracker (im_allocators st)) required_order r;
             allocate_helper_retry (set_region_tracker (set_region st r b') t) required_order lowest } } }"

text \<open>The size \<open>grow\<close> asks for.\<close>

definition next_desired_size :: "DatabaseLayout \<Rightarrow> nat \<Rightarrow> nat \<Rightarrow> nat option" where
  "next_desired_size l required_order ps =
    (let required_growth = 2 ^ required_order * ps;
         max_region_size = rl_num_pages (full_region_layout l) * ps
     in if 0 < num_full_regions l then (case trailing_partial_region l of
          Some t \<Rightarrow> do {
            assert_that (rl_usable_bytes t \<le> max_region_size);
            Some (if 2 * required_growth < max_region_size - rl_usable_bytes t
              then dl_usable_bytes l + (max_region_size - rl_usable_bytes t)
              else dl_usable_bytes l + 2 * max_region_size - rl_usable_bytes t) }
        | None \<Rightarrow> Some (dl_usable_bytes l + max_region_size))
      else Some (max (dl_usable_bytes l * 2) (dl_usable_bytes l + required_growth * 2)))"

definition grow :: "'s StorageBackend \<Rightarrow> nat \<Rightarrow> ('s TransactionalMemory, StorageError, unit) sem" where
  "grow be required_order =
     st_bind (st_lift (\<lambda>m. do {
       l \<leftarrow> dh_layout (tm_header m);
       d \<leftarrow> next_desired_size l required_order (page_size (tm_header m));
       l' \<leftarrow> dl_calculate d (rl_num_pages (full_region_layout l)) (rl_header_pages (full_region_layout l)) (tm_page_size m);
       n \<leftarrow> dl_len l;
       n' \<leftarrow> dl_len l';
       assert_that (n \<le> n');
       Some ((l', n'), m) })) (\<lambda>(l', n').
     st_bind (st_try (on_storage (cf_resize be n'))) (\<lambda>result.
     case result of
       Inl e \<Rightarrow> st_bind (st_update (\<lambda>m. m\<lparr>needs_recovery := True\<rparr>)) (\<lambda>_. st_error e)
     | Inr _ \<Rightarrow> st_lift (\<lambda>m. do {
         al \<leftarrow> resize_to (im_allocators (tm_state m)) l';
         h \<leftarrow> set_layout (tm_header m) l';
         Some ((), m\<lparr>tm_state := \<lparr>im_header = h, im_allocators = al\<rparr>\<rparr>) })))"

definition retry :: "nat \<Rightarrow> bool \<Rightarrow> ('s TransactionalMemory, StorageError, PageNumber option) sem" where
  "retry order lowest = st_lift (\<lambda>m. do {
     (p, st) \<leftarrow> allocate_helper_retry (tm_state m) order lowest;
     Some (p, m\<lparr>tm_state := st\<rparr>) })"

definition allocate_helper :: "'s StorageBackend \<Rightarrow> nat \<Rightarrow> bool \<Rightarrow> bool \<Rightarrow> ('s TransactionalMemory, StorageError, PageNumber \<times> bytes) sem" where
  "allocate_helper be allocation_size lowest transactional =
     st_bind (st_lift (\<lambda>m. do { n \<leftarrow> ceil_log2 (div_ceil allocation_size (tm_page_size m)); Some (n, m) })) (\<lambda>order.
     st_bind (retry order lowest) (\<lambda>found.
     st_bind (case found of
         Some p \<Rightarrow> st_return p
       | None \<Rightarrow> st_bind (grow be order) (\<lambda>_. st_bind (retry order lowest) (\<lambda>again.
           case again of Some p \<Rightarrow> st_return p | None \<Rightarrow> st_panic))) (\<lambda>p.
     st_bind (st_assert (\<lambda>m. p \<notin> allocated_pages m \<and> read_page_ref_counts m p = None \<and> p \<notin> open_dirty_pages m)) (\<lambda>_.
     st_bind (st_update (\<lambda>m. m\<lparr>allocated_pages := insert p (allocated_pages m)\<rparr>)) (\<lambda>_.
     st_bind (if transactional then st_update (\<lambda>m. m\<lparr>allocated_since_commit := List.insert p (allocated_since_commit m)\<rparr>)
       else st_return ()) (\<lambda>_.
     st_bind (st_lift (\<lambda>m. do { r \<leftarrow> tm_range m p; Some (r, m) })) (\<lambda>(a, b).
     st_bind (on_storage (cf_write be a (b - a) True)) (\<lambda>mem.
     st_bind (st_assert (\<lambda>_. allocation_size \<le> length mem)) (\<lambda>_.
     st_bind (st_assert (\<lambda>m. p \<notin> open_dirty_pages m)) (\<lambda>_.
     st_bind (st_update (\<lambda>m. m\<lparr>open_dirty_pages := insert p (open_dirty_pages m)\<rparr>)) (\<lambda>_.
     st_return (p, replicate (length mem) 0xFF))))))))))))"

definition tm_allocate :: "'s StorageBackend \<Rightarrow> nat \<Rightarrow> PageTrackerPolicy \<Rightarrow>
    ('s TransactionalMemory, StorageError, (PageNumber \<times> bytes) \<times> PageTrackerPolicy) sem" where
  "tm_allocate be n allocated =
     st_bind (allocate_helper be n False True) (\<lambda>(p, mem).
     st_bind (st_lift (\<lambda>m. do { a \<leftarrow> tracker_insert allocated p; Some (a, m) })) (\<lambda>allocated'.
     st_return ((p, mem), allocated')))"

definition tm_allocate_lowest :: "'s StorageBackend \<Rightarrow> nat \<Rightarrow> ('s TransactionalMemory, StorageError, PageNumber \<times> bytes) sem" where
  "tm_allocate_lowest be n = allocate_helper be n True True"

definition tm_count :: "(BuddyAllocator \<Rightarrow> nat option) \<Rightarrow> 's TransactionalMemory \<Rightarrow> nat option" where
  "tm_count f m = do {
     l \<leftarrow> dh_layout (tm_header m);
     fold_opt (\<lambda>i c. do { b \<leftarrow> get_region (tm_state m) i; n \<leftarrow> f b; Some (c + n) }) [0..<num_regions l] 0 }"

definition tm_count_allocated_pages :: "'s TransactionalMemory \<Rightarrow> nat option" where
  "tm_count_allocated_pages m = tm_count count_allocated_pages m"

definition tm_count_free_pages :: "'s TransactionalMemory \<Rightarrow> nat option" where
  "tm_count_free_pages m = tm_count count_free_pages m"

definition tm_close :: "'s StorageBackend \<Rightarrow> checksum_fn \<Rightarrow> bool \<Rightarrow> ('s TransactionalMemory, StorageError, unit) sem" where
  "tm_close be xxh3 panicking =
     st_bind (st_get (\<lambda>m. \<not> needs_recovery m \<and> \<not> panicking)) (\<lambda>clean.
     st_bind (if clean then
         st_bind (st_try (on_storage (cf_flush be))) (\<lambda>result.
         case result of
           Inl _ \<Rightarrow> st_return ()
         | Inr _ \<Rightarrow>
             st_bind (st_update (update_header (\<lambda>h. h\<lparr>recovery_required := False\<rparr>))) (\<lambda>_.
             st_bind (st_get tm_header) (\<lambda>h.
             st_bind (write_header be xxh3 h) (\<lambda>_.
             on_storage (cf_flush be)))))
       else st_return ()) (\<lambda>_.
     on_storage (cf_close be)))"

end
