(* ===== verification/Page_Alloc_Laws.thy ===== *)
theory Page_Alloc_Laws
  imports Page_Manager
begin

text \<open>
  Allocation across regions: the search of \<open>allocate_helper_retry\<close> ends and returns a page that overlaps no
  allocated one, and growing the file always makes room for the page that did not fit.
\<close>

subsection \<open>Orders\<close>

lemma bit_length_pow: "bit_length (2 ^ k) = Suc k"
proof -
  note b = bit_length_bounds[of "2 ^ k"]
  have "bit_length (2 ^ k) - 1 \<le> k" using b by (simp flip: power_le_imp_le_exp)
  moreover have "k < bit_length (2 ^ k)" using b by (simp flip: power_less_imp_less_exp)
  ultimately show ?thesis by simp
qed

lemma ceil_log2_correct:
  assumes "x \<le> 2 ^ n" "n < 64"
  shows "\<exists>k. ceil_log2 x = Some k \<and> k \<le> n \<and> x \<le> 2 ^ k"
proof (cases "is_power_of_two x")
  case True
  then have x: "x = 2 ^ (bit_length x - 1)" by (simp add: is_power_of_two_def)
  then have "(2 :: nat) ^ (bit_length x - 1) \<le> 2 ^ n" using assms(1) by simp
  then have "bit_length x - 1 \<le> n" by simp
  then show ?thesis using True x by (simp add: ceil_log2_def log2_exact_def)
next
  case False
  show ?thesis
  proof (cases "x \<le> 1")
    case True
    then have "x = 0" using False bit_length_pow[of 0] by (cases x) (auto simp: is_power_of_two_def)
    then show ?thesis using False bit_length_pow[of 0] by (simp add: ceil_log2_def next_power_of_two_def log2_exact_def)
  next
    case big: False
    let ?k = "bit_length (x - 1)"
    have "x - 1 < 2 ^ n" using assms(1) big by linarith
    then have "?k \<le> n" by (rule bit_length_le)
    moreover have "x \<le> 2 ^ ?k" using bit_length_bounds[of "x - 1"] big by linarith
    moreover have "(2 :: nat) ^ ?k < 2 ^ 64" using \<open>?k \<le> n\<close> assms(2) by (intro power_strict_increasing) auto
    ultimately show ?thesis using False big bit_length_pow[of ?k] by (simp add: ceil_log2_def next_power_of_two_def log2_exact_def)
  qed
qed

subsection \<open>The state of the allocators\<close>

text \<open>The blocks of the pages of a region.\<close>

definition page_blocks :: "PageNumber set \<Rightarrow> nat \<Rightarrow> (nat \<times> nat) set" where
  "page_blocks P i = (\<lambda>p. (page_index p, page_order p)) ` {p \<in> P. region p = i}"

lemma page_blocks_iff: "(k, n) \<in> page_blocks P i \<longleftrightarrow> \<lparr>region = i, page_index = k, page_order = n\<rparr> \<in> P"
proof
  assume "(k, n) \<in> page_blocks P i"
  then obtain p where "p \<in> P" "region p = i" "page_index p = k" "page_order p = n" by (auto simp: page_blocks_def)
  then show "\<lparr>region = i, page_index = k, page_order = n\<rparr> \<in> P" by (cases p) simp
qed (force simp: page_blocks_def)

lemma page_blocks_insert:
  "page_blocks (insert p P) = (page_blocks P)(region p := insert (page_index p, page_order p) (page_blocks P (region p)))"
  by (auto simp: page_blocks_def fun_eq_iff)

lemma page_blocks_remove:
  "page_blocks (P - {p}) = (page_blocks P)(region p := page_blocks P (region p) - {(page_index p, page_order p)})"
proof
  fix i show "page_blocks (P - {p}) i = ((page_blocks P)(region p := page_blocks P (region p) - {(page_index p, page_order p)})) i"
    by (cases p) (auto simp: page_blocks_iff)
qed

definition state_ok :: "DatabaseLayout \<Rightarrow> PageNumber set \<Rightarrow> InMemoryState \<Rightarrow> bool" where
  "state_ok l P st \<longleftrightarrow> dh_layout (im_header st) = Some l \<and>
     (\<exists>h k. layout_ok h (2 ^ k) (page_size (im_header st)) l \<and> k \<le> MAX_MAX_PAGE_ORDER) \<and> num_regions l \<le> MAX_REGIONS \<and>
     fits_layout (im_allocators st) l \<and> al_inv (rl_num_pages (full_region_layout l)) (im_allocators st) (page_blocks P)"

text \<open>Replacing the allocator of one region.\<close>

lemma al_inv_update:
  assumes inv: "al_inv cap al A" and r: "r < length (region_allocators al)"
    and b: "history_inv cap b (A' r)" "ba_len b = ba_len (region_allocators al ! r)"
    and same: "\<And>i. i \<noteq> r \<Longrightarrow> A' i = A i"
    and t: "rt_ok N t" "N \<le> MAX_REGIONS" "length (region_allocators al) \<le> N"
      "\<And>n. rt_free t n \<subseteq> {..<length (region_allocators al)}" "\<And>m n. m \<le> n \<Longrightarrow> rt_free t n \<subseteq> rt_free t m"
      "\<And>i. i < length (region_allocators al) \<Longrightarrow> i \<noteq> r \<Longrightarrow> i \<in> rt_free (region_tracker al) 0 \<Longrightarrow> i \<in> rt_free t 0"
      "{..<ba_len b} - covered (A' r) \<noteq> {} \<Longrightarrow> r \<in> rt_free t 0"
  shows "al_inv cap \<lparr>region_tracker = t, region_allocators = (region_allocators al)[r := b]\<rparr> A'"
proof -
  let ?al = "\<lparr>region_tracker = t, region_allocators = (region_allocators al)[r := b]\<rparr>"
  have free: "region_free ?al A' i = region_free al A i" if "i \<noteq> r" for i
    using that same[OF that] by (simp add: region_free_def)
  have rfree: "region_free ?al A' r = {..<ba_len b} - covered (A' r)" using r by (simp add: region_free_def)
  have old: "i \<in> rt_free (region_tracker al) 0" if "i < length (region_allocators al)" "region_free al A i \<noteq> {}" for i
    using inv that unfolding al_inv_def tracker_inv_def by blast
  have "tracker_inv N ?al A'" unfolding tracker_inv_def
  proof (intro conjI allI impI)
    fix i assume i: "i < length (region_allocators ?al)" "region_free ?al A' i \<noteq> {}"
    show "i \<in> rt_free (region_tracker ?al) 0"
    proof (cases "i = r")
      case True
      then show ?thesis using i(2) rfree t(7) by simp
    next
      case False
      then show ?thesis using old[of i] t(6)[of i] i free[OF False] by simp
    qed
  qed (use t in auto)
  moreover have "\<forall>i<length (region_allocators ?al). history_inv cap (region_allocators ?al ! i) (A' i)"
  proof (intro allI impI)
    fix i assume "i < length (region_allocators ?al)"
    then show "history_inv cap (region_allocators ?al ! i) (A' i)" using inv b(1) same[of i] by (cases "i = r") (auto simp: al_inv_def)
  qed
  moreover have "\<forall>i\<ge>length (region_allocators ?al). A' i = {}" using inv r same by (auto simp: al_inv_def)
  ultimately show ?thesis unfolding al_inv_def by blast
qed

lemma al_inv_tracker: "al_inv cap al A \<Longrightarrow> \<exists>N. rt_ok N (region_tracker al) \<and> length (region_allocators al) \<le> N \<and> N \<le> MAX_REGIONS \<and>
    (\<forall>n. rt_free (region_tracker al) n \<subseteq> {..<length (region_allocators al)}) \<and>
    (\<forall>m n. m \<le> n \<longrightarrow> rt_free (region_tracker al) n \<subseteq> rt_free (region_tracker al) m)"
  unfolding al_inv_def tracker_inv_def by blast

lemma state_ok_set:
  assumes "state_ok l P st" "ba_len b = ba_len (region_allocators (im_allocators st) ! r)"
    and "al_inv (rl_num_pages (full_region_layout l)) \<lparr>region_tracker = t, region_allocators = (region_allocators (im_allocators st))[r := b]\<rparr> (page_blocks P')"
  shows "state_ok l P' (st\<lparr>im_allocators := \<lparr>region_tracker = t, region_allocators = (region_allocators (im_allocators st))[r := b]\<rparr>\<rparr>)"
proof -
  have "ba_len ((region_allocators (im_allocators st))[r := b] ! i) = ba_len (region_allocators (im_allocators st) ! i)" for i
    using assms(2) by (cases "i = r"; cases "r < length (region_allocators (im_allocators st))") (auto simp: list_update_beyond)
  then show ?thesis using assms(1,3) by (auto simp: state_ok_def fits_layout_def)
qed

subsection \<open>Searching the regions\<close>

lemma alloc_region_cases:
  assumes inv: "history_inv cap b A"
  obtains (found) k b' where "(if lowest then alloc_lowest b n else ba_alloc b n) = Some (Some k, b')"
      "history_inv cap b' (insert (k, n) A)" "ba_len b' = ba_len b" "blk k n \<subseteq> {..<ba_len b} - covered A"
  | (full) "(if lowest then alloc_lowest b n else ba_alloc b n) = Some (None, b)"
      "n \<le> ba_max_order b \<longrightarrow> (\<forall>k. \<not> blk k n \<subseteq> {..<ba_len b} - covered A)"
proof -
  let ?F = "{..<ba_len b} - covered A" and ?f = "if lowest then alloc_lowest b n else ba_alloc b n"
  have rep: "ba_rep b ?F" using inv by (simp add: history_inv_def)
  show ?thesis
  proof (cases "n \<le> ba_max_order b \<and> (\<exists>k. blk k n \<subseteq> ?F)")
    case True
    from alloc_inner_correct[OF rep, of n] True obtain k1 b1 where
      a: "ba_alloc b n = Some (Some k1, b1)" "chosen (ba_max_order b) ?F n k1" "same_shape b b1" by (auto simp: some_block_iff ba_alloc_def)
    from alloc_lowest_correct[OF rep, of n] True obtain k2 b2 where
      c: "alloc_lowest b n = Some (Some k2, b2)" "blk k2 n \<subseteq> ?F" "same_shape b b2" by auto
    show ?thesis
    proof (cases lowest)
      case True
      show ?thesis by (rule found[of k2 b2]) (use True c history_alloc_lowest[OF inv c(1)] in \<open>auto simp: same_shape_def\<close>)
    next
      case False
      show ?thesis
        by (rule found[of k1 b1]) (use False a chosen_free[OF a(2)] history_alloc[OF inv a(1)] in \<open>auto simp: same_shape_def\<close>)
    qed
  next
    case False
    then have "?f = Some (None, b)"
      using alloc_inner_correct[OF rep, of n] alloc_lowest_correct[OF rep, of n] unfolding some_block_iff by (auto simp: ba_alloc_def)
    then show ?thesis using False by (intro full) auto
  qed
qed

lemma state_okD:
  assumes "state_ok l P st"
  obtains h k N where "layout_ok h (2 ^ k) (page_size (im_header st)) l" "k \<le> MAX_MAX_PAGE_ORDER" "rl_num_pages (full_region_layout l) = 2 ^ k"
    "length (region_allocators (im_allocators st)) = num_regions l" "al_inv (2 ^ k) (im_allocators st) (page_blocks P)"
    "rt_ok N (region_tracker (im_allocators st))" "num_regions l \<le> N" "N \<le> MAX_REGIONS"
    "\<And>n. rt_free (region_tracker (im_allocators st)) n \<subseteq> {..<num_regions l}"
    "\<And>m n. m \<le> n \<Longrightarrow> rt_free (region_tracker (im_allocators st)) n \<subseteq> rt_free (region_tracker (im_allocators st)) m"
    "\<And>i. i < num_regions l \<Longrightarrow> history_inv (2 ^ k) (region_allocators (im_allocators st) ! i) (page_blocks P i)"
    "\<And>i. i < num_regions l \<Longrightarrow> ba_len (region_allocators (im_allocators st) ! i) = region_pages l i"
proof -
  obtain h k where l: "layout_ok h (2 ^ k) (page_size (im_header st)) l" "k \<le> MAX_MAX_PAGE_ORDER"
    and f: "fits_layout (im_allocators st) l" and a: "al_inv (rl_num_pages (full_region_layout l)) (im_allocators st) (page_blocks P)"
    using assms unfolding state_ok_def by blast
  have cap: "rl_num_pages (full_region_layout l) = 2 ^ k" using l by (simp add: layout_ok_def)
  have len: "length (region_allocators (im_allocators st)) = num_regions l" using f by (simp add: fits_layout_def)
  obtain N where t: "rt_ok N (region_tracker (im_allocators st))" "num_regions l \<le> N" "N \<le> MAX_REGIONS"
    "\<forall>n. rt_free (region_tracker (im_allocators st)) n \<subseteq> {..<num_regions l}"
    "\<forall>m n. m \<le> n \<longrightarrow> rt_free (region_tracker (im_allocators st)) n \<subseteq> rt_free (region_tracker (im_allocators st)) m"
    using al_inv_tracker[OF a] unfolding len by (elim exE conjE) (rule that)
  show ?thesis
    by (rule that[OF l cap len _ t(1-3)]) (use t(4,5) a f cap len in \<open>auto simp: fits_layout_def al_inv_def\<close>)
qed

definition no_block :: "InMemoryState \<Rightarrow> PageNumber set \<Rightarrow> nat \<Rightarrow> nat \<Rightarrow> bool" where
  "no_block st P n i \<longleftrightarrow> (n \<le> ba_max_order (region_allocators (im_allocators st) ! i) \<longrightarrow>
     (\<forall>k. \<not> blk k n \<subseteq> region_free (im_allocators st) (page_blocks P) i))"

lemma retry_full:
  assumes ok: "state_ok l P st" and n: "n \<le> MAX_MAX_PAGE_ORDER" and r: "r < num_regions l" and full: "no_block st P n r"
  obtains t where "mark_full (region_tracker (im_allocators st)) n r = Some t"
    "state_ok l P (set_region_tracker (set_region st r (region_allocators (im_allocators st) ! r)) t)"
    "rt_free t n = rt_free (region_tracker (im_allocators st)) n - {r}"
proof -
  let ?al = "im_allocators st" and ?b = "region_allocators (im_allocators st) ! r"
  obtain h k N where D: "layout_ok h (2 ^ k) (page_size (im_header st)) l" "k \<le> MAX_MAX_PAGE_ORDER" "rl_num_pages (full_region_layout l) = 2 ^ k"
    "length (region_allocators ?al) = num_regions l" "al_inv (2 ^ k) ?al (page_blocks P)"
    "rt_ok N (region_tracker ?al)" "num_regions l \<le> N" "N \<le> MAX_REGIONS"
    "\<And>n. rt_free (region_tracker ?al) n \<subseteq> {..<num_regions l}"
    "\<And>m n. m \<le> n \<Longrightarrow> rt_free (region_tracker ?al) n \<subseteq> rt_free (region_tracker ?al) m"
    "\<And>i. i < num_regions l \<Longrightarrow> history_inv (2 ^ k) (region_allocators ?al ! i) (page_blocks P i)"
    "\<And>i. i < num_regions l \<Longrightarrow> ba_len (region_allocators ?al ! i) = region_pages l i"
    by (rule state_okD[OF ok]) (rule that; assumption)
  obtain t where t: "mark_full (region_tracker ?al) n r = Some t" "rt_ok N t"
    "\<And>m. rt_free t m = (if n \<le> m then rt_free (region_tracker ?al) m - {r} else rt_free (region_tracker ?al) m)"
    by (rule mark_full_all[OF D(6) n, of r]) (use r D(7) in auto)
  let ?al' = "\<lparr>region_tracker = t, region_allocators = (region_allocators ?al)[r := ?b]\<rparr>"
  have "al_inv (2 ^ k) ?al' (page_blocks P)"
  proof (rule al_inv_update[OF D(5)])
    show "r \<in> rt_free t 0" if free: "{..<ba_len ?b} - covered (page_blocks P r) \<noteq> {}"
    proof (cases n)
      case 0
      then have "{x} \<subseteq> region_free ?al (page_blocks P) r \<Longrightarrow> False" for x using full blk_0[of x] unfolding no_block_def by force
      then show ?thesis using free by (auto simp: region_free_def)
    next
      case (Suc n')
      have "r \<in> rt_free (region_tracker ?al) 0"
        using D(5) r D(4) free unfolding al_inv_def tracker_inv_def region_free_def by auto
      then show ?thesis using Suc by (simp add: t(3))
    qed
    show "rt_free t m' \<subseteq> rt_free t m" if "m \<le> m'" for m m' using D(10)[OF that] that by (auto simp: t(3))
  qed (use D t r in \<open>auto simp: subset_iff\<close>)
  moreover have "set_region_tracker (set_region st r ?b) t = st\<lparr>im_allocators := ?al'\<rparr>"
    by (simp add: set_region_tracker_def set_region_def)
  ultimately have "state_ok l P (set_region_tracker (set_region st r ?b) t)"
    using state_ok_set[OF ok refl] D(3) by simp
  then show ?thesis by (rule that[OF t(1)]) (simp add: t(3))
qed

lemma retry_found:
  assumes ok: "state_ok l P st" and n: "n \<le> MAX_MAX_PAGE_ORDER" and r: "r < num_regions l" "r \<in> rt_free (region_tracker (im_allocators st)) n"
    and b: "history_inv (rl_num_pages (full_region_layout l)) b' (insert (k, n) (page_blocks P r))"
      "ba_len b' = ba_len (region_allocators (im_allocators st) ! r)"
      "blk k n \<subseteq> {..<ba_len (region_allocators (im_allocators st) ! r)} - covered (page_blocks P r)"
  shows "\<exists>p. pn_new r k n = Some p \<and> page_order p = n \<and> p \<notin> P \<and> state_ok l (insert p P) (set_region st r b')"
proof -
  let ?al = "im_allocators st"
  obtain h k' N where D: "layout_ok h (2 ^ k') (page_size (im_header st)) l" "k' \<le> MAX_MAX_PAGE_ORDER" "rl_num_pages (full_region_layout l) = 2 ^ k'"
    "length (region_allocators ?al) = num_regions l" "al_inv (2 ^ k') ?al (page_blocks P)"
    "rt_ok N (region_tracker ?al)" "num_regions l \<le> N" "N \<le> MAX_REGIONS"
    "\<And>n. rt_free (region_tracker ?al) n \<subseteq> {..<num_regions l}"
    "\<And>m n. m \<le> n \<Longrightarrow> rt_free (region_tracker ?al) n \<subseteq> rt_free (region_tracker ?al) m"
    "\<And>i. i < num_regions l \<Longrightarrow> history_inv (2 ^ k') (region_allocators ?al ! i) (page_blocks P i)"
    "\<And>i. i < num_regions l \<Longrightarrow> ba_len (region_allocators ?al ! i) = region_pages l i"
    by (rule state_okD[OF ok]) (rule that; assumption)
  let ?p = "\<lparr>region = r, page_index = k, page_order = n\<rparr>"
  have "k * 2 ^ n < region_pages l r" using subsetD[OF b(3) blk_start] D(12)[OF r(1)] by simp
  also have "\<dots> \<le> 2 ^ k'" using region_pages_bound[OF D(1)] by simp
  also have "\<dots> \<le> (2 :: nat) ^ 20" using D(2) by (intro power_increasing) (auto simp: MAX_MAX_PAGE_ORDER_def)
  finally have "k * 2 ^ n < 2 ^ 20" .
  then have "k < 2 ^ 20" by (rule le_less_trans[rotated]) simp
  then have "k \<le> MAX_PAGE_INDEX" by (simp add: MAX_PAGE_INDEX_def)
  then have pn: "pn_new r k n = Some ?p" using r(1) D(7,8) n by (simp add: pn_new_def assert_that_def MAX_REGIONS_def)
  have "(k, n) \<notin> page_blocks P r"
  proof
    assume "(k, n) \<in> page_blocks P r"
    then have "blk k n \<subseteq> covered (page_blocks P r)" by (auto simp: covered_def)
    then show False using b(3) blk_nonempty[of k n] by blast
  qed
  then have new: "?p \<notin> P" by (simp add: page_blocks_iff)
  let ?al' = "\<lparr>region_tracker = region_tracker ?al, region_allocators = (region_allocators ?al)[r := b']\<rparr>"
  have "al_inv (2 ^ k') ?al' (page_blocks (insert ?p P))"
  proof (rule al_inv_update[OF D(5)])
    show "r \<in> rt_free (region_tracker ?al) 0" using r(2) D(10)[of 0 n] by auto
  qed (use D r b page_blocks_insert[of ?p P] in auto)
  moreover have "set_region st r b' = st\<lparr>im_allocators := ?al'\<rparr>" by (simp add: set_region_def)
  ultimately have "state_ok l (insert ?p P) (set_region st r b')"
    using state_ok_set[OF ok b(2)] D(3) by simp
  then show ?thesis using pn new by auto
qed

lemma retry_correct:
  assumes "state_ok l P st" "n \<le> MAX_MAX_PAGE_ORDER"
  shows "\<exists>r st'. allocate_helper_retry st n lowest = Some (r, st') \<and> im_header st' = im_header st \<and>
    (case r of
       None \<Rightarrow> state_ok l P st' \<and> (\<forall>i \<in> rt_free (region_tracker (im_allocators st)) n. no_block st P n i)
     | Some p \<Rightarrow> page_order p = n \<and> p \<notin> P \<and> state_ok l (insert p P) st')"
  using assms(1)
proof (induction "card (rt_free (region_tracker (im_allocators st)) n)" arbitrary: st rule: less_induct)
  case less
  let ?al = "im_allocators st" and ?F = "rt_free (region_tracker (im_allocators st)) n"
  note ok = less.prems
  obtain h k N where D: "layout_ok h (2 ^ k) (page_size (im_header st)) l" "k \<le> MAX_MAX_PAGE_ORDER" "rl_num_pages (full_region_layout l) = 2 ^ k"
    "length (region_allocators ?al) = num_regions l" "al_inv (2 ^ k) ?al (page_blocks P)"
    "rt_ok N (region_tracker ?al)" "num_regions l \<le> N" "N \<le> MAX_REGIONS"
    "\<And>n. rt_free (region_tracker ?al) n \<subseteq> {..<num_regions l}"
    "\<And>m n. m \<le> n \<Longrightarrow> rt_free (region_tracker ?al) n \<subseteq> rt_free (region_tracker ?al) m"
    "\<And>i. i < num_regions l \<Longrightarrow> history_inv (2 ^ k) (region_allocators ?al ! i) (page_blocks P i)"
    "\<And>i. i < num_regions l \<Longrightarrow> ba_len (region_allocators ?al ! i) = region_pages l i"
    by (rule state_okD[OF ok]) (rule that; assumption)
  have ff: "find_free (region_tracker ?al) n = Some (if ?F = {} then None else Some (Min ?F))"
    by (rule find_free_correct[OF D(6) assms(2)])
  show ?case
  proof (cases "?F = {}")
    case True
    then show ?thesis using ff ok by (subst allocate_helper_retry.simps) simp
  next
    case False
    define r where "r = Min ?F"
    have fin: "finite ?F" using D(9)[of n] by (rule finite_subset) simp
    have rin: "r \<in> ?F" using Min_in[OF fin False] by (simp add: r_def)
    then have r: "r < num_regions l" using D(9) by blast
    let ?b = "region_allocators ?al ! r"
    have region: "get_region st r = Some ?b" using r D(4) by (simp add: get_region_def)
    have step: "allocate_helper_retry st n lowest = do {
        (found, b') \<leftarrow> (if lowest then alloc_lowest ?b n else ba_alloc ?b n);
        case found of
          Some page \<Rightarrow> do { p \<leftarrow> pn_new r page n; Some (Some p, set_region st r b') }
        | None \<Rightarrow> do { t \<leftarrow> mark_full (region_tracker ?al) n r;
            allocate_helper_retry (set_region_tracker (set_region st r b') t) n lowest } }"
      by (subst allocate_helper_retry.simps) (simp add: ff False region flip: r_def)
    show ?thesis
    proof (rule alloc_region_cases[OF D(11)[OF r], of lowest n], goal_cases found full)
      case (found j b')
      from retry_found[OF ok assms(2) r rin, of b' j] found D(3) obtain p where
        p: "pn_new r j n = Some p" "page_order p = n" "p \<notin> P" "state_ok l (insert p P) (set_region st r b')" by auto
      show ?thesis using found(1) p by (auto simp: step set_region_def)
    next
      case full
      then have nb: "no_block st P n r" by (simp add: no_block_def region_free_def)
      obtain t where t: "mark_full (region_tracker ?al) n r = Some t" "state_ok l P (set_region_tracker (set_region st r ?b) t)"
        "rt_free t n = ?F - {r}" by (rule retry_full[OF ok assms(2) r nb])
      let ?st = "set_region_tracker (set_region st r ?b) t"
      have same: "region_tracker (im_allocators ?st) = t" "region_allocators (im_allocators ?st) = region_allocators ?al"
        "im_header ?st = im_header st" by (simp_all add: set_region_tracker_def set_region_def)
      have "card (rt_free (region_tracker (im_allocators ?st)) n) < card ?F"
        unfolding same(1) t(3) by (rule card_Diff1_less[OF fin rin])
      from less.hyps[OF this t(2)] obtain r' st' where ih: "allocate_helper_retry ?st n lowest = Some (r', st')" "im_header st' = im_header st"
        "case r' of None \<Rightarrow> state_ok l P st' \<and> (\<forall>i \<in> rt_free t n. no_block ?st P n i)
         | Some p \<Rightarrow> page_order p = n \<and> p \<notin> P \<and> state_ok l (insert p P) st'" unfolding same by auto
      have nbs: "no_block ?st P n i = no_block st P n i" for i by (simp add: no_block_def region_free_def same)
      show ?thesis using full(1) t(1,3) ih nb by (auto simp: step nbs split: option.splits)
    qed
  qed
qed

subsection \<open>Growing the file\<close>

text \<open>A layout is determined by its number of pages.\<close>

definition total_pages :: "DatabaseLayout \<Rightarrow> nat" where
  "total_pages l = num_full_regions l * rl_num_pages (full_region_layout l) +
     (case trailing_partial_region l of Some t \<Rightarrow> rl_num_pages t | None \<Rightarrow> 0)"

lemma layout_total:
  assumes "layout_ok h cap ps l"
  shows "dl_usable_bytes l = total_pages l * ps" "region_pages l i = min cap (total_pages l - i * cap)" "0 < total_pages l"
proof -
  obtain t where t: "t = (case trailing_partial_region l of Some t \<Rightarrow> rl_num_pages t | None \<Rightarrow> 0)" by simp
  have tp: "total_pages l = num_full_regions l * cap + t" using layout_full[OF assms] t by (simp add: total_pages_def)
  have le: "t \<le> cap" and pos: "0 < cap" using assms t by (auto simp: layout_ok_def split: option.splits)
  show "dl_usable_bytes l = total_pages l * ps"
    using assms layout_full[OF assms] unfolding tp t
    by (auto simp: dl_usable_bytes_def rl_usable_bytes_def layout_ok_def algebra_simps split: option.splits)
  show "0 < total_pages l" using assms pos unfolding tp t by (auto simp: layout_ok_def num_regions_def split: option.splits if_splits)
  show "region_pages l i = min cap (total_pages l - i * cap)"
  proof (cases i "num_full_regions l" rule: linorder_cases)
    case less
    then have "Suc i * cap \<le> num_full_regions l * cap" by (intro mult_right_mono) auto
    then have "cap \<le> total_pages l - i * cap" unfolding tp by simp
    then show ?thesis using less layout_full[OF assms] by (simp add: region_pages_def)
  next
    case equal
    then show ?thesis using le t tp by (auto simp: region_pages_def split: option.splits)
  next
    case greater
    then have "Suc (num_full_regions l) * cap \<le> i * cap" by (intro mult_right_mono) auto
    then have "total_pages l - i * cap = 0" using le unfolding tp by simp
    then show ?thesis using greater by (simp add: region_pages_def)
  qed
qed

lemma layout_regions_le:
  assumes "layout_ok h cap ps l"
  shows "num_regions l \<le> m \<longleftrightarrow> total_pages l \<le> m * cap"
proof -
  have "num_regions l \<le> m \<longleftrightarrow> region_pages l m = 0" using region_pages_pos[OF assms, of m] by auto
  also have "\<dots> \<longleftrightarrow> total_pages l \<le> m * cap" using assms by (auto simp: layout_total(2)[OF assms] layout_ok_def min_def)
  finally show ?thesis .
qed

lemma layout_grows:
  assumes ok: "layout_ok h cap ps l" and ok': "layout_ok h cap ps l'" and le: "total_pages l \<le> total_pages l'"
  shows "region_pages l i \<le> region_pages l' i" "num_regions l \<le> num_regions l'"
    "\<exists>n n'. dl_len l = Some n \<and> dl_len l' = Some n' \<and> n \<le> n'"
proof -
  show "region_pages l i \<le> region_pages l' i" using le unfolding layout_total(2)[OF ok] layout_total(2)[OF ok'] by auto
  show nr: "num_regions l \<le> num_regions l'"
    using layout_regions_le[OF ok, of "num_regions l'"] layout_regions_le[OF ok', of "num_regions l'"] le by simp
  obtain n n' where n: "dl_len l = Some n" "dl_len l' = Some n'" using layout_len[OF ok] layout_len[OF ok'] by blast
  have "n \<le> n'" unfolding layout_usable[OF ok n(1)] layout_usable[OF ok' n(2)] layout_total(1)[OF ok] layout_total(1)[OF ok']
    using le nr by (intro add_mono mult_right_mono) auto
  then show "\<exists>n n'. dl_len l = Some n \<and> dl_len l' = Some n' \<and> n \<le> n'" using n by blast
qed

text \<open>A block fits where enough consecutive pages are free.\<close>

lemma block_in_interval:
  assumes "a + 2 * 2 ^ n \<le> b" shows "\<exists>j. blk j n \<subseteq> {a..<b}"
proof -
  define q where "q = a div 2 ^ n * 2 ^ n"
  have "q \<le> a" "a < q + 2 ^ n"
    unfolding q_def by (auto simp: div_times_less_eq_dividend) (metis add.commute dividend_less_div_times zero_less_numeral zero_less_power)
  moreover have "blk (a div 2 ^ n + 1) n = {q + 2 ^ n..<q + 2 ^ n + 2 ^ n}" unfolding blk_interval q_def by (simp add: algebra_simps)
  ultimately have "blk (a div 2 ^ n + 1) n \<subseteq> {a..<b}" using assms by auto
  then show ?thesis by blast
qed

lemma block_at_end:
  assumes "2 ^ n dvd b" "a + 2 ^ n \<le> (b :: nat)" shows "\<exists>j. blk j n \<subseteq> {a..<b}"
proof -
  obtain q where q: "b = 2 ^ n * q" using assms(1) by (elim dvdE)
  then have "0 < q" using assms(2) by (cases q) auto
  then have "blk (q - 1) n = {b - 2 ^ n..<b}" unfolding blk_interval q by (cases q) (auto simp: algebra_simps)
  then show ?thesis using assms(2) by (intro exI[of _ "q - 1"]) auto
qed

text \<open>The size that \<open>grow\<close> computes makes room for a block of the order among the new pages of some region.\<close>

lemma grown_total:
  assumes ok: "layout_ok h cap ps l" and T: "total_pages l \<le> T" "0 < T" and small: "cap < 2 ^ 32" "T div cap < 2 ^ 32"
  obtains l' where "dl_calculate (T * ps) cap h ps = Some l'" "layout_ok h cap ps l'" "total_pages l' = T"
proof -
  have pos: "0 < cap" "0 < ps" using ok by (simp_all add: layout_ok_def)
  have "T * ps div (cap * ps) = T div cap" using pos(2) by simp
  then obtain l' where l': "dl_calculate (T * ps) cap h ps = Some l'" "layout_ok h cap ps l'" "T * ps \<le> dl_usable_bytes l'"
    "dl_usable_bytes l' < T * ps + ps" using dl_calculate_correct[OF pos, of "T * ps" h] T(2) pos small by auto
  have "T * ps \<le> total_pages l' * ps" "total_pages l' * ps < Suc T * ps" using l'(3,4) unfolding layout_total(1)[OF l'(2)] by simp_all
  then have "T \<le> total_pages l'" "total_pages l' < Suc T" using pos(2) by (simp_all only: mult_le_cancel2 mult_less_cancel2)
  then show ?thesis using l' by (intro that[of l']) auto
qed

lemma next_size_total:
  assumes ok: "layout_ok h cap ps l" and n: "2 ^ n \<le> cap" "2 ^ n dvd cap"
  obtains T where "next_desired_size l n ps = Some (T * ps)" "total_pages l \<le> T" "T \<le> total_pages l + 2 * cap"
    "\<And>l'. layout_ok h cap ps l' \<Longrightarrow> total_pages l' = T \<Longrightarrow> \<exists>i j. blk j n \<subseteq> {region_pages l i..<region_pages l' i}"
proof -
  let ?F = "num_full_regions l"
  have pos: "0 < cap" "0 < ps" using ok by (simp_all add: layout_ok_def)
  have full: "rl_num_pages (full_region_layout l) = cap" using layout_full[OF ok] by simp
  have room: "\<exists>i j. blk j n \<subseteq> {region_pages l i..<region_pages l' i}"
    if l': "layout_ok h cap ps l'" and i: "region_pages l i = 0" "region_pages l' i \<ge> 2 ^ n" for l' i
    by (rule exI[of _ i], rule exI[of _ 0]) (use i in \<open>auto simp: blk_interval\<close>)
  have new: "\<exists>i j. blk j n \<subseteq> {region_pages l i..<region_pages l' i}"
    if l': "layout_ok h cap ps l'" "total_pages l' = (m + 1) * cap" "total_pages l \<le> m * cap" for l' m
    by (rule room[OF l'(1), of m]) (use l'(2,3) n(1) in \<open>simp_all add: layout_total(2)[OF ok] layout_total(2)[OF l'(1)] min_def\<close>)
  show ?thesis
  proof (cases "0 < ?F")
    case F: True
    show ?thesis
    proof (cases "trailing_partial_region l")
      case None
      then have "total_pages l = ?F * cap" by (simp add: total_pages_def full)
      then show ?thesis
        by (intro that[of "(?F + 1) * cap"] new) (use F None full layout_total(1)[OF ok] in \<open>auto simp: next_desired_size_def algebra_simps\<close>)
    next
      case (Some t)
      let ?t = "rl_num_pages t"
      have t: "rl_page_size t = ps" "?t \<le> cap" "0 < ?t" using ok Some by (auto simp: layout_ok_def)
      have tot: "total_pages l = ?F * cap + ?t" using Some by (simp add: total_pages_def full)
      have ut: "rl_usable_bytes t = ?t * ps" using t by (simp add: rl_usable_bytes_def)
      have diff: "cap * ps - rl_usable_bytes t = (cap - ?t) * ps" "rl_usable_bytes t \<le> cap * ps"
        using t by (simp_all add: ut diff_mult_distrib)
      show ?thesis
      proof (cases "2 * 2 ^ n < cap - ?t")
        case True
        then have c: "2 * (2 ^ n * ps) < cap * ps - rl_usable_bytes t" unfolding diff using pos(2) by (simp flip: mult.assoc)
        show ?thesis
        proof (rule that[of "(?F + 1) * cap"])
          show "next_desired_size l n ps = Some ((?F + 1) * cap * ps)"
            using F Some full c t diff layout_total(1)[OF ok] tot by (simp add: next_desired_size_def algebra_simps)
          show "\<exists>i j. blk j n \<subseteq> {region_pages l i..<region_pages l' i}"
            if l': "layout_ok h cap ps l'" "total_pages l' = (?F + 1) * cap" for l'
          proof -
            have "region_pages l ?F = ?t" using Some by (simp add: region_pages_def)
            moreover have "region_pages l' ?F = cap" unfolding layout_total(2)[OF l'(1)] l'(2) by simp
            moreover have "?t + 2 * 2 ^ n \<le> cap" using True by simp
            ultimately show ?thesis using block_in_interval by (metis)
          qed
        qed (use tot t in auto)
      next
        case False
        then have c: "\<not> 2 * (2 ^ n * ps) < cap * ps - rl_usable_bytes t" unfolding diff using pos(2) by (simp flip: mult.assoc)
        have "(?F + 2) * cap * ps = dl_usable_bytes l + 2 * (cap * ps) - rl_usable_bytes t"
          unfolding layout_total(1)[OF ok] tot ut by (simp add: algebra_simps)
        then have "next_desired_size l n ps = Some ((?F + 1 + 1) * cap * ps)"
          using F Some full False diff by (simp add: next_desired_size_def Let_def)
        then show ?thesis by (rule that) (use tot t new[of _ "?F + 1"] in auto)
      qed
    qed
  next
    case F: False
    let ?T = "max (total_pages l * 2) (total_pages l + 2 ^ n * 2)"
    have "total_pages l \<le> cap" using F ok by (auto simp: total_pages_def layout_ok_def split: option.splits)
    then have r0: "region_pages l 0 = total_pages l" "region_pages l 1 = 0" by (simp_all add: layout_total(2)[OF ok])
    have nd: "next_desired_size l n ps = Some (?T * ps)"
      using F layout_total(1)[OF ok] pos(2) by (simp add: next_desired_size_def max_def algebra_simps)
    show ?thesis
    proof (rule that[OF nd])
      fix l' assume l': "layout_ok h cap ps l'" "total_pages l' = ?T"
      have ge: "total_pages l + 2 * 2 ^ n \<le> total_pages l'" unfolding l'(2) by simp
      have r: "region_pages l' 0 = min cap (total_pages l')" "region_pages l' 1 = min cap (total_pages l' - cap)"
        by (simp_all add: layout_total(2)[OF l'(1)])
      consider "total_pages l' \<le> cap" | "cap < total_pages l'" "2 ^ n \<le> total_pages l' - cap" | "cap < total_pages l'" "total_pages l + 2 ^ n \<le> cap"
        using ge by linarith
      then show "\<exists>i j. blk j n \<subseteq> {region_pages l i..<region_pages l' i}"
      proof cases
        case 1
        then show ?thesis using block_in_interval[OF ge] r0 r by (metis min.absorb2)
      next
        case 2
        then show ?thesis using room[OF l'(1) r0(2)] r n(1) by simp
      next
        case 3
        then show ?thesis using block_at_end[OF n(2) 3(2)] r0 r by (metis min.absorb1 less_imp_le)
      qed
    qed (use \<open>total_pages l \<le> cap\<close> n(1) in auto)
  qed
qed

lemma usable_order_pow: "k \<le> MAX_MAX_PAGE_ORDER \<Longrightarrow> calculate_usable_order (2 ^ k) = Some k"
  by (simp add: calculate_usable_order_def leading_zeros32_def bit_length_pow MAX_MAX_PAGE_ORDER_def)

lemma set_layout_ok:
  assumes "dh_layout h = Some l" "layout_ok hp cap ps l" "layout_ok hp cap ps l'"
  shows "\<exists>h'. set_layout h l' = Some h' \<and> dh_layout h' = Some l' \<and> page_size h = ps \<and>
    (\<exists>a b. h' = h\<lparr>full_regions := a, trailing_partial_region_pages := b\<rparr>)"
proof -
  have h: "region_max_data_pages h = cap" "region_header_pages h = hp" "page_size h = ps"
    using assms(1,2) by (auto simp: dh_layout_def rl_new_def dl_new_def layout_ok_def assert_that_def bind_Some_iff split: if_splits)
  show ?thesis
  proof (cases "trailing_partial_region l'")
    case None
    let ?h = "h\<lparr>full_regions := num_full_regions l', trailing_partial_region_pages := 0\<rparr>"
    have "set_layout h l' = Some ?h" "dh_layout ?h = Some l'"
      using h assms None by (cases l', auto simp: set_layout_def dh_layout_def rl_new_def dl_new_def layout_ok_def assert_that_def)+
    then show ?thesis using h by blast
  next
    case (Some t)
    let ?h = "h\<lparr>full_regions := num_full_regions l', trailing_partial_region_pages := rl_num_pages t\<rparr>"
    have "set_layout h l' = Some ?h" "dh_layout ?h = Some l'"
      using h assms Some by (cases l', cases t, auto simp: set_layout_def dh_layout_def rl_new_def dl_new_def layout_ok_def assert_that_def)+
    then show ?thesis using h by blast
  qed
qed

lemma resize_state:
  assumes ok: "state_ok l P st" and l: "layout_ok h (2 ^ k) ps l" "layout_ok h (2 ^ k) ps l'" "k \<le> MAX_MAX_PAGE_ORDER"
    and fit: "num_regions l' \<le> MAX_REGIONS" "\<And>i. covered (page_blocks P i) \<subseteq> {..<region_pages l' i}"
  shows "\<exists>al h'. resize_to (im_allocators st) l' = Some al \<and> set_layout (im_header st) l' = Some h' \<and>
    state_ok l' P \<lparr>im_header = h', im_allocators = al\<rparr> \<and> (\<exists>a b. h' = (im_header st)\<lparr>full_regions := a, trailing_partial_region_pages := b\<rparr>) \<and>
    (\<forall>i<num_regions l'. region_pages l i < region_pages l' i \<longrightarrow> region_marked al (page_blocks P) i)"
proof -
  have cap: "rl_num_pages (full_region_layout l) = 2 ^ k" "rl_num_pages (full_region_layout l') = 2 ^ k" using l by (simp_all add: layout_ok_def)
  have "(2 :: nat) ^ k \<le> 2 ^ 20" using l(3) by (intro power_increasing) (auto simp: MAX_MAX_PAGE_ORDER_def)
  then have small: "(2 :: nat) ^ k < 2 ^ 32" by simp
  have al: "al_inv (2 ^ k) (im_allocators st) (page_blocks P)" "fits_layout (im_allocators st) l" "dh_layout (im_header st) = Some l"
    using ok cap by (simp_all add: state_ok_def)
  obtain al' where al': "resize_to (im_allocators st) l' = Some al'" "al_inv (2 ^ k) al' (page_blocks P)" "fits_layout al' l'"
    "\<forall>i<num_regions l'. region_pages l i < region_pages l' i \<longrightarrow> region_marked al' (page_blocks P) i"
    using resize_to_correct[OF al(1,2) l(1,2) small fit] by blast
  obtain h' a b where h': "set_layout (im_header st) l' = Some h'" "dh_layout h' = Some l'" "page_size (im_header st) = ps"
    "h' = (im_header st)\<lparr>full_regions := a, trailing_partial_region_pages := b\<rparr>" using set_layout_ok[OF al(3) l(1,2)] by blast
  have ps: "page_size h' = ps" using h'(3,4) by simp
  have "state_ok l' P \<lparr>im_header = h', im_allocators = al'\<rparr>"
    unfolding state_ok_def using h'(2) ps al' fit(1) cap l(2,3) by auto
  then show ?thesis using al' h' by blast
qed

lemma pages_covered:
  assumes "state_ok l P st"
  shows "covered (page_blocks P i) \<subseteq> {..<region_pages l i}"
proof (cases "i < num_regions l")
  case True
  then have "history_inv (rl_num_pages (full_region_layout l)) (region_allocators (im_allocators st) ! i) (page_blocks P i)"
    "ba_len (region_allocators (im_allocators st) ! i) = region_pages l i"
    using assms by (simp_all add: state_ok_def al_inv_def fits_layout_def)
  then show ?thesis by (simp add: history_inv_def)
next
  case False
  then have "page_blocks P i = {}" using assms by (auto simp: state_ok_def al_inv_def fits_layout_def)
  then show ?thesis by simp
qed

lemma grow_state:
  assumes ok: "state_ok l P st" and k: "layout_ok h (2 ^ k) ps l" "k \<le> MAX_MAX_PAGE_ORDER" and n: "n \<le> k" and max: "num_regions l + 2 \<le> MAX_REGIONS"
  obtains d l' al h' where "next_desired_size l n ps = Some d" "dl_calculate d (2 ^ k) h ps = Some l'"
    "total_pages l \<le> total_pages l'" "layout_ok h (2 ^ k) ps l'" "num_regions l' \<le> MAX_REGIONS"
    "resize_to (im_allocators st) l' = Some al" "set_layout (im_header st) l' = Some h'"
    "state_ok l' P \<lparr>im_header = h', im_allocators = al\<rparr>" "\<exists>a b. h' = (im_header st)\<lparr>full_regions := a, trailing_partial_region_pages := b\<rparr>"
    "\<exists>i \<in> rt_free (region_tracker al) n. \<not> no_block \<lparr>im_header = h', im_allocators = al\<rparr> P n i"
proof -
  have n2: "(2 :: nat) ^ n \<le> 2 ^ k" "(2 :: nat) ^ n dvd 2 ^ k" using n by (auto intro: power_increasing le_imp_power_dvd)
  have c20: "(2 :: nat) ^ k \<le> 2 ^ 20" using k(2) by (intro power_increasing) (auto simp: MAX_MAX_PAGE_ORDER_def)
  obtain T where T: "next_desired_size l n ps = Some (T * ps)" "total_pages l \<le> T" "T \<le> total_pages l + 2 * 2 ^ k"
    "\<And>l'. layout_ok h (2 ^ k) ps l' \<Longrightarrow> total_pages l' = T \<Longrightarrow> \<exists>i j. blk j n \<subseteq> {region_pages l i..<region_pages l' i}"
    by (rule next_size_total[OF k(1) n2]) (rule that; assumption)
  have "total_pages l \<le> num_regions l * 2 ^ k" using layout_regions_le[OF k(1), of "num_regions l"] by simp
  then have Tb: "T \<le> (num_regions l + 2) * 2 ^ k" using T(3) by (simp add: algebra_simps)
  then have "T div 2 ^ k \<le> num_regions l + 2" by (metis div_le_mono div_mult_self_is_m zero_less_numeral zero_less_power)
  then have Td: "T div 2 ^ k < 2 ^ 32" using max by (simp add: MAX_REGIONS_def)
  obtain l' where l': "dl_calculate (T * ps) (2 ^ k) h ps = Some l'" "layout_ok h (2 ^ k) ps l'" "total_pages l' = T"
    by (rule grown_total[OF k(1) T(2)]) (use T(2) Td layout_total(3)[OF k(1)] c20 that in auto)
  have nr: "num_regions l' \<le> MAX_REGIONS" using layout_regions_le[OF l'(2), of "num_regions l + 2"] Tb l'(3) max by simp
  have grows: "total_pages l \<le> total_pages l'" using T(2) l'(3) by simp
  have "covered (page_blocks P i) \<subseteq> {..<region_pages l' i}" for i
    using pages_covered[OF ok, of i] layout_grows(1)[OF k(1) l'(2) grows, of i] by auto
  from resize_state[OF ok k(1) l'(2) k(2) nr this] obtain al h' where
    al: "resize_to (im_allocators st) l' = Some al" "set_layout (im_header st) l' = Some h'"
      "state_ok l' P \<lparr>im_header = h', im_allocators = al\<rparr>" "\<exists>a b. h' = (im_header st)\<lparr>full_regions := a, trailing_partial_region_pages := b\<rparr>"
      "\<forall>i<num_regions l'. region_pages l i < region_pages l' i \<longrightarrow> region_marked al (page_blocks P) i" by blast
  obtain i j where ij: "blk j n \<subseteq> {region_pages l i..<region_pages l' i}" using T(4)[OF l'(2,3)] by blast
  then have lt: "region_pages l i < region_pages l' i" using blk_nonempty[of j n] by (cases "region_pages l i < region_pages l' i") auto
  then have i: "i < num_regions l'" using region_pages_pos[OF l'(2), of i] by auto
  let ?st = "\<lparr>im_header = h', im_allocators = al\<rparr>"
  have len: "ba_len (region_allocators al ! i) = region_pages l' i" using al(3) i by (simp add: state_ok_def fits_layout_def)
  have free: "blk j n \<subseteq> region_free al (page_blocks P) i"
    using ij pages_covered[OF ok, of i] unfolding region_free_def len by fastforce
  have "history_inv (2 ^ k) (region_allocators al ! i) (page_blocks P i)"
    using al(3) i l'(2) by (simp add: state_ok_def al_inv_def fits_layout_def layout_ok_def)
  then have mo: "ba_max_order (region_allocators al ! i) = k" using usable_order_pow[OF k(2)] by (simp add: history_inv_def)
  have "i \<in> rt_free (region_tracker al) n" using al(5) i lt free n mo unfolding region_marked_def by blast
  moreover have "\<not> no_block ?st P n i" using free n mo by (auto simp: no_block_def)
  ultimately have "\<exists>i \<in> rt_free (region_tracker al) n. \<not> no_block ?st P n i" by blast
  then show ?thesis by (rule that[OF T(1) l'(1) grows l'(2) nr al(1-4)])
qed

subsection \<open>Freeing a page\<close>

lemma free_state:
  assumes ok: "state_ok l P st" and p: "p \<in> P"
  obtains b' t where "get_region st (region p) = Some (region_allocators (im_allocators st) ! region p)"
    "ba_free_page (region_allocators (im_allocators st) ! region p) (page_index p) (page_order p) = Some b'"
    "mark_free (region_tracker (im_allocators st)) (page_order p) (region p) = Some t"
    "state_ok l (P - {p}) (set_region_tracker (set_region st (region p) b') t)"
    "state_ok l (P - {p}) (set_region (set_region_tracker st t) (region p) b')"
proof -
  let ?al = "im_allocators st" and ?r = "region p" and ?x = "(page_index p, page_order p)"
  obtain h k N where D: "layout_ok h (2 ^ k) (page_size (im_header st)) l" "k \<le> MAX_MAX_PAGE_ORDER" "rl_num_pages (full_region_layout l) = 2 ^ k"
    "length (region_allocators ?al) = num_regions l" "al_inv (2 ^ k) ?al (page_blocks P)"
    "rt_ok N (region_tracker ?al)" "num_regions l \<le> N" "N \<le> MAX_REGIONS"
    "\<And>n. rt_free (region_tracker ?al) n \<subseteq> {..<num_regions l}"
    "\<And>m n. m \<le> n \<Longrightarrow> rt_free (region_tracker ?al) n \<subseteq> rt_free (region_tracker ?al) m"
    "\<And>i. i < num_regions l \<Longrightarrow> history_inv (2 ^ k) (region_allocators ?al ! i) (page_blocks P i)"
    "\<And>i. i < num_regions l \<Longrightarrow> ba_len (region_allocators ?al ! i) = region_pages l i"
    by (rule state_okD[OF ok]) (rule that; assumption)
  have in_r: "?x \<in> page_blocks P ?r" using p by (auto simp: page_blocks_def)
  have r: "?r < num_regions l"
  proof (rule ccontr)
    assume "\<not> ?r < num_regions l"
    then have "page_blocks P ?r = {}" using D(4,5) by (simp add: al_inv_def)
    then show False using in_r by simp
  qed
  obtain b' where b': "ba_free_page (region_allocators ?al ! ?r) (page_index p) (page_order p) = Some b'"
    "history_inv (2 ^ k) b' (page_blocks P ?r - {?x})" "same_shape (region_allocators ?al ! ?r) b'"
    using history_free[OF D(11)[OF r] in_r] by blast
  have order: "page_order p \<le> MAX_MAX_PAGE_ORDER"
    using D(11)[OF r] in_r history_order_bound[OF D(11)[OF r]] by (auto simp: history_inv_def)
  have rN: "?r < N" using r D(7) by simp
  obtain t where t: "mark_free (region_tracker ?al) (page_order p) ?r = Some t" "rt_ok N t"
    "\<And>m. rt_free t m = (if m \<le> page_order p then insert ?r (rt_free (region_tracker ?al) m) else rt_free (region_tracker ?al) m)"
    by (rule mark_free_all[OF D(6) order rN]) (rule that; assumption)
  have len: "ba_len b' = ba_len (region_allocators ?al ! ?r)" using b'(3) by (simp add: same_shape_def)
  let ?al' = "\<lparr>region_tracker = t, region_allocators = (region_allocators ?al)[?r := b']\<rparr>"
  have "al_inv (2 ^ k) ?al' (page_blocks (P - {p}))"
  proof (rule al_inv_update[OF D(5) _ _ len])
    show "rt_free t n \<subseteq> rt_free t m" if "m \<le> n" for m n using D(10)[OF that] that by (auto simp: t(3))
    show "rt_free t n \<subseteq> {..<length (region_allocators ?al)}" for n using D(9)[of n] r D(4) by (auto simp: t(3))
  qed (use D r b' t page_blocks_remove[of P p] in auto)
  then have S: "state_ok l (P - {p}) (st\<lparr>im_allocators := ?al'\<rparr>)" using state_ok_set[OF ok len] D(3) by simp
  have E: "set_region_tracker (set_region st ?r b') t = st\<lparr>im_allocators := ?al'\<rparr>"
    "set_region (set_region_tracker st t) ?r b' = st\<lparr>im_allocators := ?al'\<rparr>"
    by (simp_all add: set_region_tracker_def set_region_def)
  have g: "get_region st ?r = Some (region_allocators ?al ! ?r)" using r D(4) by (simp add: get_region_def)
  show ?thesis by (rule that[OF g b'(1) t(1)]) (simp_all only: E S)
qed

subsection \<open>Shrinking the file\<close>

text \<open>What is left of the last region covers its allocated pages.\<close>

lemma trailing_free_fits:
  assumes inv: "history_inv cap b A"
  obtains t where "trailing_free_pages b = Some t" "t \<le> ba_len b" "covered A \<subseteq> {..<ba_len b - t}"
proof -
  have b: "ba_rep b ({..<ba_len b} - covered A)" "0 < ba_len b" "covered A \<subseteq> {..<ba_len b}" using inv by (simp_all add: history_inv_def)
  obtain t where t: "trailing_free_pages b = Some t" "t \<le> ba_len b" "{ba_len b - t..<ba_len b} \<subseteq> {..<ba_len b} - covered A"
    using trailing_free_pages_correct[OF b(1,2)] by blast
  have "covered A \<subseteq> {..<ba_len b - t}"
  proof
    fix x assume x: "x \<in> covered A"
    then have "x < ba_len b" "\<not> x \<in> {ba_len b - t..<ba_len b}" using b(3) t(3) by blast+
    then show "x \<in> {..<ba_len b - t}" by auto
  qed
  then show ?thesis using that t by blast
qed

lemma shrink_state:
  assumes ok: "state_ok l P st"
  obtains shrunk st' l' where "try_shrink st force = Some (shrunk, st')" "state_ok l' P st'" "full_region_layout l' = full_region_layout l"
    "\<exists>a b. im_header st' = (im_header st)\<lparr>full_regions := a, trailing_partial_region_pages := b\<rparr>" "the (dl_len l') \<le> the (dl_len l)"
    "\<not> shrunk \<Longrightarrow> st' = st \<and> l' = l"
proof -
  let ?al = "im_allocators st" and ?r = "num_regions l - 1" and ?ps = "page_size (im_header st)"
  obtain h k N where D: "layout_ok h (2 ^ k) ?ps l" "k \<le> MAX_MAX_PAGE_ORDER" "rl_num_pages (full_region_layout l) = 2 ^ k"
    "length (region_allocators ?al) = num_regions l" "al_inv (2 ^ k) ?al (page_blocks P)"
    "rt_ok N (region_tracker ?al)" "num_regions l \<le> N" "N \<le> MAX_REGIONS"
    "\<And>n. rt_free (region_tracker ?al) n \<subseteq> {..<num_regions l}"
    "\<And>m n. m \<le> n \<Longrightarrow> rt_free (region_tracker ?al) n \<subseteq> rt_free (region_tracker ?al) m"
    "\<And>i. i < num_regions l \<Longrightarrow> history_inv (2 ^ k) (region_allocators ?al ! i) (page_blocks P i)"
    "\<And>i. i < num_regions l \<Longrightarrow> ba_len (region_allocators ?al ! i) = region_pages l i"
    by (rule state_okD[OF ok]) (rule that; assumption)
  have pos: "0 < num_regions l" using D(1) by (simp add: layout_ok_def)
  then have r: "?r < num_regions l" by simp
  let ?b = "region_allocators ?al ! ?r"
  obtain t where t: "trailing_free_pages ?b = Some t" "t \<le> ba_len ?b" "covered (page_blocks P ?r) \<subseteq> {..<ba_len ?b - t}"
    by (rule trailing_free_fits[OF D(11)[OF r]])
  have len: "ba_len ?b = region_pages l ?r" "0 < region_pages l ?r" using D(12)[OF r] region_pages_pos[OF D(1)] r by auto
  have lay: "dh_layout (im_header st) = Some l" and g: "get_region st ?r = Some ?b"
    using ok r D(4) by (simp_all add: state_ok_def get_region_def)
  define red where "red = (if 1 < num_regions l \<and> t = ba_len ?b then t else if force then min (ba_len ?b - 1) t else t div 2)"
  have by_le: "red \<le> t" "red \<le> region_pages l ?r" "red = region_pages l ?r \<longrightarrow> 1 < num_regions l"
    using t(2) len by (auto simp: red_def min_def)
  obtain l' where l': "reduce_last_region l red = Some l'" "dl_usable_bytes l' + red * ?ps = dl_usable_bytes l"
    "0 < num_regions l' \<longrightarrow> layout_ok h (2 ^ k) ?ps l'"
    "num_regions l' = (if red = region_pages l ?r then num_regions l - 1 else num_regions l)"
    "\<forall>i. region_pages l' i = (if i = ?r then region_pages l i - red else region_pages l i)"
    using reduce_last_region_correct[OF D(1) by_le(2)] by (elim exE conjE) (rule that)
  have ok': "layout_ok h (2 ^ k) ?ps l'" using l'(3,4) by_le(3) pos by (auto split: if_splits)
  have nr: "num_regions l' \<le> num_regions l" using l'(4) by simp
  have fit: "covered (page_blocks P i) \<subseteq> {..<region_pages l' i}" for i
  proof (cases "i = ?r")
    case True
    have "{..<ba_len ?b - t} \<subseteq> {..<region_pages l ?r - red}" using by_le(1) len(1) by auto
    then show ?thesis using t(3) l'(5) True by (metis subset_trans)
  qed (use pages_covered[OF ok, of i] l'(5) in simp)
  obtain al h' where al: "resize_to ?al l' = Some al" "set_layout (im_header st) l' = Some h'" "state_ok l' P \<lparr>im_header = h', im_allocators = al\<rparr>"
    "\<exists>a b. h' = (im_header st)\<lparr>full_regions := a, trailing_partial_region_pages := b\<rparr>"
    using resize_state[OF ok D(1) ok' D(2) _ fit] nr D(7,8) by (meson order_trans)
  obtain n n' where n: "dl_len l = Some n" "dl_len l' = Some n'" using layout_len[OF D(1)] layout_len[OF ok'] by blast
  have "num_regions l' * (h * ?ps) \<le> num_regions l * (h * ?ps)" using nr by (rule mult_right_mono) simp
  then have le: "n' \<le> n" using layout_usable[OF D(1) n(1)] layout_usable[OF ok' n(2)] l'(2) by linarith
  have full: "full_region_layout l' = full_region_layout l" using D(1) ok' by (simp add: layout_ok_def)
  show thesis
  proof (cases "t = 0 \<or> t < ba_len ?b div 2 \<and> \<not> force")
    case True
    then have "try_shrink st force = Some (False, st)" using lay pos g t(1) by (auto simp: try_shrink_def assert_that_def Let_def)
    moreover have "\<exists>a b. im_header st = (im_header st)\<lparr>full_regions := a, trailing_partial_region_pages := b\<rparr>"
      by (intro exI[of _ "full_regions (im_header st)"] exI[of _ "trailing_partial_region_pages (im_header st)"]) simp
    ultimately show ?thesis using ok by (intro that[of False st l]) simp_all
  next
    case False
    then have "try_shrink st force = Some (True, \<lparr>im_header = h', im_allocators = al\<rparr>)"
      using lay pos g t(1) al(1,2) n le l'(1)[unfolded red_def] by (auto simp: try_shrink_def assert_that_def Let_def split: if_splits)
    then show ?thesis using al(3,4) full n le
      by (intro that[of True "\<lparr>im_header = h', im_allocators = al\<rparr>" l']) simp_all
  qed
qed

end
