(* ===== verification/Cached_File_Laws.thy ===== *)
theory Cached_File_Laws
  imports Cached_File
begin

text \<open>
  Correctness of the page cache: over any backend that keeps the contract, a cached file behaves as one array of
  bytes. The array \<open>D\<close> is the storage with the pending writes applied; \<open>B\<close> records the pages that are
  borrowed for writing, with their lengths.
\<close>

subsection \<open>The caches as maps\<close>

definition wmap :: "'s PagedCachedFile \<Rightarrow> nat \<rightharpoonup> bytes option" where
  "wmap f = lru_map (write_buffer f)"

definition rmap :: "'s PagedCachedFile \<Rightarrow> nat \<rightharpoonup> bytes" where
  "rmap f k = lru_map (read_cache f ! (k mod lock_stripes)) k"

definition stripe_ok :: "nat \<Rightarrow> bytes LRUCache \<Rightarrow> bool" where
  "stripe_ok i c \<longleftrightarrow> lru_ok c \<and> (\<forall>k \<in> dom (lru_map c). k mod lock_stripes = i)"

definition cf_wf :: "'s PagedCachedFile \<Rightarrow> bool" where
  "cf_wf f \<longleftrightarrow> length (read_cache f) = lock_stripes \<and> (\<forall>i < lock_stripes. stripe_ok i (read_cache f ! i)) \<and>
     lru_ok (write_buffer f)"

lemma lock_stripes_pos [simp]: "0 < lock_stripes" "k mod lock_stripes < lock_stripes"
  by (simp_all add: lock_stripes_def)

lemma slot_idx: "cf_wf f \<Longrightarrow> idx (read_cache f) (k mod lock_stripes) = Some (read_cache f ! (k mod lock_stripes))"
  by (simp add: cf_wf_def)

text \<open>Replacing a stripe, the write buffer or the counters.\<close>

lemma set_stripe:
  assumes "cf_wf f" "i < lock_stripes" "stripe_ok i c"
    "read_cache f' = (read_cache f)[i := c]" "write_buffer f' = write_buffer f"
  shows "cf_wf f'" "rmap f' = (\<lambda>k. if k mod lock_stripes = i then lru_map c k else rmap f k)" "wmap f' = wmap f"
proof -
  have len: "length (read_cache f) = lock_stripes" using assms(1) by (simp add: cf_wf_def)
  show "cf_wf f'" using assms len by (auto simp: cf_wf_def nth_list_update)
  show "rmap f' = (\<lambda>k. if k mod lock_stripes = i then lru_map c k else rmap f k)"
    using assms(2) len by (auto simp: rmap_def assms(4) fun_eq_iff nth_list_update)
  show "wmap f' = wmap f" by (simp add: wmap_def assms(5))
qed

lemma set_write_buffer:
  assumes "cf_wf f" "lru_ok w" "read_cache f' = read_cache f" "write_buffer f' = w"
  shows "cf_wf f'" "rmap f' = rmap f" "wmap f' = lru_map w"
  using assms by (auto simp: cf_wf_def rmap_def wmap_def fun_eq_iff)

text \<open>A stripe from which entries were removed.\<close>

lemma drop_entries:
  assumes "cf_wf f" "i < lock_stripes" "lru_ok c" "lru_map c \<subseteq>\<^sub>m lru_map (read_cache f ! i)"
    "read_cache f' = (read_cache f)[i := c]" "write_buffer f' = write_buffer f"
  shows "cf_wf f'" "rmap f' \<subseteq>\<^sub>m rmap f" "wmap f' = wmap f"
proof -
  have "stripe_ok i (read_cache f ! i)" using assms(1,2) by (simp add: cf_wf_def)
  moreover have "dom (lru_map c) \<subseteq> dom (lru_map (read_cache f ! i))" using assms(4) by (rule map_le_implies_dom_le)
  ultimately have s: "stripe_ok i c" using assms(3) by (auto simp: stripe_ok_def)
  note set_stripe[OF assms(1,2) s assms(5,6)]
  then show "cf_wf f'" "rmap f' \<subseteq>\<^sub>m rmap f" "wmap f' = wmap f"
    using assms(4) by (auto simp: map_le_def rmap_def)
qed

subsection \<open>The invariant\<close>

definition wext :: "(nat \<rightharpoonup> bytes option) \<Rightarrow> (nat \<rightharpoonup> nat) \<Rightarrow> nat \<rightharpoonup> nat" where
  "wext W B k = (case W k of Some (Some bs) \<Rightarrow> Some (length bs) | Some None \<Rightarrow> B k | None \<Rightarrow> None)"

definition ext :: "(nat \<rightharpoonup> bytes) \<Rightarrow> (nat \<rightharpoonup> bytes option) \<Rightarrow> (nat \<rightharpoonup> nat) \<Rightarrow> nat \<rightharpoonup> nat" where
  "ext R W B k = (case wext W B k of Some n \<Rightarrow> Some n | None \<Rightarrow> map_option length (R k))"

text \<open>A page at \<open>off\<close> of length \<open>len\<close> overlaps no cached page other than itself.\<close>

definition fits :: "(nat \<rightharpoonup> nat) \<Rightarrow> nat \<Rightarrow> nat \<Rightarrow> bool" where
  "fits E off len \<longleftrightarrow> (\<forall>k n. E k = Some n \<longrightarrow> (k = off \<longrightarrow> n = len) \<and> (k \<noteq> off \<longrightarrow> k + n \<le> off \<or> off + len \<le> k))"

definition coherent :: "(nat \<rightharpoonup> bytes) \<Rightarrow> (nat \<rightharpoonup> bytes option) \<Rightarrow> (nat \<rightharpoonup> nat) \<Rightarrow> bytes \<Rightarrow> bytes \<Rightarrow> bool" where
  "coherent R W B F D \<longleftrightarrow> length D = length F \<and>
     (\<forall>k bs. W k = Some (Some bs) \<longrightarrow> subslice D k (k + length bs) = Some bs) \<and>
     (\<forall>k. W k = Some None \<longleftrightarrow> k \<in> dom B) \<and>
     (\<forall>k n. B k = Some n \<longrightarrow> k + n \<le> length D) \<and>
     (\<forall>k bs. R k = Some bs \<longrightarrow> W k = None \<and> subslice D k (k + length bs) = Some bs) \<and>
     (\<forall>i < length D. D ! i \<noteq> F ! i \<longrightarrow> (\<exists>k n. wext W B k = Some n \<and> k \<le> i \<and> i < k + n)) \<and>
     (\<forall>k n. ext R W B k = Some n \<longrightarrow> fits (ext R W B) k n)"

lemma coherentI:
  assumes "length D = length F"
    and "\<And>k bs. W k = Some (Some bs) \<Longrightarrow> subslice D k (k + length bs) = Some bs"
    and "\<And>k. W k = Some None \<longleftrightarrow> k \<in> dom B"
    and "\<And>k n. B k = Some n \<Longrightarrow> k + n \<le> length D"
    and "\<And>k bs. R k = Some bs \<Longrightarrow> W k = None \<and> subslice D k (k + length bs) = Some bs"
    and "\<And>i. i < length D \<Longrightarrow> D ! i \<noteq> F ! i \<Longrightarrow> \<exists>k n. wext W B k = Some n \<and> k \<le> i \<and> i < k + n"
    and "\<And>k n. ext R W B k = Some n \<Longrightarrow> fits (ext R W B) k n"
  shows "coherent R W B F D"
  unfolding coherent_def by (intro conjI allI impI assms)

lemma coherentD:
  assumes "coherent R W B F D"
  shows "length D = length F"
    and "W k = Some (Some bs) \<Longrightarrow> subslice D k (k + length bs) = Some bs"
    and "W k = Some None \<longleftrightarrow> k \<in> dom B"
    and "B k = Some n \<Longrightarrow> k + n \<le> length D"
    and "R k = Some bs \<Longrightarrow> W k = None \<and> subslice D k (k + length bs) = Some bs"
    and "i < length D \<Longrightarrow> D ! i \<noteq> F ! i \<Longrightarrow> \<exists>k n. wext W B k = Some n \<and> k \<le> i \<and> i < k + n"
    and "ext R W B k = Some n \<Longrightarrow> fits (ext R W B) k n"
  using assms unfolding coherent_def by blast+

lemma fits_mono: "fits E off len \<Longrightarrow> (\<And>k n. E' k = Some n \<Longrightarrow> E k = Some n) \<Longrightarrow> fits E' off len"
  unfolding fits_def by blast

lemma coherent_R_sub:
  assumes "coherent R W B F D" "R' \<subseteq>\<^sub>m R"
  shows "coherent R' W B F D"
proof -
  have sub: "R' k = Some bs \<Longrightarrow> R k = Some bs" for k bs using assms(2) by (force simp: map_le_def)
  have e: "ext R' W B k = Some n \<Longrightarrow> ext R W B k = Some n" for k n
    using sub by (auto simp: ext_def split: option.splits)
  note c = coherentD[OF assms(1)]
  show ?thesis by (rule coherentI) (use c(1-3) c(4)[of _ _] c(5)[OF sub] c(6) fits_mono[OF c(7)[OF e] e] in auto)
qed

lemma ext_insert_R: "W off = None \<Longrightarrow> ext (R(off \<mapsto> bs)) W B = (ext R W B)(off \<mapsto> length bs)"
  by (auto simp: ext_def wext_def fun_eq_iff split: option.splits)

lemma fits_upd:
  assumes "\<forall>k n. E k = Some n \<longrightarrow> fits E k n" "fits E off len"
  shows "\<forall>k n. (E(off \<mapsto> len)) k = Some n \<longrightarrow> fits (E(off \<mapsto> len)) k n"
proof (intro allI impI)
  fix k n assume e: "(E(off \<mapsto> len)) k = Some n"
  have c: "k' = k \<or> k' + n' \<le> k \<or> k + n \<le> k'" if "(E(off \<mapsto> len)) k' = Some n'" for k' n'
    using assms e that unfolding fits_def by (auto split: if_splits; metis)
  show "fits (E(off \<mapsto> len)) k n" unfolding fits_def
    using c e by (metis option.inject)
qed

lemma coherent_insert_R:
  assumes "coherent R W B F D" "W off = None" "subslice D off (off + length bs) = Some bs" "fits (ext R W B) off (length bs)"
  shows "coherent (R(off \<mapsto> bs)) W B F D"
proof -
  have "\<forall>k n. ext (R(off \<mapsto> bs)) W B k = Some n \<longrightarrow> fits (ext (R(off \<mapsto> bs)) W B) k n"
    unfolding ext_insert_R[of W off, OF assms(2)] using coherentD(7)[OF assms(1)] assms(4) by (intro fits_upd) auto
  then show ?thesis using assms(2,3) coherentD(1-6)[OF assms(1)] by (intro coherentI) (auto split: if_splits)
qed

text \<open>Where nothing is pending the storage itself holds the bytes.\<close>

lemma coherent_clean:
  assumes coh: "coherent R W B F D" and "W off = None" "fits (ext R W B) off len" "off + len \<le> length D"
  shows "subslice F off (off + len) = subslice D off (off + len)"
proof (rule subslice_eq_nth)
  show "length F = length D" using coh by (simp add: coherent_def)
  fix i assume i: "off \<le> i" "i < off + len"
  show "F ! i = D ! i"
  proof (rule ccontr)
    assume "F ! i \<noteq> D ! i"
    then obtain k n where k: "wext W B k = Some n" "k \<le> i" "i < k + n"
      using coherentD(6)[OF coh, of i] i assms(4) by auto
    then have "ext R W B k = Some n" by (simp add: ext_def)
    then have "k = off" using assms(3) k i unfolding fits_def by force
    then show False using k(1) assms(2) by (simp add: wext_def)
  qed
qed

lemma subslice_nth: "subslice D a b = Some bs \<Longrightarrow> a \<le> i \<Longrightarrow> i < b \<Longrightarrow> D ! i = bs ! (i - a)"
  by (auto simp: subslice_def split: if_splits)

text \<open>Writing a pending page to the storage.\<close>

lemma coherent_evict:
  assumes coh: "coherent R W B F D" and w: "W k = Some (Some bs)" and F': "put_slice F k bs = Some F'"
  shows "coherent R (W(k := None)) B F' D"
proof (rule coherentI)
  note c = coherentD[OF coh]
  have wx: "wext (W(k := None)) B j = (if j = k then None else wext W B j)" for j by (simp add: wext_def)
  have e: "ext R (W(k := None)) B j = Some n \<Longrightarrow> ext R W B j = Some n" for j n
    using c(5)[of k] w by (auto simp: ext_def wx split: if_splits option.splits)
  show "ext R (W(k := None)) B j = Some n \<Longrightarrow> fits (ext R (W(k := None)) B) j n" for j n
    using fits_mono[OF c(7)[OF e] e] .
  show len: "length D = length F'" using c(1) put_slice_length[OF F'] by simp
  show "\<exists>j n. wext (W(k := None)) B j = Some n \<and> j \<le> i \<and> i < j + n" if i: "i < length D" "D ! i \<noteq> F' ! i" for i
  proof -
    have sl: "subslice D k (k + length bs) = Some bs" by (rule c(2)[OF w])
    have out: "\<not> (k \<le> i \<and> i < k + length bs)"
    proof
      assume r: "k \<le> i \<and> i < k + length bs"
      then have "D ! i = bs ! (i - k)" using subslice_nth[OF sl] by simp
      moreover have "F' ! i = bs ! (i - k)" using r nth_put_slice[OF F', of i] i(1) c(1) by simp
      ultimately show False using i(2) by simp
    qed
    then have "F' ! i = F ! i" using nth_put_slice[OF F', of i] i(1) c(1) by auto
    then obtain j n where j: "wext W B j = Some n" "j \<le> i" "i < j + n" using c(6)[OF i(1)] i(2) by auto
    then have "j \<noteq> k" using out w by (auto simp: wext_def)
    with j show ?thesis by (auto simp: wx)
  qed
  show "(W(k := None)) j = Some None \<longleftrightarrow> j \<in> dom B" for j using c(3)[of j] c(3)[of k] w by auto
qed (use coherentD[OF coh] in \<open>auto split: if_splits\<close>)

text \<open>Borrowing a page for writing: a pending one, or a new one.\<close>

lemma coherent_borrow:
  assumes coh: "coherent R W B F D" and w: "W off = Some (Some bs)"
  shows "coherent R (W(off \<mapsto> None)) (B(off \<mapsto> length bs)) F D"
proof (rule coherentI)
  note c = coherentD[OF coh]
  have wx: "wext (W(off \<mapsto> None)) (B(off \<mapsto> length bs)) = wext W B" using w by (auto simp: wext_def fun_eq_iff split: option.splits)
  then have e: "ext R (W(off \<mapsto> None)) (B(off \<mapsto> length bs)) = ext R W B" by (auto simp: ext_def fun_eq_iff split: option.splits)
  show "ext R (W(off \<mapsto> None)) (B(off \<mapsto> length bs)) k = Some n \<Longrightarrow>
      fits (ext R (W(off \<mapsto> None)) (B(off \<mapsto> length bs))) k n" for k n
    unfolding e by (rule c(7))
  show "\<exists>k n. wext (W(off \<mapsto> None)) (B(off \<mapsto> length bs)) k = Some n \<and> k \<le> i \<and> i < k + n"
    if "i < length D" "D ! i \<noteq> F ! i" for i unfolding wx by (rule c(6)[OF that])
  show "(B(off \<mapsto> length bs)) k = Some n \<Longrightarrow> k + n \<le> length D" for k n
    using c(4)[of k n] c(2)[OF w] by (auto simp: subslice_eq_Some_iff split: if_splits)
  show "R k = Some x \<Longrightarrow> (W(off \<mapsto> None)) k = None \<and> subslice D k (k + length x) = Some x" for k x
    using c(5)[of k x] w by auto
qed (use coherentD[OF coh] w in \<open>auto split: if_splits\<close>)

lemma coherent_borrow_new:
  assumes coh: "coherent R W B F D" and new: "W off = None" "R off = None"
    and fit: "fits (ext R W B) off len" "off + len \<le> length D"
  shows "coherent R (W(off \<mapsto> None)) (B(off \<mapsto> len)) F D"
proof (rule coherentI)
  note c = coherentD[OF coh]
  have wx: "wext (W(off \<mapsto> None)) (B(off \<mapsto> len)) = (wext W B)(off \<mapsto> len)" by (auto simp: wext_def fun_eq_iff split: option.splits)
  then have e: "ext R (W(off \<mapsto> None)) (B(off \<mapsto> len)) = (ext R W B)(off \<mapsto> len)" by (auto simp: ext_def fun_eq_iff split: option.splits)
  show "ext R (W(off \<mapsto> None)) (B(off \<mapsto> len)) k = Some n \<Longrightarrow>
      fits (ext R (W(off \<mapsto> None)) (B(off \<mapsto> len))) k n" for k n
    unfolding e using fits_upd[of "ext R W B" off len] c(7) fit(1) by blast
  show "\<exists>k n. wext (W(off \<mapsto> None)) (B(off \<mapsto> len)) k = Some n \<and> k \<le> i \<and> i < k + n"
    if i: "i < length D" "D ! i \<noteq> F ! i" for i
  proof -
    obtain k n where "wext W B k = Some n" "k \<le> i" "i < k + n" using c(6)[OF i] by blast
    moreover from this new(1) have "k \<noteq> off" by (auto simp: wext_def)
    ultimately show ?thesis unfolding wx by auto
  qed
  show "(B(off \<mapsto> len)) k = Some n \<Longrightarrow> k + n \<le> length D" for k n
    using c(4)[of k n] fit(2) by (auto split: if_splits)
  show "R k = Some x \<Longrightarrow> (W(off \<mapsto> None)) k = None \<and> subslice D k (k + length x) = Some x" for k x
    using c(5)[of k x] new(2) by auto
qed (use coherentD[OF coh] in \<open>auto split: if_splits\<close>)

lemma ext_borrow:
  "W off = None \<Longrightarrow> ext R (W(off \<mapsto> None)) (B(off \<mapsto> len)) = (ext R W B)(off \<mapsto> len)"
  "W off = Some (Some bs) \<Longrightarrow> ext R (W(off \<mapsto> None)) (B(off \<mapsto> length bs)) = ext R W B"
  "W off = Some None \<Longrightarrow> B off = Some (length data) \<Longrightarrow> ext R (W(off \<mapsto> Some data)) (B(off := None)) = ext R W B"
  by (auto simp: ext_def wext_def fun_eq_iff split: option.splits)

lemma fits_other_slice:
  assumes "put_slice D off data = Some D'" "fits E k n" "E off = Some (length data)" "k \<noteq> off"
  shows "subslice D' k (k + n) = subslice D k (k + n)"
  using assms(2-4) by (intro subslice_put_other[OF assms(1)]) (auto simp: fits_def)

lemma coherent_return:
  assumes coh: "coherent R W B F D" and b: "B off = Some (length data)" and D': "put_slice D off data = Some D'"
  shows "coherent R (W(off \<mapsto> Some data)) (B(off := None)) F D'"
proof (rule coherentI)
  note c = coherentD[OF coh]
  have w: "W off = Some None" using c(3)[of off] b by auto
  have wx: "wext (W(off \<mapsto> Some data)) (B(off := None)) = wext W B" using w b by (auto simp: wext_def fun_eq_iff split: option.splits)
  then have e: "ext R (W(off \<mapsto> Some data)) (B(off := None)) = ext R W B" by (auto simp: ext_def fun_eq_iff split: option.splits)
  have eo: "ext R W B off = Some (length data)" using w b by (simp add: ext_def wext_def)
  have len: "length D' = length D" by (rule put_slice_length[OF D'])
  show "length D' = length F" using c(1) len by simp
  show "ext R (W(off \<mapsto> Some data)) (B(off := None)) k = Some n \<Longrightarrow>
      fits (ext R (W(off \<mapsto> Some data)) (B(off := None))) k n" for k n
    unfolding e by (rule c(7))
  show "\<exists>k n. wext (W(off \<mapsto> Some data)) (B(off := None)) k = Some n \<and> k \<le> i \<and> i < k + n"
    if i: "i < length D'" "D' ! i \<noteq> F ! i" for i
  proof (cases "off \<le> i \<and> i < off + length data")
    case True
    then show ?thesis unfolding wx using w b by (intro exI[of _ off] exI[of _ "length data"]) (simp add: wext_def)
  next
    case False
    then have "D' ! i = D ! i" using nth_put_slice[OF D', of i] i(1) len by auto
    then show ?thesis unfolding wx using c(6)[of i] i len by simp
  qed
  show "(W(off \<mapsto> Some data)) k = Some (Some bs) \<Longrightarrow> subslice D' k (k + length bs) = Some bs" for k bs
  proof (cases "k = off")
    case False
    assume "(W(off \<mapsto> Some data)) k = Some (Some bs)"
    then have wk: "W k = Some (Some bs)" using False by simp
    then have fk: "fits (ext R W B) k (length bs)" by (intro c(7)) (simp add: ext_def wext_def)
    show ?thesis using fits_other_slice[OF D' fk eo False] c(2)[OF wk] by simp
  qed (use subslice_put_same[OF D'] in simp)
  show "R k = Some x \<Longrightarrow> (W(off \<mapsto> Some data)) k = None \<and> subslice D' k (k + length x) = Some x" for k x
  proof -
    assume r: "R k = Some x"
    then have k: "W k = None" "k \<noteq> off" using c(5)[OF r] w by auto
    have fk: "fits (ext R W B) k (length x)" using k(1) r by (intro c(7)) (simp add: ext_def wext_def)
    show ?thesis using fits_other_slice[OF D' fk eo k(2)] c(5)[OF r] k by simp
  qed
qed (use coherentD[OF coh] put_slice_length[OF D'] b in \<open>auto split: if_splits\<close>)

text \<open>Dropping a pending page: the storage's bytes show again.\<close>

lemma coherent_cancel:
  assumes coh: "coherent R W B F D" and w: "W off = Some (Some bs)"
    and D': "put_slice D off (take (length bs) (drop off F)) = Some D'"
  shows "coherent R (W(off := None)) B F D'"
proof (rule coherentI)
  note c = coherentD[OF coh]
  let ?old = "take (length bs) (drop off F)"
  have range: "off + length bs \<le> length D" using c(2)[OF w] by (simp add: subslice_eq_Some_iff)
  then have old: "length ?old = length bs" using c(1) by simp
  have wx: "wext (W(off := None)) B j = (if j = off then None else wext W B j)" for j by (simp add: wext_def)
  have e: "ext R (W(off := None)) B j = Some n \<Longrightarrow> ext R W B j = Some n" for j n
    using c(5)[of off] w by (auto simp: ext_def wx split: if_splits option.splits)
  have eo: "ext R W B off = Some (length ?old)" using w old by (simp add: ext_def wext_def)
  have len: "length D' = length D" by (rule put_slice_length[OF D'])
  show "length D' = length F" using len c(1) by simp
  show "ext R (W(off := None)) B j = Some n \<Longrightarrow> fits (ext R (W(off := None)) B) j n" for j n
    using fits_mono[OF c(7)[OF e] e] .
  show "\<exists>j n. wext (W(off := None)) B j = Some n \<and> j \<le> i \<and> i < j + n" if i: "i < length D'" "D' ! i \<noteq> F ! i" for i
  proof -
    have out: "\<not> (off \<le> i \<and> i < off + length bs)"
      using nth_put_slice[OF D', of i] i len old range by (auto simp: c(1))
    then have "D' ! i = D ! i" using nth_put_slice[OF D', of i] i(1) len old by auto
    then obtain j n where j: "wext W B j = Some n" "j \<le> i" "i < j + n" using c(6)[of i] i len by auto
    then have "j \<noteq> off" using out w by (auto simp: wext_def)
    with j show ?thesis by (auto simp: wx)
  qed
  show "(W(off := None)) j = Some None \<longleftrightarrow> j \<in> dom B" for j using c(3)[of j] c(3)[of off] w by auto
  show "(W(off := None)) k = Some (Some x) \<Longrightarrow> subslice D' k (k + length x) = Some x" for k x
  proof -
    assume "(W(off := None)) k = Some (Some x)"
    then have k: "W k = Some (Some x)" "k \<noteq> off" by (auto split: if_splits)
    then have fk: "fits (ext R W B) k (length x)" by (intro c(7)) (simp add: ext_def wext_def)
    show ?thesis using fits_other_slice[OF D' fk eo k(2)] c(2)[OF k(1)] by simp
  qed
  show "R k = Some x \<Longrightarrow> (W(off := None)) k = None \<and> subslice D' k (k + length x) = Some x" for k x
  proof -
    assume r: "R k = Some x"
    then have k: "W k = None" "k \<noteq> off" using c(5)[OF r] w by auto
    have fk: "fits (ext R W B) k (length x)" using k(1) r by (intro c(7)) (simp add: ext_def wext_def)
    show ?thesis using fits_other_slice[OF D' fk eo k(2)] c(5)[OF r] k by simp
  qed
  show "B k = Some n \<Longrightarrow> k + n \<le> length D'" for k n using c(4)[of k n] len by simp
qed

lemma coherent_flushed: "coherent R Map.empty Map.empty F D \<Longrightarrow> F = D"
proof (rule nth_equalityI)
  assume c: "coherent R Map.empty Map.empty F D"
  show len: "length F = length D" using coherentD(1)[OF c] by simp
  show "F ! i = D ! i" if "i < length F" for i
    by (rule ccontr) (use coherentD(6)[OF c, of i] that len in \<open>auto simp: wext_def\<close>)
qed

subsection \<open>Steps on the state\<close>

definition cf_inv :: "('s \<Rightarrow> bytes) \<Rightarrow> 's PagedCachedFile \<Rightarrow> (nat \<rightharpoonup> nat) \<Rightarrow> bytes \<Rightarrow> bool" where
  "cf_inv contents f B D \<longleftrightarrow> cf_wf f \<and> coherent (rmap f) (wmap f) B (contents (cb_file (cf_file f))) D"

text \<open>The pages the caches hold, with their lengths.\<close>

definition cext :: "'s PagedCachedFile \<Rightarrow> (nat \<rightharpoonup> nat) \<Rightarrow> nat \<rightharpoonup> nat" where
  "cext f B = ext (rmap f) (wmap f) B"

definition cf_fits :: "'s PagedCachedFile \<Rightarrow> (nat \<rightharpoonup> nat) \<Rightarrow> nat \<Rightarrow> nat \<Rightarrow> bool" where
  "cf_fits f B off len \<longleftrightarrow> fits (ext (rmap f) (wmap f) B) off len"

lemma cext_self: "cf_fits f B off len \<Longrightarrow> cext f B \<subseteq>\<^sub>m (cext f B)(off \<mapsto> len)"
  by (auto simp: cext_def cf_fits_def fits_def map_le_def)

lemma cext_cache:
  assumes "wmap f' = wmap f" "rmap f' \<subseteq>\<^sub>m (rmap f)(off \<mapsto> bs)" "wmap f off = None"
  shows "cext f' B \<subseteq>\<^sub>m (cext f B)(off \<mapsto> length bs)"
  unfolding map_le_def
proof
  fix k assume k: "k \<in> dom (cext f' B)"
  have "rmap f' k = Some x \<Longrightarrow> ((rmap f)(off \<mapsto> bs)) k = Some x" for x using assms(2) by (force simp: map_le_def)
  then show "cext f' B k = ((cext f B)(off \<mapsto> length bs)) k"
    using k assms(1,3) by (cases "wmap f k") (auto simp: cext_def ext_def wext_def split: if_splits option.splits)
qed

lemma cf_wf_cong: "read_cache f' = read_cache f \<Longrightarrow> write_buffer f' = write_buffer f \<Longrightarrow> cf_wf f' = cf_wf f \<and> rmap f' = rmap f \<and> wmap f' = wmap f"
  by (auto simp: cf_wf_def rmap_def wmap_def fun_eq_iff)

lemma on_file_ok:
  assumes "st_ok m (cf_file f) Q E"
  shows "st_ok (on_file m) f (\<lambda>x f'. \<exists>c. Q x c \<and> f' = f\<lparr>cf_file := c\<rparr>) (\<lambda>e f'. E e (cf_file f'))"
  using assms by (auto simp: st_ok_def on_file_def split: option.splits sum.splits)

lemma evict_read_spec:
  "lru_ok c \<Longrightarrow> evict_read len removed c = (n, c') \<Longrightarrow> lru_ok c' \<and> lru_map c' \<subseteq>\<^sub>m lru_map c"
proof (induction len removed c arbitrary: n c' rule: evict_read.induct)
  case (1 len removed c)
  show ?case
  proof (cases "removed < len")
    case False
    then show ?thesis using 1(2,3) by (simp add: evict_read.simps[of len removed])
  next
    case True
    obtain r c1 where p: "lru_pop c = (r, c1)" by (cases "lru_pop c")
    note sp = lru_pop_spec[OF 1(2) p]
    show ?thesis
    proof (cases r)
      case None
      then show ?thesis using 1(3) sp True p by (simp add: evict_read.simps[of len removed])
    next
      case (Some kv)
      obtain k v where kv: "kv = (k, v)" by (cases kv)
      have "evict_read len (removed + length v) c1 = (n, c')"
        using 1(3) True p Some kv by (simp add: evict_read.simps[of len removed])
      then have "lru_ok c' \<and> lru_map c' \<subseteq>\<^sub>m lru_map c1"
        using 1(1)[OF True p[symmetric] Some kv[symmetric]] sp by simp
      moreover have "lru_map c1 \<subseteq>\<^sub>m lru_map c" using sp Some kv by (auto simp: map_le_def)
      ultimately show ?thesis using map_le_trans by blast
    qed
  qed
qed

lemma drain_cache_spec: "lru_ok c \<Longrightarrow> drain_cache c n = (c', n') \<Longrightarrow> lru_ok c' \<and> lru_map c' = Map.empty"
proof (induction c n arbitrary: c' n' rule: drain_cache.induct)
  case (1 c n)
  obtain r c1 where p: "lru_pop c = (r, c1)" by (cases "lru_pop c")
  note sp = lru_pop_spec[OF 1(2) p]
  show ?case
  proof (cases r)
    case None
    then show ?thesis using 1(3) sp p by (simp add: drain_cache.simps[of c])
  next
    case (Some kv)
    obtain k v where kv: "kv = (k, v)" by (cases kv)
    have "drain_cache c1 (wrapping_sub n (length v)) = (c', n')"
      using 1(3) p Some kv by (simp add: drain_cache.simps[of c])
    then show ?thesis using 1(1)[OF p[symmetric] Some kv[symmetric]] sp by blast
  qed
qed

text \<open>The write buffer operations on entries that are not borrowed.\<close>

lemma wc_get_spec:
  assumes "lru_ok w" "lru_map w k \<noteq> Some None"
  shows "\<exists>w'. wc_get k w = Some (case lru_map w k of Some x \<Rightarrow> x | None \<Rightarrow> None, w') \<and> lru_ok w' \<and> lru_map w' = lru_map w"
proof -
  obtain r w' where g: "lru_get k w = (r, w')" by (cases "lru_get k w")
  have "r = lru_map w k" "lru_map w' = lru_map w" "lru_ok w'"
    using lru_get_map[of k w] lru_get_ok[OF assms(1), of k] g by auto
  then show ?thesis using g assms(2) by (auto simp: wc_get_def split: option.splits)
qed

lemma wc_remove_spec:
  assumes "lru_ok w" "lru_map w k \<noteq> Some None"
  shows "\<exists>w'. wc_remove k w = Some (case lru_map w k of Some x \<Rightarrow> x | None \<Rightarrow> None, w') \<and> lru_ok w' \<and>
    lru_map w' = (lru_map w)(k := None)"
proof -
  obtain r w' where g: "lru_remove k w = (r, w')" by (cases "lru_remove k w")
  have "r = lru_map w k" "lru_map w' = (lru_map w)(k := None)" "lru_ok w'"
    using lru_remove_map[of k w] lru_remove_ok[OF assms(1), of k] g by auto
  then show ?thesis using g assms(2) by (auto simp: wc_remove_def split: option.splits)
qed

lemma wc_take_spec:
  assumes "lru_ok w" "lru_map w k \<noteq> Some None"
  shows "\<exists>w'. wc_take_value k w = Some (case lru_map w k of Some x \<Rightarrow> x | None \<Rightarrow> None, w') \<and> lru_ok w' \<and>
    lru_map w' = (case lru_map w k of Some _ \<Rightarrow> (lru_map w)(k \<mapsto> None) | None \<Rightarrow> lru_map w)"
proof -
  obtain r w' where g: "lru_get_mut k (\<lambda>_. None) w = (r, w')" by (cases "lru_get_mut k (\<lambda>_. None) w")
  have "r = lru_map w k" "lru_map w' = (case lru_map w k of Some _ \<Rightarrow> (lru_map w)(k \<mapsto> None) | None \<Rightarrow> lru_map w)" "lru_ok w'"
    using lru_get_mut_map[of k "\<lambda>_. None" w] lru_get_mut_ok[OF assms(1), of k "\<lambda>_. None"] g by auto
  then show ?thesis using g assms(2) by (auto simp: wc_take_value_def split: option.splits)
qed

lemma wc_return_spec:
  assumes "lru_ok w" "lru_map w k = Some None"
  shows "\<exists>w'. wc_return_value k v w = Some w' \<and> lru_ok w' \<and> lru_map w' = (lru_map w)(k \<mapsto> Some v)"
proof -
  obtain r w' where g: "lru_get_mut k (\<lambda>_. Some v) w = (r, w')" by (cases "lru_get_mut k (\<lambda>_. Some v) w")
  have "r = Some None" "lru_map w' = (lru_map w)(k \<mapsto> Some v)" "lru_ok w'"
    using lru_get_mut_map[of k "\<lambda>_. Some v" w] lru_get_mut_ok[OF assms(1), of k "\<lambda>_. Some v"] g assms(2) by auto
  then show ?thesis using g by (simp add: wc_return_value_def)
qed

lemma wc_insert_spec:
  assumes "lru_ok w" "lru_map w k = None"
  shows "\<exists>w'. wc_insert k v w = Some w' \<and> lru_ok w' \<and> lru_map w' = (lru_map w)(k \<mapsto> Some v)"
proof -
  obtain r w' where g: "lru_insert k (Some v) w = (r, w')" by (cases "lru_insert k (Some v) w")
  have "r = None" "lru_map w' = (lru_map w)(k \<mapsto> Some v)" "lru_ok w'"
    using lru_insert_map[of k "Some v" w] lru_insert_ok[OF assms(1), of k "Some v"] g assms(2) by auto
  then show ?thesis using g by (simp add: wc_insert_def)
qed

lemma wc_pop_loop_spec:
  assumes "lru_ok w" "wc_pop_loop n w = (r, w')"
  shows "lru_ok w' \<and> (case r of None \<Rightarrow> lru_map w' = lru_map w
    | Some (k, v) \<Rightarrow> lru_map w k = Some (Some v) \<and> lru_map w' = (lru_map w)(k := None))"
  using assms
proof (induction n w arbitrary: r w' rule: wc_pop_loop.induct)
  case (2 n w)
  obtain q w1 where p: "lru_pop w = (q, w1)" by (cases "lru_pop w")
  note sp = lru_pop_spec[OF 2(2) p]
  show ?case
  proof (cases q)
    case None
    then show ?thesis using 2(3) sp p by auto
  next
    case (Some kv)
    obtain k v where kv: "kv = (k, v)" by (cases kv)
    show ?thesis
    proof (cases v)
      case None
      let ?w2 = "snd (lru_insert k None w1)"
      have "lru_ok ?w2" using sp lru_insert_ok by auto
      moreover have "lru_map ?w2 = lru_map w" using sp Some kv None lru_insert_map[of k None w1] by (auto simp: fun_upd_idem)
      moreover have "wc_pop_loop n ?w2 = (r, w')" using 2(3) p Some kv None by simp
      ultimately show ?thesis using 2(1)[OF p[symmetric] Some kv[symmetric] None, of r w'] by (auto split: option.splits)
    next
      case (Some x)
      then show ?thesis using 2(3) sp p \<open>q = Some kv\<close> kv by auto
    qed
  qed
qed simp

lemma wc_pop_spec:
  assumes "lru_ok w" "wc_pop w = (r, w')"
  shows "lru_ok w' \<and> (case r of None \<Rightarrow> lru_map w' = lru_map w
    | Some (k, v) \<Rightarrow> lru_map w k = Some (Some v) \<and> lru_map w' = (lru_map w)(k := None))"
  using wc_pop_loop_spec[OF assms(1)] assms(2) unfolding wc_pop_def by blast

text \<open>A page enters its stripe of the read cache.\<close>

lemma cache_page_spec:
  assumes "cf_wf f" "coherent (rmap f) (wmap f) B F D" "wmap f off = None"
    and "subslice D off (off + length bs) = Some bs" "cf_fits f B off (length bs)"
  shows "\<exists>f'. cache_page off len bs f = Some f' \<and> cf_wf f' \<and> coherent (rmap f') (wmap f') B F D \<and> cf_file f' = cf_file f \<and>
    wmap f' = wmap f \<and> rmap f' \<subseteq>\<^sub>m (rmap f)(off \<mapsto> bs)"
proof -
  let ?i = "off mod lock_stripes" and ?c = "read_cache f ! (off mod lock_stripes)"
  have c: "stripe_ok ?i ?c" using assms(1) by (simp add: cf_wf_def)
  obtain r c1 where ins: "lru_insert off bs ?c = (r, c1)" by (cases "lru_insert off bs ?c")
  have c1: "lru_map c1 = (lru_map ?c)(off \<mapsto> bs)" "lru_ok c1"
    using lru_insert_map[of off bs ?c] lru_insert_ok[of ?c off bs] c ins by (auto simp: stripe_ok_def)
  define cs where "cs = (case r of Some _ \<Rightarrow> wrapping_add (read_cache_bytes f) len | None \<Rightarrow> read_cache_bytes f)"
  obtain n c2 where ev: "(if max_read_cache_bytes f < cs + len then evict_read len 0 c1 else (0, c1)) = (n, c2)"
    by (cases "if max_read_cache_bytes f < cs + len then evict_read len 0 c1 else (0, c1)")
  have c2: "lru_ok c2" "lru_map c2 \<subseteq>\<^sub>m lru_map c1"
    using ev evict_read_spec[OF c1(2), of len 0 n c2] c1(2) by (auto split: if_splits)
  obtain f' where f': "cache_page off len bs f = Some f'" "read_cache f' = (read_cache f)[?i := c2]"
    "write_buffer f' = write_buffer f" "cf_file f' = cf_file f"
    using slot_idx[OF assms(1), of off] ins ev
    by (cases r) (auto simp: cache_page_def Let_def cs_def split: prod.splits)
  have s1: "stripe_ok ?i c1" using c c1 by (auto simp: stripe_ok_def)
  let ?f1 = "f\<lparr>read_cache := (read_cache f)[?i := c1]\<rparr>"
  note f1 = set_stripe[OF assms(1) lock_stripes_pos(2) s1, of ?f1, simplified]
  have r1: "rmap ?f1 = (rmap f)(off \<mapsto> bs)" unfolding f1(2) by (auto simp: c1(1) rmap_def fun_eq_iff)
  then have coh1: "coherent (rmap ?f1) (wmap ?f1) B F D"
    using coherent_insert_R[OF assms(2-4)] assms(5) f1(3) by (simp add: cf_fits_def)
  have i: "?i < length (read_cache f)" using assms(1) by (simp add: cf_wf_def)
  have "read_cache ?f1 ! ?i = c1" using i by simp
  note d = drop_entries[of ?f1 ?i c2 f', OF f1(1) lock_stripes_pos(2) c2(1), unfolded this, OF c2(2)]
  have "cf_wf f'" "rmap f' \<subseteq>\<^sub>m rmap ?f1" "wmap f' = wmap ?f1" using d f'(2,3) by simp_all
  moreover from this coh1 have "coherent (rmap f') (wmap f') B F D" using coherent_R_sub by metis
  ultimately show ?thesis using f'(1,4) f1(3) r1 by auto
qed

lemma ext_len: "fits (ext R W B) off len \<Longrightarrow> W off = Some (Some bs) \<Longrightarrow> length bs = len"
  "fits (ext R W B) off len \<Longrightarrow> W off = None \<Longrightarrow> R off = Some bs \<Longrightarrow> length bs = len"
  unfolding fits_def by (auto simp: ext_def wext_def dest: spec[of _ off])

text \<open>Taking a page out of the read cache.\<close>

lemma remove_cached_spec:
  assumes "cf_wf f" "coherent (rmap f) (wmap f) B F D" "\<forall>bs. rmap f off = Some bs \<longrightarrow> length bs = len"
  shows "\<exists>f'. remove_cached off len f = Some (rmap f off, f') \<and> cf_wf f' \<and> coherent (rmap f') (wmap f') B F D \<and>
    cf_file f' = cf_file f \<and> wmap f' = wmap f \<and> rmap f' = (rmap f)(off := None) \<and> cf_page_size f' = cf_page_size f"
proof -
  let ?i = "off mod lock_stripes" and ?c = "read_cache f ! (off mod lock_stripes)"
  have c: "stripe_ok ?i ?c" using assms(1) by (simp add: cf_wf_def)
  obtain r c1 where rm: "lru_remove off ?c = (r, c1)" by (cases "lru_remove off ?c")
  have c1: "lru_map c1 = (lru_map ?c)(off := None)" "lru_ok c1" "r = rmap f off"
    using lru_remove_map[of off ?c] lru_remove_ok[of ?c off] c rm by (auto simp: stripe_ok_def rmap_def)
  obtain f' where f': "remove_cached off len f = Some (rmap f off, f')" "read_cache f' = (read_cache f)[?i := c1]"
    "write_buffer f' = write_buffer f" "cf_file f' = cf_file f" "cf_page_size f' = cf_page_size f"
    using slot_idx[OF assms(1), of off] rm[unfolded c1(3)] assms(3)
    by (cases "rmap f off") (auto simp: remove_cached_def Let_def)
  have s1: "stripe_ok ?i c1" using c c1 by (auto simp: stripe_ok_def)
  note s = set_stripe[OF assms(1) lock_stripes_pos(2) s1 f'(2,3)]
  have r: "rmap f' = (rmap f)(off := None)" unfolding s(2) by (auto simp: c1(1) rmap_def fun_eq_iff)
  have "coherent (rmap f') (wmap f') B F D"
    unfolding r s(3) by (rule coherent_R_sub[OF assms(2)]) (simp add: map_le_def)
  then show ?thesis using f' s r by auto
qed

text \<open>The two cache lookups of a read.\<close>

lemma lookup_buffered:
  assumes wf: "cf_wf f" and w: "wmap f off \<noteq> Some None" "hint = Clean \<longrightarrow> wmap f off = None"
  shows "\<exists>f'. (if hint = Clean then st_return None
       else st_lift (\<lambda>f. map_option (\<lambda>(r, w). (r, f\<lparr>write_buffer := w\<rparr>)) (wc_get off (write_buffer f)))) f =
       Some (Inr (case wmap f off of Some x \<Rightarrow> x | None \<Rightarrow> None), f') \<and>
     cf_wf f' \<and> rmap f' = rmap f \<and> wmap f' = wmap f \<and> cf_file f' = cf_file f"
proof (cases "hint = Clean")
  case True
  then show ?thesis using w wf by (auto simp: st_return_def)
next
  case False
  have "lru_ok (write_buffer f)" using wf by (simp add: cf_wf_def)
  from wc_get_spec[OF this, of off] w(1) obtain w' where
    w': "wc_get off (write_buffer f) = Some (case wmap f off of Some x \<Rightarrow> x | None \<Rightarrow> None, w')" "lru_ok w'"
    "lru_map w' = wmap f" by (auto simp: wmap_def)
  show ?thesis using False w'(1,3) set_write_buffer[OF wf w'(2), of "f\<lparr>write_buffer := w'\<rparr>"]
    by (auto simp: st_lift_def)
qed

lemma lookup_cached:
  assumes wf: "cf_wf f"
  shows "\<exists>f'. st_lift (\<lambda>f. do {
       c \<leftarrow> idx (read_cache f) (off mod lock_stripes);
       let (r, c') = lru_get off c;
       Some (r, f\<lparr>read_cache := (read_cache f)[off mod lock_stripes := c']\<rparr>) }) f = Some (Inr (rmap f off), f') \<and>
     cf_wf f' \<and> rmap f' = rmap f \<and> wmap f' = wmap f \<and> cf_file f' = cf_file f"
proof -
  let ?i = "off mod lock_stripes" and ?c = "read_cache f ! (off mod lock_stripes)"
  have st: "stripe_ok ?i ?c" using wf by (simp add: cf_wf_def)
  obtain h c' where g: "lru_get off ?c = (h, c')" by (cases "lru_get off ?c")
  have c': "h = rmap f off" "lru_map c' = lru_map ?c" "lru_ok c'"
    using lru_get_map[of off ?c] lru_get_ok[of ?c off] st g by (auto simp: stripe_ok_def rmap_def)
  have sc: "stripe_ok ?i c'" using st c' by (simp add: stripe_ok_def)
  let ?f = "f\<lparr>read_cache := (read_cache f)[?i := c']\<rparr>"
  note s = set_stripe[OF wf lock_stripes_pos(2) sc, of ?f, simplified]
  have "rmap ?f = rmap f" unfolding s(2) using c'(2) by (auto simp: rmap_def fun_eq_iff)
  then show ?thesis using s slot_idx[OF wf, of off] g c'(1) by (intro exI[of _ ?f]) (simp add: st_lift_def)
qed

text \<open>Flushing: every pending page is written, then the pages move to the read cache.\<close>

lemma insert_cached:
  assumes "cf_wf f" "lru_insert off bs (read_cache f ! (off mod lock_stripes)) = (r, c)"
    "read_cache f' = (read_cache f)[off mod lock_stripes := c]" "write_buffer f' = write_buffer f"
  shows "cf_wf f'" "rmap f' = (rmap f)(off \<mapsto> bs)" "wmap f' = wmap f"
proof -
  let ?i = "off mod lock_stripes" and ?c = "read_cache f ! (off mod lock_stripes)"
  have c: "stripe_ok ?i ?c" using assms(1) by (simp add: cf_wf_def)
  have c1: "lru_map c = (lru_map ?c)(off \<mapsto> bs)" "lru_ok c"
    using lru_insert_map[of off bs ?c] lru_insert_ok[of ?c off bs] c assms(2) by (auto simp: stripe_ok_def)
  have s1: "stripe_ok ?i c" using c c1 by (auto simp: stripe_ok_def)
  note s = set_stripe[OF assms(1) lock_stripes_pos(2) s1 assms(3,4)]
  show "cf_wf f'" "wmap f' = wmap f" by (rule s)+
  show "rmap f' = (rmap f)(off \<mapsto> bs)" unfolding s(2) by (auto simp: c1(1) rmap_def fun_eq_iff)
qed

lemma move_buffers_spec:
  assumes "cf_wf f" "coherent (rmap f) Map.empty Map.empty F D"
    and E: "\<forall>k n. E k = Some n \<longrightarrow> fits E k n" and R: "\<forall>k bs. rmap f k = Some bs \<longrightarrow> E k = Some (length bs)"
    and "\<forall>(off, b) \<in> set bufs. \<exists>bs. b = Some bs \<and> E off = Some (length bs) \<and> subslice D off (off + length bs) = Some bs"
  shows "\<exists>f'. move_buffers bufs f = Some f' \<and> cf_wf f' \<and> coherent (rmap f') Map.empty Map.empty F D \<and>
    cf_file f' = cf_file f \<and> wmap f' = wmap f \<and> (\<forall>k bs. rmap f' k = Some bs \<longrightarrow> E k = Some (length bs))"
  using assms
proof (induction bufs arbitrary: f)
  case (Cons x bufs)
  obtain off b where x: "x = (off, b)" by (cases x)
  obtain bs where bs: "b = Some bs" "E off = Some (length bs)" "subslice D off (off + length bs) = Some bs"
    using Cons.prems(5) x by auto
  let ?f1 = "f\<lparr>read_cache_bytes := wrapping_add (read_cache_bytes f) (length bs)\<rparr>"
  show ?case
  proof (cases "read_cache_bytes f + length bs \<le> max_read_cache_bytes f")
    case False
    let ?f = "?f1\<lparr>read_cache_bytes := wrapping_sub (read_cache_bytes ?f1) (length bs)\<rparr>"
    have "cf_wf ?f" "rmap ?f = rmap f" "wmap ?f = wmap f" using cf_wf_cong[of ?f f] Cons.prems(1) by auto
    then show ?thesis using False Cons.prems(2,4) by (simp add: x bs(1) Let_def)
  next
    case True
    let ?i = "off mod lock_stripes"
    obtain r c where ins: "lru_insert off bs (read_cache f ! ?i) = (r, c)" by (cases "lru_insert off bs (read_cache f ! ?i)")
    obtain f2 where f2: "move_buffers (x # bufs) f = move_buffers bufs f2" "read_cache f2 = (read_cache f)[?i := c]"
      "write_buffer f2 = write_buffer f" "cf_file f2 = cf_file f"
      using slot_idx[OF Cons.prems(1), of off] ins True by (cases r) (simp_all add: x bs(1) Let_def)
    note m = insert_cached[OF Cons.prems(1) ins f2(2,3)]
    have e: "ext (rmap f) Map.empty Map.empty k = Some n \<Longrightarrow> E k = Some n" for k n
      using Cons.prems(4) by (auto simp: ext_def wext_def)
    have "fits (ext (rmap f) Map.empty Map.empty) off (length bs)" using fits_mono[OF E[rule_format, OF bs(2)] e] .
    then have coh: "coherent (rmap f2) Map.empty Map.empty F D"
      unfolding m(2) using coherent_insert_R[OF Cons.prems(2) _ bs(3)] by simp
    have "\<exists>f'. move_buffers bufs f2 = Some f' \<and> cf_wf f' \<and> coherent (rmap f') Map.empty Map.empty F D \<and>
      cf_file f' = cf_file f2 \<and> wmap f' = wmap f2 \<and> (\<forall>k bs. rmap f' k = Some bs \<longrightarrow> E k = Some (length bs))"
      by (rule Cons.IH[OF m(1) coh E]) (use Cons.prems(4,5) m(2) bs in auto)
    then show ?thesis using f2 m by auto
  qed
qed simp

lemma map_of_drop_Suc:
  assumes "distinct (map fst xs)" "i < length xs"
  shows "map_of (drop (Suc i) xs) = (map_of (drop i xs))(fst (xs ! i) := None)"
    and "map_of (drop i xs) (fst (xs ! i)) = Some (snd (xs ! i))"
proof -
  have d: "drop i xs = xs ! i # drop (Suc i) xs" by (rule Cons_nth_drop_Suc[OF assms(2), symmetric])
  have "distinct (map fst (drop i xs))" using assms(1) by (simp add: drop_map[symmetric])
  then have "map_of (drop (Suc i) xs) (fst (xs ! i)) = None" unfolding d by (auto simp: map_of_eq_None_iff)
  then show "map_of (drop (Suc i) xs) = (map_of (drop i xs))(fst (xs ! i) := None)" "map_of (drop i xs) (fst (xs ! i)) = Some (snd (xs ! i))"
    unfolding d by (cases "xs ! i", auto simp: fun_eq_iff)+
qed

lemma lru_iter_map:
  assumes "lru_ok c"
  shows "distinct (map fst (lru_iter c))" "map_of (lru_iter c) = lru_map c"
proof -
  have "map fst (lru_iter c) = map fst (cache c)" by (auto simp: lru_iter_def)
  then show "distinct (map fst (lru_iter c))" using assms by (simp add: lru_ok_def)
  have "map_of (map (\<lambda>(k, v, _). (k, v)) m) k = map_option fst (map_of m k)" for m :: "(nat \<times> 'a \<times> bool) list" and k
    by (induction m) auto
  then show "map_of (lru_iter c) = lru_map c" by (simp add: lru_iter_def lru_map_def fun_eq_iff)
qed

context storage_backend
begin

lemma read_direct_spec:
  assumes inv: "cf_inv contents f B D" and "wmap f off = None" "cf_fits f B off len" "off + len \<le> length D"
  shows "st_ok (read_direct be off len) f
    (\<lambda>bs f'. subslice D off (off + len) = Some bs \<and> cf_inv contents f' B D \<and> (\<exists>c. f' = f\<lparr>cf_file := c\<rparr>))
    (\<lambda>_ f'. io_failed (cf_file f'))"
proof -
  let ?F = "contents (cb_file (cf_file f))"
  have coh: "coherent (rmap f) (wmap f) B ?F D" using inv by (simp add: cf_inv_def)
  have same: "subslice ?F off (off + len) = subslice D off (off + len)"
    using coherent_clean[OF coh assms(2)] assms(3,4) by (simp add: cf_fits_def)
  have keep: "cf_inv contents (f\<lparr>cf_file := c\<rparr>) B D" if "contents (cb_file c) = ?F" for c
    using inv that cf_wf_cong[of "f\<lparr>cf_file := c\<rparr>" f] by (simp add: cf_inv_def)
  show ?thesis unfolding read_direct_def
    by (rule st_ok_mono[OF on_file_ok[OF cb_read_ok]]) (auto simp: same intro: keep)
qed

lemma read_miss_spec:
  assumes inv: "cf_inv contents f B D" and "wmap f off = None" "cf_fits f B off len" "off + len \<le> length D"
  shows "st_ok (st_bind (read_direct be off len) (\<lambda>buffer.
      st_bind (st_lift (\<lambda>f. map_option (Pair ()) (cache_page off len buffer f))) (\<lambda>_. st_return buffer))) f
    (\<lambda>bs f'. subslice D off (off + len) = Some bs \<and> cf_inv contents f' B D \<and> cext f' B \<subseteq>\<^sub>m (cext f B)(off \<mapsto> len)) (\<lambda>_ f'. io_failed (cf_file f'))"
proof (rule st_ok_bind, rule st_ok_mono[OF read_direct_spec[OF assms]])
  fix bs f' assume a: "subslice D off (off + len) = Some bs \<and> cf_inv contents f' B D \<and> (\<exists>c. f' = f\<lparr>cf_file := c\<rparr>)"
  then have bs: "length bs = len" "subslice D off (off + length bs) = Some bs"
    using subslice_length[of D off "off + len" bs] by auto
  have m: "rmap f' = rmap f" "wmap f' = wmap f" using a cf_wf_cong[of f' f] by auto
  have c: "cf_wf f'" "coherent (rmap f') (wmap f') B (contents (cb_file (cf_file f'))) D" using a by (auto simp: cf_inv_def)
  have "wmap f' off = None" "cf_fits f' B off (length bs)" using m assms(2,3) bs(1) by (simp_all add: cf_fits_def)
  from cache_page_spec[OF c this(1) bs(2) this(2), of len] obtain f'' where
    f'': "cache_page off len bs f' = Some f''" "cf_inv contents f'' B D" "wmap f'' = wmap f" "rmap f'' \<subseteq>\<^sub>m (rmap f)(off \<mapsto> bs)"
    using m by (auto simp: cf_inv_def)
  have "cext f'' B \<subseteq>\<^sub>m (cext f B)(off \<mapsto> len)" using cext_cache[OF f''(3,4) assms(2)] bs(1) by simp
  note f'' = f'' this
  show "st_ok (st_bind (st_lift (\<lambda>f. map_option (Pair ()) (cache_page off len bs f))) (\<lambda>_. st_return bs)) f'
      (\<lambda>bs f'. subslice D off (off + len) = Some bs \<and> cf_inv contents f' B D \<and> cext f' B \<subseteq>\<^sub>m (cext f B)(off \<mapsto> len)) (\<lambda>_ f'. io_failed (cf_file f'))"
    by (rule st_ok_step[of _ _ "()" f'']) (use f'' a in \<open>simp_all add: st_lift_def\<close>)
qed

lemma read_spec:
  assumes inv: "cf_inv contents f B D" and pre: "off mod cf_page_size f = 0" "off + len \<le> length D" "cf_fits f B off len"
    and free: "off \<notin> dom B" "hint = Clean \<longrightarrow> wmap f off = None"
  shows "st_ok (cf_read be off len hint) f
    (\<lambda>bs f'. subslice D off (off + len) = Some bs \<and> cf_inv contents f' B D \<and> cext f' B \<subseteq>\<^sub>m (cext f B)(off \<mapsto> len)) (\<lambda>_ f'. io_failed (cf_file f'))"
proof -
  let ?F = "contents (cb_file (cf_file f))"
  have wf: "cf_wf f" and coh: "coherent (rmap f) (wmap f) B ?F D" using inv by (simp_all add: cf_inv_def)
  have w: "wmap f off \<noteq> Some None" using coherentD(3)[OF coh] free(1) by auto
  have fit: "fits (ext (rmap f) (wmap f) B) off len" using pre(3) by (simp add: cf_fits_def)
  obtain f1 where f1: "(if hint = Clean then st_return None
       else st_lift (\<lambda>f. map_option (\<lambda>(r, w). (r, f\<lparr>write_buffer := w\<rparr>)) (wc_get off (write_buffer f)))) f =
       Some (Inr (case wmap f off of Some x \<Rightarrow> x | None \<Rightarrow> None) :: StorageError + _, f1)"
     "cf_wf f1" "rmap f1 = rmap f" "wmap f1 = wmap f" "cf_file f1 = cf_file f"
    using lookup_buffered[OF wf w free(2)] by blast
  obtain f2 where f2: "st_lift (\<lambda>f. do {
       c \<leftarrow> idx (read_cache f) (off mod lock_stripes);
       let (r, c') = lru_get off c;
       Some (r, f\<lparr>read_cache := (read_cache f)[off mod lock_stripes := c']\<rparr>) }) f1 =
       Some (Inr (rmap f1 off) :: StorageError + _, f2)"
     "cf_wf f2" "rmap f2 = rmap f1" "wmap f2 = wmap f1" "cf_file f2 = cf_file f1" using lookup_cached[OF f1(2)] by blast
  have inv': "cf_inv contents f1 B D" "cf_inv contents f2 B D" using f1 f2 coh by (simp_all add: cf_inv_def)
  have e: "cext f1 B = cext f B" "cext f2 B = cext f B" using f1 f2 by (simp_all add: cext_def)
  note self = cext_self[OF pre(3)]
  show ?thesis
  proof (cases "wmap f off")
    case (Some x)
    then obtain bs where bs: "wmap f off = Some (Some bs)" using w by (cases x) auto
    have "subslice D off (off + len) = Some bs" "length bs = len"
      using coherentD(2)[OF coh bs] ext_len(1)[OF fit bs] by auto
    then show ?thesis unfolding cf_read_def
      by (intro st_ok_assert, simp add: pre(1)) (rule st_ok_step, rule f1(1), use bs inv'(1) e self in \<open>auto intro!: st_ok_assert\<close>)
  next
    case None
    note wn = this
    show ?thesis
    proof (cases "rmap f off")
      case (Some bs)
      have "subslice D off (off + len) = Some bs" "length bs = len"
        using coherentD(5)[OF coh] ext_len(2)[OF fit wn] Some by auto
      then show ?thesis unfolding cf_read_def
        by (intro st_ok_assert, simp add: pre(1)) (rule st_ok_step, rule f1(1), simp only: wn option.case, rule st_ok_step, rule f2(1),
          use Some inv'(2) f1(3) e self in \<open>auto intro!: st_ok_assert\<close>)
    next
      case None
      have "st_ok (st_bind (read_direct be off len) (\<lambda>buffer.
          st_bind (st_lift (\<lambda>f. map_option (Pair ()) (cache_page off len buffer f))) (\<lambda>_. st_return buffer))) f2
        (\<lambda>bs f'. subslice D off (off + len) = Some bs \<and> cf_inv contents f' B D \<and> cext f' B \<subseteq>\<^sub>m (cext f B)(off \<mapsto> len)) (\<lambda>_ f'. io_failed (cf_file f'))"
        unfolding e(2)[symmetric] by (rule read_miss_spec[OF inv'(2)]) (use wn f1 f2 pre(2) fit in \<open>simp_all add: cf_fits_def\<close>)
      then show ?thesis unfolding cf_read_def
        by (intro st_ok_assert, simp add: pre(1)) (rule st_ok_step, rule f1(1), simp only: wn option.case, rule st_ok_step, rule f2(1),
          simp add: None f1(3))
    qed
  qed
qed

lemma evict_write_spec:
  assumes "cf_inv contents f B D"
  shows "st_ok (evict_write be len removed) f
    (\<lambda>_ f'. cf_inv contents f' B D \<and> rmap f' = rmap f \<and> wmap f' \<subseteq>\<^sub>m wmap f) (\<lambda>_ f'. io_failed (cf_file f'))"
  using assms
proof (induction "length (cache (write_buffer f))" arbitrary: f removed rule: less_induct)
  case less
  let ?F = "contents (cb_file (cf_file f))"
  have wf: "cf_wf f" and coh: "coherent (rmap f) (wmap f) B ?F D" using less.prems by (simp_all add: cf_inv_def)
  have wok: "lru_ok (write_buffer f)" using wf by (simp add: cf_wf_def)
  obtain r w where p: "wc_pop (write_buffer f) = (r, w)" by (cases "wc_pop (write_buffer f)")
  note sp = wc_pop_spec[OF wok p]
  have w: "lru_ok w" using sp by simp
  show ?case
  proof (cases "removed < len")
    case False
    then show ?thesis using less.prems by (simp add: st_ok_def evict_write.simps[of be len removed])
  next
    case True
    show ?thesis
    proof (cases r)
      case None
      note m = set_write_buffer[OF wf w, of "f\<lparr>write_buffer := w\<rparr>"]
      have "lru_map w = wmap f" using sp None by (simp add: wmap_def)
      then show ?thesis using True p None m coh by (simp add: st_ok_def evict_write.simps[of be len removed] cf_inv_def)
    next
      case (Some kv)
      obtain off buf where kv: "kv = (off, buf)" by (cases kv)
      have wo: "wmap f off = Some (Some buf)" "lru_map w = (wmap f)(off := None)" using sp Some kv by (auto simp: wmap_def)
      have range: "off + length buf \<le> length ?F" using coherentD(1,2)[OF coh] wo(1) by (fastforce simp: subslice_eq_Some_iff)
      have wr: "st_ok (cb_write be off buf) (cf_file f)
        (\<lambda>_ c'. put_slice ?F off buf = Some (contents (cb_file c'))) (\<lambda>_ c'. io_failed c')"
        using cb_write_ok[of off buf "cf_file f"] range by simp
      show ?thesis
      proof (cases "cb_write be off buf (cf_file f)")
        case None
        then show ?thesis using wr by (simp add: st_ok_def)
      next
        case (Some res)
        obtain e c where res: "res = (e, c)" by (cases res)
        show ?thesis
        proof (cases e)
          case (Inl err)
          have "lru_map w off = None" using wo(2) by simp
          from wc_insert_spec[OF w this] obtain w' where "wc_insert off buf w = Some w'" by blast
          then show ?thesis using True p \<open>r = Some kv\<close> kv Some res Inl wr
            by (simp add: st_ok_def evict_write.simps[of be len removed])
        next
          case (Inr u)
          let ?f = "f\<lparr>cf_file := c, write_buffer := w,
            write_buffer_bytes := wrapping_sub (write_buffer_bytes f) (length buf)\<rparr>"
          have F': "put_slice ?F off buf = Some (contents (cb_file c))" using wr Some res Inr by (simp add: st_ok_def)
          note m = set_write_buffer[OF wf w, of ?f]
          have inv: "cf_inv contents ?f B D" using m coherent_evict[OF coh wo(1) F'] wo(2) by (simp add: cf_inv_def)
          have less': "length (cache (write_buffer ?f)) < length (cache (write_buffer f))"
            using wc_pop_size[of "write_buffer f" kv w] p \<open>r = Some kv\<close> by simp
          have ev: "evict_write be len removed f = evict_write be len (removed + length buf) ?f"
            using True p \<open>r = Some kv\<close> kv Some res Inr by (simp add: evict_write.simps[of be len removed f])
          have sub: "(wmap f)(off := None) \<subseteq>\<^sub>m wmap f" by (simp add: map_le_def)
          have "st_ok (evict_write be len (removed + length buf)) ?f
            (\<lambda>_ f'. cf_inv contents f' B D \<and> rmap f' = rmap f \<and> wmap f' \<subseteq>\<^sub>m wmap f) (\<lambda>_ f'. io_failed (cf_file f'))"
            by (rule st_ok_mono[OF less.hyps[OF less' inv]]) (use m wo(2) map_le_trans[OF _ sub] in auto)
          then show ?thesis unfolding st_ok_def ev .
        qed
      qed
    qed
  qed
qed

lemma drop_spec:
  assumes inv: "cf_inv contents f B D" and b: "B off = Some (length data)"
  shows "\<exists>f' D'. writable_page_drop off data f = Some f' \<and> put_slice D off data = Some D' \<and> cf_inv contents f' (B(off := None)) D' \<and>
    cext f' (B(off := None)) = cext f B \<and> cf_page_size f' = cf_page_size f"
proof -
  have wf: "cf_wf f" and coh: "coherent (rmap f) (wmap f) B (contents (cb_file (cf_file f))) D"
    using inv by (simp_all add: cf_inv_def)
  have wo: "wmap f off = Some None" using coherentD(3)[OF coh] b by auto
  then have "lru_map (write_buffer f) off = Some None" by (simp add: wmap_def)
  moreover have "lru_ok (write_buffer f)" using wf by (simp add: cf_wf_def)
  ultimately obtain w where w: "wc_return_value off data (write_buffer f) = Some w" "lru_ok w" "lru_map w = (wmap f)(off \<mapsto> Some data)"
    using wc_return_spec by (metis wmap_def)
  obtain D' where D': "put_slice D off data = Some D'" using put_slice_defined coherentD(4)[OF coh b] by blast
  let ?f = "f\<lparr>write_buffer := w\<rparr>"
  have "cf_inv contents ?f (B(off := None)) D'"
    using set_write_buffer[OF wf w(2), of ?f] coherent_return[OF coh b D'] w(3) by (simp add: cf_inv_def)
  moreover have "cext ?f (B(off := None)) = cext f B"
    using set_write_buffer[OF wf w(2), of ?f] ext_borrow(3)[of "wmap f" off B data] wo b w(3) by (simp add: cext_def)
  ultimately show ?thesis using w(1) D' by (simp add: writable_page_drop_def)
qed

text \<open>Borrowing a page that was not pending: it is inserted and taken at once.\<close>

lemma borrow_fresh_spec:
  assumes inv: "cf_inv contents f B D" and new: "wmap f off = None" "rmap f off = None"
    and fit: "cf_fits f B off (length data)" "off + length data \<le> length D"
  shows "\<exists>f'. st_lift (\<lambda>f. do {
      w1 \<leftarrow> wc_insert off data (write_buffer f);
      (r, w2) \<leftarrow> wc_take_value off w1;
      x \<leftarrow> r;
      Some (x, f\<lparr>write_buffer := w2\<rparr>) }) f = Some (Inr data :: StorageError + bytes, f') \<and> cf_inv contents f' (B(off \<mapsto> length data)) D \<and>
    cext f' (B(off \<mapsto> length data)) = (cext f B)(off \<mapsto> length data)"
proof -
  have wf: "cf_wf f" and coh: "coherent (rmap f) (wmap f) B (contents (cb_file (cf_file f))) D"
    using inv by (simp_all add: cf_inv_def)
  have "lru_ok (write_buffer f)" "lru_map (write_buffer f) off = None" using wf new(1) by (simp_all add: cf_wf_def wmap_def)
  from wc_insert_spec[OF this] obtain w1 where
    w1: "wc_insert off data (write_buffer f) = Some w1" "lru_ok w1" "lru_map w1 = (wmap f)(off \<mapsto> Some data)"
    unfolding wmap_def by blast
  from wc_take_spec[OF w1(2), of off] w1(3) obtain w2 where
    w2: "wc_take_value off w1 = Some (Some data, w2)" "lru_ok w2" "lru_map w2 = (wmap f)(off \<mapsto> None)" by auto
  let ?f = "f\<lparr>write_buffer := w2\<rparr>"
  have "cf_inv contents ?f (B(off \<mapsto> length data)) D"
    using set_write_buffer[OF wf w2(2), of ?f] w2(3) coherent_borrow_new[OF coh new _ fit(2)] fit(1)
    by (simp add: cf_inv_def cf_fits_def)
  moreover have "cext ?f (B(off \<mapsto> length data)) = (cext f B)(off \<mapsto> length data)"
    using set_write_buffer[OF wf w2(2), of ?f] w2(3) ext_borrow(1)[of "wmap f" off] new(1) by (simp add: cext_def)
  ultimately show ?thesis using w1(1) w2(1) by (intro exI[of _ ?f]) (simp add: st_lift_def)
qed

text \<open>The part of \<open>write\<close> after a page was not found in the write buffer.\<close>

lemma write_fresh_spec:
  assumes inv: "cf_inv contents f B D" and new: "wmap f off = None" "rmap f off = None"
    and fit: "cf_fits f B off len" "off + len \<le> length D"
    and ex: "\<forall>bs. existing = Some bs \<longrightarrow> subslice D off (off + len) = Some bs"
  shows "st_ok (st_bind (if limit < previous + len then evict_write be len 0 else st_return ()) (\<lambda>_.
      st_bind (case existing of
          Some data \<Rightarrow> st_return data
        | None \<Rightarrow> if overwrite then st_return (replicate len 0) else read_direct be off len) (\<lambda>result.
      st_lift (\<lambda>f. do {
        w1 \<leftarrow> wc_insert off result (write_buffer f);
        (r, w2) \<leftarrow> wc_take_value off w1;
        data \<leftarrow> r;
        Some (data, f\<lparr>write_buffer := w2\<rparr>) })))) f
    (\<lambda>data f'. length data = len \<and> (\<not> overwrite \<longrightarrow> subslice D off (off + len) = Some data) \<and>
       cf_inv contents f' (B(off \<mapsto> len)) D \<and> cext f' (B(off \<mapsto> len)) \<subseteq>\<^sub>m (cext f B)(off \<mapsto> len)) (\<lambda>_ f'. io_failed (cf_file f'))"
proof (rule st_ok_bind)
  let ?P = "\<lambda>f'. cf_inv contents f' B D \<and> rmap f' = rmap f \<and> wmap f' \<subseteq>\<^sub>m wmap f"
  let ?G = "\<lambda>f'. cf_inv contents f' B D \<and> wmap f' off = None \<and> rmap f' off = None \<and> cf_fits f' B off len \<and>
    cext f' B \<subseteq>\<^sub>m cext f B"
  have ev: "st_ok (if limit < previous + len then evict_write be len 0 else st_return ()) f (\<lambda>_. ?P) (\<lambda>_ f'. io_failed (cf_file f'))"
    using evict_write_spec[OF inv] inv by simp
  have good: "?G f'" if p: "?P f'" for f'
  proof -
    have w: "wmap f' k = Some x \<Longrightarrow> wmap f k = Some x" for k x using p by (force simp: map_le_def)
    have none: "ext (rmap f') (wmap f') B k = Some n \<Longrightarrow> ext (rmap f) (wmap f) B k = Some n" for k n
    proof (cases "wmap f' k")
      case None
      assume e: "ext (rmap f') (wmap f') B k = Some n"
      then obtain bs where r: "rmap f k = Some bs" "length bs = n" using None p by (auto simp: ext_def wext_def)
      moreover have "wmap f k = None" using coherentD(5)[of "rmap f" "wmap f", OF _ r(1)] inv by (auto simp: cf_inv_def)
      ultimately show ?thesis by (simp add: ext_def wext_def)
    qed (use w[of k] p in \<open>auto simp: ext_def wext_def\<close>)
    have "wmap f' off = None" using w[of off] new(1) by (cases "wmap f' off") auto
    moreover have "cext f' B \<subseteq>\<^sub>m cext f B" using none by (auto simp: map_le_def cext_def)
    ultimately show ?thesis using p new(2) fits_mono[OF fit(1)[unfolded cf_fits_def] none] by (simp add: cf_fits_def)
  qed
  show "st_ok (if limit < previous + len then evict_write be len 0 else st_return ()) f (\<lambda>_ f1. st_ok (st_bind (case existing of
          Some data \<Rightarrow> st_return data
        | None \<Rightarrow> if overwrite then st_return (replicate len 0) else read_direct be off len) (\<lambda>result.
      st_lift (\<lambda>f. do {
        w1 \<leftarrow> wc_insert off result (write_buffer f);
        (r, w2) \<leftarrow> wc_take_value off w1;
        data \<leftarrow> r;
        Some (data, f\<lparr>write_buffer := w2\<rparr>) }))) f1
    (\<lambda>data f'. length data = len \<and> (\<not> overwrite \<longrightarrow> subslice D off (off + len) = Some data) \<and>
       cf_inv contents f' (B(off \<mapsto> len)) D \<and> cext f' (B(off \<mapsto> len)) \<subseteq>\<^sub>m (cext f B)(off \<mapsto> len)) (\<lambda>_ f'. io_failed (cf_file f'))) (\<lambda>_ f'. io_failed (cf_file f'))"
  proof (rule st_ok_mono[OF ev], goal_cases)
    case (1 u f1)
    note g = good[OF 1]
    have got: "st_ok (case existing of
          Some data \<Rightarrow> st_return data
        | None \<Rightarrow> if overwrite then st_return (replicate len 0) else read_direct be off len) f1
      (\<lambda>data f2. length data = len \<and> (\<not> overwrite \<longrightarrow> subslice D off (off + len) = Some data) \<and> ?G f2) (\<lambda>_ f'. io_failed (cf_file f'))"
    proof (cases existing)
      case None
      have keep: "?G f2" if "cf_inv contents f2 B D" "f2 = f1\<lparr>cf_file := c\<rparr>" for f2 c
        using g that cf_wf_cong[of f2 f1] by (simp add: cf_fits_def cext_def)
      have "st_ok (read_direct be off len) f1
        (\<lambda>data f2. length data = len \<and> subslice D off (off + len) = Some data \<and> ?G f2) (\<lambda>_ f'. io_failed (cf_file f'))"
        by (rule st_ok_mono[OF read_direct_spec[of f1 B D off len]])
          (use g fit(2) keep subslice_length[of D off "off + len"] in auto)
      then show ?thesis using None g by (auto elim: st_ok_mono)
    next
      case (Some bs)
      then show ?thesis using ex g subslice_length[of D off "off + len" bs] by auto
    qed
    show ?case
    proof (rule st_ok_bind, rule st_ok_mono[OF got], goal_cases)
      case (1 data f2)
      then have fit2: "cf_fits f2 B off (length data)" "off + length data \<le> length D" using fit(2) by auto
      have g2: "cf_inv contents f2 B D" "wmap f2 off = None" "rmap f2 off = None" using 1 by auto
      have "(cext f2 B)(off \<mapsto> len) \<subseteq>\<^sub>m (cext f B)(off \<mapsto> len)" using 1 by (auto intro: map_le_upd)
      then show ?case using borrow_fresh_spec[OF g2 fit2] 1 unfolding st_ok_def by (elim exE conjE) simp
    qed
  qed
qed

lemma write_spec:
  assumes inv: "cf_inv contents f B D" and pre: "off mod cf_page_size f = 0" "off + len \<le> length D" "cf_fits f B off len"
    and free: "off \<notin> dom B"
  shows "st_ok (cf_write be off len overwrite) f
    (\<lambda>data f'. length data = len \<and> (\<not> overwrite \<longrightarrow> subslice D off (off + len) = Some data) \<and>
       cf_inv contents f' (B(off \<mapsto> len)) D \<and> cext f' (B(off \<mapsto> len)) \<subseteq>\<^sub>m (cext f B)(off \<mapsto> len)) (\<lambda>_ f'. io_failed (cf_file f'))"
proof -
  let ?F = "contents (cb_file (cf_file f))"
  have wf: "cf_wf f" and coh: "coherent (rmap f) (wmap f) B ?F D" using inv by (simp_all add: cf_inv_def)
  have fit: "fits (ext (rmap f) (wmap f) B) off len" using pre(3) by (simp add: cf_fits_def)
  have r: "wmap f off = None" "length bs = len" "subslice D off (off + len) = Some bs" if "rmap f off = Some bs" for bs
    using coherentD(5)[OF coh that] ext_len(2)[OF fit _ that] by auto
  from remove_cached_spec[OF wf coh] r obtain f1 where
    f1: "remove_cached off len f = Some (rmap f off, f1)" "cf_wf f1" "coherent (rmap f1) (wmap f1) B ?F D" "cf_file f1 = cf_file f"
      "wmap f1 = wmap f" "rmap f1 = (rmap f)(off := None)" by blast
  have wn: "lru_map (write_buffer f1) off \<noteq> Some None" using coherentD(3)[OF f1(3)] free by (auto simp: wmap_def)
  have wok: "lru_ok (write_buffer f1)" using f1(2) by (simp add: cf_wf_def)
  from wc_take_spec[OF wok wn] obtain w where
    w: "wc_take_value off (write_buffer f1) = Some (case wmap f off of Some x \<Rightarrow> x | None \<Rightarrow> None, w)" "lru_ok w"
      "lru_map w = (case wmap f off of Some _ \<Rightarrow> (wmap f)(off \<mapsto> None) | None \<Rightarrow> wmap f)"
    unfolding f1(5)[symmetric] unfolding wmap_def by blast
  obtain f2 where f2: "f2 = f1\<lparr>write_buffer := w\<rparr>" by simp
  have m: "cf_wf f2" "rmap f2 = (rmap f)(off := None)" "wmap f2 = lru_map w" "cf_file f2 = cf_file f"
    using set_write_buffer[OF f1(2) w(2), of f2] f1(4,6) by (simp_all add: f2)
  have s1: "st_lift (remove_cached off len) f = Some (Inr (rmap f off) :: StorageError + _, f1)" using f1(1) by (simp add: st_lift_def)
  have s2: "st_lift (\<lambda>f. map_option (\<lambda>(r, w). (r, f\<lparr>write_buffer := w\<rparr>)) (wc_take_value off (write_buffer f))) f1 =
      Some (Inr (case wmap f off of Some x \<Rightarrow> x | None \<Rightarrow> None) :: StorageError + _, f2)" using w(1) by (simp add: st_lift_def f2)
  show ?thesis
  proof (cases "wmap f off")
    case (Some x)
    then obtain bs where bs: "wmap f off = Some (Some bs)" using wn f1(5) by (cases x) (auto simp: wmap_def)
    have "subslice D off (off + len) = Some bs" "length bs = len" using coherentD(2)[OF coh bs] ext_len(1)[OF fit bs] by auto
    moreover have "cf_inv contents f2 (B(off \<mapsto> length bs)) D"
      using coherent_borrow[OF f1(3)] bs m w(3) f1(5,6) by (simp add: cf_inv_def)
    moreover have "cext f2 (B(off \<mapsto> length bs)) \<subseteq>\<^sub>m (cext f B)(off \<mapsto> length bs)"
      using ext_borrow(2)[of "wmap f" off bs] bs m w(3) bs by (auto simp: cext_def map_le_def ext_def wext_def split: if_splits option.splits)
    ultimately show ?thesis unfolding cf_write_def
      by (intro st_ok_assert, simp add: pre(1)) (rule st_ok_step, rule s1, rule st_ok_step, rule s2, simp add: bs)
  next
    case None
    let ?f = "f2\<lparr>write_buffer_bytes := wrapping_add (write_buffer_bytes f2) len\<rparr>"
    have same: "cf_wf ?f" "rmap ?f = rmap f1" "wmap ?f = wmap f" "cf_file ?f = cf_file f"
      using cf_wf_cong[of ?f f2] m w(3) None f1(6) by auto
    have inv': "cf_inv contents ?f B D" using same f1(3,5) by (simp add: cf_inv_def)
    have "ext (rmap f1) (wmap f) B k = Some n \<Longrightarrow> ext (rmap f) (wmap f) B k = Some n" for k n
      unfolding f1(6) by (auto simp: ext_def split: option.splits if_splits)
    then have fit': "cf_fits ?f B off len" and sub: "cext ?f B \<subseteq>\<^sub>m cext f B"
      unfolding cf_fits_def cext_def same by (rule fits_mono[OF fit], auto simp: map_le_def)
    have sub': "(cext ?f B)(off \<mapsto> len) \<subseteq>\<^sub>m (cext f B)(off \<mapsto> len)" using sub by (rule map_le_upd)
    show ?thesis unfolding cf_write_def
      by (intro st_ok_assert, simp add: pre(1)) (rule st_ok_step, rule s1, rule st_ok_step, rule s2, simp only: None option.case,
        rule st_ok_bind, unfold st_ok_prim, rule st_ok_bind, unfold st_ok_unit, rule st_ok_bind, unfold st_ok_prim,
        rule st_ok_mono[OF write_fresh_spec[OF inv' _ _ fit' pre(2)]], use None same f1(6) r map_le_trans[OF _ sub'] in auto)
  qed
qed

lemma flush_writes_spec:
  assumes inv: "cf_inv contents f Map.empty D" and bufs: "bufs = lru_iter (write_buffer f)"
  shows "st_ok (st_for (\<lambda>(off, b). case b of None \<Rightarrow> (\<lambda>_. None) | Some bs \<Rightarrow> on_file (cb_write be off bs)) bufs) f
    (\<lambda>_ f'. coherent (rmap f) Map.empty Map.empty (contents (cb_file (cf_file f'))) D \<and> (\<exists>c. f' = f\<lparr>cf_file := c\<rparr>))
    (\<lambda>_ f'. io_failed (cf_file f'))"
proof -
  have wf: "cf_wf f" and coh: "coherent (rmap f) (wmap f) Map.empty (contents (cb_file (cf_file f))) D"
    using inv by (simp_all add: cf_inv_def)
  have d: "distinct (map fst bufs)" "map_of bufs = wmap f"
    using lru_iter_map[of "write_buffer f"] wf by (simp_all add: bufs wmap_def cf_wf_def)
  define I where "I i g \<longleftrightarrow> coherent (rmap f) (map_of (drop i bufs)) Map.empty (contents (cb_file (cf_file g))) D \<and> (\<exists>c. g = f\<lparr>cf_file := c\<rparr>)" for i g
  have step: "st_ok (case bufs ! i of (off, b) \<Rightarrow> case b of None \<Rightarrow> (\<lambda>_. None) | Some bs \<Rightarrow> on_file (cb_write be off bs)) g
      (\<lambda>_. I (Suc i)) (\<lambda>_ f'. io_failed (cf_file f'))" if i: "i < length bufs" and g: "I i g" for i g
  proof -
    let ?W = "map_of (drop i bufs)" and ?F = "contents (cb_file (cf_file g))"
    have c: "coherent (rmap f) ?W Map.empty ?F D" using g by (simp add: I_def)
    obtain off b where ob: "bufs ! i = (off, b)" by (cases "bufs ! i")
    note dr = map_of_drop_Suc[OF d(1) i, unfolded ob fst_conv snd_conv]
    obtain bs where b: "b = Some bs" using coherentD(3)[OF c, of off] dr(2) by (cases b) auto
    have w: "?W off = Some (Some bs)" using dr(2) b by simp
    have range: "off + length bs \<le> length ?F" using coherentD(1)[OF c] coherentD(2)[OF c w] by (simp add: subslice_eq_Some_iff)
    have next_inv: "I (Suc i) (g\<lparr>cf_file := c'\<rparr>)" if "put_slice ?F off bs = Some (contents (cb_file c'))" for c'
      using coherent_evict[OF c w that] dr(1) g by (auto simp: I_def)
    show ?thesis unfolding ob prod.case b option.case
      by (rule st_ok_mono[OF on_file_ok[OF cb_write_ok[OF range]]]) (use next_inv in auto)
  qed
  have "st_ok (st_for (\<lambda>(off, b). case b of None \<Rightarrow> (\<lambda>_. None) | Some bs \<Rightarrow> on_file (cb_write be off bs)) bufs) f
      (\<lambda>_. I (length bufs)) (\<lambda>_ f'. io_failed (cf_file f'))"
  proof (rule st_ok_for)
    show "I 0 f" using coh d(2) by (simp add: I_def exI[of _ "cf_file f"])
  qed (rule step)
  then show ?thesis by (rule st_ok_mono) (auto simp: I_def)
qed

lemma flush_buffer_spec:
  assumes inv: "cf_inv contents f Map.empty D"
  shows "st_ok (flush_write_buffer be) f
    (\<lambda>_ f'. cf_inv contents f' Map.empty D \<and> contents (cb_file (cf_file f')) = D \<and> wmap f' = Map.empty \<and> cext f' Map.empty \<subseteq>\<^sub>m cext f Map.empty) (\<lambda>_ f'. io_failed (cf_file f'))"
proof -
  let ?bufs = "lru_iter (write_buffer f)" and ?E = "ext (rmap f) (wmap f) Map.empty"
  have wf: "cf_wf f" and coh: "coherent (rmap f) (wmap f) Map.empty (contents (cb_file (cf_file f))) D"
    using inv by (simp_all add: cf_inv_def)
  have E: "\<forall>k n. ?E k = Some n \<longrightarrow> fits ?E k n" using coherentD(7)[OF coh] by blast
  have it: "distinct (map fst ?bufs)" "map_of ?bufs = wmap f"
    using lru_iter_map[of "write_buffer f"] wf by (simp_all add: wmap_def cf_wf_def)
  have R: "?E k = Some (length bs)" if "rmap f k = Some bs" for k bs
    using coherentD(5)[OF coh that] that by (simp add: ext_def wext_def)
  have pend: "\<exists>bs. b = Some bs \<and> ?E off = Some (length bs) \<and> subslice D off (off + length bs) = Some bs"
    if "(off, b) \<in> set ?bufs" for off b
  proof -
    have w: "wmap f off = Some b" using that it map_of_is_SomeI by metis
    then obtain bs where "b = Some bs" using coherentD(3)[OF coh, of off] by (cases b) auto
    then show ?thesis using w coherentD(2)[OF coh, of off bs] by (simp add: ext_def wext_def)
  qed
  have rest: "st_ok (st_bind (st_lift (\<lambda>f. map_option (Pair ()) (move_buffers ?bufs f))) (\<lambda>_.
      st_update (\<lambda>f. f\<lparr>write_buffer_bytes := 0, write_buffer := lru_clear (write_buffer f)\<rparr>))) f1
    (\<lambda>_ f'. cf_inv contents f' Map.empty D \<and> contents (cb_file (cf_file f')) = D \<and> wmap f' = Map.empty \<and> cext f' Map.empty \<subseteq>\<^sub>m cext f Map.empty) (\<lambda>_ f'. io_failed (cf_file f'))"
    if c1: "coherent (rmap f) Map.empty Map.empty (contents (cb_file (cf_file f1))) D" and f1: "f1 = f\<lparr>cf_file := c\<rparr>" for f1 c
  proof -
    have m: "cf_wf f1" "rmap f1 = rmap f" "wmap f1 = wmap f" using cf_wf_cong[of f1 f] wf f1 by auto
    have R': "\<forall>k bs. rmap f1 k = Some bs \<longrightarrow> ?E k = Some (length bs)" unfolding m(2) using R by blast
    have pend': "\<forall>(off, b) \<in> set ?bufs. \<exists>bs. b = Some bs \<and> ?E off = Some (length bs) \<and> subslice D off (off + length bs) = Some bs"
      using pend by blast
    obtain f2 where
      f2: "move_buffers ?bufs f1 = Some f2" "cf_wf f2" "coherent (rmap f2) Map.empty Map.empty (contents (cb_file (cf_file f1))) D"
        "cf_file f2 = cf_file f1" "\<forall>k bs. rmap f2 k = Some bs \<longrightarrow> ?E k = Some (length bs)" using move_buffers_spec[OF m(1) c1[folded m(2)] E R' pend'] by blast
    let ?f = "f2\<lparr>write_buffer_bytes := 0, write_buffer := lru_clear (write_buffer f2)\<rparr>"
    have m2: "cf_wf ?f" "rmap ?f = rmap f2" "wmap ?f = Map.empty"
      using set_write_buffer[OF f2(2) lru_new_map(4), of ?f] lru_new_map(3) by auto
    have "cext ?f Map.empty \<subseteq>\<^sub>m cext f Map.empty" using f2(5) by (auto simp: cext_def m2 map_le_def ext_def[of "rmap f2"] wext_def[of Map.empty])
    then show ?thesis using m2 f2 coherent_flushed[OF f2(3)]
      by (intro st_ok_step[of _ _ "()" f2]) (simp_all add: st_lift_def cf_inv_def)
  qed
  show ?thesis unfolding flush_write_buffer_def
    by (rule st_ok_bind, unfold st_ok_prim, rule st_ok_bind, rule st_ok_mono[OF flush_writes_spec[OF inv refl]]) (use rest in blast)+
qed

lemma flush_spec:
  assumes inv: "cf_inv contents f Map.empty D"
  shows "st_ok (cf_flush be) f
    (\<lambda>_ f'. cf_inv contents f' Map.empty D \<and> contents (cb_file (cf_file f')) = D \<and> wmap f' = Map.empty \<and> cext f' Map.empty \<subseteq>\<^sub>m cext f Map.empty) (\<lambda>_ f'. io_failed (cf_file f'))"
  unfolding cf_flush_def
proof (rule st_ok_bind, rule st_ok_mono[OF flush_buffer_spec[OF inv]])
  fix f1 assume a: "cf_inv contents f1 Map.empty D \<and> contents (cb_file (cf_file f1)) = D \<and> wmap f1 = Map.empty \<and> cext f1 Map.empty \<subseteq>\<^sub>m cext f Map.empty"
  have keep: "cf_inv contents (f1\<lparr>cf_file := c\<rparr>) Map.empty D \<and> wmap (f1\<lparr>cf_file := c\<rparr>) = Map.empty \<and>
      cext (f1\<lparr>cf_file := c\<rparr>) Map.empty \<subseteq>\<^sub>m cext f Map.empty" if "contents (cb_file c) = D" for c
    using a that cf_wf_cong[of "f1\<lparr>cf_file := c\<rparr>" f1] by (auto simp: cf_inv_def cext_def)
  show "st_ok (on_file (cb_sync_data be)) f1
      (\<lambda>_ f'. cf_inv contents f' Map.empty D \<and> contents (cb_file (cf_file f')) = D \<and> wmap f' = Map.empty \<and> cext f' Map.empty \<subseteq>\<^sub>m cext f Map.empty) (\<lambda>_ f'. io_failed (cf_file f'))"
    by (rule st_ok_mono[OF on_file_ok[OF cb_sync_ok]]) (use a keep in auto)
qed

end

end
