(* ===== verification/Cached_File_Run.thy ===== *)
theory Cached_File_Run
  imports Cached_File_Laws
begin

text \<open>
  Whole runs of the page cache: a client that reads pages, borrows and returns pages for writing and flushes
  sees one array of bytes, and after a flush the storage holds it.
\<close>

subsection \<open>The parts no operation changes\<close>

lemma on_file_keeps [st_keep]: "st_keeps cf_page_size (on_file m)"
  by (auto simp: st_keeps_def on_file_def split: option.splits)

lemma evict_write_keeps [st_keep]: "st_keeps cf_page_size (evict_write be len removed)"
proof -
  have "evict_write be len removed f = Some (r, f') \<Longrightarrow> cf_page_size f' = cf_page_size f" for f r f'
  proof (induction be len removed f rule: evict_write.induct)
    case (1 be len removed f)
    note IH = 1(1)[OF _ sym refl refl _ refl refl]
    from 1(2) show ?case
      by (auto simp: evict_write.simps[of be len removed f] split: if_splits option.splits sum.splits prod.splits bind_splits dest: IH)
  qed
  then show ?thesis by (simp add: st_keeps_def)
qed

lemma cache_page_keeps: "cache_page off len bs f = Some f' \<Longrightarrow> cf_page_size f' = cf_page_size f"
  by (auto simp: cache_page_def Let_def split: bind_splits prod.splits option.splits if_splits)

lemma remove_cached_keeps: "remove_cached off len f = Some (r, f') \<Longrightarrow> cf_page_size f' = cf_page_size f"
  by (auto simp: remove_cached_def Let_def split: bind_splits prod.splits option.splits)

lemma move_buffers_keeps: "move_buffers bufs f = Some f' \<Longrightarrow> cf_page_size f' = cf_page_size f"
proof (induction bufs arbitrary: f)
  case (Cons x bufs)
  from Cons.prems show ?case
    by (cases x) (auto simp: Let_def split: bind_splits if_splits prod.splits option.splits dest!: Cons.IH)
qed simp

lemma cf_read_keeps: "st_keeps cf_page_size (cf_read be off len hint)"
  unfolding cf_read_def read_direct_def
  by (intro st_keep; (split option.split, intro conjI allI impI)?; (intro st_keep)?)
    (auto simp: Let_def st_keep dest: cache_page_keeps split: bind_splits prod.splits option.splits if_splits intro!: st_keep)

lemma cf_write_keeps: "st_keeps cf_page_size (cf_write be off len overwrite)"
  unfolding cf_write_def read_direct_def
  by (auto dest: remove_cached_keeps split: bind_splits prod.splits option.splits intro!: st_keep)

lemma flush_keeps [st_keep]: "st_keeps cf_page_size (flush_write_buffer be)"
  unfolding flush_write_buffer_def
  by (auto simp: st_keeps_def[of _ "\<lambda>_. None"] dest: move_buffers_keeps split: option.splits intro!: st_keep)

lemma cf_flush_keeps: "st_keeps cf_page_size (cf_flush be)"
  unfolding cf_flush_def by (intro st_keep)

subsection \<open>Clients of the cache\<close>

text \<open>
  A client reads a page, or borrows a page with \<open>write\<close>, fills it and returns it by dropping the
  \<open>WritablePage\<close>, or flushes. The specification performs the same operations on one array.
\<close>

datatype PageOp = ReadPage nat nat | WritePage nat bool bytes | WriteBarrier | FlushFile

fun cf_op :: "'s StorageBackend \<Rightarrow> PageOp \<Rightarrow> ('s PagedCachedFile, StorageError, bytes) sem" where
  "cf_op be (ReadPage off len) = cf_read be off len NoHint"
| "cf_op be (WritePage off overwrite data) = st_bind (cf_write be off (length data) overwrite) (\<lambda>old.
     st_bind (st_lift (\<lambda>f. map_option (Pair ()) (writable_page_drop off data f))) (\<lambda>_.
     st_return (if overwrite then [] else old)))"
| "cf_op be WriteBarrier = st_bind (write_barrier be) (\<lambda>_. st_return [])"
| "cf_op be FlushFile = st_bind (cf_flush be) (\<lambda>_. st_return [])"

fun cf_run :: "'s StorageBackend \<Rightarrow> PageOp list \<Rightarrow> ('s PagedCachedFile, StorageError, bytes list) sem" where
  "cf_run be [] = st_return []"
| "cf_run be (x # ops) = st_bind (cf_op be x) (\<lambda>r. st_bind (cf_run be ops) (\<lambda>rs. st_return (r # rs)))"

fun arr_op :: "PageOp \<Rightarrow> bytes \<Rightarrow> (bytes \<times> bytes) option" where
  "arr_op (ReadPage off len) D = map_option (\<lambda>bs. (bs, D)) (subslice D off (off + len))"
| "arr_op (WritePage off overwrite data) D = do {
     old \<leftarrow> subslice D off (off + length data);
     D' \<leftarrow> put_slice D off data;
     Some (if overwrite then [] else old, D') }"
| "arr_op WriteBarrier D = Some ([], D)"
| "arr_op FlushFile D = Some ([], D)"

fun arr_run :: "PageOp list \<Rightarrow> bytes \<Rightarrow> (bytes list \<times> bytes) option" where
  "arr_run [] D = Some ([], D)"
| "arr_run (x # ops) D = do { (r, D1) \<leftarrow> arr_op x D; (rs, D2) \<leftarrow> arr_run ops D1; Some (r # rs, D2) }"

text \<open>The client uses the pages of one partition \<open>E\<close> of an array of \<open>n\<close> bytes, at multiples of the page size.\<close>

definition page_in :: "nat \<Rightarrow> (nat \<rightharpoonup> nat) \<Rightarrow> nat \<Rightarrow> nat \<Rightarrow> nat \<Rightarrow> bool" where
  "page_in ps E n off len \<longleftrightarrow> off mod ps = 0 \<and> E off = Some len \<and> off + len \<le> n"

fun op_in :: "nat \<Rightarrow> (nat \<rightharpoonup> nat) \<Rightarrow> nat \<Rightarrow> PageOp \<Rightarrow> bool" where
  "op_in ps E n (ReadPage off len) = page_in ps E n off len"
| "op_in ps E n (WritePage off overwrite data) = page_in ps E n off (length data)"
| "op_in ps E n WriteBarrier = True"
| "op_in ps E n FlushFile = True"

definition pages_disjoint :: "(nat \<rightharpoonup> nat) \<Rightarrow> bool" where
  "pages_disjoint E \<longleftrightarrow> (\<forall>k n. E k = Some n \<longrightarrow> fits E k n)"

text \<open>Between operations nothing is borrowed and every cached page belongs to the partition.\<close>

definition run_inv :: "('s \<Rightarrow> bytes) \<Rightarrow> nat \<Rightarrow> (nat \<rightharpoonup> nat) \<Rightarrow> 's PagedCachedFile \<Rightarrow> bytes \<Rightarrow> bool" where
  "run_inv contents ps E f D \<longleftrightarrow> cf_inv contents f Map.empty D \<and> cext f Map.empty \<subseteq>\<^sub>m E \<and> cf_page_size f = ps"

lemma cext_fits:
  assumes "pages_disjoint E" "E off = Some len" "cext f B \<subseteq>\<^sub>m E"
  shows "cf_fits f B off len"
proof -
  have "cext f B k = Some n \<Longrightarrow> E k = Some n" for k n using assms(3) by (force simp: map_le_def)
  moreover have "fits E off len" using assms(1,2) by (simp add: pages_disjoint_def)
  ultimately show ?thesis unfolding cf_fits_def cext_def by (metis fits_mono)
qed

lemma cext_upd: "M \<subseteq>\<^sub>m (cext f B)(off \<mapsto> len) \<Longrightarrow> cext f B \<subseteq>\<^sub>m E \<Longrightarrow> E off = Some len \<Longrightarrow> M \<subseteq>\<^sub>m E"
  unfolding map_le_def by (metis domIff fun_upd_apply)

lemma run_inv_new: "run_inv contents ps E (cf_new s ps mr mw) (contents s)"
proof -
  let ?f = "cf_new s ps mr mw"
  have m: "rmap ?f = Map.empty" "wmap ?f = Map.empty"
    by (auto simp: rmap_def wmap_def cf_new_def lru_new_map(1) fun_eq_iff)
  have "cf_wf ?f" by (auto simp: cf_wf_def cf_new_def stripe_ok_def lru_new_map)
  moreover have "coherent Map.empty Map.empty Map.empty (contents s) (contents s)"
    by (rule coherentI) (auto simp: ext_def wext_def)
  ultimately show ?thesis
    by (simp add: run_inv_def cf_inv_def m cext_def ext_def wext_def map_le_def dom_def) (simp add: cf_new_def cb_new_def)
qed

subsection \<open>I/O errors are final\<close>

lemma on_file_stays [st_keep]:
  assumes "io_failed c"
  shows "st_stays (\<lambda>f. cf_file f = c) (on_file (checked m))" "st_fails (\<lambda>f. io_failed (cf_file f)) (on_file (checked m))"
  using checked_failed[OF assms, of m] checked_fails[of m]
  by (auto simp: st_stays_def st_fails_def on_file_def split: option.splits)

lemmas cb_checked = cb_read_def cb_write_def cb_sync_data_def

lemma evict_write_stays [st_keep]:
  assumes "io_failed c"
  shows "st_stays (\<lambda>f. cf_file f = c) (evict_write be len removed)"
proof -
  have "cf_file f' = c" if "cf_file f = c" "evict_write be len removed f = Some (r, f')" for f r f'
    using that(2) that(1)[symmetric] assms
    by (auto simp: evict_write.simps[of be len removed f] cb_write_def checked_failed split: if_splits prod.splits option.splits bind_splits)
  then show ?thesis unfolding st_stays_def by blast
qed

lemma evict_write_fails [st_keep]: "st_fails (\<lambda>f. io_failed (cf_file f)) (evict_write be len removed)"
proof -
  have "evict_write be len removed f = Some (Inl e, f') \<Longrightarrow> io_failed (cf_file f')" for f e f'
  proof (induction be len removed f rule: evict_write.induct)
    case (1 be len removed f)
    note IH = 1(1)[OF _ sym refl refl _ refl refl]
    show ?case
    proof (cases "removed < len \<and> (\<exists>off buf w u c. wc_pop (write_buffer f) = (Some (off, buf), w) \<and>
        cb_write be off buf (cf_file f) = Some (Inr u, c))")
      case True
      then obtain off buf w u c where c: "removed < len" "wc_pop (write_buffer f) = (Some (off, buf), w)"
        "cb_write be off buf (cf_file f) = Some (Inr u, c)" by blast
      show ?thesis by (rule IH[OF c]) (use 1(2) c in \<open>simp add: evict_write.simps[of be len removed f]\<close>)
    next
      case False
      then show ?thesis using 1(2)
        by (auto simp: evict_write.simps[of be len removed f] cb_write_def split: if_splits option.splits sum.splits prod.splits bind_splits
          dest: checked_fails)
    qed
  qed
  then show ?thesis by (simp add: st_fails_def)
qed

lemma cached_file_parts:
  "cache_page off len bs f = Some f' \<Longrightarrow> cf_file f' = cf_file f"
  "remove_cached off len f = Some (r, f') \<Longrightarrow> cf_file f' = cf_file f"
  "writable_page_drop off bs f = Some f' \<Longrightarrow> cf_file f' = cf_file f"
  by (auto simp: cache_page_def remove_cached_def writable_page_drop_def Let_def split: bind_splits prod.splits option.splits if_splits)

lemma move_buffers_file: "move_buffers bufs f = Some f' \<Longrightarrow> cf_file f' = cf_file f"
proof (induction bufs arbitrary: f)
  case (Cons x bufs)
  from Cons.prems show ?case
    by (cases x) (auto simp: Let_def split: bind_splits if_splits prod.splits option.splits dest!: Cons.IH)
qed simp

lemma panic_stays [st_keep]: "st_stays P (\<lambda>_. None)" "st_fails P (\<lambda>_. None)"
  by (simp_all add: st_stays_def st_fails_def)

lemma flush_stays [st_keep]:
  assumes "io_failed c"
  shows "st_stays (\<lambda>f. cf_file f = c) (flush_write_buffer be)" "st_stays (\<lambda>f. cf_file f = c) (cf_flush be)"
    "st_fails (\<lambda>f. io_failed (cf_file f)) (flush_write_buffer be)" "st_fails (\<lambda>f. io_failed (cf_file f)) (cf_flush be)"
  unfolding flush_write_buffer_def cf_flush_def cb_checked using assms
  by (auto dest: move_buffers_file split: option.splits intro!: st_keep)

lemma cf_op_stays [st_keep]:
  assumes "io_failed c"
  shows "st_stays (\<lambda>f. cf_file f = c) (cf_op be x)" "st_fails (\<lambda>f. io_failed (cf_file f)) (cf_op be x)"
  unfolding cf_read_def read_direct_def cf_write_def write_barrier_def cb_checked using assms
  by (cases x; auto simp: cf_read_def read_direct_def cf_write_def write_barrier_def cb_checked Let_def dest: cached_file_parts split: bind_splits prod.splits option.splits intro!: st_keep)+

lemma cf_run_stays:
  assumes "io_failed c"
  shows "st_stays (\<lambda>f. cf_file f = c) (cf_run be ops)" "st_fails (\<lambda>f. io_failed (cf_file f)) (cf_run be ops)"
  using assms by (induction ops) (auto intro!: st_keep)

lemma flush_failed:
  assumes "io_failed (cf_file f)" "cf_flush be f = Some (r, f')"
  shows "\<exists>e. r = Inl e"
proof -
  obtain r1 f1 where f1: "flush_write_buffer be f = Some (r1, f1)"
    using assms(2) by (cases "flush_write_buffer be f") (auto simp: cf_flush_def st_bind_def)
  have "cf_file f1 = cf_file f" using flush_stays(1)[OF assms(1)] f1 unfolding st_stays_def by blast
  then show ?thesis using assms f1 checked_failed[of "cf_file f" "be_sync_data be"]
    by (cases r1) (auto simp: cf_flush_def st_bind_def on_file_def cb_sync_data_def)
qed

context storage_backend
begin

lemma op_read:
  assumes E: "pages_disjoint E" and inv: "run_inv contents ps E f D" and op: "page_in ps E (length D) off len"
  shows "st_ok (cf_read be off len NoHint) f
    (\<lambda>bs f'. subslice D off (off + len) = Some bs \<and> run_inv contents ps E f' D) (\<lambda>_ f'. io_failed (cf_file f'))"
proof -
  have i: "cf_inv contents f Map.empty D" "cext f Map.empty \<subseteq>\<^sub>m E" "off mod cf_page_size f = 0" "off + len \<le> length D" "E off = Some len"
    using inv op by (simp_all add: run_inv_def page_in_def)
  show ?thesis
    by (rule st_ok_mono[OF st_keepsD[OF cf_read_keeps read_spec[OF i(1,3,4) cext_fits[OF E i(5,2)]]]])
      (use inv cext_upd[OF _ i(2,5)] in \<open>auto simp: run_inv_def\<close>)
qed

lemma op_write:
  assumes E: "pages_disjoint E" and inv: "run_inv contents ps E f D" and op: "page_in ps E (length D) off (length data)"
  shows "st_ok (cf_op be (WritePage off overwrite data)) f
    (\<lambda>r f'. \<exists>D'. arr_op (WritePage off overwrite data) D = Some (r, D') \<and> run_inv contents ps E f' D') (\<lambda>_ f'. io_failed (cf_file f'))"
  unfolding cf_op.simps
proof (rule st_ok_bind)
  have i: "cf_inv contents f Map.empty D" "cext f Map.empty \<subseteq>\<^sub>m E" "off mod cf_page_size f = 0" "off + length data \<le> length D"
    "E off = Some (length data)" using inv op by (simp_all add: run_inv_def page_in_def)
  have w: "st_ok (cf_write be off (length data) overwrite) f
    (\<lambda>old f1. (length old = length data \<and> (\<not> overwrite \<longrightarrow> subslice D off (off + length data) = Some old) \<and>
       cf_inv contents f1 [off \<mapsto> length data] D \<and> cext f1 [off \<mapsto> length data] \<subseteq>\<^sub>m (cext f Map.empty)(off \<mapsto> length data)) \<and>
       cf_page_size f1 = cf_page_size f) (\<lambda>_ f'. io_failed (cf_file f'))"
    by (rule st_keepsD[OF cf_write_keeps write_spec[OF i(1,3,4) cext_fits[OF E i(5,2)]]]) simp
  show "st_ok (cf_write be off (length data) overwrite) f (\<lambda>old f1. st_ok (st_bind (st_lift (\<lambda>f. map_option (Pair ())
        (writable_page_drop off data f))) (\<lambda>_. st_return (if overwrite then [] else old))) f1
      (\<lambda>r f'. \<exists>D'. arr_op (WritePage off overwrite data) D = Some (r, D') \<and> run_inv contents ps E f' D')
      (\<lambda>_ f'. io_failed (cf_file f'))) (\<lambda>_ f'. io_failed (cf_file f'))"
  proof (rule st_ok_mono[OF w], goal_cases)
    case (1 old f1)
    then have old: "\<not> overwrite \<longrightarrow> subslice D off (off + length data) = Some old"
      and f1: "cf_inv contents f1 [off \<mapsto> length data] D" "cf_page_size f1 = ps" and e1: "cext f1 [off \<mapsto> length data] \<subseteq>\<^sub>m E"
      using cext_upd[OF _ i(2,5)] inv by (auto simp: run_inv_def)
    from drop_spec[OF f1(1), of off data] obtain f2 D' where d: "writable_page_drop off data f1 = Some f2" "put_slice D off data = Some D'"
      "cf_inv contents f2 Map.empty D'" "cext f2 Map.empty = cext f1 [off \<mapsto> length data]" "cf_page_size f2 = cf_page_size f1" by auto
    obtain old' where "subslice D off (off + length data) = Some old'" using i(4) by (cases "subslice D off (off + length data)") (auto simp: subslice_def)
    then have "arr_op (WritePage off overwrite data) D = Some (if overwrite then [] else old, D')" using d(2) old by auto
    then show ?case using d f1(2) e1 by (intro st_ok_step[of _ _ "()" f2]) (simp_all add: st_lift_def run_inv_def)
  qed
qed

lemma op_flush:
  assumes inv: "run_inv contents ps E f D" and m: "m = flush_write_buffer be \<or> m = cf_flush be"
  shows "st_ok m f (\<lambda>_ f'. run_inv contents ps E f' D \<and> contents (cb_file (cf_file f')) = D) (\<lambda>_ f'. io_failed (cf_file f'))"
proof -
  have i: "cf_inv contents f Map.empty D" "cext f Map.empty \<subseteq>\<^sub>m E" "cf_page_size f = ps" using inv by (simp_all add: run_inv_def)
  have "st_ok m f (\<lambda>_ f'. (cf_inv contents f' Map.empty D \<and> contents (cb_file (cf_file f')) = D \<and> wmap f' = Map.empty \<and>
      cext f' Map.empty \<subseteq>\<^sub>m cext f Map.empty) \<and> cf_page_size f' = cf_page_size f) (\<lambda>_ f'. io_failed (cf_file f'))"
    using m st_keepsD[OF flush_keeps flush_buffer_spec[OF i(1)]] st_keepsD[OF cf_flush_keeps flush_spec[OF i(1)]] by blast
  then show ?thesis by (rule st_ok_mono) (use i map_le_trans[OF _ i(2)] in \<open>auto simp: run_inv_def\<close>)
qed

lemma op_spec:
  assumes E: "pages_disjoint E" and inv: "run_inv contents ps E f D" and op: "op_in ps E (length D) x"
  shows "st_ok (cf_op be x) f (\<lambda>r f'. \<exists>D'. arr_op x D = Some (r, D') \<and> run_inv contents ps E f' D') (\<lambda>_ f'. io_failed (cf_file f'))"
proof (cases x)
  case (ReadPage off len)
  then show ?thesis using op_read[OF E inv, of off len] op by (auto elim: st_ok_mono)
next
  case (WritePage off overwrite data)
  then show ?thesis using op_write[OF E inv] op by auto
next
  case WriteBarrier
  show ?thesis unfolding WriteBarrier cf_op.simps write_barrier_def
    by (rule st_ok_bind, rule st_ok_mono[OF op_flush[OF inv]]) auto
next
  case FlushFile
  show ?thesis unfolding FlushFile cf_op.simps by (rule st_ok_bind, rule st_ok_mono[OF op_flush[OF inv]]) auto
qed

lemma arr_op_length: "arr_op x D = Some (r, D') \<Longrightarrow> length D' = length D"
  by (cases x) (auto simp: put_slice_length split: bind_splits)

lemma run_spec:
  assumes "pages_disjoint E" "run_inv contents ps E f D" "list_all (op_in ps E (length D)) ops"
  shows "st_ok (cf_run be ops) f (\<lambda>rs f'. \<exists>D'. arr_run ops D = Some (rs, D') \<and> run_inv contents ps E f' D') (\<lambda>_ f'. io_failed (cf_file f'))"
  using assms(2,3)
proof (induction ops arbitrary: f D)
  case (Cons x ops)
  have op: "op_in ps E (length D) x" and rest: "list_all (op_in ps E (length D)) ops" using Cons.prems by auto
  show ?case unfolding cf_run.simps
  proof (rule st_ok_bind, rule st_ok_mono[OF op_spec[OF assms(1) Cons.prems(1) op]], goal_cases)
    case (1 r f1)
    then obtain D1 where D1: "arr_op x D = Some (r, D1)" "run_inv contents ps E f1 D1" by blast
    have "list_all (op_in ps E (length D1)) ops" using rest arr_op_length[OF D1(1)] by simp
    note ih = Cons.IH[OF D1(2) this]
    show ?case by (rule st_ok_bind, rule st_ok_mono[OF ih]) (use D1(1) in auto)
  qed
qed simp

lemma run_flush_spec:
  assumes "pages_disjoint E" "list_all (op_in ps E (length (contents s))) ops"
  shows "st_ok (st_bind (cf_run be ops) (\<lambda>rs. st_bind (cf_flush be) (\<lambda>_. st_return rs))) (cf_new s ps mr mw)
    (\<lambda>rs f'. arr_run ops (contents s) = Some (rs, contents (cb_file (cf_file f')))) (\<lambda>_ f'. io_failed (cf_file f'))"
proof (rule st_ok_bind, rule st_ok_mono[OF run_spec[OF assms(1) run_inv_new assms(2)]], goal_cases)
  case (1 rs f1)
  then obtain D where D: "arr_run ops (contents s) = Some (rs, D)" "run_inv contents ps E f1 D" by blast
  show ?case by (rule st_ok_bind, rule st_ok_mono[OF op_flush[OF D(2)]]) (use D(1) in auto)
qed simp

end

text \<open>
  C4. Over any storage that keeps the backend contract, a client of a fresh page cache that reads and writes pages
  of one partition never panics, whatever the cache sizes and whatever pages they make it evict: either every read
  returned what the same operations on one array of bytes return and after the final flush the storage holds exactly
  that array, or an I/O error was reported and the backend is marked as failed.
\<close>

theorem cached_file_refines_array:
  assumes "storage_backend be contents" "pages_disjoint E" "list_all (op_in ps E (length (contents s))) ops"
  shows "st_ok (st_bind (cf_run be ops) (\<lambda>rs. st_bind (cf_flush be) (\<lambda>_. st_return rs))) (cf_new s ps mr mw)
    (\<lambda>rs f'. arr_run ops (contents s) = Some (rs, contents (cb_file (cf_file f')))) (\<lambda>_ f'. io_failed (cf_file f'))"
  by (rule storage_backend.run_flush_spec[OF assms])

theorem cached_file_refines_array_witness:
  "st_ok (st_bind (cf_run mem_backend [WritePage 4 True [1, 2, 3, 4, 5, 6, 7, 8], ReadPage 0 4, WritePage 0 False [9, 9, 9, 9], ReadPage 4 8])
      (\<lambda>rs. st_bind (cf_flush mem_backend) (\<lambda>_. st_return rs))) (cf_new (replicate 12 0) 4 4 4)
    (\<lambda>rs f'. arr_run [WritePage 4 True [1, 2, 3, 4, 5, 6, 7, 8], ReadPage 0 4, WritePage 0 False [9, 9, 9, 9], ReadPage 4 8] (replicate 12 0) =
      Some (rs, cb_file (cf_file f'))) (\<lambda>_ f'. io_failed (cf_file f'))"
proof (rule cached_file_refines_array[OF mem.storage_backend_axioms, where E = "[0 \<mapsto> 4, 4 \<mapsto> 8]"])
  show "pages_disjoint [0 \<mapsto> 4, 4 \<mapsto> 8]" by (auto simp: pages_disjoint_def fits_def)
qed (simp add: page_in_def)

text \<open>
  C28. An I/O error is final. When a run of cache operations stops with an error, the backend is marked as
  failed, no later run touches the storage again, and no later flush reports success.
\<close>

theorem io_error_is_final:
  assumes "cf_run be ops f = Some (Inl e, f')"
  shows "io_failed (cf_file f') \<and>
    (\<forall>ops' r f''. cf_run be ops' f' = Some (r, f'') \<longrightarrow> cf_file f'' = cf_file f') \<and>
    (\<forall>ops' r f'' r' f3. cf_run be ops' f' = Some (r, f'') \<longrightarrow> cf_flush be f'' = Some (r', f3) \<longrightarrow> (\<exists>e'. r' = Inl e'))"
proof -
  have io: "io_failed (cf_file f')"
    using cf_run_stays(2)[of "\<lparr>cb_file = undefined, io_failed = True, closed = True\<rparr>" be ops] assms by (simp add: st_fails_def)
  have run: "cf_file f'' = cf_file f'" if "cf_run be ops' f' = Some (r, f'')" for ops' r f''
    using cf_run_stays(1)[OF io, of be ops'] that unfolding st_stays_def by blast
  show ?thesis using io run flush_failed by metis
qed

theorem io_error_is_final_witness:
  "\<exists>f'. cf_run mem_backend [ReadPage 4 4] (cf_new [0, 0, 0] 4 9 9) = Some (Inl (StorageError.Io out_of_range), f') \<and>
     (\<forall>r f''. cf_flush mem_backend f' = Some (r, f'') \<longrightarrow> (\<exists>e. r = Inl e))"
proof -
  have "\<exists>f'. cf_run mem_backend [ReadPage 4 4] (cf_new [0, 0, 0] 4 9 9) = Some (Inl (StorageError.Io out_of_range), f')"
    by (simp add: cf_read_def st_bind_def st_assert_def st_lift_def cf_new_def wc_get_def lru_get_def lru_new_def lock_stripes_def
      cb_new_def read_direct_def on_file_def cb_read_def checked_def check_failure_def mem_backend_def mem_read_def subslice_def
      storage_from_io_def st_return_def Let_def)
  then obtain f' where f': "cf_run mem_backend [ReadPage 4 4] (cf_new [0, 0, 0] 4 9 9) = Some (Inl (StorageError.Io out_of_range), f')"
    by blast
  have "cf_run mem_backend [] f' = Some (Inr [], f')" by (simp add: st_return_def)
  then show ?thesis using io_error_is_final[OF f'] f' by blast
qed

end
