(* ===== verification/Cached_File_Resize.thy ===== *)
theory Cached_File_Resize
  imports Cached_File_Run
begin

text \<open>
  The operations of the page cache that forget pages: invalidation of one page or of the whole read cache, the
  cancellation of a pending write, and resizing the file.
\<close>

lemma subslice_append: "b \<le> length xs \<Longrightarrow> subslice (xs @ ys) a b = subslice xs a b"
  by (simp add: subslice_def)

lemma subslice_take: "b \<le> n \<Longrightarrow> b \<le> length xs \<Longrightarrow> subslice (take n xs) a b = subslice xs a b"
  by (auto simp: subslice_def drop_take min_def)

definition resized :: "nat \<Rightarrow> bytes \<Rightarrow> bytes" where
  "resized n xs = take n xs @ replicate (n - length xs) 0"

lemma length_resized [simp]: "length (resized n xs) = n"
  by (simp add: resized_def)

lemma subslice_resized: "b \<le> n \<Longrightarrow> b \<le> length xs \<Longrightarrow> subslice (resized n xs) a b = subslice xs a b"
  unfolding resized_def by (simp add: subslice_append subslice_take)

lemma nth_resized: "i < n \<Longrightarrow> resized n xs ! i = (if i < length xs then xs ! i else 0)"
  by (simp add: resized_def nth_append)

lemma coherent_resize:
  assumes coh: "coherent R W B F D" and fit: "\<And>k m. wext W B k = Some m \<Longrightarrow> k + m \<le> n"
  shows "coherent Map.empty W B (resized n F) (resized n D)"
proof (rule coherentI)
  note c = coherentD[OF coh]
  have e: "ext Map.empty W B k = Some m \<Longrightarrow> ext R W B k = Some m" for k m by (auto simp: ext_def split: option.splits)
  show "ext Map.empty W B k = Some m \<Longrightarrow> fits (ext Map.empty W B) k m" for k m
    using fits_mono[OF c(7)[OF e] e] .
  show "subslice (resized n D) k (k + length bs) = Some bs" if "W k = Some (Some bs)" for k bs
  proof -
    have "k + length bs \<le> n" "k + length bs \<le> length D"
      using c(2)[OF that] fit[of k "length bs"] that by (auto simp: subslice_eq_Some_iff wext_def)
    then show ?thesis using c(2)[OF that] by (simp add: subslice_resized)
  qed
  show "k + m \<le> length (resized n D)" if "B k = Some m" for k m
    using fit[of k m] c(3)[of k] that by (auto simp: wext_def)
  show "\<exists>k m. wext W B k = Some m \<and> k \<le> i \<and> i < k + m" if "i < length (resized n D)" "resized n D ! i \<noteq> resized n F ! i" for i
    using that c(1) c(6)[of i] by (auto simp: nth_resized split: if_splits)
  show "W k = Some None \<longleftrightarrow> k \<in> dom B" for k by (rule c(3))
qed simp_all

text \<open>Draining the stripes one by one.\<close>

lemma drain_slot_spec:
  assumes "cf_wf f" "i < lock_stripes"
  shows "\<exists>f'. drain_slot i f = Some f' \<and> cf_wf f' \<and> rmap f' = (\<lambda>k. if k mod lock_stripes = i then None else rmap f k) \<and>
    wmap f' = wmap f \<and> cf_file f' = cf_file f \<and> cf_page_size f' = cf_page_size f"
proof -
  obtain c n where d: "drain_cache (read_cache f ! i) (read_cache_bytes f) = (c, n)" by fastforce
  have "lru_ok (read_cache f ! i)" using assms by (auto simp: cf_wf_def stripe_ok_def)
  note dc = drain_cache_spec[OF this d]
  let ?f = "f\<lparr>read_cache := (read_cache f)[i := c], read_cache_bytes := n\<rparr>"
  have "drain_slot i f = Some ?f" using assms d by (simp add: drain_slot_def cf_wf_def)
  moreover have "stripe_ok i c" using dc by (simp add: stripe_ok_def)
  note set_stripe[OF assms this, of ?f]
  ultimately show ?thesis using dc by (auto simp: fun_eq_iff)
qed

lemma drain_all_spec:
  assumes "cf_wf f" "n \<le> lock_stripes"
  shows "\<exists>f'. fold_opt drain_slot [0..<n] f = Some f' \<and> cf_wf f' \<and> rmap f' = (\<lambda>k. if k mod lock_stripes < n then None else rmap f k) \<and>
    wmap f' = wmap f \<and> cf_file f' = cf_file f \<and> cf_page_size f' = cf_page_size f"
  using assms(2)
proof (induction n)
  case (Suc n)
  then obtain f1 where f1: "fold_opt drain_slot [0..<n] f = Some f1" "cf_wf f1" "rmap f1 = (\<lambda>k. if k mod lock_stripes < n then None else rmap f k)"
    "wmap f1 = wmap f" "cf_file f1 = cf_file f" "cf_page_size f1 = cf_page_size f" by auto
  obtain f2 where f2: "drain_slot n f1 = Some f2" "cf_wf f2" "rmap f2 = (\<lambda>k. if k mod lock_stripes = n then None else rmap f1 k)"
    "wmap f2 = wmap f1" "cf_file f2 = cf_file f1" "cf_page_size f2 = cf_page_size f1"
    using drain_slot_spec[OF f1(2), of n] Suc.prems by auto
  have "fold_opt drain_slot [0..<Suc n] f = Some f2" using f1(1) f2(1) by (simp add: fold_opt_append)
  then show ?case using f1 f2 by (auto simp: fun_eq_iff less_Suc_eq)
qed (use assms(1) in simp)

lemma invalidate_all_spec:
  assumes "cf_wf f"
  shows "\<exists>f'. invalidate_cache_all f = Some (Inr (), f') \<and> cf_wf f' \<and> rmap f' = Map.empty \<and>
    wmap f' = wmap f \<and> cf_file f' = cf_file f \<and> cf_page_size f' = cf_page_size f"
proof -
  have "length (read_cache f) = lock_stripes" using assms by (simp add: cf_wf_def)
  with drain_all_spec[OF assms order_refl] show ?thesis
    by (auto simp: invalidate_cache_all_def st_lift_def fun_eq_iff)
qed

context storage_backend
begin

lemma resize_spec:
  assumes inv: "cf_inv contents f B D" and fit: "\<And>k m. cext f B k = Some m \<Longrightarrow> wmap f k \<noteq> None \<Longrightarrow> k + m \<le> n"
  shows "st_ok (cf_resize be n) f
    (\<lambda>_ f'. cf_inv contents f' B (resized n D) \<and> rmap f' = Map.empty \<and> wmap f' = wmap f \<and> cf_page_size f' = cf_page_size f \<and>
       (contents (cb_file (cf_file f)) = D \<longrightarrow> contents (cb_file (cf_file f')) = resized n D))
    (\<lambda>_ f'. io_failed (cf_file f'))"
proof -
  let ?F = "contents (cb_file (cf_file f))"
  have wf: "cf_wf f" and coh: "coherent (rmap f) (wmap f) B ?F D" using inv by (simp_all add: cf_inv_def)
  obtain f1 where f1: "invalidate_cache_all f = Some (Inr () :: StorageError + unit, f1)" "cf_wf f1" "rmap f1 = Map.empty"
    "wmap f1 = wmap f" "cf_file f1 = cf_file f" "cf_page_size f1 = cf_page_size f" using invalidate_all_spec[OF wf] by blast
  have "k + m \<le> n" if "wext (wmap f) B k = Some m" for k m
    using that by (intro fit) (auto simp: cext_def ext_def wext_def split: option.splits)
  then have coh': "coherent Map.empty (wmap f) B (resized n ?F) (resized n D)" by (rule coherent_resize[OF coh])
  have keep: "cf_inv contents (f1\<lparr>cf_file := c\<rparr>) B (resized n D) \<and> rmap (f1\<lparr>cf_file := c\<rparr>) = Map.empty \<and> wmap (f1\<lparr>cf_file := c\<rparr>) = wmap f"
    if "contents (cb_file c) = resized n ?F" for c
    using that coh' f1 cf_wf_cong[of "f1\<lparr>cf_file := c\<rparr>" f1] by (simp add: cf_inv_def)
  show ?thesis unfolding cf_resize_def
    by (rule st_ok_step, rule f1(1), rule st_ok_mono[OF on_file_ok[OF cb_set_len_ok]])
      (use keep f1(5,6) in \<open>auto simp: resized_def\<close>)
qed

text \<open>A freed page leaves both caches; its contents fall back to what the storage holds.\<close>

lemma forget_spec:
  assumes inv: "cf_inv contents f B D" and pre: "off mod cf_page_size f = 0" "off \<notin> dom B" "cf_fits f B off len" "off + len \<le> length D"
  obtains f1 f2 old D' where "invalidate_cache off len f = Some f1" "cancel_pending_write off f1 = Some f2" "length old = len"
    "put_slice D off old = Some D'" "cf_inv contents f2 B D'" "cext f2 B = (cext f B)(off := None)" "cf_page_size f2 = cf_page_size f"
proof -
  let ?F = "contents (cb_file (cf_file f))"
  have wf: "cf_wf f" and coh: "coherent (rmap f) (wmap f) B ?F D" using inv by (simp_all add: cf_inv_def)
  have fit: "fits (ext (rmap f) (wmap f) B) off len" using pre(3) by (simp add: cf_fits_def)
  have rl: "\<forall>bs. rmap f off = Some bs \<longrightarrow> length bs = len" using coherentD(5)[OF coh] ext_len(2)[OF fit] by blast
  obtain f1 where f1: "remove_cached off len f = Some (rmap f off, f1)" "cf_wf f1" "coherent (rmap f1) (wmap f1) B ?F D"
    "cf_file f1 = cf_file f" "wmap f1 = wmap f" "rmap f1 = (rmap f)(off := None)" "cf_page_size f1 = cf_page_size f"
    using remove_cached_spec[OF wf coh rl] by blast
  have wn: "wmap f off \<noteq> Some None" using coherentD(3)[OF coh] pre(2) by auto
  have "lru_ok (write_buffer f1)" using f1(2) by (simp add: cf_wf_def)
  from wc_remove_spec[OF this, of off] wn f1(5) obtain w where
    w: "wc_remove off (write_buffer f1) = Some (case wmap f off of Some x \<Rightarrow> x | None \<Rightarrow> None, w)" "lru_ok w"
      "lru_map w = (wmap f)(off := None)" by (auto simp: wmap_def)
  obtain f2 where f2: "cancel_pending_write off f1 = Some f2" "read_cache f2 = read_cache f1" "write_buffer f2 = w" "cf_file f2 = cf_file f1"
    "cf_page_size f2 = cf_page_size f1"
    using w(1) pre(1) wn f1(7) by (cases "wmap f off") (auto simp: cancel_pending_write_def split: option.splits)
  note m = set_write_buffer[OF f1(2) w(2) f2(2,3)]
  have e: "cext f2 B = (cext f B)(off := None)"
    unfolding cext_def m(2,3) f1(5,6) w(3) by (auto simp: ext_def wext_def fun_eq_iff cong: option.case_cong)
  have i1: "invalidate_cache off len f = Some f1" using f1(1) by (simp add: invalidate_cache_def)
  show thesis
  proof (cases "wmap f off")
    case None
    then have "(wmap f)(off := None) = wmap f" by (simp add: fun_upd_idem)
    then have inv': "cf_inv contents f2 B D" using m w(3) f1 f2(4) by (simp add: cf_inv_def)
    have "put_slice D off (take len (drop off D)) = Some D" using pre(4)
      by (auto simp: put_slice_def min_def) (metis append_take_drop_id drop_drop add.commute)
    then show ?thesis using that[OF i1 f2(1) _ _ inv' e, of "take len (drop off D)"] pre(4) f2(5) f1(7) by simp
  next
    case (Some x)
    then obtain bs where bs: "wmap f off = Some (Some bs)" using wn by (cases x) auto
    let ?old = "take (length bs) (drop off ?F)"
    have l: "length bs = len" by (rule ext_len(1)[OF fit bs])
    have old: "length ?old = len" using pre(4) coherentD(1)[OF coh] l by simp
    obtain D' where D': "put_slice D off ?old = Some D'" using put_slice_defined[of off ?old D] old pre(4) by auto
    have "cf_inv contents f2 B D'" using coherent_cancel[OF f1(3) _ D'] bs m w(3) f1(4,5) f2(4) by (simp add: cf_inv_def)
    then show ?thesis using that[OF i1 f2(1) old D' _ e] f2(5) f1(7) by simp
  qed
qed

end

end
