(* ===== verification/Page_Manager_Laws.thy ===== *)
theory Page_Manager_Laws
  imports Page_Alloc_Laws Cached_File_Resize
begin

text \<open>
  The page manager over its storage. The invariant \<open>tm_inv\<close> relates the allocators, the cache and the storage to one
  array of bytes in which every allocated page has its own range; the laws say what each operation does to the
  contents of the pages.
\<close>

subsection \<open>Extents\<close>

definition exts_ok :: "(nat \<times> nat) set \<Rightarrow> bool" where
  "exts_ok X \<longleftrightarrow> (\<forall>j m k n. (j, m) \<in> X \<and> (k, n) \<in> X \<longrightarrow> 0 < m \<and> (j = k \<and> m = n \<or> j + m \<le> k \<or> k + n \<le> j))"

definition ext_map :: "(nat \<times> nat) set \<Rightarrow> nat \<rightharpoonup> nat" where
  "ext_map X k = (if \<exists>n. (k, n) \<in> X then Some (THE n. (k, n) \<in> X) else None)"

lemma exts_okD: "exts_ok X \<Longrightarrow> (j, m) \<in> X \<Longrightarrow> (k, n) \<in> X \<Longrightarrow> 0 < m \<and> (j = k \<and> m = n \<or> j + m \<le> k \<or> k + n \<le> j)"
  unfolding exts_ok_def by blast

lemma exts_ok_sub: "exts_ok Y \<Longrightarrow> X \<subseteq> Y \<Longrightarrow> exts_ok X"
  unfolding exts_ok_def by blast

lemma ext_map_iff:
  assumes "exts_ok X"
  shows "ext_map X k = Some n \<longleftrightarrow> (k, n) \<in> X"
proof -
  have "m = n" if "(k, m) \<in> X" "(k, n) \<in> X" for m n using exts_okD[OF assms that] exts_okD[OF assms that(2,1)] by auto
  then have "(THE n. (k, n) \<in> X) = n" if "(k, n) \<in> X" for n using that by (intro the_equality) auto
  then show ?thesis by (auto simp: ext_map_def)
qed

lemma ext_map_dom: "k \<in> dom (ext_map X) \<longleftrightarrow> (\<exists>n. (k, n) \<in> X)"
  by (simp add: ext_map_def dom_def)

lemma ext_map_disjoint: "exts_ok X \<Longrightarrow> pages_disjoint (ext_map X)"
proof -
  assume X: "exts_ok X"
  have "(k = off \<longrightarrow> n = len) \<and> (k \<noteq> off \<longrightarrow> k + n \<le> off \<or> off + len \<le> k)" if "(off, len) \<in> X" "(k, n) \<in> X" for off len k n
    using exts_okD[OF X that] exts_okD[OF X that(2,1)] by auto
  then show ?thesis unfolding pages_disjoint_def fits_def ext_map_iff[OF X] by blast
qed

lemma ext_map_mono: "exts_ok Y \<Longrightarrow> X \<subseteq> Y \<Longrightarrow> ext_map X \<subseteq>\<^sub>m ext_map Y"
  unfolding map_le_def using exts_ok_sub[of Y X] by (auto simp: ext_map_iff dom_def) (metis ext_map_iff subsetD)

lemma ext_map_eqI: "exts_ok X \<Longrightarrow> (\<And>k n. (k, n) \<in> X \<longleftrightarrow> M k = Some n) \<Longrightarrow> ext_map X = M"
  by (metis (no_types, lifting) ext ext_map_iff not_Some_eq)

lemma ext_map_insert:
  assumes "exts_ok (insert (k, n) X)"
  shows "ext_map (insert (k, n) X) = (ext_map X)(k \<mapsto> n)"
proof (rule ext_map_eqI[OF assms])
  have X: "exts_ok X" using assms by (rule exts_ok_sub) auto
  fix j m
  have "m = n" if "(k, m) \<in> X" using exts_okD[OF assms, of k m k n] exts_okD[OF assms, of k n k m] that by auto
  then show "(j, m) \<in> insert (k, n) X \<longleftrightarrow> ((ext_map X)(k \<mapsto> n)) j = Some m" by (auto simp: ext_map_iff[OF X])
qed

lemma ext_map_remove:
  assumes "exts_ok X" "(k, n) \<in> X"
  shows "ext_map (X - {(k, n)}) = (ext_map X)(k := None)"
proof (rule ext_map_eqI)
  show "exts_ok (X - {(k, n)})" using assms(1) by (rule exts_ok_sub) auto
  fix j m
  have "m = n" if "(k, m) \<in> X" using exts_okD[OF assms(1) that assms(2)] exts_okD[OF assms(1,2) that] by auto
  then show "(j, m) \<in> X - {(k, n)} \<longleftrightarrow> ((ext_map X)(k := None)) j = Some m" by (auto simp: ext_map_iff[OF assms(1)])
qed

subsection \<open>The ranges of the allocated pages\<close>

definition page_exts :: "DatabaseLayout \<Rightarrow> PageNumber set \<Rightarrow> (nat \<times> nat) set" where
  "page_exts l P = {(a, b - a) |a b. \<exists>p \<in> P. page_address l p = Some (a, b)}"

text \<open>The header occupies the start of the file.\<close>

definition all_exts :: "DatabaseLayout \<Rightarrow> PageNumber set \<Rightarrow> (nat \<times> nat) set" where
  "all_exts l P = insert (0, DB_HEADER_SIZE) (page_exts l P)"

lemma header_size: "DB_HEADER_SIZE = 336"
  by (simp add: header_offsets)

lemma page_exts_insert: "page_address l p = Some (a, b) \<Longrightarrow> page_exts l (insert p P) = insert (a, b - a) (page_exts l P)"
  unfolding page_exts_def by auto

lemma page_exts_mono: "P \<subseteq> Q \<Longrightarrow> page_exts l P \<subseteq> page_exts l Q"
  unfolding page_exts_def by blast

lemma page_address_cong: "full_region_layout l = full_region_layout l' \<Longrightarrow> page_address l p = page_address l' p"
  by (simp add: page_address_def)

lemma page_exts_cong: "full_region_layout l = full_region_layout l' \<Longrightarrow> page_exts l P = page_exts l' P"
  by (simp add: page_exts_def page_address_cong[of l l'])

lemma interval_le: "{a..<b} \<subseteq> {..<c} \<Longrightarrow> a < b \<Longrightarrow> b \<le> (c :: nat)"
  using subsetD[of "{a..<b}" "{..<c}" "b - 1"] by (cases b) auto

lemma state_pages:
  assumes ok: "state_ok l P st"
  shows "p \<in> P \<Longrightarrow> page_in_layout l p"
    and "p \<in> P \<Longrightarrow> q \<in> P \<Longrightarrow> p \<noteq> q \<Longrightarrow> region p = region q \<Longrightarrow> blk (page_index p) (page_order p) \<inter> blk (page_index q) (page_order q) = {}"
proof -
  let ?al = "im_allocators st"
  obtain h k N where D: "layout_ok h (2 ^ k) (page_size (im_header st)) l" "k \<le> MAX_MAX_PAGE_ORDER" "rl_num_pages (full_region_layout l) = 2 ^ k"
    "length (region_allocators ?al) = num_regions l" "al_inv (2 ^ k) ?al (page_blocks P)"
    "rt_ok N (region_tracker ?al)" "num_regions l \<le> N" "N \<le> MAX_REGIONS"
    "\<And>n. rt_free (region_tracker ?al) n \<subseteq> {..<num_regions l}"
    "\<And>m n. m \<le> n \<Longrightarrow> rt_free (region_tracker ?al) n \<subseteq> rt_free (region_tracker ?al) m"
    "\<And>i. i < num_regions l \<Longrightarrow> history_inv (2 ^ k) (region_allocators ?al ! i) (page_blocks P i)"
    "\<And>i. i < num_regions l \<Longrightarrow> ba_len (region_allocators ?al ! i) = region_pages l i"
    by (rule state_okD[OF ok]) (rule that; assumption)
  have in_r: "(page_index p, page_order p) \<in> page_blocks P (region p)" if "p \<in> P" for p using that by (auto simp: page_blocks_def)
  have r: "region p < num_regions l" if "p \<in> P" for p
  proof (rule ccontr)
    assume "\<not> region p < num_regions l"
    then have "page_blocks P (region p) = {}" using D(4,5) by (simp add: al_inv_def)
    then show False using in_r[OF that] by simp
  qed
  show "page_in_layout l p" if "p \<in> P"
  proof -
    have "blk (page_index p) (page_order p) \<subseteq> {..<region_pages l (region p)}"
      using pages_covered[OF ok, of "region p"] in_r[OF that] by (force simp: covered_def)
    then have "(page_index p + 1) * 2 ^ page_order p \<le> region_pages l (region p)"
      unfolding blk_interval by (rule interval_le) simp
    then show ?thesis using r[OF that] by (simp add: page_in_layout_def)
  qed
  show "blk (page_index p) (page_order p) \<inter> blk (page_index q) (page_order q) = {}"
    if "p \<in> P" "q \<in> P" "p \<noteq> q" "region p = region q"
  proof -
    have "disjoint_blocks (page_blocks P (region p))" using D(11)[OF r[OF that(1)]] by (simp add: history_inv_def)
    moreover have "(page_index p, page_order p) \<noteq> (page_index q, page_order q)" using that(3,4) by (cases p; cases q) auto
    ultimately show ?thesis using in_r[OF that(1)] in_r[OF that(2)] that(4) by (fastforce simp: disjoint_blocks_def)
  qed
qed

lemma state_addresses:
  assumes ok: "state_ok l P st" and p: "p \<in> P"
  obtains a b where "page_address l p = Some (a, b)" "(a, b - a) \<in> page_exts l P" "a < b" "page_size (im_header st) \<le> a"
    "\<And>n. dl_len l = Some n \<Longrightarrow> b \<le> n" "a mod page_size (im_header st) = 0" "b - a = 2 ^ page_order p * page_size (im_header st)"
proof -
  let ?ps = "page_size (im_header st)"
  obtain h k where l: "layout_ok h (2 ^ k) ?ps l" using ok by (auto simp: state_ok_def)
  note pl = state_pages(1)[OF ok p]
  define a where "a = (1 + region p * (h + 2 ^ k) + (h + page_index p * 2 ^ page_order p)) * ?ps"
  define b where "b = a + 2 ^ page_order p * ?ps"
  have ab: "page_address l p = Some (a, b)" unfolding page_address_eq[OF l pl] a_def b_def by (simp add: algebra_simps)
  note r = page_address_in_region[OF l pl ab]
  have ext: "(a, b - a) \<in> page_exts l P" using ab p by (force simp: page_exts_def)
  have low: "?ps \<le> a" unfolding a_def by simp
  have m: "a mod ?ps = 0" unfolding a_def by (rule mod_mult_self2_is_0)
  have len: "b - a = 2 ^ page_order p * ?ps" by (simp add: b_def)
  show thesis by (rule that[OF ab ext r(2) low r(4) m len])
qed

lemma state_range:
  assumes "state_ok l P st" "p \<in> P" "page_address l p = Some (a, b)"
  shows "(a, b - a) \<in> page_exts l P" "a < b" "page_size (im_header st) \<le> a" "dl_len l = Some n \<Longrightarrow> b \<le> n"
    "a mod page_size (im_header st) = 0" "b - a = 2 ^ page_order p * page_size (im_header st)"
  by (rule state_addresses[OF assms(1,2)], use assms(3) in force)+

lemma state_disjoint:
  assumes ok: "state_ok l P st" and p: "p \<in> P" "q \<in> P" "p \<noteq> q" "page_address l p = Some (a, b)" "page_address l q = Some (c, d)"
  shows "b \<le> c \<or> d \<le> a"
proof -
  obtain h k where l: "layout_ok h (2 ^ k) (page_size (im_header st)) l" using ok by (auto simp: state_ok_def)
  show ?thesis using page_addresses_disjoint[OF l layout_len[OF l] state_pages(1)[OF ok p(1)] state_pages(1)[OF ok p(2)]]
    state_pages(2)[OF ok p(1-3)] p(4,5) by auto
qed

lemma state_exts:
  assumes ok: "state_ok l P st" and ps: "DB_HEADER_SIZE \<le> page_size (im_header st)"
  shows "exts_ok (all_exts l P)"
proof -
  have page: "\<exists>p \<in> P. page_address l p = Some (j, j + m) \<and> DB_HEADER_SIZE \<le> j \<and> 0 < m" if e: "(j, m) \<in> page_exts l P" for j m
  proof -
    obtain b p where p: "p \<in> P" "page_address l p = Some (j, b)" "m = b - j" using e unfolding page_exts_def by blast
    then show ?thesis using state_range(2,3)[OF ok p(1,2)] ps by (auto intro!: bexI[of _ p])
  qed
  have "0 < m \<and> (j = k \<and> m = n \<or> j + m \<le> k \<or> k + n \<le> j)" if "(j, m) \<in> all_exts l P" "(k, n) \<in> all_exts l P" for j m k n
  proof (cases "(j, m) \<in> page_exts l P \<and> (k, n) \<in> page_exts l P")
    case True
    then obtain p q where p: "p \<in> P" "page_address l p = Some (j, j + m)" "0 < m" and q: "q \<in> P" "page_address l q = Some (k, k + n)"
      using page[of j m] page[of k n] by blast
    show ?thesis
    proof (cases "p = q")
      case False
      show ?thesis using state_disjoint[OF ok p(1) q(1) False p(2) q(2)] p(3) by blast
    qed (use p q in simp)
  next
    case False
    then show ?thesis using header_size that page[of j m] page[of k n] by (auto simp: all_exts_def)
  qed
  then show ?thesis unfolding exts_ok_def by blast
qed

text \<open>Pages of a state and their ranges correspond.\<close>

lemma page_exts_remove:
  assumes ok: "state_ok l P st" and p: "p \<in> P" "page_address l p = Some (a, b)" and O: "Q \<subseteq> P"
  shows "page_exts l (Q - {p}) = page_exts l Q - {(a, b - a)}"
proof -
  have ab: "a < b" using state_range(2)[OF ok p] .
  have "False" if "q \<in> Q" "q \<noteq> p" "page_address l q = Some (a, d)" for q d
    using state_disjoint[OF ok p(1) _ _ p(2) that(3)] state_range(2)[OF ok _ that(3)] that O ab by auto
  then show ?thesis using p(2) by (fastforce simp: page_exts_def)
qed

lemma page_not_dirty:
  assumes ok: "state_ok l P st" and p: "p \<in> P" "page_address l p = Some (a, b)" and O: "Q \<subseteq> P" "p \<notin> Q"
  shows "a \<notin> dom (ext_map (page_exts l Q))"
proof -
  have "Q - {p} = Q" using O(2) by auto
  then have "page_exts l Q = page_exts l Q - {(a, b - a)}" using page_exts_remove[OF ok p O(1)] by simp
  moreover have "m = b - a" if e: "(a, m) \<in> page_exts l Q" for m
  proof -
    obtain q d where q: "q \<in> Q" "page_address l q = Some (a, d)" "m = d - a" using e unfolding page_exts_def by blast
    have qP: "q \<in> P" "p \<noteq> q" using q(1) O by auto
    show ?thesis using state_disjoint[OF ok p(1) qP p(2) q(2)] state_range(2)[OF ok p] state_range(2)[OF ok qP(1) q(2)] by auto
  qed
  ultimately show ?thesis unfolding ext_map_dom by blast
qed

subsection \<open>Pages in the cached file\<close>

definition page_data :: "DatabaseLayout \<Rightarrow> bytes \<Rightarrow> PageNumber \<Rightarrow> bytes option" where
  "page_data l D p = (case page_address l p of Some (a, b) \<Rightarrow> subslice D a b | None \<Rightarrow> None)"

definition file_inv :: "('s \<Rightarrow> bytes) \<Rightarrow> DatabaseLayout \<Rightarrow> PageNumber set \<Rightarrow> PageNumber set \<Rightarrow> nat \<Rightarrow> bytes \<Rightarrow> 's PagedCachedFile \<Rightarrow> bool" where
  "file_inv contents l P Q ps D f \<longleftrightarrow> cf_inv contents f (ext_map (page_exts l Q)) D \<and>
     cext f (ext_map (page_exts l Q)) \<subseteq>\<^sub>m ext_map (all_exts l P) \<and> cf_page_size f = ps \<and> dl_len l = Some (length D)"

lemma file_page:
  assumes inv: "file_inv contents l P Q (page_size (im_header st)) D f" and ok: "state_ok l P st" and ps: "DB_HEADER_SIZE \<le> page_size (im_header st)"
    and p: "p \<in> P" "page_address l p = Some (a, b)" and Q: "Q \<subseteq> P"
  shows "a mod cf_page_size f = 0" "a + (b - a) \<le> length D" "a + (b - a) = b" "cf_fits f (ext_map (page_exts l Q)) a (b - a)"
    "ext_map (all_exts l P) a = Some (b - a)" "p \<notin> Q \<Longrightarrow> a \<notin> dom (ext_map (page_exts l Q))"
proof -
  note r = state_range[OF ok p]
  show "a mod cf_page_size f = 0" using r(5) inv by (simp add: file_inv_def)
  show "a + (b - a) = b" "a + (b - a) \<le> length D" using r(2) r(4)[of "length D"] inv by (simp_all add: file_inv_def)
  show e: "ext_map (all_exts l P) a = Some (b - a)" using ext_map_iff[OF state_exts[OF ok ps]] r(1) by (auto simp: all_exts_def)
  show "cf_fits f (ext_map (page_exts l Q)) a (b - a)"
    using inv by (intro cext_fits[OF ext_map_disjoint[OF state_exts[OF ok ps]] e]) (simp add: file_inv_def)
  show "p \<notin> Q \<Longrightarrow> a \<notin> dom (ext_map (page_exts l Q))" by (rule page_not_dirty[OF ok p Q])
qed

lemma page_data_put:
  assumes ok: "state_ok l P st" and p: "p \<in> P" "page_address l p = Some (a, b)" and D': "put_slice D a x = Some D'" "length x = b - a"
  shows "page_data l D' p = Some x" "q \<in> P \<Longrightarrow> q \<noteq> p \<Longrightarrow> page_data l D' q = page_data l D q"
proof -
  note r = state_range[OF ok p]
  have "b = a + length x" using r(2) D'(2) by simp
  then show "page_data l D' p = Some x" using p(2) subslice_put_same[OF D'(1)] by (simp add: page_data_def)
  assume q: "q \<in> P" "q \<noteq> p"
  obtain c d where cd: "page_address l q = Some (c, d)" using state_addresses[OF ok q(1)] by blast
  have "d \<le> a \<or> a + length x \<le> c" using state_disjoint[OF ok p(1) q(1) q(2)[symmetric] p(2) cd] r(2) D'(2) by auto
  then show "page_data l D' q = page_data l D q" using cd subslice_put_other[OF D'(1)] by (simp add: page_data_def)
qed

context storage_backend
begin

lemma page_read_spec:
  assumes inv: "file_inv contents l P Q (page_size (im_header st)) D f" and ok: "state_ok l P st" and ps: "DB_HEADER_SIZE \<le> page_size (im_header st)"
    and p: "p \<in> P" "page_address l p = Some (a, b)" and Q: "Q \<subseteq> P" "p \<notin> Q"
  shows "st_ok (cf_read be a (b - a) NoHint) f
    (\<lambda>bs f'. page_data l D p = Some bs \<and> file_inv contents l P Q (page_size (im_header st)) D f') (\<lambda>_ f'. io_failed (cf_file f'))"
proof -
  note g = file_page[OF inv ok ps p Q(1)]
  have i: "cf_inv contents f (ext_map (page_exts l Q)) D" "cext f (ext_map (page_exts l Q)) \<subseteq>\<^sub>m ext_map (all_exts l P)"
    using inv by (simp_all add: file_inv_def)
  show ?thesis
    by (rule st_ok_mono[OF st_keepsD[OF cf_read_keeps read_spec[OF i(1) g(1,2,4) g(6)[OF Q(2)]]]])
      (use inv p(2) g(3) cext_upd[OF _ i(2) g(5)] in \<open>auto simp: file_inv_def page_data_def\<close>)
qed

lemma page_write_spec:
  assumes inv: "file_inv contents l P Q (page_size (im_header st)) D f" and ok: "state_ok l P st" and ps: "DB_HEADER_SIZE \<le> page_size (im_header st)"
    and p: "p \<in> P" "page_address l p = Some (a, b)" and Q: "Q \<subseteq> P" "p \<notin> Q"
  shows "st_ok (cf_write be a (b - a) overwrite) f
    (\<lambda>bs f'. length bs = b - a \<and> (\<not> overwrite \<longrightarrow> page_data l D p = Some bs) \<and>
       file_inv contents l P (insert p Q) (page_size (im_header st)) D f') (\<lambda>_ f'. io_failed (cf_file f'))"
proof -
  note g = file_page[OF inv ok ps p Q(1)]
  have i: "cf_inv contents f (ext_map (page_exts l Q)) D" "cext f (ext_map (page_exts l Q)) \<subseteq>\<^sub>m ext_map (all_exts l P)"
    using inv by (simp_all add: file_inv_def)
  have "exts_ok (insert (a, b - a) (page_exts l Q))" unfolding page_exts_insert[OF p(2), symmetric]
    by (rule exts_ok_sub[OF state_exts[OF ok ps]]) (use page_exts_mono[of "insert p Q" P l] Q p in \<open>auto simp: all_exts_def\<close>)
  then have e: "ext_map (page_exts l (insert p Q)) = (ext_map (page_exts l Q))(a \<mapsto> b - a)"
    unfolding page_exts_insert[OF p(2)] by (rule ext_map_insert)
  show ?thesis
    by (rule st_ok_mono[OF st_keepsD[OF cf_write_keeps write_spec[OF i(1) g(1,2,4) g(6)[OF Q(2)]]]])
      (use inv p(2) g(3) cext_upd[OF _ i(2) g(5)] in \<open>auto simp: file_inv_def page_data_def e\<close>)
qed

lemma page_drop_spec:
  assumes inv: "file_inv contents l P Q (page_size (im_header st)) D f" and ok: "state_ok l P st" and ps: "DB_HEADER_SIZE \<le> page_size (im_header st)"
    and p: "p \<in> Q" "page_address l p = Some (a, b)" and Q: "Q \<subseteq> P" and x: "length x = b - a"
  obtains f' D' where "writable_page_drop a x f = Some f'" "put_slice D a x = Some D'"
    "file_inv contents l P (Q - {p}) (page_size (im_header st)) D' f'"
proof -
  have pP: "p \<in> P" using p Q by auto
  have i: "cf_inv contents f (ext_map (page_exts l Q)) D" "cext f (ext_map (page_exts l Q)) \<subseteq>\<^sub>m ext_map (all_exts l P)"
    using inv by (simp_all add: file_inv_def)
  have okQ: "exts_ok (page_exts l Q)"
    by (rule exts_ok_sub[OF state_exts[OF ok ps]]) (use page_exts_mono[of Q P l] Q in \<open>auto simp: all_exts_def\<close>)
  have mem: "(a, b - a) \<in> page_exts l Q" using p by (force simp: page_exts_def)
  have e: "ext_map (page_exts l (Q - {p})) = (ext_map (page_exts l Q))(a := None)"
    unfolding page_exts_remove[OF ok pP p(2) Q] by (rule ext_map_remove[OF okQ mem])
  have "ext_map (page_exts l Q) a = Some (length x)" using ext_map_iff[OF okQ] mem x by simp
  from drop_spec[OF i(1) this] obtain f' D' where d: "writable_page_drop a x f = Some f'" "put_slice D a x = Some D'"
    "cf_inv contents f' ((ext_map (page_exts l Q))(a := None)) D'" "cext f' ((ext_map (page_exts l Q))(a := None)) = cext f (ext_map (page_exts l Q))"
    "cf_page_size f' = cf_page_size f" by blast
  show thesis by (rule that[OF d(1,2)]) (use d(3-5) inv put_slice_length[OF d(2)] in \<open>simp add: file_inv_def e\<close>)
qed

lemma page_forget_spec:
  assumes inv: "file_inv contents l P Q (page_size (im_header st)) D f" and ok: "state_ok l P st" and ps: "DB_HEADER_SIZE \<le> page_size (im_header st)"
    and p: "p \<in> P" "page_address l p = Some (a, b)" and Q: "Q \<subseteq> P" "p \<notin> Q"
  obtains f1 f2 old D' where "invalidate_cache a (b - a) f = Some f1" "cancel_pending_write a f1 = Some f2" "length old = b - a"
    "put_slice D a old = Some D'" "file_inv contents l (P - {p}) Q (page_size (im_header st)) D' f2"
proof -
  let ?B = "ext_map (page_exts l Q)"
  note g = file_page[OF inv ok ps p Q(1)] and X = state_exts[OF ok ps]
  have i: "cf_inv contents f ?B D" "cext f ?B \<subseteq>\<^sub>m ext_map (all_exts l P)" using inv by (simp_all add: file_inv_def)
  obtain f1 f2 old D' where F: "invalidate_cache a (b - a) f = Some f1" "cancel_pending_write a f1 = Some f2" "length old = b - a"
    "put_slice D a old = Some D'" "cf_inv contents f2 ?B D'" "cext f2 ?B = (cext f ?B)(a := None)" "cf_page_size f2 = cf_page_size f"
    by (rule forget_spec[OF i(1) g(1) g(6)[OF Q(2)] g(4,2)]) (rule that; assumption)
  have "DB_HEADER_SIZE \<le> a" using state_range(3)[OF ok p] ps by (rule order_trans[rotated])
  then have "(a, b - a) \<noteq> (0, DB_HEADER_SIZE)" unfolding header_size by auto
  then have "all_exts l (P - {p}) = all_exts l P - {(a, b - a)}" unfolding all_exts_def page_exts_remove[OF ok p order_refl] by blast
  moreover have "(a, b - a) \<in> all_exts l P" using state_range(1)[OF ok p] by (simp add: all_exts_def)
  ultimately have "ext_map (all_exts l (P - {p})) = (ext_map (all_exts l P))(a := None)" using ext_map_remove[OF X] by simp
  then have "cext f2 ?B \<subseteq>\<^sub>m ext_map (all_exts l (P - {p}))" unfolding F(6) using i(2) by (auto simp: map_le_def)
  then show thesis using F(5,7) inv put_slice_length[OF F(4)] by (intro that[OF F(1-4)]) (simp add: file_inv_def)
qed

lemma file_alloc:
  assumes "file_inv contents l P Q ps D f" "state_ok l (insert p P) st" "DB_HEADER_SIZE \<le> page_size (im_header st)"
  shows "file_inv contents l (insert p P) Q ps D f"
proof -
  have "all_exts l P \<subseteq> all_exts l (insert p P)" using page_exts_mono[of P "insert p P" l] by (auto simp: all_exts_def)
  from ext_map_mono[OF state_exts[OF assms(2,3)] this] show ?thesis
    using assms(1) by (auto simp: file_inv_def intro: map_le_trans)
qed

lemma file_resize_spec:
  assumes inv: "file_inv contents l P Q ps D f" and l': "full_region_layout l' = full_region_layout l" "dl_len l' = Some n"
    and fit: "\<And>k m. cext f (ext_map (page_exts l Q)) k = Some m \<Longrightarrow> wmap f k \<noteq> None \<Longrightarrow> k + m \<le> n"
  shows "st_ok (cf_resize be n) f
    (\<lambda>_ f'. file_inv contents l' P Q ps (resized n D) f' \<and>
       (contents (cb_file (cf_file f)) = D \<longrightarrow> contents (cb_file (cf_file f')) = resized n D)) (\<lambda>_ f'. io_failed (cf_file f'))"
proof -
  let ?B = "ext_map (page_exts l Q)"
  have i: "cf_inv contents f ?B D" "cext f ?B \<subseteq>\<^sub>m ext_map (all_exts l P)" using inv by (simp_all add: file_inv_def)
  have c: "page_exts l' R = page_exts l R" "all_exts l' R = all_exts l R" for R
    using page_exts_cong[OF l'(1)] by (simp_all add: all_exts_def)
  have e: "cext f' ?B \<subseteq>\<^sub>m cext f ?B" if "rmap f' = Map.empty" "wmap f' = wmap f" for f' :: "'s PagedCachedFile"
    using that by (auto simp: cext_def ext_def map_le_def split: option.splits)
  show ?thesis
    by (rule st_ok_mono[OF resize_spec[OF i(1) fit]])
      (use inv l'(2) map_le_trans[OF e i(2)] in \<open>auto simp: file_inv_def c\<close>)
qed

lemma file_relayout_spec:
  assumes inv: "file_inv contents l P Q (page_size (im_header st)) D f" and ok: "state_ok l P st" and ps: "DB_HEADER_SIZE \<le> page_size (im_header st)"
    and ok': "state_ok l' P st'" and l': "full_region_layout l' = full_region_layout l" "dl_len l' = Some n"
  shows "st_ok (cf_resize be n) f
    (\<lambda>_ f'. file_inv contents l' P Q (page_size (im_header st)) (resized n D) f' \<and>
       (contents (cb_file (cf_file f)) = D \<longrightarrow> contents (cb_file (cf_file f')) = resized n D)) (\<lambda>_ f'. io_failed (cf_file f'))"
proof (rule file_resize_spec[OF inv l'])
  fix k m assume a: "cext f (ext_map (page_exts l Q)) k = Some m"
  have "cext f (ext_map (page_exts l Q)) \<subseteq>\<^sub>m ext_map (all_exts l P)" using inv by (simp add: file_inv_def)
  then have km: "(k, m) \<in> all_exts l P" using a ext_map_iff[OF state_exts[OF ok ps]] by (metis domI map_le_def)
  obtain h j where "layout_ok h (2 ^ j) (page_size (im_header st)) l" using ok by (auto simp: state_ok_def)
  then have sz: "rl_page_size (full_region_layout l) = page_size (im_header st)" by (simp add: layout_ok_def)
  show "k + m \<le> n"
  proof (cases "(k, m) \<in> page_exts l P")
    case True
    then obtain p b where p: "p \<in> P" "page_address l' p = Some (k, b)" "m = b - k"
      unfolding page_exts_def page_address_cong[OF l'(1)] by blast
    then show ?thesis using state_range(2)[OF ok' p(1,2)] state_range(4)[OF ok' p(1,2) l'(2)] by simp
  next
    case False
    obtain h j where lo: "layout_ok h (2 ^ j) (page_size (im_header st')) l'" using ok' by (auto simp: state_ok_def)
    then have "page_size (im_header st') = page_size (im_header st)" using sz l'(1) by (simp add: layout_ok_def)
    then have "page_size (im_header st) \<le> n" using layout_len[OF lo] l'(2) by fastforce
    then show ?thesis using km False ps by (simp add: all_exts_def)
  qed
qed

lemma file_flush_spec:
  assumes inv: "file_inv contents l P {} ps D f" and m: "m = flush_write_buffer be \<or> m = cf_flush be"
  shows "st_ok m f (\<lambda>_ f'. file_inv contents l P {} ps D f' \<and> contents (cb_file (cf_file f')) = D) (\<lambda>_ f'. io_failed (cf_file f'))"
proof -
  have e: "ext_map (page_exts l {}) = Map.empty" by (simp add: ext_map_def page_exts_def fun_eq_iff)
  have "run_inv contents ps (ext_map (all_exts l P)) f D" using inv by (simp add: run_inv_def file_inv_def e)
  from op_flush[OF this m] show ?thesis by (rule st_ok_mono) (use inv in \<open>auto simp: run_inv_def file_inv_def e\<close>)
qed

end

end
