(* ===== verification/Page_Operations.thy ===== *)
theory Page_Operations
  imports Page_Manager_Laws
begin

text \<open>
  The operations of the page manager on the contents of its pages: reading, writing, allocating, freeing, committing
  and rolling back keep the invariant \<open>tm_inv\<close> and change exactly the pages they are asked to change.
\<close>

subsection \<open>The invariant\<close>

definition tm_inv :: "('s \<Rightarrow> bytes) \<Rightarrow> DatabaseLayout \<Rightarrow> bytes \<Rightarrow> 's TransactionalMemory \<Rightarrow> bool" where
  "tm_inv contents l D m \<longleftrightarrow> state_ok l (allocated_pages m) (tm_state m) \<and> header_ok (tm_header m) \<and>
     DB_HEADER_SIZE \<le> page_size (tm_header m) \<and> tm_page_size m = page_size (tm_header m) \<and>
     region_size m = rl_len (full_region_layout l) \<and>
     region_header_with_padding_size m = rl_header_pages (full_region_layout l) * page_size (tm_header m) \<and>
     file_inv contents l (allocated_pages m) (open_dirty_pages m) (page_size (tm_header m)) D (storage m) \<and>
     open_dirty_pages m \<subseteq> allocated_pages m \<and> dom (read_page_ref_counts m) \<subseteq> allocated_pages m - open_dirty_pages m \<and>
     distinct (allocated_since_commit m) \<and> set (allocated_since_commit m) \<subseteq> allocated_pages m"

text \<open>The contents of the allocated pages.\<close>

definition tm_pages :: "DatabaseLayout \<Rightarrow> bytes \<Rightarrow> 's TransactionalMemory \<Rightarrow> PageNumber \<rightharpoonup> bytes" where
  "tm_pages l D m p = (if p \<in> allocated_pages m then page_data l D p else None)"

definition tm_failed :: "'s TransactionalMemory \<Rightarrow> bool" where
  "tm_failed m \<longleftrightarrow> io_failed (cf_file (storage m))"

lemma tm_invD:
  assumes "tm_inv contents l D m"
  shows "state_ok l (allocated_pages m) (tm_state m)" "header_ok (tm_header m)" "DB_HEADER_SIZE \<le> page_size (im_header (tm_state m))"
    "file_inv contents l (allocated_pages m) (open_dirty_pages m) (page_size (im_header (tm_state m))) D (storage m)"
    "open_dirty_pages m \<subseteq> allocated_pages m" "dom (read_page_ref_counts m) \<subseteq> allocated_pages m - open_dirty_pages m"
    "distinct (allocated_since_commit m)" "set (allocated_since_commit m) \<subseteq> allocated_pages m" "tm_page_size m = page_size (im_header (tm_state m))"
  using assms by (simp_all add: tm_inv_def tm_header_def)

lemma tm_range_eq:
  assumes "tm_inv contents l D m"
  shows "tm_range m p = page_address l p"
proof -
  obtain h k where "layout_ok h (2 ^ k) (page_size (tm_header m)) l" using tm_invD(1)[OF assms] by (auto simp: state_ok_def tm_header_def)
  then have "rl_page_size (full_region_layout l) = page_size (tm_header m)" by (simp add: layout_ok_def)
  then show ?thesis using assms by (simp add: tm_range_def page_address_def tm_inv_def Let_def)
qed

lemma tm_address:
  assumes "tm_inv contents l D m" "p \<in> allocated_pages m"
  obtains a b where "page_address l p = Some (a, b)" "tm_range m p = Some (a, b)"
  using state_addresses[OF tm_invD(1)[OF assms(1)] assms(2)] tm_range_eq[OF assms(1)] by metis

lemma on_storage_ok:
  "st_ok op (storage m) (\<lambda>x f. Q x (m\<lparr>storage := f\<rparr>)) (\<lambda>_ f. io_failed (cf_file f)) \<Longrightarrow> st_ok (on_storage op) m Q (\<lambda>_. tm_failed)"
  unfolding on_storage_def by (rule st_ok_zoom) (simp add: tm_failed_def)

lemma rollback_page_since:
  "rollback_page p (m\<lparr>allocated_since_commit := x\<rparr>) = map_option (\<lambda>m'. m'\<lparr>allocated_since_commit := x\<rparr>) (rollback_page p m)"
  by (auto simp: rollback_page_def forget_page_def tm_range_def assert_that_def Let_def split: bind_splits option.splits)

text \<open>Growing and shrinking only change the layout in the header.\<close>

definition relayout :: "InMemoryState \<Rightarrow> InMemoryState \<Rightarrow> bool" where
  "relayout st st' \<longleftrightarrow> (\<exists>a b. im_header st' = (im_header st)\<lparr>full_regions := a, trailing_partial_region_pages := b\<rparr>)"

lemma relayout_refl: "im_header st' = im_header st \<Longrightarrow> relayout st st'"
  unfolding relayout_def by (intro exI[of _ "full_regions (im_header st)"] exI[of _ "trailing_partial_region_pages (im_header st)"]) simp

lemma relayout_trans: "relayout st st' \<Longrightarrow> relayout st' st'' \<Longrightarrow> relayout st st''"
  unfolding relayout_def by (elim exE) (simp, blast)

lemma relayout_page_size: "relayout st st' \<Longrightarrow> page_size (im_header st') = page_size (im_header st)"
  by (auto simp: relayout_def)

lemma relayout_header_ok:
  assumes ok: "state_ok l P st'" and re: "relayout st st'" and h: "header_ok (im_header st)"
  shows "header_ok (im_header st')"
proof -
  obtain hp k where l: "dh_layout (im_header st') = Some l" "layout_ok hp (2 ^ k) (page_size (im_header st')) l" "k \<le> MAX_MAX_PAGE_ORDER"
    "num_regions l \<le> MAX_REGIONS" using ok by (auto simp: state_ok_def)
  have "(2 :: nat) ^ k \<le> 2 ^ 20" using l(3) by (intro power_increasing) (auto simp: MAX_MAX_PAGE_ORDER_def)
  then have small: "(2 :: nat) ^ k < 2 ^ 32" "MAX_REGIONS < 2 ^ 32" by (simp_all add: MAX_REGIONS_def)
  have "num_full_regions l \<le> num_regions l" by (simp add: num_regions_def)
  moreover have "full_regions (im_header st') = num_full_regions l"
    using l(1) by (auto simp: dh_layout_def dl_new_def split: bind_splits if_splits)
  ultimately have a: "full_regions (im_header st') < 2 ^ 32" using l(4) small(2) by linarith
  have "trailing_partial_region_pages (im_header st') \<le> 2 ^ k"
    using l(1,2) by (auto simp: dh_layout_def dl_new_def rl_new_def layout_ok_def assert_that_def split: bind_splits if_splits)
  then have "trailing_partial_region_pages (im_header st') < 2 ^ 32" using small(1) by linarith
  then show ?thesis using a h re by (auto simp: header_ok_def relayout_def)
qed

lemma tm_inv_state:
  assumes inv: "tm_inv contents l D m" and st: "state_ok l' P st" "relayout (tm_state m) st" "full_region_layout l' = full_region_layout l"
    and f: "file_inv contents l' P (open_dirty_pages m) (page_size (im_header (tm_state m))) D' f" and P: "allocated_pages m \<subseteq> P"
  shows "tm_inv contents l' D' (m\<lparr>tm_state := st, storage := f, allocated_pages := P\<rparr>)"
proof -
  note i = tm_invD[OF inv] and ps = relayout_page_size[OF st(2)]
  have "header_ok (im_header st)" using relayout_header_ok[OF st(1,2)] i(2) by (simp add: tm_header_def)
  then show ?thesis using inv st f P ps by (auto simp: tm_inv_def tm_header_def)
qed

lemma page_data_resized:
  assumes ok: "state_ok l P st" and p: "p \<in> P" and len: "dl_len l = Some (length D)" "length D \<le> n" and l': "full_region_layout l' = full_region_layout l"
  shows "page_data l' (resized n D) p = page_data l D p"
proof -
  obtain a b where ab: "page_address l p = Some (a, b)" using state_addresses[OF ok p] by blast
  have "b \<le> length D" using state_range(4)[OF ok p ab len(1)] .
  then show ?thesis using ab page_address_cong[OF l'] len(2) by (simp add: page_data_def subslice_resized)
qed

lemma retry_spec:
  assumes inv: "tm_inv contents l D m" and n: "n \<le> MAX_MAX_PAGE_ORDER"
  obtains r st where "retry n lowest m = Some (Inr r, m\<lparr>tm_state := st\<rparr>)" "im_header st = im_header (tm_state m)"
    "r = None \<Longrightarrow> tm_inv contents l D (m\<lparr>tm_state := st\<rparr>) \<and> (\<forall>i \<in> rt_free (region_tracker (im_allocators (tm_state m))) n. no_block (tm_state m) (allocated_pages m) n i)"
    "\<And>p. r = Some p \<Longrightarrow> page_order p = n \<and> p \<notin> allocated_pages m \<and> state_ok l (insert p (allocated_pages m)) st"
proof -
  note i = tm_invD[OF inv]
  obtain r st where r: "allocate_helper_retry (tm_state m) n lowest = Some (r, st)" "im_header st = im_header (tm_state m)"
    "case r of None \<Rightarrow> state_ok l (allocated_pages m) st \<and> (\<forall>i \<in> rt_free (region_tracker (im_allocators (tm_state m))) n. no_block (tm_state m) (allocated_pages m) n i)
     | Some p \<Rightarrow> page_order p = n \<and> p \<notin> allocated_pages m \<and> state_ok l (insert p (allocated_pages m)) st"
    using retry_correct[OF i(1) n] by blast
  have "tm_inv contents l D (m\<lparr>tm_state := st\<rparr>)" if "state_ok l (allocated_pages m) st"
    using tm_inv_state[OF inv that relayout_refl[OF r(2)] refl i(4)] by simp
  then show thesis using r by (intro that[of r st]) (auto simp: retry_def st_lift_def)
qed

text \<open>The search, with one attempt to grow the file.\<close>

definition find_page :: "'s StorageBackend \<Rightarrow> nat \<Rightarrow> bool \<Rightarrow> ('s TransactionalMemory, StorageError, PageNumber) sem" where
  "find_page be order lowest = st_bind (retry order lowest) (\<lambda>found. case found of
       Some p \<Rightarrow> st_return p
     | None \<Rightarrow> st_bind (grow be order) (\<lambda>_. st_bind (retry order lowest) (\<lambda>again.
         case again of Some p \<Rightarrow> st_return p | None \<Rightarrow> st_panic)))"

definition found_page :: "('s \<Rightarrow> bytes) \<Rightarrow> DatabaseLayout \<Rightarrow> bytes \<Rightarrow> 's TransactionalMemory \<Rightarrow> nat \<Rightarrow> PageNumber \<Rightarrow> 's TransactionalMemory \<Rightarrow> bool" where
  "found_page contents l D m n p m' \<longleftrightarrow> (\<exists>l' D' st f. m' = m\<lparr>tm_state := st, storage := f\<rparr> \<and> relayout (tm_state m) st \<and>
     full_region_layout l' = full_region_layout l \<and> page_order p = n \<and> p \<notin> allocated_pages m \<and>
     tm_inv contents l' D' (m'\<lparr>allocated_pages := insert p (allocated_pages m)\<rparr>) \<and>
     (\<forall>q \<in> allocated_pages m. page_data l' D' q = page_data l D q))"

definition new_page :: "('s \<Rightarrow> bytes) \<Rightarrow> DatabaseLayout \<Rightarrow> bytes \<Rightarrow> 's TransactionalMemory \<Rightarrow> nat \<Rightarrow> bool \<Rightarrow> PageNumber \<times> bytes \<Rightarrow> 's TransactionalMemory \<Rightarrow> bool" where
  "new_page contents l D m n transactional r m' \<longleftrightarrow> (\<exists>l' D' st f. snd r = replicate (2 ^ n * tm_page_size m) 0xFF \<and>
     page_order (fst r) = n \<and> fst r \<notin> allocated_pages m \<and> relayout (tm_state m) st \<and> full_region_layout l' = full_region_layout l \<and>
     m' = m\<lparr>tm_state := st, storage := f, allocated_pages := insert (fst r) (allocated_pages m), open_dirty_pages := insert (fst r) (open_dirty_pages m),
       allocated_since_commit := (if transactional then List.insert (fst r) (allocated_since_commit m) else allocated_since_commit m)\<rparr> \<and>
     tm_inv contents l' D' m' \<and> (\<forall>q \<in> allocated_pages m. page_data l' D' q = page_data l D q))"

context storage_backend
begin

lemma get_page_spec:
  assumes inv: "tm_inv contents l D m" and p: "p \<in> allocated_pages m" "p \<notin> open_dirty_pages m"
  shows "st_ok (get_page be p) m
    (\<lambda>bs m'. tm_pages l D m p = Some bs \<and> tm_inv contents l D m' \<and> (\<exists>f. m' = m\<lparr>storage := f, read_page_ref_counts :=
       (read_page_ref_counts m)(p \<mapsto> (case read_page_ref_counts m p of Some n \<Rightarrow> n + 1 | None \<Rightarrow> 1))\<rparr>)) (\<lambda>_. tm_failed)"
proof -
  obtain a b where a: "page_address l p = Some (a, b)" "tm_range m p = Some (a, b)" by (rule tm_address[OF inv p(1)])
  note i = tm_invD[OF inv]
  have rd: "st_ok (on_storage (cf_read be a (b - a) NoHint)) m
      (\<lambda>bs m'. page_data l D p = Some bs \<and> tm_inv contents l D m' \<and> (\<exists>f. m' = m\<lparr>storage := f\<rparr>)) (\<lambda>_. tm_failed)"
    by (rule on_storage_ok, rule st_ok_mono[OF page_read_spec[OF i(4,1,3) p(1) a(1) i(5) p(2)]])
      (use inv in \<open>auto simp: tm_inv_def tm_header_def\<close>)
  show ?thesis unfolding get_page_def get_page_extended_def
    by (rule st_ok_lift_bind[of _ _ "(a, b)" m], simp add: a(2), simp only: prod.case, rule st_ok_bind, rule st_ok_mono[OF rd])
      (use p in \<open>auto intro!: st_ok_assert simp: st_ok_seq tm_inv_def tm_header_def tm_pages_def\<close>)
qed

lemma get_page_mut_spec:
  assumes inv: "tm_inv contents l D m" and p: "p \<in> allocated_pages m" "p \<notin> open_dirty_pages m" "read_page_ref_counts m p = None"
  shows "st_ok (get_page_mut be p) m
    (\<lambda>bs m'. tm_pages l D m p = Some bs \<and> tm_inv contents l D m' \<and> (\<exists>f. m' = m\<lparr>storage := f, open_dirty_pages := insert p (open_dirty_pages m)\<rparr>))
    (\<lambda>_. tm_failed)"
proof -
  obtain a b where a: "page_address l p = Some (a, b)" "tm_range m p = Some (a, b)" by (rule tm_address[OF inv p(1)])
  note i = tm_invD[OF inv]
  let ?m = "\<lambda>f. m\<lparr>storage := f, open_dirty_pages := insert p (open_dirty_pages m)\<rparr>"
  have wr: "st_ok (on_storage (cf_write be a (b - a) False)) m
      (\<lambda>bs m'. page_data l D p = Some bs \<and> (\<exists>f. m' = m\<lparr>storage := f\<rparr> \<and> tm_inv contents l D (?m f))) (\<lambda>_. tm_failed)"
    by (rule on_storage_ok, rule st_ok_mono[OF page_write_spec[OF i(4,1,3) p(1) a(1) i(5) p(2)]])
      (use inv p in \<open>auto simp: tm_inv_def tm_header_def\<close>)
  show ?thesis unfolding get_page_mut_def
    by (rule st_ok_assert, simp add: p, rule st_ok_lift_bind[of _ _ "(a, b)" m], simp add: a(2), simp only: prod.case,
        rule st_ok_bind, rule st_ok_mono[OF wr]) (use p in \<open>auto intro!: st_ok_assert simp: st_ok_seq tm_pages_def\<close>)
qed

lemma drop_page_mut_spec:
  assumes inv: "tm_inv contents l D m" and p: "p \<in> open_dirty_pages m" "length x = 2 ^ page_order p * tm_page_size m"
  obtains m' D' where "drop_page_mut p x m = Some m'" "tm_inv contents l D' m'" "tm_pages l D' m' = (tm_pages l D m)(p \<mapsto> x)"
    "\<exists>f. m' = m\<lparr>open_dirty_pages := open_dirty_pages m - {p}, storage := f\<rparr>"
proof -
  note i = tm_invD[OF inv]
  have pP: "p \<in> allocated_pages m" using p i(5) by auto
  obtain a b where a: "page_address l p = Some (a, b)" "tm_range m p = Some (a, b)" by (rule tm_address[OF inv pP])
  have len: "length x = b - a" using state_range(6)[OF i(1) pP a(1)] p(2) i(9) by simp
  obtain f' D' where f': "writable_page_drop a x (storage m) = Some f'" "put_slice D a x = Some D'"
    "file_inv contents l (allocated_pages m) (open_dirty_pages m - {p}) (page_size (im_header (tm_state m))) D' f'"
    by (rule page_drop_spec[OF i(4,1,3) p(1) a(1) i(5) len])
  let ?m = "m\<lparr>open_dirty_pages := open_dirty_pages m - {p}, storage := f'\<rparr>"
  have "drop_page_mut p x m = Some ?m" using p(1) a(2) f'(1) by (simp add: drop_page_mut_def page_mut_drop_def assert_that_def)
  moreover have "tm_inv contents l D' ?m" using inv f'(3) by (auto simp: tm_inv_def tm_header_def)
  moreover have "tm_pages l D' ?m = (tm_pages l D m)(p \<mapsto> x)"
    using page_data_put[OF i(1) pP a(1) f'(2) len] pP by (auto simp: tm_pages_def fun_eq_iff)
  ultimately show thesis by (rule that) blast
qed

text \<open>Freeing a page: the state of the allocators is \<open>st\<close> afterwards.\<close>

lemma forget_page_spec:
  assumes inv: "tm_inv contents l D m" and p: "p \<in> allocated_pages m" "p \<notin> open_dirty_pages m" "read_page_ref_counts m p = None"
      "p \<notin> set (allocated_since_commit m)"
    and st: "state_ok l (allocated_pages m - {p}) st" "im_header st = im_header (tm_state m)"
  obtains m' D' where "forget_page p (m\<lparr>tm_state := st, allocated_pages := allocated_pages m - {p}\<rparr>) = Some m'" "tm_inv contents l D' m'"
    "tm_pages l D' m' = (tm_pages l D m)(p := None)"
    "\<exists>f. m' = m\<lparr>tm_state := st, allocated_pages := allocated_pages m - {p}, storage := f\<rparr>"
proof -
  note i = tm_invD[OF inv]
  obtain a b where a: "page_address l p = Some (a, b)" "tm_range m p = Some (a, b)" by (rule tm_address[OF inv p(1)])
  obtain f1 f2 old D' where F: "invalidate_cache a (b - a) (storage m) = Some f1" "cancel_pending_write a f1 = Some f2" "length old = b - a"
    "put_slice D a old = Some D'" "file_inv contents l (allocated_pages m - {p}) (open_dirty_pages m) (page_size (im_header (tm_state m))) D' f2"
    by (rule page_forget_spec[OF i(4,1,3) p(1) a(1) i(5) p(2)])
  let ?m = "m\<lparr>tm_state := st, allocated_pages := allocated_pages m - {p}, storage := f2\<rparr>"
  have r: "tm_range (m\<lparr>tm_state := st, allocated_pages := allocated_pages m - {p}\<rparr>) p = Some (a, b)" using a(2) by (simp add: tm_range_def)
  have "forget_page p (m\<lparr>tm_state := st, allocated_pages := allocated_pages m - {p}\<rparr>) = Some ?m"
    using r F(1,2) by (simp add: forget_page_def)
  moreover have "tm_inv contents l D' ?m" using inv F(5) st p by (auto simp: tm_inv_def tm_header_def)
  moreover have "tm_pages l D' ?m = (tm_pages l D m)(p := None)"
    using page_data_put(2)[OF i(1) p(1) a(1) F(4,3)] by (auto simp: tm_pages_def fun_eq_iff)
  ultimately show thesis by (rule that) blast
qed

lemma free_helper_spec:
  assumes inv: "tm_inv contents l D m" and p: "p \<in> allocated_pages m" "p \<notin> open_dirty_pages m" "read_page_ref_counts m p = None"
      "p \<notin> set (allocated_since_commit m)" and tr: "tracker_remove allocated p = Some allocated'"
  obtains m' D' where "free_helper p allocated m = Some (allocated', m')" "tm_inv contents l D' m'" "tm_pages l D' m' = (tm_pages l D m)(p := None)"
    "\<exists>f st. m' = m\<lparr>tm_state := st, allocated_pages := allocated_pages m - {p}, storage := f\<rparr> \<and> im_header st = im_header (tm_state m)"
proof -
  obtain b' t where b: "get_region (tm_state m) (region p) = Some (region_allocators (im_allocators (tm_state m)) ! region p)"
    "ba_free_page (region_allocators (im_allocators (tm_state m)) ! region p) (page_index p) (page_order p) = Some b'"
    "mark_free (region_tracker (im_allocators (tm_state m))) (page_order p) (region p) = Some t"
    "state_ok l (allocated_pages m - {p}) (set_region_tracker (set_region (tm_state m) (region p) b') t)"
    "state_ok l (allocated_pages m - {p}) (set_region (set_region_tracker (tm_state m) t) (region p) b')"
    by (rule free_state[OF tm_invD(1)[OF inv] p(1)])
  let ?st = "set_region_tracker (set_region (tm_state m) (region p) b') t"
  have h: "im_header ?st = im_header (tm_state m)" by (simp add: set_region_tracker_def set_region_def)
  obtain m' D' where m': "forget_page p (m\<lparr>tm_state := ?st, allocated_pages := allocated_pages m - {p}\<rparr>) = Some m'" "tm_inv contents l D' m'"
    "tm_pages l D' m' = (tm_pages l D m)(p := None)" "\<exists>f. m' = m\<lparr>tm_state := ?st, allocated_pages := allocated_pages m - {p}, storage := f\<rparr>"
    by (rule forget_page_spec[OF inv p b(4) h])
  have "region_tracker (im_allocators (set_region (tm_state m) (region p) b')) = region_tracker (im_allocators (tm_state m))"
    by (simp add: set_region_def)
  then have "free_helper p allocated m = Some (allocated', m')"
    using p tr b(1-3) m'(1) by (simp add: free_helper_def assert_that_def Let_def)
  then show thesis using m'(2-4) h by (intro that) auto
qed

lemma rollback_page_spec:
  assumes inv: "tm_inv contents l D m" and p: "p \<in> allocated_pages m" "p \<notin> open_dirty_pages m" "read_page_ref_counts m p = None"
      "p \<notin> set (allocated_since_commit m)"
  obtains m' D' where "rollback_page p m = Some m'" "tm_inv contents l D' m'" "tm_pages l D' m' = (tm_pages l D m)(p := None)"
    "\<exists>f st. m' = m\<lparr>tm_state := st, allocated_pages := allocated_pages m - {p}, storage := f\<rparr> \<and> im_header st = im_header (tm_state m)"
proof -
  obtain b' t where b: "get_region (tm_state m) (region p) = Some (region_allocators (im_allocators (tm_state m)) ! region p)"
    "ba_free_page (region_allocators (im_allocators (tm_state m)) ! region p) (page_index p) (page_order p) = Some b'"
    "mark_free (region_tracker (im_allocators (tm_state m))) (page_order p) (region p) = Some t"
    "state_ok l (allocated_pages m - {p}) (set_region_tracker (set_region (tm_state m) (region p) b') t)"
    "state_ok l (allocated_pages m - {p}) (set_region (set_region_tracker (tm_state m) t) (region p) b')"
    by (rule free_state[OF tm_invD(1)[OF inv] p(1)])
  let ?st = "set_region (set_region_tracker (tm_state m) t) (region p) b'"
  have h: "im_header ?st = im_header (tm_state m)" by (simp add: set_region_tracker_def set_region_def)
  obtain m' D' where m': "forget_page p (m\<lparr>tm_state := ?st, allocated_pages := allocated_pages m - {p}\<rparr>) = Some m'" "tm_inv contents l D' m'"
    "tm_pages l D' m' = (tm_pages l D m)(p := None)" "\<exists>f. m' = m\<lparr>tm_state := ?st, allocated_pages := allocated_pages m - {p}, storage := f\<rparr>"
    by (rule forget_page_spec[OF inv p b(5) h])
  have "get_region (set_region_tracker (tm_state m) t) (region p) = get_region (tm_state m) (region p)"
    by (simp add: get_region_def set_region_tracker_def)
  then have "rollback_page p m = Some m'" using p b(1-3) m'(1) by (simp add: rollback_page_def assert_that_def Let_def)
  then show thesis using m'(2-4) h by (intro that) auto
qed

lemma rollback_pages_spec:
  assumes "tm_inv contents l D m" "distinct ps" "set ps \<subseteq> allocated_pages m" "open_dirty_pages m = {}" "\<forall>p \<in> set ps. read_page_ref_counts m p = None"
    "allocated_since_commit m = []"
  shows "\<exists>m' D'. fold_opt rollback_page ps m = Some m' \<and> tm_inv contents l D' m' \<and> tm_pages l D' m' = tm_pages l D m |` (- set ps) \<and>
    (\<exists>f st. m' = m\<lparr>tm_state := st, allocated_pages := allocated_pages m - set ps, storage := f\<rparr> \<and> im_header st = im_header (tm_state m))"
  using assms
proof (induction ps arbitrary: m D)
  case Nil
  then show ?case by (auto intro!: exI[of _ m] exI[of _ D] exI[of _ "storage m"] exI[of _ "tm_state m"])
next
  case (Cons p ps)
  have p: "p \<in> allocated_pages m" "p \<notin> open_dirty_pages m" "read_page_ref_counts m p = None" "p \<notin> set (allocated_since_commit m)"
    using Cons.prems by auto
  obtain m1 D1 where m1: "rollback_page p m = Some m1" "tm_inv contents l D1 m1" "tm_pages l D1 m1 = (tm_pages l D m)(p := None)"
    "\<exists>f st. m1 = m\<lparr>tm_state := st, allocated_pages := allocated_pages m - {p}, storage := f\<rparr> \<and> im_header st = im_header (tm_state m)"
    by (rule rollback_page_spec[OF Cons.prems(1) p])
  then obtain f st where e: "m1 = m\<lparr>tm_state := st, allocated_pages := allocated_pages m - {p}, storage := f\<rparr>" "im_header st = im_header (tm_state m)"
    by blast
  have "\<exists>m' D'. fold_opt rollback_page ps m1 = Some m' \<and> tm_inv contents l D' m' \<and> tm_pages l D' m' = tm_pages l D1 m1 |` (- set ps) \<and>
    (\<exists>f st. m' = m1\<lparr>tm_state := st, allocated_pages := allocated_pages m1 - set ps, storage := f\<rparr> \<and> im_header st = im_header (tm_state m1))"
    by (rule Cons.IH[OF m1(2)]) (use Cons.prems e in auto)
  then obtain m' D' f' st' where m': "fold_opt rollback_page ps m1 = Some m'" "tm_inv contents l D' m'" "tm_pages l D' m' = tm_pages l D1 m1 |` (- set ps)"
    "m' = m1\<lparr>tm_state := st', allocated_pages := allocated_pages m1 - set ps, storage := f'\<rparr>" "im_header st' = im_header (tm_state m1)" by blast
  have "m' = m\<lparr>tm_state := st', allocated_pages := allocated_pages m - set (p # ps), storage := f'\<rparr>"
    unfolding m'(4) e(1) by (simp add: Diff_insert2[symmetric] insert_commute)
  moreover have "tm_pages l D' m' = tm_pages l D m |` (- set (p # ps))" unfolding m'(3) m1(3) by (auto simp: restrict_map_def fun_eq_iff)
  ultimately show ?case using m1(1) m'(1,2,5) e by auto
qed

lemma rollback_spec:
  assumes inv: "tm_inv contents l D m" and m: "open_dirty_pages m = {}" "\<not> needs_recovery m"
    "\<forall>p \<in> set (allocated_since_commit m). read_page_ref_counts m p = None"
  obtains m' D' where "rollback_uncommitted_writes m = Some (Inr (), m')" "tm_inv contents l D' m'"
    "tm_pages l D' m' = tm_pages l D m |` (- set (allocated_since_commit m))"
    "\<exists>f st. m' = m\<lparr>allocated_since_commit := [], tm_state := st, allocated_pages := allocated_pages m - set (allocated_since_commit m), storage := f\<rparr> \<and>
       im_header st = im_header (tm_state m)"
proof -
  let ?xs = "allocated_since_commit m" and ?m0 = "m\<lparr>allocated_since_commit := []\<rparr>"
  note i = tm_invD[OF inv]
  have inv0: "tm_inv contents l D ?m0" using inv by (auto simp: tm_inv_def tm_header_def)
  have "\<exists>m' D'. fold_opt rollback_page ?xs ?m0 = Some m' \<and> tm_inv contents l D' m' \<and> tm_pages l D' m' = tm_pages l D ?m0 |` (- set ?xs) \<and>
    (\<exists>f st. m' = ?m0\<lparr>tm_state := st, allocated_pages := allocated_pages ?m0 - set ?xs, storage := f\<rparr> \<and> im_header st = im_header (tm_state ?m0))"
    by (rule rollback_pages_spec[OF inv0]) (use m i in auto)
  then obtain m' D' where m': "fold_opt rollback_page ?xs ?m0 = Some m'" "tm_inv contents l D' m'" "tm_pages l D' m' = tm_pages l D ?m0 |` (- set ?xs)"
    "\<exists>f st. m' = ?m0\<lparr>tm_state := st, allocated_pages := allocated_pages ?m0 - set ?xs, storage := f\<rparr> \<and> im_header st = im_header (tm_state ?m0)" by blast
  have "fold_opt rollback_page xs (m\<lparr>allocated_since_commit := x\<rparr>) = map_option (\<lambda>m'. m'\<lparr>allocated_since_commit := x\<rparr>) (fold_opt rollback_page xs m)"
    for xs x and m :: "'s TransactionalMemory"
    by (induction xs arbitrary: m) (auto simp: rollback_page_since map_option_case split: option.splits bind_splits)
  from this[of ?xs "[]" m] obtain m1 where m1: "fold_opt rollback_page ?xs m = Some m1" "m1\<lparr>allocated_since_commit := []\<rparr> = m'"
    using m'(1) by (cases "fold_opt rollback_page ?xs m") auto
  have "rollback_uncommitted_writes_inner m = Some (Inr () :: StorageError + unit, m')"
    using m m1 by (auto simp: rollback_uncommitted_writes_inner_def st_bind_def st_assert_def st_lift_def assert_that_def)
  then have "rollback_uncommitted_writes m = Some (Inr (), m'\<lparr>needs_recovery := needs_recovery m'\<rparr>)"
    by (simp add: rollback_uncommitted_writes_def or_recover_def st_bind_def st_try_def st_update_def st_result_def)
  moreover have "tm_pages l D ?m0 = tm_pages l D m" by (simp add: tm_pages_def fun_eq_iff)
  ultimately show thesis using m'(2-4) by (intro that[of m' D']) auto
qed

lemma grow_spec:
  assumes inv: "tm_inv contents l D m" and n: "2 ^ n \<le> rl_num_pages (full_region_layout l)" and max: "num_regions l + 2 \<le> MAX_REGIONS"
  shows "st_ok (grow be n) m
    (\<lambda>_ m'. \<exists>l' D' st f. m' = m\<lparr>tm_state := st, storage := f\<rparr> \<and> relayout (tm_state m) st \<and> full_region_layout l' = full_region_layout l \<and>
       tm_inv contents l' D' m' \<and> tm_pages l' D' m' = tm_pages l D m \<and>
       (\<exists>i \<in> rt_free (region_tracker (im_allocators st)) n. \<not> no_block st (allocated_pages m) n i)) (\<lambda>_. tm_failed)"
proof -
  let ?P = "allocated_pages m" and ?ps = "page_size (im_header (tm_state m))"
  note i = tm_invD[OF inv]
  obtain h k where l: "layout_ok h (2 ^ k) ?ps l" "k \<le> MAX_MAX_PAGE_ORDER" "dh_layout (tm_header m) = Some l"
    using i(1) by (auto simp: state_ok_def tm_header_def)
  have full: "rl_num_pages (full_region_layout l) = 2 ^ k" "rl_header_pages (full_region_layout l) = h" using l(1) by (simp_all add: layout_ok_def)
  have nk: "n \<le> k" using n unfolding full(1) by (rule power_le_imp_le_exp[rotated]) simp
  obtain d l' al h' where g: "next_desired_size l n ?ps = Some d" "dl_calculate d (2 ^ k) h ?ps = Some l'"
    "total_pages l \<le> total_pages l'" "layout_ok h (2 ^ k) ?ps l'" "num_regions l' \<le> MAX_REGIONS"
    "resize_to (im_allocators (tm_state m)) l' = Some al" "set_layout (im_header (tm_state m)) l' = Some h'"
    "state_ok l' ?P \<lparr>im_header = h', im_allocators = al\<rparr>" "\<exists>a b. h' = (im_header (tm_state m))\<lparr>full_regions := a, trailing_partial_region_pages := b\<rparr>"
    "\<exists>i \<in> rt_free (region_tracker al) n. \<not> no_block \<lparr>im_header = h', im_allocators = al\<rparr> ?P n i"
    by (rule grow_state[OF i(1) l(1,2) nk max])
  let ?st = "\<lparr>im_header = h', im_allocators = al\<rparr>"
  have len: "dl_len l = Some (length D)" using i(4) by (simp add: file_inv_def)
  obtain n' where n': "dl_len l' = Some n'" "length D \<le> n'" using layout_grows(3)[OF l(1) g(4,3)] len by auto
  have fl: "full_region_layout l' = full_region_layout l" using l(1) g(4) by (simp add: layout_ok_def)
  have re: "relayout (tm_state m) ?st" using g(9) by (simp add: relayout_def)
  have res: "st_ok (on_storage (cf_resize be n')) m
     (\<lambda>_ m'. \<exists>f. m' = m\<lparr>storage := f\<rparr> \<and> tm_inv contents l' (resized n' D) (m\<lparr>tm_state := ?st, storage := f\<rparr>)) (\<lambda>_. tm_failed)"
  proof (rule on_storage_ok, rule st_ok_mono[OF file_relayout_spec[OF i(4,1,3) g(8) fl n'(1)]], goal_cases)
    case (1 x f)
    show ?case using tm_inv_state[OF inv g(8) re fl conjunct1[OF 1] order_refl] by (intro exI[of _ f]) simp
  qed
  have pages: "tm_pages l' (resized n' D) (m\<lparr>tm_state := st, storage := f\<rparr>) = tm_pages l D m" for f st
    using page_data_resized[OF i(1) _ len n'(2) fl] by (auto simp: tm_pages_def fun_eq_iff)
  show ?thesis unfolding grow_def
  proof (rule st_ok_lift_bind[of _ _ "(l', n')" m], goal_cases)
    case 1
    show ?case using l(3) g(1,2) full n' len i(9) by (simp add: tm_header_def assert_that_def)
  next
    case 2
    show ?case unfolding prod.case
    proof (rule st_ok_bind, rule st_ok_try, rule st_ok_mono[OF res], goal_cases)
      case (1 x m1)
      then obtain f where f: "m1 = m\<lparr>storage := f\<rparr>" "tm_inv contents l' (resized n' D) (m\<lparr>tm_state := ?st, storage := f\<rparr>)" by blast
      have "(do { al \<leftarrow> resize_to (im_allocators (tm_state m1)) l'; h \<leftarrow> set_layout (tm_header m1) l';
          Some ((), m1\<lparr>tm_state := \<lparr>im_header = h, im_allocators = al\<rparr>\<rparr>) }) = Some ((), m\<lparr>tm_state := ?st, storage := f\<rparr>)"
        using g(6,7) f(1) by (cases m) (simp add: tm_header_def)
      then show ?case unfolding sum.case
        by (rule st_ok_lift, use f(2) re fl pages g(10) in \<open>intro exI[of _ l'] exI[of _ "resized n' D"] exI[of _ ?st] exI[of _ f]\<close>) auto
    next
      case (2 e m1)
      then show ?case by (simp add: st_ok_seq tm_failed_def)
    qed
  qed
qed

lemma retry_found_page:
  assumes inv: "tm_inv contents l' D' m'" and st: "im_header st = im_header (tm_state m')" "state_ok l' (insert p (allocated_pages m)) st"
    and p: "page_order p = n" "p \<notin> allocated_pages m"
    and m': "m' = m\<lparr>tm_state := tm_state m', storage := storage m'\<rparr>" "relayout (tm_state m) (tm_state m')"
      "full_region_layout l' = full_region_layout l" "tm_pages l' D' m' = tm_pages l D m"
  shows "found_page contents l D m n p (m'\<lparr>tm_state := st\<rparr>)"
proof -
  note i = tm_invD[OF inv]
  have P: "allocated_pages m' = allocated_pages m" by (subst m'(1)) simp
  have ps: "DB_HEADER_SIZE \<le> page_size (im_header st)" using i(3) st(1) by simp
  have e: "m'\<lparr>tm_state := st\<rparr> = m\<lparr>tm_state := st, storage := storage m'\<rparr>" by (subst m'(1)) simp
  have f: "file_inv contents l' (insert p (allocated_pages m)) (open_dirty_pages m') (page_size (im_header (tm_state m'))) D' (storage m')"
    using file_alloc[OF i(4) _ ps] st(2) P by simp
  have "tm_inv contents l' D' (m'\<lparr>tm_state := st, storage := storage m', allocated_pages := insert p (allocated_pages m)\<rparr>)"
    by (rule tm_inv_state[OF inv st(2) relayout_refl[OF st(1)] refl f]) (auto simp: P)
  moreover have "m'\<lparr>tm_state := st, storage := storage m', allocated_pages := insert p (allocated_pages m)\<rparr> =
      m'\<lparr>tm_state := st\<rparr>\<lparr>allocated_pages := insert p (allocated_pages m)\<rparr>" by (cases m') simp
  moreover have "\<forall>q \<in> allocated_pages m. page_data l' D' q = page_data l D q"
    using m'(4) P by (auto simp: tm_pages_def fun_eq_iff split: if_splits)
  ultimately show ?thesis unfolding found_page_def using e p m'(3) relayout_trans[OF m'(2) relayout_refl[OF st(1)]] by auto
qed

lemma find_page_spec:
  assumes inv: "tm_inv contents l D m" and n: "2 ^ n \<le> rl_num_pages (full_region_layout l)" and max: "num_regions l + 2 \<le> MAX_REGIONS"
  shows "st_ok (find_page be n lowest) m (\<lambda>p m'. found_page contents l D m n p m') (\<lambda>_. tm_failed)"
proof -
  have nM: "n \<le> MAX_MAX_PAGE_ORDER"
  proof -
    obtain h k where l: "layout_ok h (2 ^ k) (page_size (im_header (tm_state m))) l" "k \<le> MAX_MAX_PAGE_ORDER"
      using tm_invD(1)[OF inv] by (auto simp: state_ok_def)
    then have "(2 :: nat) ^ n \<le> 2 ^ k" using n by (simp add: layout_ok_def)
    then have "n \<le> k" by (rule power_le_imp_le_exp[rotated]) simp
    then show ?thesis using l(2) by simp
  qed
  obtain r st where r: "retry n lowest m = Some (Inr r, m\<lparr>tm_state := st\<rparr>)" "im_header st = im_header (tm_state m)"
    "r = None \<Longrightarrow> tm_inv contents l D (m\<lparr>tm_state := st\<rparr>) \<and> (\<forall>i \<in> rt_free (region_tracker (im_allocators (tm_state m))) n. no_block (tm_state m) (allocated_pages m) n i)"
    "\<And>p. r = Some p \<Longrightarrow> page_order p = n \<and> p \<notin> allocated_pages m \<and> state_ok l (insert p (allocated_pages m)) st"
    by (rule retry_spec[OF inv nM, of lowest]) (rule that; assumption)
  show ?thesis unfolding find_page_def
  proof (rule st_ok_step, rule r(1), cases r)
    case (Some p)
    then show "st_ok (case r of Some p \<Rightarrow> st_return p | None \<Rightarrow> st_bind (grow be n) (\<lambda>_. st_bind (retry n lowest) (\<lambda>again.
         case again of Some p \<Rightarrow> st_return p | None \<Rightarrow> st_panic))) (m\<lparr>tm_state := st\<rparr>) (\<lambda>p m'. found_page contents l D m n p m') (\<lambda>_. tm_failed)"
      using retry_found_page[OF inv r(2), of p m n l D] r(4)[OF Some] relayout_refl by simp
  next
    case None
    let ?m1 = "m\<lparr>tm_state := st\<rparr>"
    have inv1: "tm_inv contents l D ?m1" using r(3)[OF None] by blast
    have "st_ok (st_bind (grow be n) (\<lambda>_. st_bind (retry n lowest) (\<lambda>again.
         case again of Some p \<Rightarrow> st_return p | None \<Rightarrow> st_panic))) ?m1 (\<lambda>p m'. found_page contents l D m n p m') (\<lambda>_. tm_failed)"
    proof (rule st_ok_bind, rule st_ok_mono[OF grow_spec[OF inv1 n max]], goal_cases)
      case (1 x m2)
      then obtain l' D' st2 f where m2: "m2 = ?m1\<lparr>tm_state := st2, storage := f\<rparr>" "relayout (tm_state ?m1) st2" "full_region_layout l' = full_region_layout l"
        "tm_inv contents l' D' m2" "tm_pages l' D' m2 = tm_pages l D ?m1"
        "\<exists>i \<in> rt_free (region_tracker (im_allocators st2)) n. \<not> no_block st2 (allocated_pages ?m1) n i" by blast
      have re: "relayout st st2" using m2(2) by simp
      have m2': "tm_state m2 = st2" "allocated_pages m2 = allocated_pages m" "m2 = m\<lparr>tm_state := tm_state m2, storage := storage m2\<rparr>"
        "relayout (tm_state m) (tm_state m2)" "tm_pages l' D' m2 = tm_pages l D m"
        using m2(1,5) relayout_trans[OF relayout_refl[OF r(2)] re] by (auto simp: tm_pages_def fun_eq_iff)
      obtain r2 st3 where r2: "retry n lowest m2 = Some (Inr r2, m2\<lparr>tm_state := st3\<rparr>)" "im_header st3 = im_header (tm_state m2)"
        "r2 = None \<Longrightarrow> tm_inv contents l' D' (m2\<lparr>tm_state := st3\<rparr>) \<and> (\<forall>i \<in> rt_free (region_tracker (im_allocators (tm_state m2))) n. no_block (tm_state m2) (allocated_pages m2) n i)"
        "\<And>p. r2 = Some p \<Longrightarrow> page_order p = n \<and> p \<notin> allocated_pages m2 \<and> state_ok l' (insert p (allocated_pages m2)) st3"
        by (rule retry_spec[OF m2(4) nM, of lowest]) (rule that; assumption)
      obtain p where p: "r2 = Some p" using r2(3) m2(6) m2' by (cases r2) auto
      have fp: "found_page contents l D m n p (m2\<lparr>tm_state := st3\<rparr>)"
        by (rule retry_found_page[OF m2(4) r2(2)]) (use r2(4)[OF p] m2' m2(3) in auto)
      show ?case by (rule st_ok_step, rule r2(1)) (simp add: p fp)
    qed
    then show "st_ok (case r of Some p \<Rightarrow> st_return p | None \<Rightarrow> st_bind (grow be n) (\<lambda>_. st_bind (retry n lowest) (\<lambda>again.
         case again of Some p \<Rightarrow> st_return p | None \<Rightarrow> st_panic))) (m\<lparr>tm_state := st\<rparr>) (\<lambda>p m'. found_page contents l D m n p m') (\<lambda>_. tm_failed)"
      by (simp add: None)
  qed
qed

lemma allocate_helper_spec:
  assumes inv: "tm_inv contents l D m" and n: "ceil_log2 (div_ceil sz (tm_page_size m)) = Some n" "sz \<le> 2 ^ n * tm_page_size m"
      "2 ^ n \<le> rl_num_pages (full_region_layout l)" and max: "num_regions l + 2 \<le> MAX_REGIONS"
  shows "st_ok (allocate_helper be sz lowest transactional) m (new_page contents l D m n transactional) (\<lambda>_. tm_failed)"
proof -
  note i = tm_invD[OF inv]
  have alloc: "allocate_helper be sz lowest transactional =
    st_bind (st_lift (\<lambda>m. do { n \<leftarrow> ceil_log2 (div_ceil sz (tm_page_size m)); Some (n, m) })) (\<lambda>order.
     st_bind (find_page be order lowest) (\<lambda>p.
     st_bind (st_assert (\<lambda>m. p \<notin> allocated_pages m \<and> read_page_ref_counts m p = None \<and> p \<notin> open_dirty_pages m)) (\<lambda>_.
     st_bind (st_update (\<lambda>m. m\<lparr>allocated_pages := insert p (allocated_pages m)\<rparr>)) (\<lambda>_.
     st_bind (if transactional then st_update (\<lambda>m. m\<lparr>allocated_since_commit := List.insert p (allocated_since_commit m)\<rparr>)
       else st_return ()) (\<lambda>_.
     st_bind (st_lift (\<lambda>m. do { r \<leftarrow> tm_range m p; Some (r, m) })) (\<lambda>(a, b).
     st_bind (on_storage (cf_write be a (b - a) True)) (\<lambda>mem.
     st_bind (st_assert (\<lambda>_. sz \<le> length mem)) (\<lambda>_.
     st_bind (st_assert (\<lambda>m. p \<notin> open_dirty_pages m)) (\<lambda>_.
     st_bind (st_update (\<lambda>m. m\<lparr>open_dirty_pages := insert p (open_dirty_pages m)\<rparr>)) (\<lambda>_.
     st_return (p, replicate (length mem) 0xFF)))))))))))"
    unfolding allocate_helper_def find_page_def st_bind_assoc ..
  show ?thesis unfolding alloc
  proof (rule st_ok_lift_bind[of _ _ n m], simp add: n(1), rule st_ok_bind, rule st_ok_mono[OF find_page_spec[OF inv n(3) max]], goal_cases)
    case (1 p m1)
    then obtain l' D' st f where F: "m1 = m\<lparr>tm_state := st, storage := f\<rparr>" "relayout (tm_state m) st"
      "full_region_layout l' = full_region_layout l" "page_order p = n" "p \<notin> allocated_pages m"
      "tm_inv contents l' D' (m1\<lparr>allocated_pages := insert p (allocated_pages m)\<rparr>)"
      "\<forall>q \<in> allocated_pages m. page_data l' D' q = page_data l D q" unfolding found_page_def by blast
    let ?since = "if transactional then List.insert p (allocated_since_commit m) else allocated_since_commit m"
    let ?m2 = "m\<lparr>tm_state := st, storage := f, allocated_pages := insert p (allocated_pages m), allocated_since_commit := ?since\<rparr>"
    have inv2: "tm_inv contents l' D' ?m2" using F(6) F(1) by (auto simp: tm_inv_def tm_header_def)
    note i2 = tm_invD[OF inv2]
    have p2: "p \<in> allocated_pages ?m2" "p \<notin> open_dirty_pages ?m2" "read_page_ref_counts m p = None" "p \<notin> open_dirty_pages m" using F(5) i(5,6) by auto
    obtain a b where a: "page_address l' p = Some (a, b)" "tm_range ?m2 p = Some (a, b)" by (rule tm_address[OF inv2 p2(1)])
    have len: "b - a = 2 ^ n * tm_page_size m" using state_range(6)[OF i2(1) p2(1) a(1)] i2(9) F(4) by simp
    have wr: "st_ok (on_storage (cf_write be a (b - a) True)) ?m2
        (\<lambda>bs m'. length bs = b - a \<and> (\<exists>g. m' = ?m2\<lparr>storage := g\<rparr> \<and> tm_inv contents l' D' (?m2\<lparr>storage := g, open_dirty_pages := insert p (open_dirty_pages m)\<rparr>)))
        (\<lambda>_. tm_failed)"
    proof (rule on_storage_ok, rule st_ok_mono[OF page_write_spec[OF i2(4,1,3) p2(1) a(1) i2(5) p2(2)]], goal_cases)
      case (1 bs g)
      have "tm_inv contents l' D' (?m2\<lparr>storage := g, open_dirty_pages := insert p (open_dirty_pages m)\<rparr>)"
        using inv2 p2 1 by (auto simp: tm_inv_def tm_header_def)
      then show ?case using 1 by blast
    qed
    have tail: "st_ok (st_bind (st_lift (\<lambda>m. do { r \<leftarrow> tm_range m p; Some (r, m) })) (\<lambda>(a, b).
       st_bind (on_storage (cf_write be a (b - a) True)) (\<lambda>mem.
       st_bind (st_assert (\<lambda>_. sz \<le> length mem)) (\<lambda>_.
       st_bind (st_assert (\<lambda>m. p \<notin> open_dirty_pages m)) (\<lambda>_.
       st_bind (st_update (\<lambda>m. m\<lparr>open_dirty_pages := insert p (open_dirty_pages m)\<rparr>)) (\<lambda>_.
       st_return (p, replicate (length mem) 0xFF))))))) ?m2 (new_page contents l D m n transactional) (\<lambda>_. tm_failed)"
    proof (rule st_ok_lift_bind[of _ _ "(a, b)" ?m2], simp add: a(2), unfold prod.case, rule st_ok_bind, rule st_ok_mono[OF wr], goal_cases)
      case (1 bs m3)
      then obtain g where g: "length bs = b - a" "m3 = ?m2\<lparr>storage := g\<rparr>"
        "tm_inv contents l' D' (?m2\<lparr>storage := g, open_dirty_pages := insert p (open_dirty_pages m)\<rparr>)" by blast
      have "new_page contents l D m n transactional (p, replicate (length bs) 0xFF) (m3\<lparr>open_dirty_pages := insert p (open_dirty_pages m3)\<rparr>)"
        unfolding new_page_def using F(2-5,7) g len
        by (intro exI[of _ l'] exI[of _ D'] exI[of _ st] exI[of _ g]) simp
      then show ?case using g(1,2) n(2) len p2(4) by (intro st_ok_assert) (simp_all add: st_ok_seq)
    qed
    show ?case by (rule st_ok_assert, use F(1,5) p2 in simp, cases transactional) (use tail F(1) in \<open>simp_all add: st_ok_seq\<close>)
  qed
qed

end

end
