(* ===== verification/Page_Commit.thy ===== *)
theory Page_Commit
  imports Page_Operations
begin

text \<open>
  Durable and non-durable commits of the page manager: what they leave on the storage and in memory.
\<close>

text \<open>The header of a commit.\<close>

lemma commit_prepare_ok:
  assumes h: "header_ok h" and r: "pred_option bh_ok ur" "pred_option bh_ok sr" "tid < 2 ^ 64"
  obtains h1 t where "commit_prepare h ur sr tid = Some h1" "header_ok h1" "dh_layout h1 = dh_layout h" "page_size h1 = page_size h"
    "secondary_slot h1 = Some t" "transaction_id t = tid" "user_root t = ur" "system_root t = sr"
proof -
  let ?i = "primary_slot_index h XOR 1"
  have i: "?i < 2" and len: "length (transaction_slots h) = 2" and ok: "\<forall>t \<in> set (transaction_slots h). th_ok t"
    using h xor_one[of "primary_slot_index h"] by (simp_all add: header_ok_def)
  let ?f = "\<lambda>s. s\<lparr>transaction_id := tid, user_root := ur, system_root := sr\<rparr>"
  let ?h = "h\<lparr>transaction_slots := (transaction_slots h)[?i := ?f (transaction_slots h ! ?i)]\<rparr>"
  have "th_ok (?f (transaction_slots h ! ?i))" using ok i len r nth_mem[of ?i "transaction_slots h"] by (auto simp: th_ok_def)
  then have "header_ok ?h" using h ok by (auto simp: header_ok_def dest!: set_update_subset_insert[THEN subsetD])
  moreover have "commit_prepare h ur sr tid = Some ?h" using i len by (simp add: commit_prepare_def update_secondary_slot_def)
  moreover have "secondary_slot ?h = Some (?f (transaction_slots h ! ?i))" using i len by (simp add: secondary_slot_def)
  ultimately show thesis by (intro that[of ?h "?f (transaction_slots h ! ?i)"]) (simp_all add: dh_layout_def)
qed

lemma commit_publish_slots:
  assumes "header_ok h"
  shows "primary_slot (commit_publish h tp) = secondary_slot h" "secondary_slot (commit_publish h tp) = primary_slot h" "dh_layout (commit_publish h tp) = dh_layout h" "page_size (commit_publish h tp) = page_size h"
proof -
  have "primary_slot_index h = 0 \<or> primary_slot_index h = 1" using assms by (auto simp: header_ok_def)
  then show "primary_slot (commit_publish h tp) = secondary_slot h" "secondary_slot (commit_publish h tp) = primary_slot h"
    "dh_layout (commit_publish h tp) = dh_layout h" "page_size (commit_publish h tp) = page_size h"
    by (auto simp: primary_slot_def secondary_slot_def commit_publish_def swap_primary_slot_def dh_layout_def)
qed

lemma page_data_header:
  assumes ok: "state_ok l P st" and ps: "DB_HEADER_SIZE \<le> page_size (im_header st)" and D': "put_slice D 0 bs = Some D'" "length bs = DB_HEADER_SIZE"
    and p: "p \<in> P"
  shows "page_data l D' p = page_data l D p"
proof -
  obtain a b where ab: "page_address l p = Some (a, b)" using state_addresses[OF ok p] by blast
  have "DB_HEADER_SIZE \<le> a" using state_range(3)[OF ok p ab] ps by simp
  then have "b \<le> 0 \<or> 0 + length bs \<le> a" using D'(2) by simp
  then show ?thesis using ab subslice_put_other[OF D'(1)] by (simp add: page_data_def)
qed

lemma state_ok_header:
  "state_ok l P st \<Longrightarrow> dh_layout h = dh_layout (im_header st) \<Longrightarrow> page_size h = page_size (im_header st) \<Longrightarrow> state_ok l P (st\<lparr>im_header := h\<rparr>)"
  by (simp add: state_ok_def)

text \<open>The state after a durable commit: the storage holds every page and a header that reads back as the new one.\<close>

definition commit_done :: "('s \<Rightarrow> bytes) \<Rightarrow> checksum_fn \<Rightarrow> BtreeHeader option \<Rightarrow> BtreeHeader option \<Rightarrow> nat \<Rightarrow> bool \<Rightarrow>
    DatabaseLayout \<Rightarrow> bytes \<Rightarrow> 's TransactionalMemory \<Rightarrow> 's TransactionalMemory \<Rightarrow> bool" where
  "commit_done contents xxh3 data_root sys_root tid two_phase l D m m' \<longleftrightarrow> (\<exists>l' D' bs t st f.
     tm_inv contents l' D' m' \<and> full_region_layout l' = full_region_layout l \<and> tm_pages l' D' m' = tm_pages l D m \<and>
     contents (cb_file (cf_file f)) = D' \<and> subslice D' 0 DB_HEADER_SIZE = Some bs \<and>
     dh_from_bytes xxh3 bs = Some (Inr (im_header st, \<lparr>invalid_magic_number = False, primary_corrupted = False, secondary_corrupted = False\<rparr>)) \<and>
     primary_slot (im_header st) = Some t \<and> transaction_id t = tid \<and> user_root t = data_root \<and> system_root t = sys_root \<and>
     secondary_slot (im_header st) = primary_slot (tm_header m) \<and> recovery_required (im_header st) = recovery_required (tm_header m) \<and> two_phase_commit (im_header st) = two_phase \<and>
     m' = m\<lparr>tm_state := st, storage := f, allocated_since_commit := [], unpersisted := [], read_from_secondary := False\<rparr>)"

context storage_backend
begin

lemma store_header_spec:
  assumes inv: "file_inv contents l P Q (page_size (im_header st)) D f" and ok: "state_ok l P st" and ps: "DB_HEADER_SIZE \<le> page_size (im_header st)"
    and Q: "Q \<subseteq> P" and h: "header_ok h"
  shows "st_ok (store_header be xxh3 h magic) f
    (\<lambda>_ f'. \<exists>bs D'. dh_to_bytes xxh3 h magic = Some bs \<and> put_slice D 0 bs = Some D' \<and> file_inv contents l P Q (page_size (im_header st)) D' f')
    (\<lambda>_ f'. io_failed (cf_file f'))"
proof -
  let ?B = "ext_map (page_exts l Q)" and ?E = "ext_map (all_exts l P)"
  have i: "cf_inv contents f ?B D" "cext f ?B \<subseteq>\<^sub>m ?E" "cf_page_size f = page_size (im_header st)" "dl_len l = Some (length D)"
    using inv by (simp_all add: file_inv_def)
  note X = state_exts[OF ok ps]
  have e0: "?E 0 = Some DB_HEADER_SIZE" using ext_map_iff[OF X] by (simp add: all_exts_def)
  have b0: "0 \<notin> dom ?B"
  proof
    assume "0 \<in> dom ?B"
    then obtain p b where p: "p \<in> P" "page_address l p = Some (0, b)" using Q unfolding ext_map_dom page_exts_def by blast
    show False using state_range(3)[OF ok p] ps header_size by simp
  qed
  obtain hp k where "layout_ok hp (2 ^ k) (page_size (im_header st)) l" using ok by (auto simp: state_ok_def)
  then have len: "DB_HEADER_SIZE \<le> length D" using layout_len i(4) ps by fastforce
  obtain bs where bs: "dh_to_bytes xxh3 h magic = Some bs" "length bs = DB_HEADER_SIZE"
    using dh_to_bytes_fields[OF h, of xxh3 magic] header_size by auto
  have fit: "cf_fits f ?B 0 DB_HEADER_SIZE" by (rule cext_fits[OF ext_map_disjoint[OF X] e0 i(2)])
  have len0: "0 + DB_HEADER_SIZE \<le> length D" "0 mod cf_page_size f = 0" using len by simp_all
  have w: "st_ok (cf_write be 0 DB_HEADER_SIZE True) f
     (\<lambda>mem f'. (length mem = DB_HEADER_SIZE \<and> cf_inv contents f' (?B(0 \<mapsto> DB_HEADER_SIZE)) D \<and> cext f' (?B(0 \<mapsto> DB_HEADER_SIZE)) \<subseteq>\<^sub>m ?E) \<and>
        cf_page_size f' = cf_page_size f) (\<lambda>_ f'. io_failed (cf_file f'))"
    by (rule st_keepsD[OF cf_write_keeps], rule st_ok_mono[OF write_spec[OF i(1) len0(2,1) fit b0]]) (use cext_upd[OF _ i(2) e0] in auto)
  show ?thesis unfolding store_header_def
  proof (rule st_ok_bind, rule st_ok_mono[OF w], goal_cases)
    case (1 mem f1)
    then have f1: "length mem = DB_HEADER_SIZE" "cf_inv contents f1 (?B(0 \<mapsto> DB_HEADER_SIZE)) D" "cext f1 (?B(0 \<mapsto> DB_HEADER_SIZE)) \<subseteq>\<^sub>m ?E"
      "cf_page_size f1 = cf_page_size f" by auto
    have "(?B(0 \<mapsto> DB_HEADER_SIZE)) 0 = Some (length bs)" using bs(2) by simp
    from drop_spec[OF f1(2) this] obtain f2 D' where d: "writable_page_drop 0 bs f1 = Some f2" "put_slice D 0 bs = Some D'"
      "cf_inv contents f2 ((?B(0 \<mapsto> DB_HEADER_SIZE))(0 := None)) D'" "cext f2 ((?B(0 \<mapsto> DB_HEADER_SIZE))(0 := None)) = cext f1 (?B(0 \<mapsto> DB_HEADER_SIZE))"
      "cf_page_size f2 = cf_page_size f1" by blast
    have B: "(?B(0 \<mapsto> DB_HEADER_SIZE))(0 := None) = ?B" using b0 by (auto simp: fun_eq_iff dom_def)
    have "file_inv contents l P Q (page_size (im_header st)) D' f2"
      using d(3,4)[unfolded B] d(5) f1(3,4) i(3,4) put_slice_length[OF d(2)] by (simp add: file_inv_def)
    then show ?case by (intro st_ok_lift[of _ _ "()" f2]) (use bs f1(1) d(1,2) in \<open>auto simp: assert_that_def\<close>)
  qed
qed

lemma write_header_spec:
  assumes "file_inv contents l P Q (page_size (im_header st)) D (storage m)" "state_ok l P st" "DB_HEADER_SIZE \<le> page_size (im_header st)" "Q \<subseteq> P" "header_ok h"
  shows "st_ok (write_header be xxh3 h) m
    (\<lambda>_ m'. \<exists>f bs D'. m' = m\<lparr>storage := f\<rparr> \<and> dh_to_bytes xxh3 h True = Some bs \<and> put_slice D 0 bs = Some D' \<and>
       file_inv contents l P Q (page_size (im_header st)) D' f) (\<lambda>_. tm_failed)"
  unfolding write_header_def by (rule on_storage_ok, rule st_ok_mono[OF store_header_spec[OF assms]]) blast+

lemma flush_pages_spec:
  assumes "file_inv contents l P {} ps D (storage m)"
  shows "st_ok (on_storage (cf_flush be)) m (\<lambda>_ m'. \<exists>f. m' = m\<lparr>storage := f\<rparr> \<and> file_inv contents l P {} ps D f \<and> contents (cb_file (cf_file f)) = D) (\<lambda>_. tm_failed)"
  by (rule on_storage_ok, rule st_ok_mono[OF file_flush_spec[OF assms]]) blast+

text \<open>Both writes of the header with their flushes.\<close>

lemma commit_writes_spec:
  assumes inv: "file_inv contents l P {} (page_size (im_header st)) D (storage m)" and ok: "state_ok l P st"
    and ps: "DB_HEADER_SIZE \<le> page_size (im_header st)" and h: "header_ok h1" "header_ok h2"
  shows "st_ok (st_bind (write_header be xxh3 h1) (\<lambda>_.
      st_bind (if two_phase then on_storage (cf_flush be) else st_return ()) (\<lambda>_.
      st_bind (write_header be xxh3 h2) (\<lambda>_. on_storage (cf_flush be))))) m
    (\<lambda>_ m'. \<exists>f bs D'. m' = m\<lparr>storage := f\<rparr> \<and> dh_to_bytes xxh3 h2 True = Some bs \<and> subslice D' 0 DB_HEADER_SIZE = Some bs \<and>
       file_inv contents l P {} (page_size (im_header st)) D' f \<and> contents (cb_file (cf_file f)) = D' \<and> (\<forall>p \<in> P. page_data l D' p = page_data l D p))
    (\<lambda>_. tm_failed)"
proof (rule st_ok_bind, rule st_ok_mono[OF write_header_spec[OF inv ok ps _ h(1)]], goal_cases)
  case (2 x m1)
  then obtain f1 b1 D1 where 1: "m1 = m\<lparr>storage := f1\<rparr>" "dh_to_bytes xxh3 h1 True = Some b1" "put_slice D 0 b1 = Some D1"
    "file_inv contents l P {} (page_size (im_header st)) D1 f1" by blast
  have len: "length b = DB_HEADER_SIZE" if "header_ok h" "dh_to_bytes xxh3 h True = Some b" for h b
    using header_image[OF that] header_size by simp
  have p1: "\<forall>p \<in> P. page_data l D1 p = page_data l D p" using page_data_header[OF ok ps 1(3) len[OF h(1) 1(2)]] by blast
  have mid: "st_ok (if two_phase then on_storage (cf_flush be) else st_return ()) m1
     (\<lambda>_ m2. \<exists>f. m2 = m\<lparr>storage := f\<rparr> \<and> file_inv contents l P {} (page_size (im_header st)) D1 f) (\<lambda>_. tm_failed)"
  proof (cases two_phase)
    case True
    have "file_inv contents l P {} (page_size (im_header st)) D1 (storage m1)" using 1 by simp
    note fl = flush_pages_spec[OF this]
    have "st_ok (on_storage (cf_flush be)) m1 (\<lambda>_ m2. \<exists>f. m2 = m\<lparr>storage := f\<rparr> \<and> file_inv contents l P {} (page_size (im_header st)) D1 f) (\<lambda>_. tm_failed)"
      by (rule st_ok_mono[OF fl]) (use 1(1) in auto)
    then show ?thesis using True by simp
  qed (use 1 in auto)
  show ?case
  proof (rule st_ok_bind, rule st_ok_mono[OF mid], goal_cases)
    case (1 x m2)
    then obtain f2 where m2: "m2 = m\<lparr>storage := f2\<rparr>" "file_inv contents l P {} (page_size (im_header st)) D1 (storage m2)" by auto
    show ?case
    proof (rule st_ok_bind, rule st_ok_mono[OF write_header_spec[OF m2(2) ok ps _ h(2)]], goal_cases)
      case (2 x m3)
      then obtain f3 b2 D2 where 3: "m3 = m2\<lparr>storage := f3\<rparr>" "dh_to_bytes xxh3 h2 True = Some b2" "put_slice D1 0 b2 = Some D2"
        "file_inv contents l P {} (page_size (im_header st)) D2 (storage m3)" by auto
      have sl: "subslice D2 0 DB_HEADER_SIZE = Some b2" using subslice_put_same[OF 3(3)] len[OF h(2) 3(2)] by simp
      have p2: "\<forall>p \<in> P. page_data l D2 p = page_data l D p" using page_data_header[OF ok ps 3(3) len[OF h(2) 3(2)]] p1 by simp
      show ?case by (rule st_ok_mono[OF flush_pages_spec[OF 3(4)]]) (use 3 m2 sl p2 in auto)
    qed simp_all
  qed simp
qed simp_all

lemma commit_shrink_spec:
  assumes ok: "state_ok l (allocated_pages m) (tm_state m)"
  shows "st_ok (if pol = Never then st_return False
       else st_lift (\<lambda>m. do { (shrunk, st) \<leftarrow> try_shrink (tm_state m) (pol = Maximum); Some (shrunk, m\<lparr>tm_state := st\<rparr>) })) m
    (\<lambda>shrunk m1. \<exists>st1 l1. m1 = m\<lparr>tm_state := st1\<rparr> \<and> state_ok l1 (allocated_pages m) st1 \<and> relayout (tm_state m) st1 \<and>
       full_region_layout l1 = full_region_layout l \<and> (\<not> shrunk \<longrightarrow> l1 = l)) E"
proof (cases "pol = Never")
  case False
  obtain shrunk st' l' where s: "try_shrink (tm_state m) (pol = Maximum) = Some (shrunk, st')" "state_ok l' (allocated_pages m) st'"
    "full_region_layout l' = full_region_layout l"
    "\<exists>a b. im_header st' = (im_header (tm_state m))\<lparr>full_regions := a, trailing_partial_region_pages := b\<rparr>" "the (dl_len l') \<le> the (dl_len l)"
    "\<not> shrunk \<Longrightarrow> st' = tm_state m \<and> l' = l" by (rule shrink_state[OF ok, of "pol = Maximum"]) (rule that; assumption)
  have "st_ok (st_lift (\<lambda>m. do { (shrunk, st) \<leftarrow> try_shrink (tm_state m) (pol = Maximum); Some (shrunk, m\<lparr>tm_state := st\<rparr>) })) m
    (\<lambda>shrunk m1. \<exists>st1 l1. m1 = m\<lparr>tm_state := st1\<rparr> \<and> state_ok l1 (allocated_pages m) st1 \<and> relayout (tm_state m) st1 \<and>
       full_region_layout l1 = full_region_layout l \<and> (\<not> shrunk \<longrightarrow> l1 = l)) E"
    by (rule st_ok_lift[of _ _ shrunk "m\<lparr>tm_state := st'\<rparr>"]) (use s in \<open>auto simp: relayout_def\<close>)
  then show ?thesis using False by simp
qed (use ok relayout_refl in \<open>auto intro!: exI[of _ "tm_state m"]\<close>)

text \<open>Truncating the file after the commit, if the layout shrank.\<close>

lemma commit_resize_spec:
  assumes inv: "file_inv contents l P {} (page_size (im_header st)) D (storage m)" and D: "contents (cb_file (cf_file (storage m))) = D"
    and ok: "state_ok l P st" "DB_HEADER_SIZE \<le> page_size (im_header st)" "state_ok l' P st'" "full_region_layout l' = full_region_layout l"
    and s: "\<not> shrunk \<longrightarrow> l' = l" "header_len h = dl_len l'" "\<not> needs_recovery m"
  shows "st_ok (if shrunk then
         st_bind (st_lift (\<lambda>m. do { n \<leftarrow> header_len h; Some (n, m) })) (\<lambda>n.
         st_bind (st_try (on_storage (cf_resize be n))) (\<lambda>result.
         st_bind (st_update (\<lambda>m. m\<lparr>needs_recovery := (needs_recovery m \<or> isl result)\<rparr>)) (\<lambda>_.
         st_result (\<lambda>_. Some result))))
       else st_return ()) m
    (\<lambda>_ m'. \<exists>f D'. m' = m\<lparr>storage := f\<rparr> \<and> file_inv contents l' P {} (page_size (im_header st)) D' f \<and> contents (cb_file (cf_file f)) = D' \<and>
       subslice D' 0 DB_HEADER_SIZE = subslice D 0 DB_HEADER_SIZE \<and> (\<forall>p \<in> P. page_data l' D' p = page_data l D p)) (\<lambda>_. tm_failed)"
proof (cases shrunk)
  case True
  have len: "dl_len l = Some (length D)" using inv by (simp add: file_inv_def)
  obtain h1 k1 h2 k2 where lo: "layout_ok h1 (2 ^ k1) (page_size (im_header st)) l" "layout_ok h2 (2 ^ k2) (page_size (im_header st')) l'"
    using ok(1,3) by (auto simp: state_ok_def)
  obtain n where n: "dl_len l' = Some n" using layout_len[OF lo(2)] by blast
  have ps: "page_size (im_header st') = page_size (im_header st)" using lo ok(4) by (simp add: layout_ok_def)
  have big: "DB_HEADER_SIZE \<le> n" "DB_HEADER_SIZE \<le> length D" using layout_len[OF lo(1)] layout_len[OF lo(2)] n len ps ok(2) by auto
  have pd: "page_data l' (resized n D) p = page_data l D p" if p: "p \<in> P" for p
  proof -
    obtain a b where ab: "page_address l p = Some (a, b)" using state_addresses[OF ok(1) p] by blast
    then have ab': "page_address l' p = Some (a, b)" using page_address_cong[OF ok(4)] by simp
    have "b \<le> length D" "b \<le> n" using state_range(4)[OF ok(1) p ab len] state_range(4)[OF ok(3) p ab' n] by auto
    then show ?thesis using ab ab' by (simp add: page_data_def subslice_resized)
  qed
  have res: "st_ok (on_storage (cf_resize be n)) m
     (\<lambda>_ m'. \<exists>f. m' = m\<lparr>storage := f\<rparr> \<and> file_inv contents l' P {} (page_size (im_header st)) (resized n D) f \<and> contents (cb_file (cf_file f)) = resized n D) (\<lambda>_. tm_failed)"
    by (rule on_storage_ok, rule st_ok_mono[OF file_relayout_spec[OF inv ok n]]) (use D in blast)+
  have "st_ok (st_bind (st_lift (\<lambda>m. do { n \<leftarrow> header_len h; Some (n, m) })) (\<lambda>n.
         st_bind (st_try (on_storage (cf_resize be n))) (\<lambda>result.
         st_bind (st_update (\<lambda>m. m\<lparr>needs_recovery := (needs_recovery m \<or> isl result)\<rparr>)) (\<lambda>_.
         st_result (\<lambda>_. Some result))))) m
    (\<lambda>_ m'. \<exists>f D'. m' = m\<lparr>storage := f\<rparr> \<and> file_inv contents l' P {} (page_size (im_header st)) D' f \<and> contents (cb_file (cf_file f)) = D' \<and>
       subslice D' 0 DB_HEADER_SIZE = subslice D 0 DB_HEADER_SIZE \<and> (\<forall>p \<in> P. page_data l' D' p = page_data l D p)) (\<lambda>_. tm_failed)"
  proof (rule st_ok_lift_bind[of _ _ n m], simp add: s(2) n, rule st_ok_bind, rule st_ok_try, rule st_ok_mono[OF res], goal_cases)
    case (1 x m1)
    then obtain f where f: "m1 = m\<lparr>storage := f\<rparr>" "file_inv contents l' P {} (page_size (im_header st)) (resized n D) f" "contents (cb_file (cf_file f)) = resized n D" by blast
    have "m1\<lparr>needs_recovery := False\<rparr> = m1" using f(1) s(3) by (cases m) simp
    then show ?case unfolding st_ok_seq using f pd s(3) big
      by (auto simp: st_result_def st_ok_def subslice_resized intro!: exI[of _ f] exI[of _ "resized n D"])
  next
    case (2 e m1)
    then show ?case unfolding st_ok_seq by (simp add: st_result_def st_ok_def tm_failed_def)
  qed
  then show ?thesis using True by simp
qed (use inv D s in \<open>auto intro!: exI[of _ "storage m"]\<close>)

lemma commit_inner_spec:
  assumes inv: "tm_inv contents l D m" and m: "open_dirty_pages m = {}" "\<not> needs_recovery m"
    and r: "pred_option bh_ok dr" "pred_option bh_ok sr" "tid < 2 ^ 64"
  shows "st_ok (commit_inner be xxh3 dr sr tid tp pol) m (\<lambda>_. commit_done contents xxh3 dr sr tid tp l D m) (\<lambda>_. tm_failed)"
proof -
  let ?P = "allocated_pages m" and ?ps = "page_size (im_header (tm_state m))"
  note i = tm_invD[OF inv]
  have fi: "file_inv contents l ?P {} ?ps D (storage m)" using i(4) m(1) by simp
  have regroup: "st_bind A (\<lambda>_. st_bind B (\<lambda>_. st_bind C (\<lambda>_. st_bind F (\<lambda>_. R)))) = st_bind (st_bind A (\<lambda>_. st_bind B (\<lambda>_. st_bind C (\<lambda>_. F)))) (\<lambda>_. R)"
    for A B C F :: "('s TransactionalMemory, StorageError, unit) sem" and R :: "('s TransactionalMemory, StorageError, unit) sem"
    by (simp add: st_bind_assoc)
  show ?thesis unfolding commit_inner_def Let_def
  proof (rule st_ok_assert, simp add: m, rule st_ok_assert, simp add: m, rule st_ok_bind, rule st_ok_mono[OF commit_shrink_spec[OF i(1)]], goal_cases)
    case (1 shrunk m1)
    then obtain st1 l1 where S: "m1 = m\<lparr>tm_state := st1\<rparr>" "state_ok l1 ?P st1" "relayout (tm_state m) st1" "full_region_layout l1 = full_region_layout l"
      "\<not> shrunk \<longrightarrow> l1 = l" by blast
    have h0: "header_ok (im_header st1)" using relayout_header_ok[OF S(2,3)] i(2) by (simp add: tm_header_def)
    have ps1: "page_size (im_header st1) = ?ps" by (rule relayout_page_size[OF S(3)])
    obtain h1 t where h1: "commit_prepare (im_header st1) dr sr tid = Some h1" "header_ok h1" "dh_layout h1 = dh_layout (im_header st1)"
      "page_size h1 = page_size (im_header st1)" "secondary_slot h1 = Some t" "transaction_id t = tid" "user_root t = dr" "system_root t = sr"
      by (rule commit_prepare_ok[OF h0 r])
    let ?h2 = "commit_publish h1 tp"
    note h2 = commit_publish_ok[OF h1(2), of tp] commit_publish_slots[OF h1(2), of tp]
    have hl: "header_len ?h2 = dl_len l1" using S(2) h2(4) h1(3) by (simp add: header_len_def state_ok_def)
    have hd: "tm_header m1 = im_header st1" using S(1) by (simp add: tm_header_def)
    have fi1: "file_inv contents l ?P {} ?ps D (storage m1)" using fi S(1) by simp
    show ?case unfolding st_ok_seq hd
    proof (rule st_ok_lift_bind[of _ _ h1 m1], simp add: h1(1), subst regroup, rule st_ok_bind,
        rule st_ok_mono[OF commit_writes_spec[OF fi1 i(1,3) h1(2) h2(1)]], goal_cases)
      case (1 x m2)
      then obtain f bs D2 where W: "m2 = m1\<lparr>storage := f\<rparr>" "dh_to_bytes xxh3 ?h2 True = Some bs" "subslice D2 0 DB_HEADER_SIZE = Some bs"
        "file_inv contents l ?P {} ?ps D2 (storage m2)" "contents (cb_file (cf_file (storage m2))) = D2" "\<forall>p \<in> ?P. page_data l D2 p = page_data l D p" by auto
      have nr: "\<not> needs_recovery m2" using m(2) W(1) S(1) by simp
      show ?case
      proof (rule st_ok_bind, rule st_ok_mono[OF commit_resize_spec[OF W(4,5) i(1,3) S(2,4,5) hl nr]], goal_cases)
        case (1 x m3)
        then obtain g D3 where R: "m3 = m2\<lparr>storage := g\<rparr>" "file_inv contents l1 ?P {} ?ps D3 g" "contents (cb_file (cf_file g)) = D3"
          "subslice D3 0 DB_HEADER_SIZE = subslice D2 0 DB_HEADER_SIZE" "\<forall>p \<in> ?P. page_data l1 D3 p = page_data l D2 p" by blast
        let ?st = "st1\<lparr>im_header := ?h2\<rparr>"
        let ?m = "m\<lparr>tm_state := ?st, storage := g, allocated_since_commit := [], unpersisted := [], read_from_secondary := False\<rparr>"
        have m3: "tm_header m3 = im_header st1" using R(1) W(1) S(1) by (simp add: tm_header_def)
        have fin: "update_header (\<lambda>_. ?h2) (m3\<lparr>allocated_since_commit := [], unpersisted := [], read_from_secondary := False\<rparr>) = ?m"
          unfolding R(1) W(1) S(1) by (cases m) (simp add: update_header_def)
        have sok: "state_ok l1 ?P ?st" by (rule state_ok_header[OF S(2)]) (use h2 h1 in simp_all)
        have inv': "tm_inv contents l1 D3 ?m" using inv sok h2 h1 R(2) S(4) ps1 m(1) by (simp add: tm_inv_def tm_header_def)
        have pages: "tm_pages l1 D3 ?m = tm_pages l D m" using R(5) W(6) by (auto simp: tm_pages_def fun_eq_iff)
        have rt: "dh_from_bytes xxh3 bs = Some (Inr (?h2, \<lparr>invalid_magic_number = False, primary_corrupted = False, secondary_corrupted = False\<rparr>))"
          using dh_round_trip[OF h2(1), of xxh3] W(2) by auto
        have "primary_slot h1 = primary_slot (tm_header m)" "recovery_required h1 = recovery_required (tm_header m)"
          using commit_prepare_fields(2,5)[OF h0 h1(1)] S(3) by (auto simp: relayout_def primary_slot_def tm_header_def)
        note keep = this
        have "commit_done contents xxh3 dr sr tid tp l D m ?m" unfolding commit_done_def
          using inv' S(4) pages R(3,4) W(3) rt h2(2,3) h1(5-8) keep by (intro exI[of _ l1] exI[of _ D3] exI[of _ bs] exI[of _ t] exI[of _ ?st] exI[of _ g]) simp
        then show ?case using fin m3 by (intro st_ok_assert) simp_all
      qed simp
    qed simp
  qed simp
qed

lemma commit_spec:
  assumes "tm_inv contents l D m" "open_dirty_pages m = {}" "\<not> needs_recovery m" "pred_option bh_ok dr" "pred_option bh_ok sr" "tid < 2 ^ 64"
  shows "st_ok (tm_commit be xxh3 dr sr tid tp pol) m (\<lambda>_. commit_done contents xxh3 dr sr tid tp l D m) (\<lambda>_ m'. tm_failed m' \<and> needs_recovery m')"
  unfolding tm_commit_def or_recover_def
proof (rule st_ok_bind, rule st_ok_try, rule st_ok_mono[OF commit_inner_spec[OF assms]], goal_cases)
  case (1 x m1)
  then have "m1\<lparr>needs_recovery := needs_recovery m1\<rparr> = m1" by simp
  then show ?case unfolding st_ok_seq using 1 by (simp add: st_result_def st_ok_def)
next
  case (2 e m1)
  then show ?case unfolding st_ok_seq by (simp add: st_result_def st_ok_def tm_failed_def)
qed

end

end
