(* ===== verification/Page_Store.thy ===== *)
theory Page_Store
  imports Page_Commit
begin

text \<open>
  The page manager as an abstract store of pages. The specification is a finite map from page numbers to contents,
  the set of pages allocated since the last commit, and the roots of the last commit; every operation of the page
  manager is simulated by a step of this store.
\<close>

subsection \<open>The specification\<close>

record PageStore =
  ps_pages :: "PageNumber \<rightharpoonup> bytes"
  ps_uncommitted :: "PageNumber set"
  ps_commit :: "BtreeHeader option \<times> BtreeHeader option \<times> nat"

datatype PmOp = PmRead PageNumber | PmCreate bool bytes | PmUpdate PageNumber bytes | PmFree PageNumber
  | PmCommit "BtreeHeader option" "BtreeHeader option" nat bool ShrinkPolicy
  | PmNonDurable "BtreeHeader option" "BtreeHeader option" nat
  | PmRollback

datatype PmResult = PmNothing | PmData bytes | PmPage PageNumber

text \<open>A new page gets a number no live page has; it starts with the client's bytes and is filled up to the size of its order.\<close>

inductive page_step :: "nat \<Rightarrow> PmOp \<Rightarrow> PageStore \<Rightarrow> PmResult \<Rightarrow> PageStore \<Rightarrow> bool" for sz :: nat where
  step_read: "ps_pages S p = Some bs \<Longrightarrow> page_step sz (PmRead p) S (PmData bs) S"
| step_create: "p \<notin> dom (ps_pages S) \<Longrightarrow> length data + k = 2 ^ page_order p * sz \<Longrightarrow>
    page_step sz (PmCreate lowest data) S (PmPage p)
      (S\<lparr>ps_pages := (ps_pages S)(p \<mapsto> data @ replicate k 0xFF), ps_uncommitted := insert p (ps_uncommitted S)\<rparr>)"
| step_update: "ps_pages S p = Some old \<Longrightarrow> page_step sz (PmUpdate p data) S (PmData old) (S\<lparr>ps_pages := (ps_pages S)(p \<mapsto> data)\<rparr>)"
| step_free: "page_step sz (PmFree p) S PmNothing (S\<lparr>ps_pages := (ps_pages S)(p := None), ps_uncommitted := ps_uncommitted S - {p}\<rparr>)"
| step_commit: "page_step sz (PmCommit dr sr tid tp pol) S PmNothing (S\<lparr>ps_uncommitted := {}, ps_commit := (dr, sr, tid)\<rparr>)"
| step_non_durable: "page_step sz (PmNonDurable dr sr tid) S PmNothing (S\<lparr>ps_uncommitted := {}, ps_commit := (dr, sr, tid)\<rparr>)"
| step_rollback: "page_step sz PmRollback S PmNothing (S\<lparr>ps_pages := ps_pages S |` (- ps_uncommitted S), ps_uncommitted := {}\<rparr>)"

text \<open>What the callers of the page manager guarantee.\<close>

fun pm_allowed :: "'s TransactionalMemory \<Rightarrow> PageStore \<Rightarrow> PmOp \<Rightarrow> bool" where
  "pm_allowed m S (PmRead p) = (p \<in> dom (ps_pages S))"
| "pm_allowed m S (PmCreate lowest data) = (case dh_layout (tm_header m) of
     Some l \<Rightarrow> length data \<le> rl_num_pages (full_region_layout l) * tm_page_size m \<and> num_regions l + 2 \<le> MAX_REGIONS | None \<Rightarrow> False)"
| "pm_allowed m S (PmUpdate p data) = (map_option length (ps_pages S p) = Some (length data))"
| "pm_allowed m S (PmFree p) = (p \<in> dom (ps_pages S))"
| "pm_allowed m S (PmCommit dr sr tid tp pol) = (pred_option bh_ok dr \<and> pred_option bh_ok sr \<and> tid < 2 ^ 64)"
| "pm_allowed m S (PmNonDurable dr sr tid) = (pred_option bh_ok dr \<and> pred_option bh_ok sr \<and> tid < 2 ^ 64)"
| "pm_allowed m S PmRollback = True"

subsection \<open>The implementation\<close>

text \<open>A client that drops every guard it gets.\<close>

fun pm_op :: "'s StorageBackend \<Rightarrow> checksum_fn \<Rightarrow> PmOp \<Rightarrow> ('s TransactionalMemory, StorageError, PmResult) sem" where
  "pm_op be xxh3 (PmRead p) = st_bind (get_page be p) (\<lambda>bs.
     st_bind (st_lift (\<lambda>m. map_option (Pair ()) (drop_page p m))) (\<lambda>_. st_return (PmData bs)))"
| "pm_op be xxh3 (PmCreate lowest data) = st_bind (allocate_helper be (length data) lowest True) (\<lambda>(p, mem).
     st_bind (st_lift (\<lambda>m. map_option (Pair ()) (drop_page_mut p (data @ drop (length data) mem) m))) (\<lambda>_. st_return (PmPage p)))"
| "pm_op be xxh3 (PmUpdate p data) = st_bind (get_page_mut be p) (\<lambda>old.
     st_bind (st_lift (\<lambda>m. map_option (Pair ()) (drop_page_mut p data m))) (\<lambda>_. st_return (PmData old)))"
| "pm_op be xxh3 (PmFree p) = st_bind (st_lift (tm_free p Ignore)) (\<lambda>_. st_return PmNothing)"
| "pm_op be xxh3 (PmCommit dr sr tid tp pol) = st_bind (tm_commit be xxh3 dr sr tid tp pol) (\<lambda>_. st_return PmNothing)"
| "pm_op be xxh3 (PmNonDurable dr sr tid) = st_bind (non_durable_commit be dr sr tid) (\<lambda>_. st_return PmNothing)"
| "pm_op be xxh3 PmRollback = st_bind rollback_uncommitted_writes (\<lambda>_. st_return PmNothing)"

text \<open>The states of the page manager that represent a store.\<close>

definition store_rel :: "('s \<Rightarrow> bytes) \<Rightarrow> 's TransactionalMemory \<Rightarrow> PageStore \<Rightarrow> bool" where
  "store_rel contents m S \<longleftrightarrow> open_dirty_pages m = {} \<and> read_page_ref_counts m = Map.empty \<and> \<not> needs_recovery m \<and>
     ps_uncommitted S = set (allocated_since_commit m) \<and>
     map_option (\<lambda>t. (user_root t, system_root t, transaction_id t)) (committed_slot m) = Some (ps_commit S) \<and>
     (\<exists>l D. tm_inv contents l D m \<and> ps_pages S = tm_pages l D m)"

lemma store_relI:
  assumes "tm_inv contents l D m" "open_dirty_pages m = {}" "read_page_ref_counts m = Map.empty" "\<not> needs_recovery m"
    "map_option (\<lambda>t. (user_root t, system_root t, transaction_id t)) (committed_slot m) = Some c" "U = set (allocated_since_commit m)" "A = tm_pages l D m"
  shows "store_rel contents m \<lparr>ps_pages = A, ps_uncommitted = U, ps_commit = c\<rparr>"
  using assms by (auto simp: store_rel_def)

lemma store_relD:
  assumes "store_rel contents m S"
  obtains l D c where "tm_inv contents l D m" "open_dirty_pages m = {}" "read_page_ref_counts m = Map.empty" "\<not> needs_recovery m"
    "map_option (\<lambda>t. (user_root t, system_root t, transaction_id t)) (committed_slot m) = Some c"
    "S = \<lparr>ps_pages = tm_pages l D m, ps_uncommitted = set (allocated_since_commit m), ps_commit = c\<rparr>"
  using assms by (cases S) (auto simp: store_rel_def)

lemma tm_pages_dom:
  assumes "tm_inv contents l D m"
  shows "dom (tm_pages l D m) = allocated_pages m"
    and "tm_pages l D m p = Some bs \<Longrightarrow> length bs = 2 ^ page_order p * tm_page_size m"
proof -
  note i = tm_invD[OF assms]
  have data: "\<exists>bs. page_data l D p = Some bs \<and> length bs = 2 ^ page_order p * tm_page_size m" if p: "p \<in> allocated_pages m" for p
  proof -
    obtain a b where ab: "page_address l p = Some (a, b)" using state_addresses[OF i(1) p] by blast
    have "dl_len l = Some (length D)" using i(4) by (simp add: file_inv_def)
    then have "b \<le> length D" "a < b" "b - a = 2 ^ page_order p * tm_page_size m" using state_range(2,4,6)[OF i(1) p ab] i(9) by auto
    then show ?thesis using ab by (simp add: page_data_def subslice_def)
  qed
  show "dom (tm_pages l D m) = allocated_pages m" using data by (auto simp: tm_pages_def dom_def split: if_splits)
  show "tm_pages l D m p = Some bs \<Longrightarrow> length bs = 2 ^ page_order p * tm_page_size m" using data by (fastforce simp: tm_pages_def split: if_splits)
qed

lemma committed_slot_keeps:
  "relayout (tm_state m) (tm_state m') \<Longrightarrow> read_from_secondary m' = read_from_secondary m \<Longrightarrow> committed_slot m' = committed_slot m"
  by (auto simp: relayout_def committed_slot_def tm_header_def primary_slot_def secondary_slot_def)

subsection \<open>Simulation\<close>

definition simulated :: "('s \<Rightarrow> bytes) \<Rightarrow> 's TransactionalMemory \<Rightarrow> PageStore \<Rightarrow> PmOp \<Rightarrow> PmResult \<Rightarrow> 's TransactionalMemory \<Rightarrow> bool" where
  "simulated contents m S x r m' \<longleftrightarrow> (\<exists>S'. page_step (tm_page_size m) x S r S' \<and> store_rel contents m' S')"

context storage_backend
begin

lemma sim_read:
  assumes rel: "store_rel contents m S" and ok: "pm_allowed m S (PmRead p)"
  shows "st_ok (pm_op be xxh3 (PmRead p)) m (simulated contents m S (PmRead p)) (\<lambda>_. tm_failed)"
proof -
  obtain l D c where R: "tm_inv contents l D m" "open_dirty_pages m = {}" "read_page_ref_counts m = Map.empty" "\<not> needs_recovery m"
    "map_option (\<lambda>t. (user_root t, system_root t, transaction_id t)) (committed_slot m) = Some c"
    "S = \<lparr>ps_pages = tm_pages l D m, ps_uncommitted = set (allocated_since_commit m), ps_commit = c\<rparr>" by (rule store_relD[OF rel])
  have p: "p \<in> allocated_pages m" "p \<notin> open_dirty_pages m" using ok R(2,6) tm_pages_dom(1)[OF R(1)] by auto
  show ?thesis unfolding pm_op.simps
  proof (rule st_ok_bind, rule st_ok_mono[OF get_page_spec[OF R(1) p]], goal_cases)
    case (1 bs m1)
    then obtain f where f: "tm_pages l D m p = Some bs" "tm_inv contents l D m1" "m1 = m\<lparr>storage := f, read_page_ref_counts := [p \<mapsto> 1]\<rparr>"
      using R(3) by auto
    let ?m = "m1\<lparr>read_page_ref_counts := Map.empty\<rparr>"
    have d: "drop_page p m1 = Some ?m" using f(3) by (simp add: drop_page_def page_impl_drop_def assert_that_def)
    have "tm_inv contents l D ?m" using f(2) by (auto simp: tm_inv_def tm_header_def)
    moreover have "committed_slot ?m = committed_slot m" using f(3) by (simp add: committed_slot_def tm_header_def)
    moreover have "tm_pages l D ?m = tm_pages l D m" using f(3) by (simp add: tm_pages_def fun_eq_iff)
    ultimately have "store_rel contents ?m S" using R f(3) unfolding R(6) by (intro store_relI[of _ l D]) simp_all
    moreover have "page_step (tm_page_size m) (PmRead p) S (PmData bs) S" using f(1) R(6) by (intro step_read) simp
    ultimately have "simulated contents m S (PmRead p) (PmData bs) ?m" unfolding simulated_def by blast
    then show ?case by (intro st_ok_lift_bind[of _ _ "()" ?m]) (simp_all add: d)
  qed simp
qed

text \<open>Returning the memory of a page.\<close>

lemma sim_drop:
  assumes inv: "tm_inv contents l' D' m1" and m1: "open_dirty_pages m1 = {p}" "length x = 2 ^ page_order p * tm_page_size m1"
    "read_page_ref_counts m1 = Map.empty" "\<not> needs_recovery m1"
    "map_option (\<lambda>t. (user_root t, system_root t, transaction_id t)) (committed_slot m1) = Some c"
    and step: "page_step (tm_page_size m) op S r \<lparr>ps_pages = (tm_pages l' D' m1)(p \<mapsto> x), ps_uncommitted = set (allocated_since_commit m1), ps_commit = c\<rparr>"
  shows "st_ok (st_bind (st_lift (\<lambda>m. map_option (Pair ()) (drop_page_mut p x m))) (\<lambda>_. st_return r)) m1 (simulated contents m S op) (\<lambda>_. tm_failed)"
proof -
  have "p \<in> open_dirty_pages m1" using m1(1) by simp
  from drop_page_mut_spec[OF inv this m1(2)] obtain m2 D2 where d: "drop_page_mut p x m1 = Some m2" "tm_inv contents l' D2 m2"
    "tm_pages l' D2 m2 = (tm_pages l' D' m1)(p \<mapsto> x)" "\<exists>f. m2 = m1\<lparr>open_dirty_pages := open_dirty_pages m1 - {p}, storage := f\<rparr>" by blast
  have "committed_slot m2 = committed_slot m1" using d(4) by (auto simp: committed_slot_def tm_header_def)
  then have "store_rel contents m2 \<lparr>ps_pages = (tm_pages l' D' m1)(p \<mapsto> x), ps_uncommitted = set (allocated_since_commit m1), ps_commit = c\<rparr>"
    using m1 d by (intro store_relI[of _ l' D2]) auto
  then have "simulated contents m S op r m2" using step unfolding simulated_def by blast
  then show ?thesis by (intro st_ok_lift_bind[of _ _ "()" m2]) (simp_all add: d(1))
qed

lemma sim_update:
  assumes rel: "store_rel contents m S" and ok: "pm_allowed m S (PmUpdate p data)"
  shows "st_ok (pm_op be xxh3 (PmUpdate p data)) m (simulated contents m S (PmUpdate p data)) (\<lambda>_. tm_failed)"
proof -
  obtain l D c where R: "tm_inv contents l D m" "open_dirty_pages m = {}" "read_page_ref_counts m = Map.empty" "\<not> needs_recovery m"
    "map_option (\<lambda>t. (user_root t, system_root t, transaction_id t)) (committed_slot m) = Some c"
    "S = \<lparr>ps_pages = tm_pages l D m, ps_uncommitted = set (allocated_since_commit m), ps_commit = c\<rparr>" by (rule store_relD[OF rel])
  obtain old where old: "tm_pages l D m p = Some old" "length old = length data" using ok R(6) by (auto simp: map_option_case split: option.splits)
  have p: "p \<in> allocated_pages m" "p \<notin> open_dirty_pages m" "read_page_ref_counts m p = None"
    using old(1) R(2,3) tm_pages_dom(1)[OF R(1)] by auto
  show ?thesis unfolding pm_op.simps
  proof (rule st_ok_bind, rule st_ok_mono[OF get_page_mut_spec[OF R(1) p]], goal_cases)
    case (1 bs m1)
    then obtain f where f: "bs = old" "tm_inv contents l D m1" "m1 = m\<lparr>storage := f, open_dirty_pages := {p}\<rparr>"
      using old(1) R(2) by auto
    have "tm_pages l D m1 = tm_pages l D m" using f(3) by (simp add: tm_pages_def fun_eq_iff)
    then have "page_step (tm_page_size m) (PmUpdate p data) S (PmData bs)
        \<lparr>ps_pages = (tm_pages l D m1)(p \<mapsto> data), ps_uncommitted = set (allocated_since_commit m1), ps_commit = c\<rparr>"
      using step_update[of S p old "tm_page_size m" data] old(1) f R(6) by simp
    then show ?case
      by (rule sim_drop[OF f(2), rotated 5]) (use f(3) R old tm_pages_dom(2)[OF R(1) old(1)] in \<open>auto simp: committed_slot_def tm_header_def\<close>)
  qed simp
qed

lemma sim_create:
  assumes rel: "store_rel contents m S" and ok: "pm_allowed m S (PmCreate lowest data)"
  shows "st_ok (pm_op be xxh3 (PmCreate lowest data)) m (simulated contents m S (PmCreate lowest data)) (\<lambda>_. tm_failed)"
proof -
  obtain l D c where R: "tm_inv contents l D m" "open_dirty_pages m = {}" "read_page_ref_counts m = Map.empty" "\<not> needs_recovery m"
    "map_option (\<lambda>t. (user_root t, system_root t, transaction_id t)) (committed_slot m) = Some c"
    "S = \<lparr>ps_pages = tm_pages l D m, ps_uncommitted = set (allocated_since_commit m), ps_commit = c\<rparr>" by (rule store_relD[OF rel])
  note i = tm_invD[OF R(1)]
  obtain h k where l: "dh_layout (tm_header m) = Some l" "layout_ok h (2 ^ k) (tm_page_size m) l" "k \<le> MAX_MAX_PAGE_ORDER"
    using i(1,9) by (auto simp: state_ok_def tm_header_def)
  have cap: "rl_num_pages (full_region_layout l) = 2 ^ k" "0 < tm_page_size m" using l(2) by (simp_all add: layout_ok_def)
  have lim: "length data \<le> 2 ^ k * tm_page_size m" "num_regions l + 2 \<le> MAX_REGIONS" using ok l(1) cap by simp_all
  have "div_ceil (length data) (tm_page_size m) \<le> 2 ^ k" using lim(1) cap(2) by (simp add: div_ceil_le_iff)
  then obtain n where n: "ceil_log2 (div_ceil (length data) (tm_page_size m)) = Some n" "n \<le> k" "div_ceil (length data) (tm_page_size m) \<le> 2 ^ n"
    using ceil_log2_correct[of "div_ceil (length data) (tm_page_size m)" k] l(3) by (auto simp: MAX_MAX_PAGE_ORDER_def)
  have n': "length data \<le> 2 ^ n * tm_page_size m" "2 ^ n \<le> rl_num_pages (full_region_layout l)"
    using n(2,3) cap by (simp_all add: div_ceil_le_iff)
  show ?thesis unfolding pm_op.simps
  proof (rule st_ok_bind, rule st_ok_mono[OF allocate_helper_spec[OF R(1) n(1) n' lim(2)]], goal_cases)
    case (1 r m1)
    obtain p mem where r: "r = (p, mem)" by (cases r)
    obtain l' D' st f where F: "mem = replicate (2 ^ n * tm_page_size m) 0xFF" "page_order p = n" "p \<notin> allocated_pages m" "relayout (tm_state m) st"
      "m1 = m\<lparr>tm_state := st, storage := f, allocated_pages := insert p (allocated_pages m), open_dirty_pages := insert p (open_dirty_pages m),
         allocated_since_commit := List.insert p (allocated_since_commit m)\<rparr>"
      "tm_inv contents l' D' m1" "\<forall>q \<in> allocated_pages m. page_data l' D' q = page_data l D q"
      using 1 unfolding new_page_def r by auto
    let ?pad = "2 ^ n * tm_page_size m - length data"
    have x: "data @ drop (length data) mem = data @ replicate ?pad 0xFF" using F(1) by simp
    have upd: "(tm_pages l' D' m1)(p \<mapsto> y) = (tm_pages l D m)(p \<mapsto> y)" for y using F(5,7) by (auto simp: tm_pages_def fun_eq_iff)
    have "p \<notin> dom (ps_pages S)" using R(6) tm_pages_dom(1)[OF R(1)] F(3) by simp
    from step_create[OF this, of data ?pad "tm_page_size m" lowest]
    have "page_step (tm_page_size m) (PmCreate lowest data) S (PmPage p)
        \<lparr>ps_pages = (tm_pages l' D' m1)(p \<mapsto> data @ replicate ?pad 0xFF), ps_uncommitted = set (allocated_since_commit m1), ps_commit = c\<rparr>"
      using F(2,5) n'(1) R(6) unfolding upd by simp
    moreover have "committed_slot m1 = committed_slot m" by (rule committed_slot_keeps) (use F(4,5) in simp_all)
    ultimately show ?case unfolding r prod.case x
      by (intro sim_drop[OF F(6)]) (use F(2,5) R n'(1) in simp_all)
  qed simp
qed

lemma sim_free:
  assumes rel: "store_rel contents m S" and ok: "pm_allowed m S (PmFree p)"
  shows "st_ok (pm_op be xxh3 (PmFree p)) m (simulated contents m S (PmFree p)) (\<lambda>_. tm_failed)"
proof -
  obtain l D c where R: "tm_inv contents l D m" "open_dirty_pages m = {}" "read_page_ref_counts m = Map.empty" "\<not> needs_recovery m"
    "map_option (\<lambda>t. (user_root t, system_root t, transaction_id t)) (committed_slot m) = Some c"
    "S = \<lparr>ps_pages = tm_pages l D m, ps_uncommitted = set (allocated_since_commit m), ps_commit = c\<rparr>" by (rule store_relD[OF rel])
  let ?m = "m\<lparr>allocated_since_commit := removeAll p (allocated_since_commit m)\<rparr>"
  have inv: "tm_inv contents l D ?m" using R(1) by (auto simp: tm_inv_def tm_header_def distinct_removeAll)
  have p: "p \<in> allocated_pages ?m" "p \<notin> open_dirty_pages ?m" "read_page_ref_counts ?m p = None" "p \<notin> set (allocated_since_commit ?m)"
    using ok R(2,3,6) tm_pages_dom(1)[OF R(1)] by auto
  from free_helper_spec[OF inv p, of Ignore Ignore] obtain m' D' where m': "free_helper p Ignore ?m = Some (Ignore, m')" "tm_inv contents l D' m'"
    "tm_pages l D' m' = (tm_pages l D ?m)(p := None)"
    "\<exists>f st. m' = ?m\<lparr>tm_state := st, allocated_pages := allocated_pages ?m - {p}, storage := f\<rparr> \<and> im_header st = im_header (tm_state ?m)" by auto
  have "committed_slot m' = committed_slot m" using m'(4) by (auto simp: committed_slot_def tm_header_def)
  moreover have "tm_pages l D ?m = tm_pages l D m" by (simp add: tm_pages_def fun_eq_iff)
  ultimately have "store_rel contents m' \<lparr>ps_pages = (ps_pages S)(p := None), ps_uncommitted = ps_uncommitted S - {p}, ps_commit = c\<rparr>"
    using R m' by (intro store_relI[of _ l D']) auto
  moreover have "page_step (tm_page_size m) (PmFree p) S PmNothing \<lparr>ps_pages = (ps_pages S)(p := None), ps_uncommitted = ps_uncommitted S - {p}, ps_commit = c\<rparr>"
    using step_free[of "tm_page_size m" p S] R(6) by simp
  ultimately have "simulated contents m S (PmFree p) PmNothing m'" unfolding simulated_def by blast
  then show ?thesis unfolding pm_op.simps by (intro st_ok_lift_bind[of _ _ Ignore m']) (simp_all add: tm_free_def m'(1))
qed

lemma sim_rollback:
  assumes rel: "store_rel contents m S"
  shows "st_ok (pm_op be xxh3 PmRollback) m (simulated contents m S PmRollback) (\<lambda>_. tm_failed)"
proof -
  obtain l D c where R: "tm_inv contents l D m" "open_dirty_pages m = {}" "read_page_ref_counts m = Map.empty" "\<not> needs_recovery m"
    "map_option (\<lambda>t. (user_root t, system_root t, transaction_id t)) (committed_slot m) = Some c"
    "S = \<lparr>ps_pages = tm_pages l D m, ps_uncommitted = set (allocated_since_commit m), ps_commit = c\<rparr>" by (rule store_relD[OF rel])
  have none: "\<forall>p \<in> set (allocated_since_commit m). read_page_ref_counts m p = None" using R(3) by simp
  obtain m' D' where m': "rollback_uncommitted_writes m = Some (Inr (), m')" "tm_inv contents l D' m'"
    "tm_pages l D' m' = tm_pages l D m |` (- set (allocated_since_commit m))"
    "\<exists>f st. m' = m\<lparr>allocated_since_commit := [], tm_state := st, allocated_pages := allocated_pages m - set (allocated_since_commit m), storage := f\<rparr> \<and>
       im_header st = im_header (tm_state m)" by (rule rollback_spec[OF R(1,2,4) none])
  have "committed_slot m' = committed_slot m" using m'(4) by (auto simp: committed_slot_def tm_header_def)
  then have "store_rel contents m' \<lparr>ps_pages = ps_pages S |` (- ps_uncommitted S), ps_uncommitted = {}, ps_commit = c\<rparr>"
    using R m' by (intro store_relI[of _ l D']) auto
  moreover have "page_step (tm_page_size m) PmRollback S PmNothing \<lparr>ps_pages = ps_pages S |` (- ps_uncommitted S), ps_uncommitted = {}, ps_commit = c\<rparr>"
    using step_rollback[of "tm_page_size m" S] R(6) by simp
  ultimately have "simulated contents m S PmRollback PmNothing m'" unfolding simulated_def by blast
  then show ?thesis unfolding pm_op.simps by (intro st_ok_step[of _ _ "()" m']) (simp_all add: m'(1))
qed

lemma sim_commit:
  assumes rel: "store_rel contents m S" and ok: "pm_allowed m S (PmCommit dr sr tid tp pol)"
  shows "st_ok (pm_op be xxh3 (PmCommit dr sr tid tp pol)) m (simulated contents m S (PmCommit dr sr tid tp pol)) (\<lambda>_. tm_failed)"
proof -
  obtain l D c where R: "tm_inv contents l D m" "open_dirty_pages m = {}" "read_page_ref_counts m = Map.empty" "\<not> needs_recovery m"
    "map_option (\<lambda>t. (user_root t, system_root t, transaction_id t)) (committed_slot m) = Some c"
    "S = \<lparr>ps_pages = tm_pages l D m, ps_uncommitted = set (allocated_since_commit m), ps_commit = c\<rparr>" by (rule store_relD[OF rel])
  have r: "pred_option bh_ok dr" "pred_option bh_ok sr" "tid < 2 ^ 64" using ok by simp_all
  show ?thesis unfolding pm_op.simps
  proof (rule st_ok_bind, rule st_ok_mono[OF commit_spec[OF R(1,2,4) r]], goal_cases)
    case (1 x m1)
    then obtain l' D' t st f where C: "tm_inv contents l' D' m1" "tm_pages l' D' m1 = tm_pages l D m" "primary_slot (im_header st) = Some t"
      "transaction_id t = tid" "user_root t = dr" "system_root t = sr"
      "m1 = m\<lparr>tm_state := st, storage := f, allocated_since_commit := [], unpersisted := [], read_from_secondary := False\<rparr>"
      unfolding commit_done_def by blast
    have "committed_slot m1 = Some t" using C(3,7) by (simp add: committed_slot_def tm_header_def)
    then have "store_rel contents m1 \<lparr>ps_pages = ps_pages S, ps_uncommitted = {}, ps_commit = (dr, sr, tid)\<rparr>"
      using R C by (intro store_relI[of _ l' D']) auto
    moreover have "page_step (tm_page_size m) (PmCommit dr sr tid tp pol) S PmNothing \<lparr>ps_pages = ps_pages S, ps_uncommitted = {}, ps_commit = (dr, sr, tid)\<rparr>"
      using step_commit[of "tm_page_size m" dr sr tid tp pol S] R(6) by simp
    ultimately show ?case by (auto simp: simulated_def)
  qed simp
qed

lemma sim_non_durable:
  assumes rel: "store_rel contents m S" and ok: "pm_allowed m S (PmNonDurable dr sr tid)"
  shows "st_ok (pm_op be xxh3 (PmNonDurable dr sr tid)) m (simulated contents m S (PmNonDurable dr sr tid)) (\<lambda>_. tm_failed)"
proof -
  obtain l D c where R: "tm_inv contents l D m" "open_dirty_pages m = {}" "read_page_ref_counts m = Map.empty" "\<not> needs_recovery m"
    "map_option (\<lambda>t. (user_root t, system_root t, transaction_id t)) (committed_slot m) = Some c"
    "S = \<lparr>ps_pages = tm_pages l D m, ps_uncommitted = set (allocated_since_commit m), ps_commit = c\<rparr>" by (rule store_relD[OF rel])
  note i = tm_invD[OF R(1)]
  have r: "pred_option bh_ok dr" "pred_option bh_ok sr" "tid < 2 ^ 64" using ok by simp_all
  obtain h1 t where h1: "commit_prepare (tm_header m) dr sr tid = Some h1" "header_ok h1" "dh_layout h1 = dh_layout (tm_header m)"
    "page_size h1 = page_size (tm_header m)" "secondary_slot h1 = Some t" "transaction_id t = tid" "user_root t = dr" "system_root t = sr"
    by (rule commit_prepare_ok[OF i(2) r])
  let ?m0 = "m\<lparr>unpersisted := fold List.insert (allocated_since_commit m) (unpersisted m), allocated_since_commit := []\<rparr>"
  have fi: "file_inv contents l (allocated_pages m) {} (page_size (im_header (tm_state m))) D (storage ?m0)" using i(4) R(2) by simp
  have fl: "st_ok (on_storage (write_barrier be)) ?m0
      (\<lambda>_ m1. \<exists>f. m1 = ?m0\<lparr>storage := f\<rparr> \<and> file_inv contents l (allocated_pages m) {} (page_size (im_header (tm_state m))) D f) (\<lambda>_. tm_failed)"
    unfolding write_barrier_def by (rule on_storage_ok, rule st_ok_mono[OF file_flush_spec[OF fi]]) blast+
  show ?thesis unfolding pm_op.simps non_durable_commit_def st_bind_assoc
  proof (rule st_ok_assert, simp add: R, rule st_ok_assert, simp add: R, unfold st_ok_seq, rule st_ok_bind, rule st_ok_mono[OF fl], goal_cases)
    case (1 x m1)
    then obtain f where f: "m1 = ?m0\<lparr>storage := f\<rparr>" "file_inv contents l (allocated_pages m) {} (page_size (im_header (tm_state m))) D f" by blast
    let ?m2 = "update_header (\<lambda>_. h1) m1" and ?m3 = "update_header (\<lambda>_. h1) m1\<lparr>read_from_secondary := True\<rparr>"
    have "state_ok l (allocated_pages m) ((tm_state m)\<lparr>im_header := h1\<rparr>)"
      by (rule state_ok_header[OF i(1)]) (use h1(3,4) in \<open>simp_all add: tm_header_def\<close>)
    then have inv3: "tm_inv contents l D ?m3" using R(1,2) f h1(2,4) by (simp add: tm_inv_def tm_header_def update_header_def)
    have "committed_slot ?m3 = Some t" using h1(5) by (simp add: committed_slot_def tm_header_def update_header_def)
    moreover have "tm_pages l D ?m3 = tm_pages l D m" using f(1) by (simp add: tm_pages_def fun_eq_iff update_header_def)
    ultimately have "store_rel contents ?m3 \<lparr>ps_pages = ps_pages S, ps_uncommitted = {}, ps_commit = (dr, sr, tid)\<rparr>"
      using inv3 R f(1) h1(6-8) by (intro store_relI[of _ l D]) (auto simp: update_header_def)
    moreover have "page_step (tm_page_size m) (PmNonDurable dr sr tid) S PmNothing \<lparr>ps_pages = ps_pages S, ps_uncommitted = {}, ps_commit = (dr, sr, tid)\<rparr>"
      using step_non_durable[of "tm_page_size m" dr sr tid S] R(6) by simp
    ultimately have "simulated contents m S (PmNonDurable dr sr tid) PmNothing ?m3" unfolding simulated_def by blast
    moreover have "tm_header m1 = tm_header m" using f(1) by (simp add: tm_header_def)
    ultimately show ?case by (intro st_ok_lift_bind[of _ _ "()" ?m2]) (simp_all add: st_ok_seq h1(1))
  qed simp
qed

lemma sim_op:
  assumes "store_rel contents m S" "pm_allowed m S x"
  shows "st_ok (pm_op be xxh3 x) m (simulated contents m S x) (\<lambda>_. tm_failed)"
proof (cases x)
  case PmRead
  show ?thesis unfolding PmRead by (rule sim_read[OF assms(1) assms(2)[unfolded PmRead]])
next
  case PmCreate
  show ?thesis unfolding PmCreate by (rule sim_create[OF assms(1) assms(2)[unfolded PmCreate]])
next
  case PmUpdate
  show ?thesis unfolding PmUpdate by (rule sim_update[OF assms(1) assms(2)[unfolded PmUpdate]])
next
  case PmFree
  show ?thesis unfolding PmFree by (rule sim_free[OF assms(1) assms(2)[unfolded PmFree]])
next
  case PmCommit
  show ?thesis unfolding PmCommit by (rule sim_commit[OF assms(1) assms(2)[unfolded PmCommit]])
next
  case PmNonDurable
  show ?thesis unfolding PmNonDurable by (rule sim_non_durable[OF assms(1) assms(2)[unfolded PmNonDurable]])
next
  case PmRollback
  show ?thesis unfolding PmRollback by (rule sim_rollback[OF assms(1)])
qed

end

end
