(* ===== verification/Page_Open.thy ===== *)
theory Page_Open
  imports Page_Store
begin

text \<open>
  Creating a database in an empty storage and opening one: the state the page manager starts with represents an
  empty store of pages, and a file that was closed cleanly is opened with the header it holds.
\<close>

subsection \<open>The initial layout\<close>

lemma power_of_two: "is_power_of_two (2 ^ k)"
  by (simp add: is_power_of_two_def bit_length_pow)

lemma initial_tracker_size: "\<exists>v. rt_to_vec (rt_new INITIAL_REGIONS (MAX_MAX_PAGE_ORDER + 1)) = Some v \<and> length v \<le> 100000"
proof -
  let ?b = "bt_new 1000 MAX_REGIONS"
  have ok: "rt_ok 1000 (rt_new 1000 (MAX_MAX_PAGE_ORDER + 1))" using rt_new_correct(1)[of 1000] by (simp add: MAX_REGIONS_def)
  have h: "length (bt_heights ?b) \<le> 4"
    using bt_new_levels_height[of MAX_REGIONS 3 1000] by (simp add: bt_new_def MAX_REGIONS_def)
  have b: "bt_inv ?b" "bt_size ?b = 1000" using ok by (auto simp: rt_ok_def rt_new_def MAX_MAX_PAGE_ORDER_def)
  obtain w where w: "bt_to_vec ?b = Some w" using bt_to_vec_bounded[OF b(1)] h b(2) by auto
  have "length (bt_heights ?b) * (16 + bt_size ?b) \<le> 4 * 1016" using h b(2) by (simp add: mult_right_mono)
  then have lw: "length w \<le> 4068" using bt_to_vec_length[OF b(1) w] by simp
  have m: "map_opt bt_to_vec (replicate n ?b) = Some (replicate n w)" for n
    using map_opt_all_Some[of "replicate n ?b" bt_to_vec "\<lambda>_. w"] w by (auto simp: map_replicate_const)
  have c: "length (concat (map (\<lambda>v. le_bytes 4 (length v)) (replicate n w))) = 4 * n" "length (concat (replicate n w)) = n * length w" for n
    by (induction n) auto
  let ?n = "MAX_MAX_PAGE_ORDER + 1"
  have "rt_to_vec (rt_new 1000 ?n) =
      Some (le_bytes 4 ?n @ concat (map (\<lambda>v. le_bytes 4 (length v)) (replicate ?n w)) @ concat (replicate ?n w))"
    unfolding rt_to_vec_def rt_new_def using lw by (simp only: RegionTracker.simps m length_replicate) (simp add: assert_that_def MAX_MAX_PAGE_ORDER_def)
  moreover have "4 + (4 * ?n + ?n * length w) \<le> 100000" using lw by (simp add: MAX_MAX_PAGE_ORDER_def)
  ultimately show ?thesis using c[of ?n] by (simp only: INITIAL_REGIONS_def length_append length_le_bytes) auto
qed

lemma initial_layout_ok:
  assumes ps: "DB_HEADER_SIZE \<le> ps" "ps < 2 ^ 32" and j: "j \<le> MAX_MAX_PAGE_ORDER"
  obtains l where "initial_layout ps (2 ^ j * ps) = Some l" "layout_ok NO_HEADER (2 ^ j) ps l" "num_regions l \<le> MAX_REGIONS"
proof -
  obtain v where v: "rt_to_vec (rt_new INITIAL_REGIONS (MAX_MAX_PAGE_ORDER + 1)) = Some v" "length v \<le> 100000"
    using initial_tracker_size by blast
  let ?d = "max MIN_DESIRED_USABLE_BYTES (ps * MIN_USABLE_PAGES) + ps * div_ceil (length v) ps"
  have pos: "0 < ps" "336 \<le> ps" using ps(1) header_size by simp_all
  have "(2 :: nat) ^ j \<le> 2 ^ 20" using j by (intro power_increasing) (auto simp: MAX_MAX_PAGE_ORDER_def)
  then have cap: "(0 :: nat) < 2 ^ j" "(2 :: nat) ^ j < 2 ^ 32" by simp_all
  have "ps * div_ceil (length v) ps = round_up_to_multiple_of (length v) ps"
    using round_up_div(1,2)[OF pos(1), of "length v"] by (metis dvd_mult_div_cancel)
  then have "ps * div_ceil (length v) ps < length v + ps" using round_up_div[OF pos(1), of "length v"] by simp
  then have d: "?d \<le> 1148576 + 11 * ps" "0 < ?d" using v(2) by (auto simp: MIN_DESIRED_USABLE_BYTES_def MIN_USABLE_PAGES_def)
  have "1148576 * 1 \<le> 1148576 * ps" using pos by (intro mult_le_mono2) simp
  moreover have "ps \<le> 2 ^ j * ps" "0 < 2 ^ j * ps" using pos by simp_all
  ultimately have "?d < 4294967296 * (2 ^ j * ps)" using d(1) by linarith
  then have "?d div (2 ^ j * ps) < 4294967296" by (rule less_mult_imp_div_less)
  then have dd: "?d div (2 ^ j * ps) < 2 ^ 32" by simp
  obtain l where l: "dl_calculate ?d (2 ^ j) NO_HEADER ps = Some l" "layout_ok NO_HEADER (2 ^ j) ps l" "dl_usable_bytes l < ?d + ps"
    using dl_calculate_correct[OF cap(1) pos(1) d(2) cap(2) dd] by blast
  have u: "total_pages l * ps < 1148576 + 12 * ps" using l(3) layout_total(1)[OF l(2)] d(1) by linarith
  have "total_pages l \<le> 2 ^ 20"
  proof (rule ccontr)
    assume "\<not> ?thesis"
    then have "1048576 * ps \<le> total_pages l * ps" by (intro mult_right_mono) auto
    then show False using u pos(2) by linarith
  qed
  also have "(2 :: nat) ^ 20 \<le> MAX_REGIONS * 2 ^ j" by (simp add: MAX_REGIONS_def)
  finally have n: "num_regions l \<le> MAX_REGIONS" by (simp add: layout_regions_le[OF l(2)])
  have "2 ^ j * ps div ps = 2 ^ j" using pos(1) by simp
  then have "initial_layout ps (2 ^ j * ps) = Some l" using v(1) l(1) cap(2) ps(2) by (simp add: initial_layout_def assert_that_def)
  then show thesis using that l(2) n by blast
qed

text \<open>The header of a new file.\<close>

lemma new_header_ok:
  assumes l: "layout_ok hp (2 ^ k) ps l" "k \<le> MAX_MAX_PAGE_ORDER" "num_regions l \<le> MAX_REGIONS" "hp < 2 ^ 32" "ps < 2 ^ 32" "pred_option (\<lambda>s. length s = 16) slt"
  obtains h where "dh_new l 0 slt = Some h" "dh_layout h = Some l" "header_ok h" "page_size h = ps" "primary_slot h = Some (th_new 0)"
proof -
  obtain h where h: "dh_new l 0 slt = Some h" "dh_layout h = Some l" "region_max_data_pages h = 2 ^ k"
    "region_header_pages h = hp" "page_size h = ps" "transaction_slots h = [th_new 0, th_new 0]" "primary_slot_index h = 0" "length (salt h) = 16"
    using l by (cases l; cases "trailing_partial_region l"; cases slt)
      (auto simp: dh_new_def Let_def slot_offsets dh_layout_def rl_new_def dl_new_def layout_ok_def assert_that_def)
  have "(2 :: nat) ^ k \<le> 2 ^ 20" using l(2) by (intro power_increasing) (auto simp: MAX_MAX_PAGE_ORDER_def)
  then have small: "(2 :: nat) ^ k < 2 ^ 32" "MAX_REGIONS < 2 ^ 32" by (simp_all add: MAX_REGIONS_def)
  have "full_regions h \<le> num_regions l" using h(2) by (auto simp: dh_layout_def dl_new_def num_regions_def split: bind_splits if_splits)
  then have a: "full_regions h < 2 ^ 32" using l(3) small(2) by linarith
  have "trailing_partial_region_pages h \<le> 2 ^ k"
    using h(2) l(1) by (auto simp: dh_layout_def dl_new_def rl_new_def layout_ok_def assert_that_def split: bind_splits if_splits)
  then have "trailing_partial_region_pages h < 2 ^ 32" using small(1) by linarith
  moreover have "th_ok (th_new 0)" by (simp add: th_ok_def th_new_def)
  ultimately have "header_ok h" using a h small(1) l(4,5) by (simp add: header_ok_def)
  then show thesis using that h by (simp add: primary_slot_def)
qed

lemma fresh_state:
  assumes "dh_layout h = Some l" "layout_ok hp (2 ^ k) (page_size h) l" "k \<le> MAX_MAX_PAGE_ORDER" "num_regions l \<le> MAX_REGIONS"
  obtains al where "im_new h = Some \<lparr>im_header = h, im_allocators = al\<rparr>" "state_ok l {} \<lparr>im_header = h, im_allocators = al\<rparr>"
proof -
  have "(2 :: nat) ^ k \<le> 2 ^ 20" using assms(3) by (intro power_increasing) (auto simp: MAX_MAX_PAGE_ORDER_def)
  then have "(2 :: nat) ^ k < 2 ^ 32" by simp
  from al_new_correct[OF assms(2) this assms(4)] obtain al where al: "al_new l = Some al" "al_inv (2 ^ k) al (\<lambda>_. {})" "fits_layout al l" by blast
  have "page_blocks {} = (\<lambda>_. {})" by (simp add: page_blocks_def fun_eq_iff)
  moreover have "rl_num_pages (full_region_layout l) = 2 ^ k" using assms(2) by (simp add: layout_ok_def)
  ultimately have "state_ok l {} \<lparr>im_header = h, im_allocators = al\<rparr>" unfolding state_ok_def using assms al by auto
  then show thesis using that al(1) assms(1) by (simp add: im_new_def)
qed

subsection \<open>Opening\<close>

text \<open>The record that \<open>tm_new\<close> builds represents the empty store.\<close>

definition tm_fresh :: "'s PagedCachedFile \<Rightarrow> InMemoryState \<Rightarrow> nat \<Rightarrow> RegionLayout \<Rightarrow> bool \<Rightarrow> 's TransactionalMemory" where
  "tm_fresh f st ps full unclean = \<lparr>allocated_since_commit = [], unpersisted = [], needs_recovery = unclean, storage = f, tm_state = st,
     open_dirty_pages = {}, read_page_ref_counts = Map.empty, allocated_pages = {}, read_from_secondary = False,
     tm_page_size = ps, region_size = rl_len full, region_header_with_padding_size = fst (rl_data_section full)\<rparr>"

lemma fresh_store:
  assumes st: "state_ok l {} st" "header_ok (im_header st)" "DB_HEADER_SIZE \<le> page_size (im_header st)"
    and f: "file_inv contents l {} {} (page_size (im_header st)) D f" and t: "primary_slot (im_header st) = Some t"
  shows "store_rel contents (tm_fresh f st (page_size (im_header st)) (full_region_layout l) False)
    \<lparr>ps_pages = Map.empty, ps_uncommitted = {}, ps_commit = (user_root t, system_root t, transaction_id t)\<rparr>"
proof -
  let ?m = "tm_fresh f st (page_size (im_header st)) (full_region_layout l) False"
  obtain h k where "layout_ok h (2 ^ k) (page_size (im_header st)) l" using st(1) by (auto simp: state_ok_def)
  then have "rl_page_size (full_region_layout l) = page_size (im_header st)" by (simp add: layout_ok_def)
  then have "tm_inv contents l D ?m" using st f by (simp add: tm_inv_def tm_header_def tm_fresh_def rl_data_section_def Let_def)
  then show ?thesis using t by (intro store_relI) (auto simp: tm_fresh_def committed_slot_def tm_header_def tm_pages_def)
qed

lemma file_inv_empty:
  assumes "cf_inv contents f Map.empty D" "cext f Map.empty \<subseteq>\<^sub>m [0 \<mapsto> DB_HEADER_SIZE]" "cf_page_size f = ps" "dl_len l = Some (length D)"
  shows "file_inv contents l {} {} ps D f"
proof -
  have "ext_map (page_exts l {}) = Map.empty" by (simp add: ext_map_def page_exts_def fun_eq_iff)
  moreover have "ext_map (all_exts l {}) = [0 \<mapsto> DB_HEADER_SIZE]" by (auto simp: ext_map_def all_exts_def page_exts_def fun_eq_iff)
  ultimately show ?thesis using assms by (simp add: file_inv_def)
qed

lemma file_inv_cong: "file_inv contents l P Q ps D f \<Longrightarrow> contents (cb_file c) = contents (cb_file (cf_file f)) \<Longrightarrow> file_inv contents l P Q ps D (f\<lparr>cf_file := c\<rparr>)"
  using cf_wf_cong[of "f\<lparr>cf_file := c\<rparr>" f] by (simp add: file_inv_def cf_inv_def cext_def)

text \<open>A header read from a file, as \<open>tm_open\<close> needs it.\<close>

definition holds_header :: "checksum_fn \<Rightarrow> DatabaseHeader \<Rightarrow> bytes \<Rightarrow> bool" where
  "holds_header xxh3 h D \<longleftrightarrow> (\<exists>bs. subslice D 0 DB_HEADER_SIZE = Some bs \<and>
     dh_from_bytes xxh3 bs = Some (Inr (h, \<lparr>invalid_magic_number = False, primary_corrupted = False, secondary_corrupted = False\<rparr>)))"

lemma holds_header_written:
  assumes "header_ok h" "subslice D 0 DB_HEADER_SIZE = Some bs" "dh_to_bytes xxh3 h True = Some bs"
  shows "holds_header xxh3 h D"
  using dh_round_trip[OF assms(1), of xxh3] assms(2,3) by (auto simp: holds_header_def)

text \<open>Only the header of a file changed.\<close>

definition rewritten :: "bytes \<Rightarrow> bytes \<Rightarrow> bool" where
  "rewritten D D' \<longleftrightarrow> (\<exists>bs. length bs = DB_HEADER_SIZE \<and> put_slice D 0 bs = Some D')"

lemma rewritten_length: "rewritten D D' \<Longrightarrow> length D' = length D"
  by (auto simp: rewritten_def put_slice_length)

lemma rewritten_header: "header_ok h \<Longrightarrow> dh_to_bytes xxh3 h True = Some bs \<Longrightarrow> put_slice D 0 bs = Some D' \<Longrightarrow> rewritten D D'"
  using header_image[of h xxh3 bs] header_size unfolding rewritten_def by (metis (no_types))

lemma pick_primary_keeps:
  assumes "header_ok h" "primary_slot h = Some p" "secondary_slot h = Some q" "transaction_id q \<le> transaction_id p"
  shows "pick_primary_for_repair h \<lparr>invalid_magic_number = False, primary_corrupted = False, secondary_corrupted = False\<rparr> = Some (Inr (h, True))"
  using assms by (simp add: pick_primary_for_repair_def)

lemma layout_normal_len:
  assumes "layout_ok h cap ps l"
  shows "dl_len (layout_normal l) = dl_len l" "num_regions (layout_normal l) = num_regions l"
proof -
  show n: "num_regions (layout_normal l) = num_regions l" using layout_normal_same(1)[OF assms] by (simp add: same_regions_def)
  obtain x y where xy: "dl_len l = Some x" "dl_len (layout_normal l) = Some y" using layout_len[OF assms] layout_len[OF layout_normal_ok[OF assms]] by blast
  then show "dl_len (layout_normal l) = dl_len l"
    using layout_usable[OF assms xy(1)] layout_usable[OF layout_normal_ok[OF assms] xy(2)] n layout_normal_same(2)[OF assms] by simp
qed

lemma layout_header_ok:
  assumes "header_ok h" "dh_layout h' = Some l'" "layout_ok hp (2 ^ k) ps l'" "k \<le> MAX_MAX_PAGE_ORDER" "num_regions l' \<le> MAX_REGIONS"
    "h' = h\<lparr>full_regions := a, trailing_partial_region_pages := b\<rparr>" "page_size h = ps"
  shows "header_ok h'"
proof -
  obtain al where "state_ok l' {} \<lparr>im_header = h', im_allocators = al\<rparr>" using fresh_state[OF assms(2) _ assms(4,5)] assms(3,6,7) by auto
  moreover have "relayout \<lparr>im_header = h, im_allocators = al\<rparr> \<lparr>im_header = h', im_allocators = al\<rparr>" using assms(6) by (auto simp: relayout_def)
  ultimately show ?thesis using relayout_header_ok assms(1) by (metis InMemoryState.select_convs(1))
qed

text \<open>What a new file holds: a clean header of the first, empty commit.\<close>

definition new_file :: "checksum_fn \<Rightarrow> nat \<Rightarrow> nat \<Rightarrow> DatabaseLayout \<Rightarrow> DatabaseHeader \<Rightarrow> bytes \<Rightarrow> bool" where
  "new_file xxh3 j ps l h D \<longleftrightarrow> layout_ok NO_HEADER (2 ^ j) ps l \<and> num_regions l \<le> MAX_REGIONS \<and> dl_len l = Some (length D) \<and>
     header_ok h \<and> dh_layout h = Some l \<and> page_size h = ps \<and> \<not> recovery_required h \<and> primary_slot h = Some (th_new 0) \<and>
     holds_header xxh3 h D"

lemma holds_header_magic:
  assumes "holds_header xxh3 h D"
  shows "subslice D 0 (0 + length MAGICNUMBER) = Some MAGICNUMBER" "length MAGICNUMBER \<le> length D" "0 < length D"
proof -
  obtain bs where bs: "subslice D 0 DB_HEADER_SIZE = Some bs"
    "dh_from_bytes xxh3 bs = Some (Inr (h, \<lparr>invalid_magic_number = False, primary_corrupted = False, secondary_corrupted = False\<rparr>))"
    using assms by (auto simp: holds_header_def)
  have m: "subslice bs 0 (length MAGICNUMBER) = Some MAGICNUMBER"
    using bs(2) unfolding dh_from_bytes_def by (auto simp: bind_Some_iff and_then_Inr_iff Let_def split_def)
  have len: "DB_HEADER_SIZE \<le> length D" "bs = take DB_HEADER_SIZE D" using bs(1) by (auto simp: subslice_def split: if_splits)
  have nine: "length MAGICNUMBER = 9" by (simp add: MAGICNUMBER_def)
  show "subslice D 0 (0 + length MAGICNUMBER) = Some MAGICNUMBER" "length MAGICNUMBER \<le> length D" "0 < length D"
    using m len nine header_size by (auto simp: subslice_def min_def split: if_splits)
qed

text \<open>The region size \<open>tm_open\<close> uses is a power of two of pages.\<close>

lemma region_space:
  assumes "ps = 2 ^ i" "R = 2 ^ r" "i \<le> r"
  obtains j where "min R ((MAX_PAGE_INDEX + 1) * ps) = 2 ^ j * ps" "j \<le> MAX_MAX_PAGE_ORDER" "is_power_of_two (min R ((MAX_PAGE_INDEX + 1) * ps))"
proof -
  have "(MAX_PAGE_INDEX + 1) * ps = 2 ^ (20 + i)" unfolding assms(1) power_add by (simp add: MAX_PAGE_INDEX_def)
  then have "min R ((MAX_PAGE_INDEX + 1) * ps) = 2 ^ min r (20 + i)" using assms(2) by (auto simp: min_def power_increasing_iff)
  moreover have "(2 :: nat) ^ min r (20 + i) = 2 ^ min (r - i) 20 * ps" using assms(1,3) by (auto simp: min_def power_add[symmetric])
  ultimately show thesis using power_of_two[of "min r (20 + i)"] by (intro that[of "min (r - i) 20"]) (simp_all add: MAX_MAX_PAGE_ORDER_def)
qed

context storage_backend
begin

lemma direct_spec:
  assumes "contents (cb_file (cf_file f)) = D"
  shows "st_ok (read_direct be off n) f (\<lambda>bs f'. subslice D off (off + n) = Some bs \<and> (\<exists>c. f' = f\<lparr>cf_file := c\<rparr> \<and> contents (cb_file c) = D)) (\<lambda>_ f'. io_failed (cf_file f'))"
  unfolding read_direct_def by (rule st_ok_mono[OF on_file_ok[OF cb_read_ok]]) (use assms in auto)

lemma raw_len_spec:
  assumes "contents (cb_file (cf_file f)) = D"
  shows "st_ok (raw_file_len be) f (\<lambda>n f'. n = length D \<and> (\<exists>c. f' = f\<lparr>cf_file := c\<rparr> \<and> contents (cb_file c) = D)) (\<lambda>_ f'. io_failed (cf_file f'))"
  unfolding raw_file_len_def by (rule st_ok_mono[OF on_file_ok[OF cb_len_ok]]) (use assms in auto)

text \<open>A file that was closed cleanly is opened with the header it holds.\<close>

lemma open_header_spec:
  assumes D: "contents (cb_file (cf_file f)) = D" "holds_header xxh3 h D"
    and h: "page_size h = ps" "header_len h = Some (length D)" "\<not> recovery_required h"
  shows "st_ok (open_header be xxh3 ps read_only) f
    (\<lambda>(h', unclean) f'. h' = h \<and> \<not> unclean \<and> (\<exists>c. f' = f\<lparr>cf_file := c\<rparr> \<and> contents (cb_file c) = D)) (\<lambda>_ f'. io_failed (cf_file f'))"
proof -
  let ?info = "\<lparr>invalid_magic_number = False, primary_corrupted = False, secondary_corrupted = False\<rparr>"
  obtain bs where bs: "subslice D 0 DB_HEADER_SIZE = Some bs" "dh_from_bytes xxh3 bs = Some (Inr (h, ?info))"
    using D(2) by (auto simp: holds_header_def)
  have len: "st_ok (raw_file_len be) (f\<lparr>cf_file := c\<rparr>) (\<lambda>n f'. n = length D \<and> (\<exists>c. f' = f\<lparr>cf_file := c\<rparr> \<and> contents (cb_file c) = D)) (\<lambda>_ f'. io_failed (cf_file f'))"
    if "contents (cb_file c) = D" for c
    by (rule st_ok_mono[OF raw_len_spec]) (use that in auto)
  show ?thesis unfolding open_header_def
  proof (rule st_ok_bind, rule st_ok_map_err, rule st_ok_mono[OF direct_spec[OF D(1)]], goal_cases)
    case (1 b f1)
    then obtain c1 where c1: "b = bs" "f1 = f\<lparr>cf_file := c1\<rparr>" "contents (cb_file c1) = D" using bs(1) by auto
    show ?case
    proof (rule st_ok_step[of _ _ "(h, ?info)" f1], goal_cases)
      case 2
      show ?case unfolding prod.case
      proof (rule st_ok_assert, simp add: h, unfold c1(2), rule st_ok_bind, rule st_ok_map_err, rule st_ok_mono[OF len[OF c1(3)]], goal_cases)
        case (1 n f2)
        then obtain c2 where c2: "n = length D" "f2 = f\<lparr>cf_file := c2\<rparr>" "contents (cb_file c2) = D" by auto
        have len2: "st_ok (if recovery_required h then st_return True
           else st_bind (st_map_err database_from_storage (raw_file_len be)) (\<lambda>n. st_return (length D \<noteq> n))) f2
           (\<lambda>u f3. \<not> u \<and> (\<exists>c. f3 = f\<lparr>cf_file := c\<rparr> \<and> contents (cb_file c) = D)) (\<lambda>_ f'. io_failed (cf_file f'))"
          unfolding c2(2) using h(3) by simp (rule st_ok_bind, rule st_ok_map_err, rule st_ok_mono[OF len[OF c2(3)]], auto)
        show ?case
        proof (rule st_ok_lift_bind[of _ _ "length D" f2], simp add: h c2 assert_that_def, rule st_ok_bind, rule st_ok_mono[OF len2], goal_cases)
          case (1 u f3)
          then obtain c3 where c3: "\<not> u" "f3 = f\<lparr>cf_file := c3\<rparr>" "contents (cb_file c3) = D" by auto
          show ?case unfolding c3(2) using c3(1)
            by simp (rule st_ok_bind, rule st_ok_map_err, rule st_ok_mono[OF len[OF c3(3)]], auto intro!: st_ok_assert simp: h)
        qed simp
      qed simp
    qed (use c1 bs(2) in \<open>simp add: st_result_def\<close>)
  qed simp
qed

text \<open>The state of a file that was just initialised.\<close>

lemma init_header_spec:
  assumes inv: "file_inv contents l {} {} (page_size (im_header st)) D f" and st: "state_ok l {} st" "DB_HEADER_SIZE \<le> page_size (im_header st)" and h: "header_ok h"
  shows "st_ok (st_bind (store_header be xxh3 h magic) (\<lambda>_. cf_flush be)) f
    (\<lambda>_ f'. \<exists>bs D'. dh_to_bytes xxh3 h magic = Some bs \<and> put_slice D 0 bs = Some D' \<and> subslice D' 0 DB_HEADER_SIZE = Some bs \<and>
       file_inv contents l {} {} (page_size (im_header st)) D' f' \<and> contents (cb_file (cf_file f')) = D') (\<lambda>_ f'. io_failed (cf_file f'))"
proof (rule st_ok_bind, rule st_ok_mono[OF store_header_spec[OF inv st _ h]], goal_cases)
  case (2 x f1)
  then obtain bs D' where b: "dh_to_bytes xxh3 h magic = Some bs" "put_slice D 0 bs = Some D'" "file_inv contents l {} {} (page_size (im_header st)) D' f1" by blast
  have "length bs = DB_HEADER_SIZE" using dh_to_bytes_fields[OF h, of xxh3 magic] b(1) header_size by auto
  then have "subslice D' 0 DB_HEADER_SIZE = Some bs" using subslice_put_same[OF b(2)] by simp
  then show ?case using b(1,2) by (intro st_ok_mono[OF file_flush_spec[OF b(3)]]) auto
qed simp_all

lemma init_file_spec:
  assumes f: "cf_inv contents f Map.empty []" "cext f Map.empty = Map.empty" "cf_page_size f = ps" "contents (cb_file (cf_file f)) = []"
    and ps: "DB_HEADER_SIZE \<le> ps" "ps < 2 ^ 32" and j: "j \<le> MAX_MAX_PAGE_ORDER" and slt: "pred_option (\<lambda>s. length s = 16) slt"
  shows "st_ok (init_file be xxh3 ps (2 ^ j * ps) slt) f
    (\<lambda>_ f'. \<exists>l h D. new_file xxh3 j ps l h D \<and> file_inv contents l {} {} ps D f' \<and> contents (cb_file (cf_file f')) = D) (\<lambda>_ f'. io_failed (cf_file f'))"
proof -
  obtain l where l: "initial_layout ps (2 ^ j * ps) = Some l" "layout_ok NO_HEADER (2 ^ j) ps l" "num_regions l \<le> MAX_REGIONS"
    by (rule initial_layout_ok[OF ps j])
  obtain n where n: "dl_len l = Some n" "0 < n" using layout_len[OF l(2)] l(2) by (auto simp: layout_ok_def)
  obtain h0 where h0: "dh_new l 0 slt = Some h0" "dh_layout h0 = Some l" "header_ok h0" "page_size h0 = ps" "primary_slot h0 = Some (th_new 0)"
    by (rule new_header_ok[OF l(2) j l(3) _ ps(2) slt]) (auto simp: NO_HEADER_def)
  let ?h = "h0\<lparr>recovery_required := False, two_phase_commit := True\<rparr>"
  have "dh_layout ?h = dh_layout h0" by (simp add: dh_layout_def)
  then have h: "dh_layout ?h = Some l" "header_ok ?h" "page_size ?h = ps" "primary_slot ?h = Some (th_new 0)"
    using h0 by (simp_all add: header_ok_def primary_slot_def)
  obtain al where st: "state_ok l {} \<lparr>im_header = ?h, im_allocators = al\<rparr>" using fresh_state[OF h(1)] l(2,3) j h(3) by metis
  let ?st = "\<lparr>im_header = ?h, im_allocators = al\<rparr>"
  have psh: "page_size (im_header ?st) = ps" using h(3) by simp
  have nf: "new_file xxh3 j ps l ?h D" if "subslice D 0 DB_HEADER_SIZE = Some bs" "dh_to_bytes xxh3 ?h True = Some bs" "file_inv contents l {} {} ps D f'"
    for D bs and f' :: "'s PagedCachedFile"
    using that l h holds_header_written[OF h(2)] by (simp add: new_file_def file_inv_def)
  have hs: "st_ok (st_bind (store_header be xxh3 ?h magic) (\<lambda>_. cf_flush be)) g
    (\<lambda>_ f'. \<exists>bs D'. dh_to_bytes xxh3 ?h magic = Some bs \<and> put_slice D 0 bs = Some D' \<and> subslice D' 0 DB_HEADER_SIZE = Some bs \<and>
       file_inv contents l {} {} ps D' f' \<and> contents (cb_file (cf_file f')) = D') (\<lambda>_ f'. io_failed (cf_file f'))"
    if "file_inv contents l {} {} ps D g" for g D magic
    using init_header_spec[of l ?st D g ?h xxh3 magic] that st ps(1) h(2) psh by simp
  have res: "st_ok (cf_resize be n) f1 (\<lambda>_ f'. file_inv contents l {} {} ps (resized n []) f') (\<lambda>_ f'. io_failed (cf_file f'))"
    if f1: "f1 = f\<lparr>cf_file := c\<rparr>" "contents (cb_file c) = []" for f1 c
  proof -
    have w: "cf_inv contents f1 Map.empty []" "cext f1 Map.empty = Map.empty" "cf_page_size f1 = ps"
      using f f1 cf_wf_cong[of f1 f] by (simp_all add: cf_inv_def cext_def)
    have e: "cext f' Map.empty \<subseteq>\<^sub>m [0 \<mapsto> DB_HEADER_SIZE]" if "rmap f' = Map.empty" "wmap f' = wmap f1" for f' :: "'s PagedCachedFile"
    proof -
      have "cext f' Map.empty k = None" for k using fun_cong[OF w(2), of k] that by (auto simp: cext_def ext_def split: option.splits)
      then show ?thesis by (simp add: map_le_def dom_def)
    qed
    show ?thesis by (rule st_ok_mono[OF resize_spec[OF w(1)]]) (use w e n in \<open>auto intro!: file_inv_empty\<close>)
  qed
  have two: "st_bind A (\<lambda>_. st_bind F (\<lambda>_. st_bind B (\<lambda>_. F))) = st_bind (st_bind A (\<lambda>_. F)) (\<lambda>_. st_bind B (\<lambda>_. F))"
    for A B F :: "('s PagedCachedFile, StorageError, unit) sem" by (simp add: st_bind_assoc)
  show ?thesis unfolding init_file_def
  proof (rule st_ok_lift_bind[of _ _ "(l, n)" f], simp add: l(1) n(1), unfold prod.case, rule st_ok_bind, rule st_ok_mono[OF raw_len_spec[OF f(4)]], goal_cases)
    case (1 m f1)
    then obtain c1 where c1: "m = 0" "f1 = f\<lparr>cf_file := c1\<rparr>" "contents (cb_file c1) = []" by auto
    have cond: "(if m < n then cf_resize be n else st_return ()) = cf_resize be n" using c1(1) n(2) by simp
    show ?case unfolding cond
    proof (rule st_ok_bind, rule st_ok_mono[OF res[OF c1(2,3)]], goal_cases)
      case (1 x f2)
      show ?case
      proof (rule st_ok_lift_bind[of _ _ h0 f2], simp add: h0(1), unfold Let_def two, rule st_ok_bind, rule st_ok_mono[OF hs[OF 1]], goal_cases)
        case (1 x f3)
        then obtain D1 where f3: "file_inv contents l {} {} ps D1 f3" by blast
        show ?case by (rule st_ok_mono[OF hs[OF f3]]) (use nf in blast)+
      qed simp
    qed simp
  qed simp
qed

text \<open>A file that was not closed: the layout is recomputed from its length and the newer commit slot is kept.\<close>

lemma repair_spec:
  assumes inv: "file_inv contents l {} {} ps D f" "contents (cb_file (cf_file f)) = D"
    and l: "layout_ok hp (2 ^ k) ps l" "k \<le> MAX_MAX_PAGE_ORDER" "num_regions l \<le> MAX_REGIONS" "2 ^ k * ps \<le> 2 ^ 32"
    and h: "dh_layout h = Some l" "header_ok h" "DB_HEADER_SIZE \<le> ps"
    and s: "primary_slot h = Some p" "secondary_slot h = Some q" "transaction_id q \<le> transaction_id p"
  shows "st_ok (repair_header be xxh3 ps h \<lparr>invalid_magic_number = False, primary_corrupted = False, secondary_corrupted = False\<rparr>) f
    (\<lambda>h' f'. \<exists>a b D'. h' = h\<lparr>full_regions := a, trailing_partial_region_pages := b\<rparr> \<and> dh_layout h' = Some (layout_normal l) \<and>
       header_ok h' \<and> holds_header xxh3 h' D' \<and> rewritten D D' \<and> contents (cb_file (cf_file f')) = D') (\<lambda>_ f'. io_failed (cf_file f'))"
proof -
  let ?l = "layout_normal l"
  have len: "dl_len l = Some (length D)" using inv(1) by (simp add: file_inv_def)
  have full: "rl_header_pages (full_region_layout l) = hp" "rl_num_pages (full_region_layout l) = 2 ^ k" "0 < ps" using l(1) by (simp_all add: layout_ok_def)
  have small: "ps < 2 ^ 32" "num_regions l < 2 ^ 32"
  proof -
    obtain h' where "page_size h = ps" using set_layout_ok[OF h(1) l(1) l(1)] by blast
    then show "ps < 2 ^ 32" using h(2) by (simp add: header_ok_def)
    show "num_regions l < 2 ^ 32" using l(3) by (simp add: MAX_REGIONS_def)
  qed
  have rec: "recalculate (length D) hp (2 ^ k) ps = Some ?l" using recalculate_len[OF l(1,4) small(2) len full(3)] by simp
  obtain h' a b where h': "set_layout h ?l = Some h'" "dh_layout h' = Some ?l" "page_size h = ps" "h' = h\<lparr>full_regions := a, trailing_partial_region_pages := b\<rparr>"
    using set_layout_ok[OF h(1) l(1) layout_normal_ok[OF l(1)]] by blast
  note n = layout_normal_len[OF l(1)] and lo = layout_normal_ok[OF l(1)]
  have n': "num_regions ?l \<le> MAX_REGIONS" using n(2) l(3) by simp
  have hok: "header_ok h'" by (rule layout_header_ok[OF h(2) h'(2) lo l(2) n' h'(4,3)])
  have ps': "page_size h' = ps" using h'(3,4) by simp
  obtain al where st: "state_ok ?l {} \<lparr>im_header = h', im_allocators = al\<rparr>" using fresh_state[OF h'(2)] lo l(2) n' ps' by metis
  have pick: "pick_primary_for_repair h' \<lparr>invalid_magic_number = False, primary_corrupted = False, secondary_corrupted = False\<rparr> = Some (Inr (h', True))"
    by (rule pick_primary_keeps[OF hok _ _ s(3)]) (use s h'(4) in \<open>simp_all add: primary_slot_def secondary_slot_def\<close>)
  have store: "st_ok (st_bind (store_header be xxh3 h' True) (\<lambda>_. cf_flush be)) g
    (\<lambda>_ f'. \<exists>bs D'. dh_to_bytes xxh3 h' True = Some bs \<and> put_slice D 0 bs = Some D' \<and> subslice D' 0 DB_HEADER_SIZE = Some bs \<and>
       file_inv contents ?l {} {} ps D' f' \<and> contents (cb_file (cf_file f')) = D') (\<lambda>_ f'. io_failed (cf_file f'))"
    if "file_inv contents ?l {} {} ps D g" for g
    using init_header_spec[OF _ st, of D g h' xxh3 True] that h(3) hok ps' by simp
  show ?thesis unfolding repair_header_def
  proof (rule st_ok_bind, rule st_ok_map_err, rule st_ok_mono[OF raw_len_spec[OF inv(2)]], goal_cases)
    case (1 x f1)
    then obtain c where c: "x = length D" "f1 = f\<lparr>cf_file := c\<rparr>" "contents (cb_file c) = D" by auto
    have "file_inv contents l {} {} ps D f1" using file_inv_cong[OF inv(1)] c inv(2) by simp
    then have f1: "file_inv contents ?l {} {} ps D f1" using n(1) by (simp add: file_inv_def page_exts_def all_exts_def)
    have all: "st_ok (st_map_err database_from_storage (st_bind (store_header be xxh3 h' True) (\<lambda>_. cf_flush be))) f1
      (\<lambda>_ f'. holds_header xxh3 h' (contents (cb_file (cf_file f'))) \<and> rewritten D (contents (cb_file (cf_file f')))) (\<lambda>_ f'. io_failed (cf_file f'))"
      by (rule st_ok_map_err, rule st_ok_mono[OF store[OF f1]]) (use holds_header_written[OF hok] rewritten_header[OF hok] in auto)
    have split: "st_map_err g (st_bind A (\<lambda>_. B)) = st_bind (st_map_err g A) (\<lambda>_. st_map_err g B)"
      for g :: "StorageError \<Rightarrow> DatabaseError" and A B :: "('s PagedCachedFile, StorageError, unit) sem"
      by (auto simp: st_map_err_def st_bind_def fun_eq_iff split: option.splits sum.splits)
    have tail: "st_ok (st_bind (st_map_err database_from_storage (store_header be xxh3 h' True)) (\<lambda>_.
        st_bind (st_map_err database_from_storage (cf_flush be)) (\<lambda>_. st_return h'))) f1
      (\<lambda>h' f'. \<exists>a b D'. h' = h\<lparr>full_regions := a, trailing_partial_region_pages := b\<rparr> \<and> dh_layout h' = Some ?l \<and>
       header_ok h' \<and> holds_header xxh3 h' D' \<and> rewritten D D' \<and> contents (cb_file (cf_file f')) = D') (\<lambda>_ f'. io_failed (cf_file f'))"
      unfolding st_bind_assoc[symmetric] split[symmetric]
      by (rule st_ok_bind, rule st_ok_mono[OF all]) (use h' hok in auto)
    show ?case
    proof (rule st_ok_lift_bind[of _ _ h' f1], goal_cases)
      case 1
      show ?case using h(1) full rec c(1) h'(1) small by (simp add: assert_that_def)
    next
      case 2
      show ?case by (rule st_ok_step[of _ _ "(h', True)" f1], simp add: st_map_err_def st_result_def pick, unfold prod.case, rule st_ok_assert, simp, rule tail)
    qed
  qed simp
qed

lemma open_repair_spec:
  assumes inv: "file_inv contents l {} {} ps D f" "contents (cb_file (cf_file f)) = D" "holds_header xxh3 h D"
    and l: "layout_ok hp (2 ^ k) ps l" "k \<le> MAX_MAX_PAGE_ORDER" "num_regions l \<le> MAX_REGIONS" "2 ^ k * ps \<le> 2 ^ 32"
    and h: "dh_layout h = Some l" "header_ok h" "DB_HEADER_SIZE \<le> ps" "recovery_required h"
    and s: "primary_slot h = Some p" "secondary_slot h = Some q" "transaction_id q \<le> transaction_id p"
  shows "st_ok (open_header be xxh3 ps False) f
    (\<lambda>(h', unclean) f'. unclean \<and> primary_slot h' = Some p \<and> holds_header xxh3 h' (contents (cb_file (cf_file f'))) \<and>
       rewritten D (contents (cb_file (cf_file f'))) \<and> dh_layout h' = Some (layout_normal l)) (\<lambda>_ f'. io_failed (cf_file f'))"
proof -
  let ?info = "\<lparr>invalid_magic_number = False, primary_corrupted = False, secondary_corrupted = False\<rparr>"
  obtain bs where bs: "subslice D 0 DB_HEADER_SIZE = Some bs" "dh_from_bytes xxh3 bs = Some (Inr (h, ?info))"
    using inv(3) by (auto simp: holds_header_def)
  have len: "dl_len l = Some (length D)" using inv(1) by (simp add: file_inv_def)
  have ps: "page_size h = ps" using set_layout_ok[OF h(1) l(1) l(1)] by blast
  have hl: "header_len h = Some (length D)" using h(1) len by (simp add: header_len_def)
  have fi: "file_inv contents l {} {} ps D (f\<lparr>cf_file := c\<rparr>)" if "contents (cb_file c) = D" for c
    using file_inv_cong[OF inv(1)] that inv(2) by simp
  show ?thesis unfolding open_header_def
  proof (rule st_ok_bind, rule st_ok_map_err, rule st_ok_mono[OF direct_spec[OF inv(2)]], goal_cases)
    case (1 b f1)
    then obtain c1 where c1: "b = bs" "f1 = f\<lparr>cf_file := c1\<rparr>" "contents (cb_file c1) = D" using bs(1) by auto
    have len1: "contents (cb_file (cf_file f1)) = D" using c1 by simp
    show ?case
    proof (rule st_ok_step[of _ _ "(h, ?info)" f1], goal_cases)
      case 2
      show ?case unfolding prod.case
      proof (rule st_ok_assert, use ps in blast, rule st_ok_bind, rule st_ok_map_err, rule st_ok_mono[OF raw_len_spec[OF len1]], goal_cases)
        case (1 n f2)
        then obtain c2 where c2: "n = length D" "f2 = f\<lparr>cf_file := c2\<rparr>" "contents (cb_file c2) = D" using c1(2) by auto
        have rep: "st_ok (repair_header be xxh3 ps h ?info) f2
          (\<lambda>h' f'. \<exists>a b D'. h' = h\<lparr>full_regions := a, trailing_partial_region_pages := b\<rparr> \<and> dh_layout h' = Some (layout_normal l) \<and>
             header_ok h' \<and> holds_header xxh3 h' D' \<and> rewritten D D' \<and> contents (cb_file (cf_file f')) = D') (\<lambda>_ f'. io_failed (cf_file f'))"
          by (rule repair_spec[OF _ _ l h(1-3) s, where D = D]) (use c2 fi in simp_all)
        show ?case
        proof (rule st_ok_lift_bind[of _ _ "length D" f2], simp add: hl c2 assert_that_def, rule st_ok_step[of _ _ True f2], simp add: h(4) st_return_def,
            simp only: if_True if_False, rule st_ok_bind, rule st_ok_mono[OF rep], goal_cases)
          case (1 h' f3)
          then obtain a b D' where h': "h' = h\<lparr>full_regions := a, trailing_partial_region_pages := b\<rparr>" "dh_layout h' = Some (layout_normal l)"
            "holds_header xxh3 h' D'" "rewritten D D'" "contents (cb_file (cf_file f3)) = D'" by blast
          have "header_len h' = Some (length D')" using h'(2) rewritten_length[OF h'(4)] layout_normal_len(1)[OF l(1)] len by (simp add: header_len_def)
          moreover have "primary_slot h' = Some p" using h'(1) s(1) by (simp add: primary_slot_def)
          ultimately show ?case
            by (intro st_ok_bind st_ok_map_err st_ok_mono[OF raw_len_spec[OF h'(5)]]) (use h'(2-5) in \<open>auto intro!: st_ok_assert\<close>)
        qed simp
      qed simp
    qed (use c1 bs(2) in \<open>simp add: st_result_def\<close>)
  qed simp
qed

lemma open_existing_spec:
  assumes D: "contents s = D" "holds_header xxh3 h D" and ps: "is_power_of_two ps" "DB_HEADER_SIZE \<le> ps"
      "is_power_of_two (min (case req of Some r \<Rightarrow> r | None \<Rightarrow> MAX_USABLE_REGION_SPACE) ((MAX_PAGE_INDEX + 1) * ps))"
    and rest: "\<And>c. contents (cb_file c) = D \<Longrightarrow> st_ok (open_header be xxh3 ps read_only) ((cf_new s ps mr mw)\<lparr>cf_file := c\<rparr>) Q (\<lambda>_ f'. io_failed (cf_file f'))"
  shows "st_ok (tm_open be xxh3 allow ps req read_only slt) (cf_new s ps mr mw) Q (\<lambda>_ f'. io_failed (cf_file f'))"
proof -
  let ?f = "cf_new s ps mr mw"
  have f: "contents (cb_file (cf_file ?f)) = D" using D(1) by (simp add: cf_new_def cb_new_def)
  note m = holds_header_magic[OF D(2)]
  show ?thesis unfolding tm_open_def Let_def
  proof (rule st_ok_assert, use ps in blast, rule st_ok_bind, rule st_ok_map_err, rule st_ok_mono[OF raw_len_spec[OF f]], goal_cases)
    case (1 n f1)
    then obtain c1 where c1: "n = length D" "f1 = ?f\<lparr>cf_file := c1\<rparr>" "contents (cb_file (cf_file f1)) = D" by auto
    have cond: "(if length MAGICNUMBER \<le> n then st_map_err database_from_storage (read_direct be 0 (length MAGICNUMBER))
         else st_return (replicate (length MAGICNUMBER) 0)) = st_map_err database_from_storage (read_direct be 0 (length MAGICNUMBER))"
      using m(2) c1(1) by simp
    show ?case unfolding cond
    proof (rule st_ok_bind, rule st_ok_map_err, rule st_ok_mono[OF direct_spec[OF c1(3)]], goal_cases)
      case (1 magic f2)
      then obtain c2 where c2: "magic = MAGICNUMBER" "f2 = ?f\<lparr>cf_file := c2\<rparr>" "contents (cb_file c2) = D" using m(1) c1(2) by auto
      show ?case using rest[OF c2(3)] m(3) c1(1) c2(1,2) by simp
    qed simp
  qed simp
qed

lemma cf_new_file_inv:
  assumes "contents s = D" "dl_len l = Some (length D)" "contents (cb_file c) = D"
  shows "file_inv contents l {} {} ps D ((cf_new s ps mr mw)\<lparr>cf_file := c\<rparr>)"
proof -
  have "run_inv contents ps [0 \<mapsto> DB_HEADER_SIZE] (cf_new s ps mr mw) D" using run_inv_new[of contents ps _ s mr mw] assms(1) by simp
  then have "file_inv contents l {} {} ps D (cf_new s ps mr mw)" using assms(2) by (intro file_inv_empty) (simp_all add: run_inv_def)
  from file_inv_cong[OF this, of c] show ?thesis using assms(1,3) by (simp add: cf_new_def cb_new_def)
qed

text \<open>Creating a database in an empty storage.\<close>

lemma create_spec:
  assumes s: "contents s = []" and ps: "ps = 2 ^ i" "DB_HEADER_SIZE \<le> ps" "ps < 2 ^ 32" and slt: "pred_option (\<lambda>s. length s = 16) slt"
    and R: "(case req of Some r \<Rightarrow> r | None \<Rightarrow> MAX_USABLE_REGION_SPACE) = 2 ^ r" "i \<le> r"
  shows "st_ok (tm_open be xxh3 True ps req False slt) (cf_new s ps mr mw)
    (\<lambda>(h, unclean) f. \<not> unclean \<and> (\<exists>j l D. j \<le> MAX_MAX_PAGE_ORDER \<and> new_file xxh3 j ps l h D \<and> file_inv contents l {} {} ps D f \<and> contents (cb_file (cf_file f)) = D))
    (\<lambda>_ f'. io_failed (cf_file f'))"
proof -
  let ?f = "cf_new s ps mr mw"
  obtain j where j: "min (case req of Some r \<Rightarrow> r | None \<Rightarrow> MAX_USABLE_REGION_SPACE) ((MAX_PAGE_INDEX + 1) * ps) = 2 ^ j * ps" "j \<le> MAX_MAX_PAGE_ORDER"
    "is_power_of_two (2 ^ j * ps)" using region_space[OF ps(1) R] by metis
  have two: "is_power_of_two ps" using power_of_two ps(1) by simp
  have f: "contents (cb_file (cf_file ?f)) = []" using s by (simp add: cf_new_def cb_new_def)
  have fresh: "cf_inv contents ?f Map.empty []" "cext ?f Map.empty = Map.empty" "cf_page_size ?f = ps"
    using run_inv_new[of contents ps Map.empty s mr mw] s by (auto simp: run_inv_def map_le_def dom_def fun_eq_iff)
  show ?thesis unfolding tm_open_def Let_def j(1)
  proof (rule st_ok_assert, simp add: two ps(2) j(3), rule st_ok_bind, rule st_ok_map_err, rule st_ok_mono[OF raw_len_spec[OF f]], goal_cases)
    case (1 n f1)
    then obtain c1 where c1: "n = 0" "f1 = ?f\<lparr>cf_file := c1\<rparr>" "contents (cb_file c1) = []" by auto
    have f1: "cf_inv contents f1 Map.empty []" "cext f1 Map.empty = Map.empty" "cf_page_size f1 = ps" "contents (cb_file (cf_file f1)) = []"
      using fresh c1 f cf_wf_cong[of f1 ?f] by (simp_all add: cf_inv_def cext_def)
    have magic: "length MAGICNUMBER = 9" "replicate 9 0 \<noteq> MAGICNUMBER"
      by (auto simp: MAGICNUMBER_def dest: arg_cong[of _ _ hd])
    note init = init_file_spec[OF f1 ps(2,3) j(2) slt, of xxh3]
    have "st_ok (st_bind (st_map_err database_from_storage (init_file be xxh3 ps (2 ^ j * ps) slt)) (\<lambda>_. open_header be xxh3 ps False)) f1
      (\<lambda>(h, unclean) f. \<not> unclean \<and> (\<exists>j l D. j \<le> MAX_MAX_PAGE_ORDER \<and> new_file xxh3 j ps l h D \<and> file_inv contents l {} {} ps D f \<and> contents (cb_file (cf_file f)) = D))
      (\<lambda>_ f'. io_failed (cf_file f'))"
    proof (rule st_ok_bind, rule st_ok_map_err, rule st_ok_mono[OF init], goal_cases)
      case (1 x f2)
      then obtain l h D where n: "new_file xxh3 j ps l h D" "file_inv contents l {} {} ps D f2" "contents (cb_file (cf_file f2)) = D" by blast
      have h: "holds_header xxh3 h D" "page_size h = ps" "header_len h = Some (length D)" "\<not> recovery_required h"
        using n(1) by (simp_all add: new_file_def header_len_def)
      show ?case by (rule st_ok_mono[OF open_header_spec[OF n(3) h]]) (use n j(2) file_inv_cong[OF n(2)] in \<open>auto intro!: exI[of _ j] exI[of _ l]\<close>)
    qed simp
    then show ?case using c1(1) magic by simp
  qed simp
qed

text \<open>Opening the storage a commit left behind, without the memory of the page manager that made it.\<close>

lemma open_after_commit:
  assumes C: "commit_done contents xxh3 dr sr tid tp l0 D0 m m'" and m: "tm_inv contents l0 D0 m"
    and old: "primary_slot (tm_header m) = Some q" "transaction_id q \<le> tid"
    and ps: "tm_page_size m = 2 ^ i" "(case req of Some r \<Rightarrow> r | None \<Rightarrow> MAX_USABLE_REGION_SPACE) = 2 ^ r" "i \<le> r"
      "rl_num_pages (full_region_layout l0) * tm_page_size m \<le> 2 ^ 32"
  shows "st_ok (tm_open be xxh3 False (tm_page_size m) req False slt) (cf_new (cb_file (cf_file (storage m'))) (tm_page_size m) mr mw)
    (\<lambda>(h, unclean) f. \<exists>t l. primary_slot h = Some t \<and> user_root t = dr \<and> system_root t = sr \<and> transaction_id t = tid \<and> dh_layout h = Some l \<and>
       (\<forall>p \<in> allocated_pages m. page_data l (contents (cb_file (cf_file f))) p = tm_pages l0 D0 m p)) (\<lambda>_ f. io_failed (cf_file f))"
proof -
  obtain l D bs t st g where D: "tm_inv contents l D m'" "full_region_layout l = full_region_layout l0" "tm_pages l D m' = tm_pages l0 D0 m"
    "contents (cb_file (cf_file g)) = D" "subslice D 0 DB_HEADER_SIZE = Some bs"
    "dh_from_bytes xxh3 bs = Some (Inr (im_header st, \<lparr>invalid_magic_number = False, primary_corrupted = False, secondary_corrupted = False\<rparr>))"
    "primary_slot (im_header st) = Some t" "transaction_id t = tid" "user_root t = dr" "system_root t = sr"
    "secondary_slot (im_header st) = primary_slot (tm_header m)"
    "m' = m\<lparr>tm_state := st, storage := g, allocated_since_commit := [], unpersisted := [], read_from_secondary := False\<rparr>"
    using C unfolding commit_done_def by blast
  let ?s = "cb_file (cf_file (storage m'))" and ?ps = "tm_page_size m"
  note i = tm_invD[OF D(1)]
  have m': "tm_state m' = st" "allocated_pages m' = allocated_pages m" "storage m' = g" "tm_page_size m' = ?ps" using D(12) by simp_all
  have pz: "page_size (im_header st) = ?ps" using i(9) m' by simp
  obtain hp k where l: "dh_layout (im_header st) = Some l" "layout_ok hp (2 ^ k) ?ps l" "k \<le> MAX_MAX_PAGE_ORDER" "num_regions l \<le> MAX_REGIONS"
    using i(1) m'(1) pz by (auto simp: state_ok_def)
  have small: "2 ^ k * ?ps \<le> 2 ^ 32" using ps(4) l(2) D(2) by (simp add: layout_ok_def)
  have hh: "holds_header xxh3 (im_header st) D" using D(5,6) by (auto simp: holds_header_def)
  have len: "dl_len l = Some (length D)" using i(4) by (simp add: file_inv_def)
  have hok: "header_ok (im_header st)" "DB_HEADER_SIZE \<le> ?ps" using i(2,3) m'(1) pz by (simp_all add: tm_header_def)
  have old': "secondary_slot (im_header st) = Some q" "transaction_id q \<le> transaction_id t" using D(8,11) old by simp_all
  have s: "contents ?s = D" using D(4) m'(3) by simp
  have two: "is_power_of_two ?ps" "is_power_of_two (min (case req of Some r \<Rightarrow> r | None \<Rightarrow> MAX_USABLE_REGION_SPACE) ((MAX_PAGE_INDEX + 1) * ?ps))"
    using power_of_two[of i] ps(1) region_space[OF ps(1-3)] by metis+
  have pages: "page_data l D p = tm_pages l0 D0 m p" if "p \<in> allocated_pages m" for p
    using fun_cong[OF D(3), of p] that m'(2) by (simp add: tm_pages_def)
  have pages': "page_data (layout_normal l) D' p = tm_pages l0 D0 m p" if rw: "rewritten D D'" and p: "p \<in> allocated_pages m" for D' p
  proof -
    obtain b where b: "length b = DB_HEADER_SIZE" "put_slice D 0 b = Some D'" using rw by (auto simp: rewritten_def)
    have fl: "full_region_layout (layout_normal l) = full_region_layout l" by (simp add: layout_normal_def split: option.splits)
    have "page_data (layout_normal l) D' p = page_data l D' p" unfolding page_data_def page_address_cong[OF fl] ..
    also have "\<dots> = page_data l D p" using page_data_header[OF i(1,3) b(2,1)] p m'(2) by simp
    finally show ?thesis using pages[OF p] by simp
  qed
  show ?thesis
  proof (rule open_existing_spec[OF s hh two(1) hok(2) two(2)], goal_cases)
    case (1 c)
    let ?f = "(cf_new ?s ?ps mr mw)\<lparr>cf_file := c\<rparr>"
    note fi = cf_new_file_inv[OF s len 1, of ?ps mr mw]
    have cD: "contents (cb_file (cf_file ?f)) = D" using 1 by simp
    show ?case
    proof (cases "recovery_required (im_header st)")
      case True
      show ?thesis by (rule st_ok_mono[OF open_repair_spec[OF fi cD hh l(2-4) small l(1) hok True D(7) old']])
          (use D(8-10) pages' in auto)
    next
      case False
      have "header_len (im_header st) = Some (length D)" using l(1) len by (simp add: header_len_def)
      from open_header_spec[OF cD hh pz this False] show ?thesis by (rule st_ok_mono) (use D(7-10) l(1) pages in auto)
    qed
  qed
qed

end

text \<open>The page manager over a file that was opened clean.\<close>

lemma tm_new_store:
  assumes o: "tm_open be xxh3 True ps req False slt (cf_new s ps mr mw) = Some (Inr (h, u), f)"
    and n: "\<not> u" "j \<le> MAX_MAX_PAGE_ORDER" "new_file xxh3 j ps l h D" "file_inv contents l {} {} ps D f" and ps: "DB_HEADER_SIZE \<le> ps" "ps < 2 ^ 32"
  obtains m where "tm_new be xxh3 s True ps req mr mw False slt = Some (Inr m)" "tm_header m = h" "storage m = f"
    "store_rel contents m \<lparr>ps_pages = Map.empty, ps_uncommitted = {}, ps_commit = (None, None, 0)\<rparr>"
proof -
  have h: "layout_ok NO_HEADER (2 ^ j) (page_size h) l" "num_regions l \<le> MAX_REGIONS" "header_ok h" "dh_layout h = Some l" "page_size h = ps" "primary_slot h = Some (th_new 0)"
    using n(3) by (auto simp: new_file_def)
  obtain al where st: "im_new h = Some \<lparr>im_header = h, im_allocators = al\<rparr>" "state_ok l {} \<lparr>im_header = h, im_allocators = al\<rparr>"
    using fresh_state[OF h(4,1) n(2) h(2)] .
  let ?m = "tm_fresh f \<lparr>im_header = h, im_allocators = al\<rparr> ps (full_region_layout l) False"
  have "store_rel contents ?m \<lparr>ps_pages = Map.empty, ps_uncommitted = {}, ps_commit = (None, None, 0)\<rparr>"
    using fresh_store[OF st(2), of contents D f "th_new 0"] h n(4) ps by (simp add: th_new_def)
  moreover have "tm_new be xxh3 s True ps req mr mw False slt = Some (Inr ?m)"
    using o n(1) h(4) st(1) ps by (simp add: tm_new_def tm_fresh_def assert_that_def)
  ultimately show thesis by (elim that) (simp_all add: tm_fresh_def tm_header_def)
qed

subsection \<open>A small store\<close>

text \<open>One region of one page in memory; it shows that the hypotheses of the properties can hold.\<close>

definition small_layout :: DatabaseLayout where
  "small_layout = \<lparr>full_region_layout = \<lparr>rl_num_pages = 1, rl_header_pages = 0, rl_page_size = 4096\<rparr>, num_full_regions = 1, trailing_partial_region = None\<rparr>"

lemma small_store:
  obtains m where "store_rel (\<lambda>d. d) m \<lparr>ps_pages = Map.empty, ps_uncommitted = {}, ps_commit = (None, None, 0)\<rparr>" "tm_page_size m = 4096"
    "dh_layout (tm_header m) = Some small_layout" "primary_slot (tm_header m) = Some (th_new 0)"
proof -
  have l: "layout_ok 0 (2 ^ 0) 4096 small_layout" "num_regions small_layout \<le> MAX_REGIONS" "dl_len small_layout = Some 8192"
    by (simp_all add: layout_ok_def small_layout_def num_regions_def MAX_REGIONS_def dl_len_def region_base_address_def region_layout_def
        rl_len_def rl_usable_bytes_def assert_that_def)
  obtain h where h: "dh_new small_layout 0 None = Some h" "dh_layout h = Some small_layout" "header_ok h" "page_size h = 4096" "primary_slot h = Some (th_new 0)"
    by (rule new_header_ok[OF l(1) _ l(2), of None]) simp_all
  obtain al where st: "state_ok small_layout {} \<lparr>im_header = h, im_allocators = al\<rparr>" using fresh_state[OF h(2)] l(1,2) h(4) by (metis le0)
  let ?st = "\<lparr>im_header = h, im_allocators = al\<rparr>" and ?D = "replicate 8192 (0 :: u8)"
  let ?f = "cf_new ?D 4096 0 0"
  have "file_inv (\<lambda>d. d) small_layout {} {} 4096 ?D (?f\<lparr>cf_file := cf_file ?f\<rparr>)"
    by (rule mem.cf_new_file_inv) (simp_all add: l(3) cf_new_def cb_new_def)
  then have f: "file_inv (\<lambda>d. d) small_layout {} {} (page_size (im_header ?st)) ?D ?f" using h(4) by simp
  have sz: "DB_HEADER_SIZE \<le> page_size (im_header ?st)" using h(4) header_size by simp
  have "store_rel (\<lambda>d. d) (tm_fresh ?f ?st 4096 (full_region_layout small_layout) False) \<lparr>ps_pages = Map.empty, ps_uncommitted = {}, ps_commit = (None, None, 0)\<rparr>"
    using fresh_store[OF st _ sz f, of "th_new 0"] h by (simp add: th_new_def)
  then show thesis using h by (elim that) (simp_all add: tm_fresh_def tm_header_def)
qed

end
