(* ===== verification/Spec2Isabelle.thy ===== *)
theory Spec2Isabelle
  imports Tuple_Laws Errors Tracker Page_Open
begin

text \<open>
  \<^bold>\<open>A verification library for redbx\<close>

  redbx is an embedded key-value store: a copy-on-write B-tree in a single file of pages, with an allocator for
  the pages, a two-slot header for atomic commits, a page cache, a tracker of the live transactions, and a layer that
  encrypts leaf pages. This library models its components as executable HOL functions and proves the
  properties that make each of them correct. File names below are relative to \<^verbatim>\<open>src/src\<close>.

  \<^bold>\<open>Conventions.\<close> A panic of the source (a failed assertion, an index out of range, an \<open>unwrap\<close> of nothing,
  an arithmetic overflow of checked arithmetic) is \<open>None\<close> of the option type; a returned error is the left summand of a
  sum type; operations with state map a state to the result and the new state (theory \<open>Effects\<close>). Sizes, indices
  and counters are natural numbers with the width of the source written out where it matters; bit patterns are
  machine words; byte strings are lists of 8-bit words. The xxh3 checksum is a parameter of every definition that
  uses it. A trait of the source is a record of its methods, and its documented contract a locale.

  \<^bold>\<open>Shared theories.\<close>
  \<^item> \<open>Prelude\<close>: widths, little-endian encodings, checked slices and their laws, three-way comparison,
    fixed-layout records.
  \<^item> \<open>Effects\<close>: stateful fallible operations with a weakest-precondition style predicate \<open>st_ok\<close>, and
    predicates for what an operation leaves alone.
  \<^item> \<open>Ordered_Map\<close>: association lists sorted by key (the ordered maps of the source) and reference counts.

  \<^bold>\<open>Page allocation\<close> (\<^verbatim>\<open>tree_store/page_store\<close>).
  \<^item> \<open>Bitmap\<close> (\<^verbatim>\<open>bitmap.rs\<close>): the grouped bitmap and the 64-ary tree of bitmaps. The tree refines a set of
    indices over any run of operations, the search returns the first unset bit, and the serialised form reads back.
  \<^item> \<open>Buddy\<close>, \<open>Buddy_Sizing\<close> (\<^verbatim>\<open>buddy_allocator.rs\<close>): allocation, freeing, recording, resizing and
    serialisation of the buddy allocator. Blocks handed out never overlap, allocation succeeds
    exactly when a block of the order is free, freeing undoes allocation, and resizing keeps what is allocated.
  \<^item> \<open>PageNumbers\<close> (\<^verbatim>\<open>base.rs\<close>): the packed page numbers, their order and addresses, and the page guards.
  \<^item> \<open>Layout\<close> (\<^verbatim>\<open>layout.rs\<close>): regions of the file. Distinct pages have disjoint byte ranges inside the file.
  \<^item> \<open>Region\<close> (\<^verbatim>\<open>region.rs\<close>): the tracker of regions with free space and the allocators of all regions.

  \<^bold>\<open>Header, commit and recovery.\<close>
  \<^item> \<open>Header\<close> (\<^verbatim>\<open>header.rs\<close>, the tree header of \<^verbatim>\<open>btree_base.rs\<close>): the database header with its two commit slots;
    it reads back from its bytes, and damaged headers are rejected with the documented errors.
  \<^item> \<open>Commit\<close> (the header updates of \<^verbatim>\<open>page_manager.rs\<close>): a crash at any point of a commit, with any part of
    the pending header write on disk, recovers either the old or the new transaction.
  \<^item> \<open>Tracker\<close> (\<^verbatim>\<open>transaction_tracker.rs\<close>, \<^verbatim>\<open>savepoint.rs\<close>, the guards of \<^verbatim>\<open>db.rs\<close>): read, write and savepoint
    bookkeeping. Over every reachable state the horizon protects every holder, and a waiting writer can start when
    the live one ends.

  \<^bold>\<open>Page cache.\<close>
  \<^item> \<open>Lru_Cache\<close> (\<^verbatim>\<open>lru_cache.rs\<close>): the second-chance cache refines a finite map, and eviction ends.
  \<^item> \<open>Backends\<close> (\<^verbatim>\<open>backends.rs\<close>, the trait of \<^verbatim>\<open>db.rs\<close>, \<open>CheckedBackend\<close> of \<^verbatim>\<open>cached_file.rs\<close>): the contract of a
    storage as the locale \<open>storage_backend\<close>, interpreted on the in-memory backend.
  \<^item> \<open>Cached_File\<close>, \<open>Cached_File_Laws\<close>, \<open>Cached_File_Run\<close> (\<^verbatim>\<open>cached_file.rs\<close>): the page cache. The invariant
    relates the read cache, the write buffer, the borrowed pages and the storage to one array of bytes; every operation
    keeps it, and a whole run of operations refines the same operations on the array. I/O errors are final.

  \<^bold>\<open>Page manager\<close> (\<^verbatim>\<open>page_manager.rs\<close>, the page guards of \<^verbatim>\<open>base.rs\<close>).
  \<^item> \<open>Page_Manager\<close>: the model of \<open>TransactionalMemory\<close>: creating, opening and repairing a file, reading and writing
    pages, allocation with growth of the file, freeing, durable and non-durable commits with shrinking, rollback and closing.
    A page guard is a pair of operations, one that gives the page out and one that takes it back.
  \<^item> \<open>Page_Alloc_Laws\<close>, \<open>Cached_File_Resize\<close>, \<open>Page_Manager_Laws\<close>: the invariants. The allocators hold exactly the live
    pages, live pages have disjoint extents in the file, and the page cache represents one array of bytes of the
    size of the layout; each is kept by changes of the layout.
  \<^item> \<open>Page_Operations\<close>, \<open>Page_Commit\<close>: one specification per operation over any storage that keeps the contract.
  \<^item> \<open>Page_Store\<close>: the abstract store of pages as a step relation, and the simulation of every operation by a step.
  \<^item> \<open>Page_Open\<close>: creating a file, opening one, and what opening finds after a commit.
  \<^item> The three properties at the end of this theory join these: the page manager refines the store, a new
    database is the empty store, and a commit survives a crash. They hold for a storage that keeps the contract of the
    trait; the in-memory backend does.

  \<^bold>\<open>Values and errors.\<close>
  \<^item> \<open>TypeNames\<close>, \<open>Value_Types\<close>, \<open>Value_Laws\<close> (\<^verbatim>\<open>types.rs\<close>): the Value and Key traits with their implementations;
    the contracts are the locales \<open>value_codec\<close> and \<open>key_codec\<close>.
  \<^item> \<open>Tuple_Types\<close>, \<open>Tuple_Laws\<close> (\<^verbatim>\<open>complex_types.rs\<close>, \<^verbatim>\<open>tuple_types.rs\<close>, \<^verbatim>\<open>legacy_tuple_types.rs\<close>): vectors and tuples.
  \<^item> \<open>Errors\<close> (\<^verbatim>\<open>error.rs\<close>): the error types, their conversions and messages.

  \<^bold>\<open>Termination and fuel.\<close> Every loop of the source but one is a terminating function (structural recursion or a
  measure); no definition uses fuel. The search of \<open>allocate_helper\<close> for a region with space is a partial function, whose
  value \<open>None\<close> also covers not returning; it is proved to return on every state that satisfies the invariant.

  \<^bold>\<open>Not modelled.\<close> The B-tree above the page formats, the table catalogue and the typed table interfaces, the bodies of
  transactions, compaction, the saved allocator state (a B-tree of the page manager), the encryption layer and the xxh3 function are not
  part of the library. File backends are platform I/O, of which only the contract is used; the encrypting backend is
  not shown to keep it. Concurrency is modelled at the
  granularity of operations that the source makes atomic with a lock. The chrono and uuid types, the derive macro,
  the Python bindings, benchmarks and fuzzing harnesses depend on external packages or are clients without state.
\<close>

section \<open>Properties of the page manager\<close>

text \<open>
  C1. Over a storage that keeps its contract, every operation of the page manager is a step of the abstract store of pages:
  it does not panic, and it either fails with an I/O error that is final, or returns what the abstract step returns
  and leaves a state related to the abstract state after the step. Reading returns what was last written to the page, a new page
  gets a number that no live page has, freeing and committing keep every other page, rolling back
  removes exactly the pages allocated since the commit, and the roots are those of the last commit.
\<close>

theorem page_manager_refines_store:
  assumes "storage_backend be contents" "store_rel contents m S" "pm_allowed m S x"
  shows "st_ok (pm_op be xxh3 x) m (\<lambda>r m'. \<exists>S'. page_step (tm_page_size m) x S r S' \<and> store_rel contents m' S') (\<lambda>_ m'. io_failed (cf_file (storage m')))"
  using storage_backend.sim_op[OF assms, of xxh3] by (rule st_ok_mono) (simp_all add: simulated_def tm_failed_def)

theorem page_manager_refines_store_witness:
  "\<exists>(m :: bytes TransactionalMemory) S. store_rel (\<lambda>d. d) m S \<and> pm_allowed m S (PmCreate False [1, 2, 3]) \<and>
     st_ok (pm_op mem_backend (\<lambda>_. 0) (PmCreate False [1, 2, 3])) m
     (\<lambda>r m'. \<exists>S'. page_step (tm_page_size m) (PmCreate False [1, 2, 3]) S r S' \<and> store_rel (\<lambda>d. d) m' S') (\<lambda>_ m'. io_failed (cf_file (storage m')))"
proof -
  obtain m where m: "store_rel (\<lambda>d. d) m \<lparr>ps_pages = Map.empty, ps_uncommitted = {}, ps_commit = (None, None, 0)\<rparr>" "tm_page_size m = 4096"
    "dh_layout (tm_header m) = Some small_layout" by (rule small_store)
  have ok: "pm_allowed m S (PmCreate False [1, 2, 3])" for S by (simp add: m small_layout_def num_regions_def MAX_REGIONS_def)
  show ?thesis by (intro exI conjI, rule m(1), rule ok, rule page_manager_refines_store[OF mem.storage_backend_axioms m(1) ok])
qed

text \<open>
  C7. Creating a database on an empty storage does not panic. Unless the storage fails, the page manager that
  results represents the store without pages and without roots, and the header on the storage reads back intact and clean, so the
  file can be opened again.
\<close>

theorem create_database_correct:
  assumes "storage_backend be contents" "contents s = []" "ps = 2 ^ i" "DB_HEADER_SIZE \<le> ps" "ps < 2 ^ 32"
    "(case req of Some r \<Rightarrow> r | None \<Rightarrow> MAX_USABLE_REGION_SPACE) = 2 ^ r" "i \<le> r" "pred_option (\<lambda>s. length s = 16) slt"
  shows "st_ok (tm_open be xxh3 True ps req False slt) (cf_new s ps mr mw)
    (\<lambda>(h, unclean) f. holds_header xxh3 h (contents (cb_file (cf_file f))) \<and> \<not> recovery_required h \<and>
       (\<exists>m. tm_new be xxh3 s True ps req mr mw False slt = Some (Inr m) \<and> tm_header m = h \<and> storage m = f \<and>
          store_rel contents m \<lparr>ps_pages = Map.empty, ps_uncommitted = {}, ps_commit = (None, None, 0)\<rparr>))
    (\<lambda>_ f. io_failed (cf_file f))"
proof -
  have C: "st_ok (tm_open be xxh3 True ps req False slt) (cf_new s ps mr mw)
    (\<lambda>(h, unclean) f. \<not> unclean \<and> (\<exists>j l D. j \<le> MAX_MAX_PAGE_ORDER \<and> new_file xxh3 j ps l h D \<and> file_inv contents l {} {} ps D f \<and> contents (cb_file (cf_file f)) = D))
    (\<lambda>_ f'. io_failed (cf_file f'))"
    by (rule storage_backend.create_spec[OF assms(1-5,8,6,7)])
  show ?thesis
  proof (cases "tm_open be xxh3 True ps req False slt (cf_new s ps mr mw)")
    case None
    then show ?thesis using C by (simp add: st_ok_def)
  next
    case (Some q)
    show ?thesis
    proof (cases "fst q")
      case Inl
      then show ?thesis using C Some by (cases q) (simp add: st_ok_def)
    next
      case (Inr w)
      obtain h u where w: "w = (h, u)" by (cases w)
      define f where "f = snd q"
      have o: "tm_open be xxh3 True ps req False slt (cf_new s ps mr mw) = Some (Inr (h, u), f)" using Some Inr w by (cases q) (simp add: f_def)
      obtain j l where n: "\<not> u" "j \<le> MAX_MAX_PAGE_ORDER" "new_file xxh3 j ps l h (contents (cb_file (cf_file f)))"
        "file_inv contents l {} {} ps (contents (cb_file (cf_file f))) f" using C o by (auto simp: st_ok_def)
      obtain m where "tm_new be xxh3 s True ps req mr mw False slt = Some (Inr m)" "tm_header m = h" "storage m = f"
        "store_rel contents m \<lparr>ps_pages = Map.empty, ps_uncommitted = {}, ps_commit = (None, None, 0)\<rparr>"
        using o n assms(4,5) by (elim tm_new_store)
      then show ?thesis using o n(3) by (auto simp: st_ok_def new_file_def)
    qed
  qed
qed

theorem create_database_correct_witness:
  "st_ok (tm_open mem_backend (\<lambda>_. 0) True 4096 None False None) (cf_new [] 4096 0 0)
    (\<lambda>(h, unclean) f. holds_header (\<lambda>_. 0) h (cb_file (cf_file f)) \<and> \<not> recovery_required h \<and>
       (\<exists>m. tm_new mem_backend (\<lambda>_. 0) [] True 4096 None 0 0 False None = Some (Inr m) \<and> tm_header m = h \<and> storage m = f \<and>
          store_rel (\<lambda>d. d) m \<lparr>ps_pages = Map.empty, ps_uncommitted = {}, ps_commit = (None, None, 0)\<rparr>))
    (\<lambda>_ f. io_failed (cf_file f))"
  by (rule create_database_correct[OF mem.storage_backend_axioms, where i = 12 and r = 32])
    (simp_all add: header_size MAX_USABLE_REGION_SPACE_def DB_HEADER_SIZE_def)

text \<open>
  C2. Once a commit has returned, its transaction survives a crash: opening the bytes on the storage with a new, empty cache
  yields a header whose primary slot holds exactly the committed roots and transaction number, and every page that was
  live at the commit has on the storage the contents that the store had. A commit that fails does so with a final I/O error and marks
  the page manager as needing recovery.
\<close>

theorem commit_survives_crash:
  assumes "storage_backend be contents" "store_rel contents m S" "pm_allowed m S (PmCommit dr sr tid tp pol)"
    and "primary_slot (tm_header m) = Some q" "transaction_id q \<le> tid" "dh_layout (tm_header m) = Some l"
    and "tm_page_size m = 2 ^ i" "(case req of Some r \<Rightarrow> r | None \<Rightarrow> MAX_USABLE_REGION_SPACE) = 2 ^ r" "i \<le> r"
      "rl_num_pages (full_region_layout l) * tm_page_size m \<le> 2 ^ 32"
  shows "st_ok (tm_commit be xxh3 dr sr tid tp pol) m
    (\<lambda>_ m'. st_ok (tm_open be xxh3 False (tm_page_size m) req False slt) (cf_new (cb_file (cf_file (storage m'))) (tm_page_size m) mr mw)
       (\<lambda>(h, unclean) f. \<exists>t l'. primary_slot h = Some t \<and> user_root t = dr \<and> system_root t = sr \<and> transaction_id t = tid \<and> dh_layout h = Some l' \<and>
          (\<forall>p \<in> dom (ps_pages S). page_data l' (contents (cb_file (cf_file f))) p = ps_pages S p))
       (\<lambda>_ f. io_failed (cf_file f)))
    (\<lambda>_ m'. io_failed (cf_file (storage m')) \<and> needs_recovery m')"
proof -
  obtain l0 D c where R: "tm_inv contents l0 D m" "open_dirty_pages m = {}" "\<not> needs_recovery m" "ps_pages S = tm_pages l0 D m"
    using store_relD[OF assms(2)] by (metis select_convs(1))
  have "dh_layout (tm_header m) = Some l0" using tm_invD(1)[OF R(1)] by (auto simp: state_ok_def tm_header_def)
  then have l: "l0 = l" using assms(6) by simp
  note R = R[unfolded l]
  have ok: "pred_option bh_ok dr" "pred_option bh_ok sr" "tid < 2 ^ 64" using assms(3) by simp_all
  have "st_ok (tm_commit be xxh3 dr sr tid tp pol) m (\<lambda>_. commit_done contents xxh3 dr sr tid tp l D m) (\<lambda>_ m'. tm_failed m' \<and> needs_recovery m')"
    by (rule storage_backend.commit_spec[OF assms(1) R(1-3) ok])
  then show ?thesis
  proof (rule st_ok_mono, goal_cases)
    case (1 x m')
    show ?case unfolding R(4) tm_pages_dom(1)[OF R(1)] by (rule storage_backend.open_after_commit[OF assms(1) 1 R(1) assms(4,5,7-10)])
  next
    case 2
    then show ?case by (simp add: tm_failed_def)
  qed
qed

theorem commit_survives_crash_witness:
  "\<exists>(m :: bytes TransactionalMemory) S. store_rel (\<lambda>d. d) m S \<and> st_ok (tm_commit mem_backend (\<lambda>_. 0) None None 1 False ShrinkPolicy.Never) m
    (\<lambda>_ m'. st_ok (tm_open mem_backend (\<lambda>_. 0) False (tm_page_size m) None False None) (cf_new (cb_file (cf_file (storage m'))) (tm_page_size m) 0 0)
       (\<lambda>(h, unclean) f. \<exists>t l'. primary_slot h = Some t \<and> user_root t = None \<and> system_root t = None \<and> transaction_id t = 1 \<and> dh_layout h = Some l' \<and>
          (\<forall>p \<in> dom (ps_pages S). page_data l' (cb_file (cf_file f)) p = ps_pages S p))
       (\<lambda>_ f. io_failed (cf_file f)))
    (\<lambda>_ m'. io_failed (cf_file (storage m')) \<and> needs_recovery m')"
proof -
  obtain m where m: "store_rel (\<lambda>d. d) m \<lparr>ps_pages = Map.empty, ps_uncommitted = {}, ps_commit = (None, None, 0)\<rparr>" "tm_page_size m = 4096"
    "dh_layout (tm_header m) = Some small_layout" "primary_slot (tm_header m) = Some (th_new 0)" by (rule small_store)
  show ?thesis
    by (intro exI conjI, rule m(1), rule commit_survives_crash[OF mem.storage_backend_axioms m(1) _ m(4) _ m(3), where i = 12 and r = 32])
      (simp_all add: m small_layout_def th_new_def MAX_USABLE_REGION_SPACE_def)
qed

end
